(* ===== verification/Nachos_Prelude.thy ===== *)
theory Nachos_Prelude
  imports Main "HOL-Library.Word" "HOL-Library.Signed_Division"
begin

text \<open>
  Shared vocabulary of the development.  A C++ routine that may hit a failing \<open>ASSERT\<close>,
  dereference a null pointer or index outside an array returns a value of \<open>fault + 'a\<close>:
  \<open>Inl\<close> carries the fault, \<open>Inr\<close> the normal result.  \<open>rbind\<close> sequences such routines,
  \<open>for_each\<close> is the C \<open>for\<close> loop over a fixed list of indices, and \<open>arr_get\<close> /
  \<open>arr_set\<close> are array accesses that make an index outside the array a fault instead of an
  unspecified value.  Signed C division and remainder are \<open>sdiv\<close> and \<open>smod\<close>
  (truncation towards zero).
\<close>

unbundle bit_operations_syntax

named_theorems nachos_simps \<open>unfolding rules for the shared combinators\<close>

section \<open>Faults and sequencing\<close>

datatype fault = AssertionFailed | OutOfRange | NullPointer | Diverges | Halted | DivisionTrap | Uncaught | Dangling

type_synonym 'a res = "fault + 'a"

type_synonym byte = "8 word"

fun rbind :: "'e + 'a \<Rightarrow> ('a \<Rightarrow> 'e + 'b) \<Rightarrow> 'e + 'b" where
  "rbind (Inl e) f = Inl e"
| "rbind (Inr x) f = f x"

definition ASSERT :: "bool \<Rightarrow> unit res" where
  "ASSERT c = (if c then Inr () else Inl AssertionFailed)"

fun for_each :: "('i \<Rightarrow> 's \<Rightarrow> 'e + 's) \<Rightarrow> 'i list \<Rightarrow> 's \<Rightarrow> 'e + 's" where
  "for_each f [] s = Inr s"
| "for_each f (i # is) s = rbind (f i s) (for_each f is)"

definition arr_get :: "'a list \<Rightarrow> int \<Rightarrow> 'a res" where
  "arr_get xs i = (if 0 \<le> i \<and> i < int (length xs) then Inr (xs ! nat i) else Inl OutOfRange)"

definition arr_set :: "'a list \<Rightarrow> int \<Rightarrow> 'a \<Rightarrow> 'a list res" where
  "arr_set xs i v =
     (if 0 \<le> i \<and> i < int (length xs) then Inr (xs[nat i := v]) else Inl OutOfRange)"

definition divRoundDown :: "int \<Rightarrow> int \<Rightarrow> int" where
  "divRoundDown n s = n sdiv s"

definition divRoundUp :: "int \<Rightarrow> int \<Rightarrow> int" where
  "divRoundUp n s = n sdiv s + (if n smod s > 0 then 1 else 0)"

section \<open>Lemmas on the combinators\<close>

lemma rbind_Inr_iff: "rbind r f = Inr y \<longleftrightarrow> (\<exists>x. r = Inr x \<and> f x = Inr y)"
  by (cases r) auto

lemma rbind_Inl_iff: "rbind r f = Inl e \<longleftrightarrow> r = Inl e \<or> (\<exists>x. r = Inr x \<and> f x = Inl e)"
  by (cases r) auto

lemma rbind_Inr_right [simp]: "rbind r Inr = r"
  by (cases r) auto

lemma rbind_assoc: "rbind (rbind r f) g = rbind r (\<lambda>x. rbind (f x) g)"
  by (cases r) auto

lemma rbind_cong [fundef_cong]:
  "\<lbrakk>r = r'; \<And>x. r' = Inr x \<Longrightarrow> f x = g x\<rbrakk> \<Longrightarrow> rbind r f = rbind r' g"
  by (cases r') auto

lemma ASSERT_True [simp]: "c \<Longrightarrow> ASSERT c = Inr ()"
  by (simp add: ASSERT_def)

lemma ASSERT_False [simp]: "\<not> c \<Longrightarrow> ASSERT c = Inl AssertionFailed"
  by (simp add: ASSERT_def)

lemma ASSERT_Inr_iff [simp]: "ASSERT c = Inr u \<longleftrightarrow> c"
  by (simp add: ASSERT_def)

lemma ASSERT_bind_Inr_iff [simp]: "rbind (ASSERT c) f = Inr y \<longleftrightarrow> c \<and> f () = Inr y"
  by (cases c) auto

lemma for_each_append: "for_each f (xs @ ys) s = rbind (for_each f xs s) (for_each f ys)"
  by (induction xs arbitrary: s) (auto simp: rbind_assoc intro: rbind_cong)

text \<open>The Hoare rule of the \<open>for\<close> loop: an invariant indexed by the indices already done.\<close>

lemma for_each_rule:
  assumes "P [] s"
    and "\<And>ds i rest s. xs = ds @ i # rest \<Longrightarrow> P ds s \<Longrightarrow>
           \<exists>s'. f i s = Inr s' \<and> P (ds @ [i]) s'"
  shows "\<exists>s'. for_each f xs s = Inr s' \<and> P xs s'"
proof -
  have "\<exists>s'. for_each f rest s = Inr s' \<and> P (ds @ rest) s'"
    if "P ds s" "xs = ds @ rest" for ds rest s
    using that
  proof (induction rest arbitrary: ds s)
    case Nil
    then show ?case by simp
  next
    case (Cons i rest)
    obtain s' where "f i s = Inr s'" "P (ds @ [i]) s'"
      using assms(2) [OF Cons.prems(2) Cons.prems(1)] by blast
    with Cons.IH [of "ds @ [i]" s'] Cons.prems(2) show ?case by simp
  qed
  from this [of "[]" s xs] assms(1) show ?thesis by simp
qed

lemma arr_get_nat [simp]: "i < length xs \<Longrightarrow> arr_get xs (int i) = Inr (xs ! i)"
  by (simp add: arr_get_def)

lemma arr_get_ok: "0 \<le> i \<Longrightarrow> i < int (length xs) \<Longrightarrow> arr_get xs i = Inr (xs ! nat i)"
  by (simp add: arr_get_def)

lemma arr_set_ok: "0 \<le> i \<Longrightarrow> i < int (length xs) \<Longrightarrow> arr_set xs i v = Inr (xs[nat i := v])"
  by (simp add: arr_set_def)

lemma arr_get_Inr_iff: "arr_get xs i = Inr x \<longleftrightarrow> 0 \<le> i \<and> i < int (length xs) \<and> x = xs ! nat i"
  by (auto simp: arr_get_def)

lemma arr_set_Inr_iff:
  "arr_set xs i v = Inr ys \<longleftrightarrow> 0 \<le> i \<and> i < int (length xs) \<and> ys = xs[nat i := v]"
  by (auto simp: arr_set_def)

lemma int_range_minus_one [simp]: "{a..n - 1} = {a..<n::int}"
  by auto

section \<open>C division on non-negative operands\<close>

lemma sdiv_nonneg [simp]: "0 \<le> a \<Longrightarrow> 0 \<le> b \<Longrightarrow> (a::int) sdiv b = a div b"
  by (cases "a = 0"; cases "b = 0") (auto simp: signed_divide_int_def)

lemma smod_nonneg [simp]: "0 \<le> a \<Longrightarrow> 0 \<le> b \<Longrightarrow> (a::int) smod b = a mod b"
  by (cases "a = 0") (auto simp: signed_modulo_int_def)

lemma divRoundUp_bounds:
  assumes "0 \<le> n" "0 < s"
  shows "n \<le> divRoundUp n s * s" and "divRoundUp n s * s < n + s"
proof -
  define q r where "q = n div s" and "r = n mod s"
  have eq: "n = s * q + r" by (simp add: q_def r_def)
  have m: "0 \<le> r" "r < s" using assms by (auto simp: r_def)
  have d: "divRoundUp n s = q + (if r > 0 then 1 else 0)"
    using assms by (simp add: divRoundUp_def q_def r_def)
  show "n \<le> divRoundUp n s * s" and "divRoundUp n s * s < n + s"
    unfolding d using m by (auto simp: eq algebra_simps)
qed

lemma for_each_map: "for_each f (map g xs) s = for_each (\<lambda>x. f (g x)) xs s"
  by (induction xs arbitrary: s) (auto intro: rbind_cong)

lemma upto_int: "[0..int n - 1] = map int [0..<n]"
proof (induction n)
  case (Suc n)
  have "[0..int (Suc n) - 1] = [0..int n - 1] @ [int n]"
    using upto_rec2 [of 0 "int n"] by simp
  then show ?case using Suc by simp
qed simp

section \<open>Decimal numerals\<close>

text \<open>\<open>std::to_string\<close> and \<open>%d\<close>: the decimal numeral of an integer.\<close>

fun nat_digits :: "nat \<Rightarrow> string" where
  "nat_digits n = (if n < 10 then [char_of (48 + n)] else nat_digits (n div 10) @ [char_of (48 + n mod 10)])"

declare nat_digits.simps [simp del]

definition to_string :: "int \<Rightarrow> string" where
  "to_string i = (if i < 0 then ''-'' @ nat_digits (nat (- i)) else nat_digits (nat i))"

definition digit_val :: "char \<Rightarrow> nat" where
  "digit_val c = of_char c - 48"

definition is_digit :: "char \<Rightarrow> bool" where
  "is_digit c \<longleftrightarrow> 48 \<le> (of_char c :: nat) \<and> (of_char c :: nat) \<le> 57"

definition digits_val :: "string \<Rightarrow> nat" where
  "digits_val s = foldl (\<lambda>v c. 10 * v + digit_val c) 0 s"

lemma digit_char [simp]: "d < 10 \<Longrightarrow> digit_val (char_of (48 + d)) = d" "d < 10 \<Longrightarrow> is_digit (char_of (48 + d))"
  by (simp_all add: digit_val_def is_digit_def)

lemma digits_val_snoc [simp]: "digits_val (s @ [c]) = 10 * digits_val s + digit_val c"
  by (simp add: digits_val_def)

lemma digits_val_Nil [simp]: "digits_val [] = 0"
  by (simp add: digits_val_def)

lemma digits_val_digits [simp]: "digits_val (nat_digits n) = n"
proof (induction n rule: nat_digits.induct)
  case (1 n)
  show ?case
  proof (cases "n < 10")
    case True
    then show ?thesis using digits_val_snoc [of "[]"] by (subst nat_digits.simps) simp
  next
    case False
    then show ?thesis using 1 by (subst nat_digits.simps) simp
  qed
qed

lemma nat_digits_inject [simp]: "nat_digits m = nat_digits n \<longleftrightarrow> m = n"
  using digits_val_digits by metis

lemma nat_digits_are_digits: "c \<in> set (nat_digits n) \<Longrightarrow> is_digit c"
proof (induction n rule: nat_digits.induct)
  case (1 n)
  then show ?case by (cases "n < 10") (subst (asm) nat_digits.simps, auto)+
qed

lemma nat_digits_not_Nil [simp]: "nat_digits n \<noteq> []"
  by (subst nat_digits.simps) simp

end
