(* ===== verification/Linked_List.thy ===== *)
theory Linked_List
  imports Nachos_Prelude
begin

text \<open>
  The singly linked list of \<open>lib/list.h\<close> and \<open>lib/list.cc\<close>, at the level of its cells:
  a heap maps addresses to \<open>ListElement\<close>s, \<open>first\<close> and \<open>last\<close> are pointers
  (\<open>None\<close> is NULL), \<open>numInList\<close> is the cached length.  Addresses come from a counter, so
  \<open>new\<close> never returns an address in use.  A loop that follows \<open>next\<close> pointers carries a
  fuel of one more than the number of addresses ever handed out; running out of it is the
  fault \<open>Diverges\<close>, and the lemmas below show that a well-formed list never does.

  The abstraction \<open>list_rep l xs\<close> says that \<open>l\<close> holds the items \<open>xs\<close> in order; every
  operation refines the one of the same name on HOL lists (\<open>Append_spec\<close> and so on), which
  is what the other components are built on.
\<close>

section \<open>Cells and lists\<close>

record 'a ListElement =
  item :: 'a
  lnext :: "nat option"

record 'a List =
  heap :: "nat \<Rightarrow> 'a ListElement option"
  first :: "nat option"
  lastp :: "nat option"
  numInList :: int
  fresh :: nat

definition List_new :: "'a List" where
  "List_new = \<lparr>heap = (\<lambda>_. None), first = None, lastp = None, numInList = 0, fresh = 0\<rparr>"

definition new_ListElement :: "'a List \<Rightarrow> 'a \<Rightarrow> nat \<times> 'a List" where
  "new_ListElement l itm =
     (fresh l, l\<lparr>heap := (heap l)(fresh l \<mapsto> \<lparr>item = itm, lnext = None\<rparr>), fresh := Suc (fresh l)\<rparr>)"

definition deref :: "'a List \<Rightarrow> nat option \<Rightarrow> 'a ListElement res" where
  "deref l p = (case p of None \<Rightarrow> Inl NullPointer
     | Some a \<Rightarrow> (case heap l a of None \<Rightarrow> Inl NullPointer | Some e \<Rightarrow> Inr e))"

definition set_next :: "'a List \<Rightarrow> nat option \<Rightarrow> nat option \<Rightarrow> 'a List res" where
  "set_next l p q = rbind (deref l p) (\<lambda>e.
     case p of None \<Rightarrow> Inl NullPointer
     | Some a \<Rightarrow> Inr (l\<lparr>heap := (heap l)(a \<mapsto> e\<lparr>lnext := q\<rparr>)\<rparr>))"

definition delete_elem :: "'a List \<Rightarrow> nat option \<Rightarrow> 'a List res" where
  "delete_elem l p = (case p of None \<Rightarrow> Inr l
     | Some a \<Rightarrow> Inr (l\<lparr>heap := (heap l)(a := None)\<rparr>))"

abbreviation walk_fuel :: "'a List \<Rightarrow> nat" where
  "walk_fuel l \<equiv> Suc (fresh l)"

definition List_IsEmpty :: "'a List \<Rightarrow> bool" where
  "List_IsEmpty l \<longleftrightarrow> numInList l = 0"

definition List_NumInList :: "'a List \<Rightarrow> int" where
  "List_NumInList l = numInList l"

definition List_Front :: "'a List \<Rightarrow> 'a res" where
  "List_Front l = rbind (deref l (first l)) (\<lambda>e. Inr (item e))"

fun IsInList_loop :: "nat \<Rightarrow> 'a List \<Rightarrow> 'a \<Rightarrow> nat option \<Rightarrow> bool res" where
  "IsInList_loop n l itm None = Inr False"
| "IsInList_loop 0 l itm (Some p) = Inl Diverges"
| "IsInList_loop (Suc n) l itm (Some p) =
     rbind (deref l (Some p)) (\<lambda>e.
     if itm = item e then Inr True else IsInList_loop n l itm (lnext e))"

definition List_IsInList :: "'a List \<Rightarrow> 'a \<Rightarrow> bool res" where
  "List_IsInList l itm = IsInList_loop (walk_fuel l) l itm (first l)"

definition List_Append :: "'a List \<Rightarrow> 'a \<Rightarrow> 'a List res" where
  "List_Append l itm =
     (let (element, l) = new_ListElement l itm in
      rbind (List_IsInList l itm) (\<lambda>b. rbind (ASSERT (\<not> b)) (\<lambda>_.
      rbind (if List_IsEmpty l then Inr (l\<lparr>first := Some element, lastp := Some element\<rparr>)
             else rbind (set_next l (lastp l) (Some element)) (\<lambda>l. Inr (l\<lparr>lastp := Some element\<rparr>))) (\<lambda>l.
      let l = l\<lparr>numInList := numInList l + 1\<rparr> in
      rbind (List_IsInList l itm) (\<lambda>b. rbind (ASSERT b) (\<lambda>_. Inr l))))))"

definition List_Prepend :: "'a List \<Rightarrow> 'a \<Rightarrow> 'a List res" where
  "List_Prepend l itm =
     (let (element, l) = new_ListElement l itm in
      rbind (List_IsInList l itm) (\<lambda>b. rbind (ASSERT (\<not> b)) (\<lambda>_.
      rbind (if List_IsEmpty l then Inr (l\<lparr>first := Some element, lastp := Some element\<rparr>)
             else rbind (set_next l (Some element) (first l)) (\<lambda>l. Inr (l\<lparr>first := Some element\<rparr>))) (\<lambda>l.
      let l = l\<lparr>numInList := numInList l + 1\<rparr> in
      rbind (List_IsInList l itm) (\<lambda>b. rbind (ASSERT b) (\<lambda>_. Inr l))))))"

definition List_RemoveFront :: "'a List \<Rightarrow> ('a \<times> 'a List) res" where
  "List_RemoveFront l =
     (let element = first l in
      rbind (ASSERT (\<not> List_IsEmpty l)) (\<lambda>_.
      rbind (deref l (first l)) (\<lambda>e.
      let thing = item e;
          l = (if first l = lastp l then l\<lparr>first := None, lastp := None\<rparr>
               else l\<lparr>first := lnext e\<rparr>);
          l = l\<lparr>numInList := numInList l - 1\<rparr> in
      rbind (delete_elem l element) (\<lambda>l. Inr (thing, l)))))"

text \<open>The loop of \<open>List::Remove\<close>: \<open>prev\<close> trails \<open>ptr\<close>; the result pairs the final
  \<open>ptr\<close> (tested against NULL after the loop) with the list.\<close>

fun Remove_loop :: "nat \<Rightarrow> 'a \<Rightarrow> nat option \<Rightarrow> nat option \<Rightarrow> 'a List \<Rightarrow> (nat option \<times> 'a List) res" where
  "Remove_loop n itm prev None l = Inr (None, l)"
| "Remove_loop 0 itm prev (Some p) l = Inl Diverges"
| "Remove_loop (Suc n) itm prev (Some p) l =
     rbind (deref l (Some p)) (\<lambda>e.
     if itm = item e then
       rbind (set_next l prev (lnext e)) (\<lambda>l.
       let l = (if lnext e = None then l\<lparr>lastp := prev\<rparr> else l) in
       rbind (delete_elem l (Some p)) (\<lambda>l.
       Inr (Some p, l\<lparr>numInList := numInList l - 1\<rparr>)))
     else Remove_loop n itm (Some p) (lnext e) l)"

definition List_Remove :: "'a List \<Rightarrow> 'a \<Rightarrow> 'a List res" where
  "List_Remove l itm =
     rbind (List_IsInList l itm) (\<lambda>b. rbind (ASSERT b) (\<lambda>_.
     rbind (deref l (first l)) (\<lambda>e.
     rbind (if itm = item e then
              rbind (List_RemoveFront l) (\<lambda>(removed, l). rbind (ASSERT (itm = removed)) (\<lambda>_. Inr l))
            else
              rbind (Remove_loop (walk_fuel l) itm (first l) (lnext e) l) (\<lambda>(ptr, l).
              rbind (ASSERT (ptr \<noteq> None)) (\<lambda>_. Inr l))) (\<lambda>l.
     rbind (List_IsInList l itm) (\<lambda>b. rbind (ASSERT (\<not> b)) (\<lambda>_. Inr l))))))"

text \<open>\<open>Apply\<close> visits the items in order; here the visited items are collected.\<close>

fun Apply_loop :: "nat \<Rightarrow> 'a List \<Rightarrow> nat option \<Rightarrow> 'a list res" where
  "Apply_loop n l None = Inr []"
| "Apply_loop 0 l (Some p) = Inl Diverges"
| "Apply_loop (Suc n) l (Some p) =
     rbind (deref l (Some p)) (\<lambda>e. rbind (Apply_loop n l (lnext e)) (\<lambda>xs. Inr (item e # xs)))"

definition List_Apply :: "'a List \<Rightarrow> 'a list res" where
  "List_Apply l = Apply_loop (walk_fuel l) l (first l)"

fun SanityCheck_loop :: "nat \<Rightarrow> 'a List \<Rightarrow> nat option \<Rightarrow> int \<Rightarrow> int res" where
  "SanityCheck_loop 0 l ptr numFound =
     (if ptr = lastp l then Inr numFound else Inl Diverges)"
| "SanityCheck_loop (Suc n) l ptr numFound =
     (if ptr = lastp l then Inr numFound
      else rbind (ASSERT (numFound + 1 \<le> numInList l)) (\<lambda>_.
           rbind (deref l ptr) (\<lambda>e. SanityCheck_loop n l (lnext e) (numFound + 1))))"

definition List_SanityCheck :: "'a List \<Rightarrow> unit res" where
  "List_SanityCheck l =
     (if first l = None then ASSERT (numInList l = 0 \<and> lastp l = None)
      else if first l = lastp l then
        rbind (deref l (lastp l)) (\<lambda>e. ASSERT (numInList l = 1 \<and> lnext e = None))
      else rbind (SanityCheck_loop (walk_fuel l) l (first l) 1) (\<lambda>numFound.
           rbind (ASSERT (numFound = numInList l)) (\<lambda>_.
           rbind (deref l (lastp l)) (\<lambda>e. ASSERT (lnext e = None)))))"

section \<open>Sorted lists\<close>

text \<open>The search loop of \<open>SortedList::Insert\<close> starts at the first element; the result says
  whether the element was linked in the middle (the early return of the code).\<close>

fun Insert_loop ::
  "nat \<Rightarrow> ('a \<Rightarrow> 'a \<Rightarrow> int) \<Rightarrow> 'a \<Rightarrow> nat \<Rightarrow> nat option \<Rightarrow> 'a List \<Rightarrow> (bool \<times> 'a List) res" where
  "Insert_loop 0 cmp itm element ptr l = Inl Diverges"
| "Insert_loop (Suc n) cmp itm element ptr l =
     rbind (deref l ptr) (\<lambda>e.
     if lnext e = None then Inr (False, l)
     else rbind (deref l (lnext e)) (\<lambda>e'.
          if cmp itm (item e') < 0 then
            rbind (set_next l (Some element) (lnext e)) (\<lambda>l.
            rbind (set_next l ptr (Some element)) (\<lambda>l.
            Inr (True, l\<lparr>numInList := numInList l + 1\<rparr>)))
          else Insert_loop n cmp itm element (lnext e) l))"

definition SortedList_Insert :: "('a \<Rightarrow> 'a \<Rightarrow> int) \<Rightarrow> 'a List \<Rightarrow> 'a \<Rightarrow> 'a List res" where
  "SortedList_Insert cmp l itm =
     (let (element, l) = new_ListElement l itm;
          finish = (\<lambda>l. let l = l\<lparr>numInList := numInList l + 1\<rparr> in
             rbind (List_IsInList l itm) (\<lambda>b. rbind (ASSERT b) (\<lambda>_. Inr l))) in
      rbind (List_IsInList l itm) (\<lambda>b. rbind (ASSERT (\<not> b)) (\<lambda>_.
      if List_IsEmpty l then finish (l\<lparr>first := Some element, lastp := Some element\<rparr>)
      else rbind (deref l (first l)) (\<lambda>e.
        if cmp itm (item e) < 0 then
          rbind (set_next l (Some element) (first l)) (\<lambda>l. finish (l\<lparr>first := Some element\<rparr>))
        else rbind (Insert_loop (walk_fuel l) cmp itm element (first l) l) (\<lambda>(returned, l).
          if returned then Inr l
          else rbind (set_next l (lastp l) (Some element)) (\<lambda>l. finish (l\<lparr>lastp := Some element\<rparr>)))))))"

fun SortedSanity_loop :: "nat \<Rightarrow> ('a \<Rightarrow> 'a \<Rightarrow> int) \<Rightarrow> 'a List \<Rightarrow> nat option \<Rightarrow> nat option \<Rightarrow> unit res" where
  "SortedSanity_loop n cmp l prev None = Inr ()"
| "SortedSanity_loop 0 cmp l prev (Some p) = Inl Diverges"
| "SortedSanity_loop (Suc n) cmp l prev (Some p) =
     rbind (deref l prev) (\<lambda>a. rbind (deref l (Some p)) (\<lambda>b.
     rbind (ASSERT (cmp (item a) (item b) \<le> 0)) (\<lambda>_.
     SortedSanity_loop n cmp l (Some p) (lnext b))))"

definition SortedList_SanityCheck :: "('a \<Rightarrow> 'a \<Rightarrow> int) \<Rightarrow> 'a List \<Rightarrow> unit res" where
  "SortedList_SanityCheck cmp l =
     rbind (List_SanityCheck l) (\<lambda>_.
     if first l \<noteq> lastp l then
       rbind (deref l (first l)) (\<lambda>e. SortedSanity_loop (walk_fuel l) cmp l (first l) (lnext e))
     else Inr ())"

section \<open>Iterators\<close>

type_synonym ListIterator = "nat option"

definition ListIterator_new :: "'a List \<Rightarrow> ListIterator" where
  "ListIterator_new l = first l"

definition ListIterator_IsDone :: "ListIterator \<Rightarrow> bool" where
  "ListIterator_IsDone current \<longleftrightarrow> current = None"

definition ListIterator_Item :: "'a List \<Rightarrow> ListIterator \<Rightarrow> 'a res" where
  "ListIterator_Item l current =
     rbind (ASSERT (\<not> ListIterator_IsDone current)) (\<lambda>_. rbind (deref l current) (\<lambda>e. Inr (item e)))"

definition ListIterator_Next :: "'a List \<Rightarrow> ListIterator \<Rightarrow> ListIterator res" where
  "ListIterator_Next l current = rbind (deref l current) (\<lambda>e. Inr (lnext e))"

section \<open>The self tests of the module\<close>

definition List_SelfTest :: "'a List \<Rightarrow> 'a list \<Rightarrow> 'a List res" where
  "List_SelfTest l p =
     rbind (List_SanityCheck l) (\<lambda>_.
     rbind (ASSERT (List_IsEmpty l \<and> first l = None)) (\<lambda>_.
     rbind (ASSERT (ListIterator_IsDone (ListIterator_new l))) (\<lambda>_.
     rbind (for_each (\<lambda>x l. rbind (List_Append l x) (\<lambda>l.
              rbind (List_IsInList l x) (\<lambda>b. rbind (ASSERT b) (\<lambda>_.
              rbind (ASSERT (\<not> List_IsEmpty l)) (\<lambda>_. Inr l))))) p l) (\<lambda>l.
     rbind (List_SanityCheck l) (\<lambda>_.
     rbind (for_each (\<lambda>x l. rbind (List_Remove l x) (\<lambda>l.
              rbind (List_IsInList l x) (\<lambda>b. rbind (ASSERT (\<not> b)) (\<lambda>_. Inr l)))) p l) (\<lambda>l.
     rbind (ASSERT (List_IsEmpty l)) (\<lambda>_.
     rbind (List_SanityCheck l) (\<lambda>_. Inr l))))))))"

definition SortedList_SelfTest :: "('a \<Rightarrow> 'a \<Rightarrow> int) \<Rightarrow> 'a List \<Rightarrow> 'a list \<Rightarrow> 'a List res" where
  "SortedList_SelfTest cmp l p =
     rbind (List_SelfTest l p) (\<lambda>l.
     rbind (for_each (\<lambda>x l. rbind (SortedList_Insert cmp l x) (\<lambda>l.
              rbind (List_IsInList l x) (\<lambda>b. rbind (ASSERT b) (\<lambda>_. Inr l)))) p l) (\<lambda>l.
     rbind (SortedList_SanityCheck cmp l) (\<lambda>_.
     rbind (for_each (\<lambda>_ (q, l). rbind (List_RemoveFront l) (\<lambda>(x, l).
              rbind (List_IsInList l x) (\<lambda>b. rbind (ASSERT (\<not> b)) (\<lambda>_.
              Inr (q @ [x], l))))) p ([], l)) (\<lambda>(q, l).
     rbind (ASSERT (List_IsEmpty l)) (\<lambda>_.
     rbind (for_each (\<lambda>i _. ASSERT (cmp (q ! i) (q ! Suc i) \<le> 0)) [0..<length p - 1] ()) (\<lambda>_.
     rbind (SortedList_SanityCheck cmp l) (\<lambda>_. Inr l)))))))"

section \<open>The same operations on HOL lists\<close>

definition Append_spec :: "'a list \<Rightarrow> 'a \<Rightarrow> 'a list res" where
  "Append_spec xs x = (if x \<in> set xs then Inl AssertionFailed else Inr (xs @ [x]))"

definition Prepend_spec :: "'a list \<Rightarrow> 'a \<Rightarrow> 'a list res" where
  "Prepend_spec xs x = (if x \<in> set xs then Inl AssertionFailed else Inr (x # xs))"

definition RemoveFront_spec :: "'a list \<Rightarrow> ('a \<times> 'a list) res" where
  "RemoveFront_spec xs = (case xs of [] \<Rightarrow> Inl AssertionFailed | x # ys \<Rightarrow> Inr (x, ys))"

text \<open>\<open>Remove\<close> unlinks the first occurrence and then insists that no other is left.\<close>

definition Remove_spec :: "'a list \<Rightarrow> 'a \<Rightarrow> 'a list res" where
  "Remove_spec xs x =
     (if x \<in> set xs \<and> x \<notin> set (remove1 x xs) then Inr (remove1 x xs) else Inl AssertionFailed)"

fun insort_cmp :: "('a \<Rightarrow> 'a \<Rightarrow> int) \<Rightarrow> 'a \<Rightarrow> 'a list \<Rightarrow> 'a list" where
  "insort_cmp cmp x [] = [x]"
| "insort_cmp cmp x (y # ys) = (if cmp x y < 0 then x # y # ys else y # insort_cmp cmp x ys)"

definition Insert_spec :: "('a \<Rightarrow> 'a \<Rightarrow> int) \<Rightarrow> 'a list \<Rightarrow> 'a \<Rightarrow> 'a list res" where
  "Insert_spec cmp xs x = (if x \<in> set xs then Inl AssertionFailed else Inr (insort_cmp cmp x xs))"

text \<open>A sequence of calls on one list, at the level of the cells and on HOL lists.\<close>

datatype 'a list_call = CallAppend 'a | CallPrepend 'a | CallRemoveFront | CallRemove 'a | CallInsert 'a

fun List_call :: "('a \<Rightarrow> 'a \<Rightarrow> int) \<Rightarrow> 'a list_call \<Rightarrow> 'a List \<Rightarrow> 'a List res" where
  "List_call cmp (CallAppend x) l = List_Append l x"
| "List_call cmp (CallPrepend x) l = List_Prepend l x"
| "List_call cmp CallRemoveFront l = rbind (List_RemoveFront l) (\<lambda>(x, l). Inr l)"
| "List_call cmp (CallRemove x) l = List_Remove l x"
| "List_call cmp (CallInsert x) l = SortedList_Insert cmp l x"

fun spec_call :: "('a \<Rightarrow> 'a \<Rightarrow> int) \<Rightarrow> 'a list_call \<Rightarrow> 'a list \<Rightarrow> 'a list res" where
  "spec_call cmp (CallAppend x) xs = Append_spec xs x"
| "spec_call cmp (CallPrepend x) xs = Prepend_spec xs x"
| "spec_call cmp CallRemoveFront xs = rbind (RemoveFront_spec xs) (\<lambda>(x, xs). Inr xs)"
| "spec_call cmp (CallRemove x) xs = Remove_spec xs x"
| "spec_call cmp (CallInsert x) xs = Insert_spec cmp xs x"

section \<open>Well-formed lists and the items they hold\<close>

fun path :: "(nat \<Rightarrow> 'a ListElement option) \<Rightarrow> nat option \<Rightarrow> nat list \<Rightarrow> nat option \<Rightarrow> bool" where
  "path h p [] q \<longleftrightarrow> p = q"
| "path h p (a # as) q \<longleftrightarrow> p = Some a \<and> (\<exists>e. h a = Some e \<and> path h (lnext e) as q)"

definition items :: "(nat \<Rightarrow> 'a ListElement option) \<Rightarrow> nat list \<Rightarrow> 'a list" where
  "items h as = map (\<lambda>a. item (the (h a))) as"

definition cells :: "'a List \<Rightarrow> nat list \<Rightarrow> bool" where
  "cells l as \<longleftrightarrow> path (heap l) (first l) as None \<and> distinct as
     \<and> lastp l = (if as = [] then None else Some (last as))
     \<and> numInList l = int (length as) \<and> (\<forall>a\<in>set as. a < fresh l)"

definition list_rep :: "'a List \<Rightarrow> 'a list \<Rightarrow> bool" where
  "list_rep l xs \<longleftrightarrow> (\<exists>as. cells l as \<and> xs = items (heap l) as)"

lemma list_repI: "cells l as \<Longrightarrow> items (heap l) as = xs \<Longrightarrow> list_rep l xs"
  by (auto simp: list_rep_def)

lemma path_append: "path h p (as @ bs) q \<longleftrightarrow> (\<exists>r. path h p as r \<and> path h r bs q)"
  by (induction as arbitrary: p) auto

lemma path_frame: "path h p as q \<Longrightarrow> (\<And>a. a \<in> set as \<Longrightarrow> h' a = h a) \<Longrightarrow> path h' p as q"
  by (induction as arbitrary: p) auto

lemma items_frame: "(\<And>a. a \<in> set as \<Longrightarrow> h' a = h a) \<Longrightarrow> items h' as = items h as"
  by (simp add: items_def)

lemma items_simps [simp]:
  "items h [] = []" "items h (a # as) = item (the (h a)) # items h as"
  "items h (as @ bs) = items h as @ items h bs"
  "length (items h as) = length as"
  by (simp_all add: items_def)

lemma path_in_heap: "path h p as q \<Longrightarrow> a \<in> set as \<Longrightarrow> \<exists>e. h a = Some e"
  by (induction as arbitrary: p) auto

lemma path_last: "path h p as None \<Longrightarrow> as \<noteq> [] \<Longrightarrow> \<exists>e. h (last as) = Some e \<and> lnext e = None"
  by (induction as arbitrary: p) auto

lemma cells_length: "cells l as \<Longrightarrow> length as \<le> fresh l"
proof -
  assume c: "cells l as"
  then have "set as \<subseteq> {..<fresh l}" "distinct as" by (auto simp: cells_def)
  then show ?thesis using card_mono [of "{..<fresh l}" "set as"] distinct_card [of as] by simp
qed

lemma cells_path: "cells l as \<Longrightarrow> path (heap l) (first l) as None"
  by (simp add: cells_def)

lemma deref_Some [simp]: "heap l a = Some e \<Longrightarrow> deref l (Some a) = Inr e"
  by (simp add: deref_def)

lemma set_next_Some [simp]: "heap l a = Some e \<Longrightarrow>
    set_next l (Some a) q = Inr (l\<lparr>heap := (heap l)(a \<mapsto> e\<lparr>lnext := q\<rparr>)\<rparr>)"
  by (simp add: set_next_def)

lemma delete_elem_Some [simp]: "delete_elem l (Some a) = Inr (l\<lparr>heap := (heap l)(a := None)\<rparr>)"
  by (simp add: delete_elem_def)

section \<open>Refinement of the queries\<close>

lemma IsInList_loop_ok:
  "path (heap l) p as None \<Longrightarrow> length as \<le> n \<Longrightarrow>
    IsInList_loop n l x p = Inr (x \<in> set (items (heap l) as))"
  by (induction as arbitrary: p n) (auto simp: Suc_le_eq gr0_conv_Suc elim!: less_natE)

lemma List_IsInList_path:
  "path (heap l) (first l) as None \<Longrightarrow> length as \<le> Suc (fresh l) \<Longrightarrow>
    List_IsInList l x = Inr (x \<in> set (items (heap l) as))"
  unfolding List_IsInList_def by (rule IsInList_loop_ok)

lemma List_IsInList_cells: "cells l as \<Longrightarrow> List_IsInList l x = Inr (x \<in> set (items (heap l) as))"
  by (rule List_IsInList_path) (use cells_length [of l as] in \<open>auto simp: cells_def\<close>)

lemma List_IsInList_ok: "list_rep l xs \<Longrightarrow> List_IsInList l x = Inr (x \<in> set xs)"
  by (auto simp: list_rep_def List_IsInList_cells)

lemma List_IsEmpty_ok: "list_rep l xs \<Longrightarrow> List_IsEmpty l \<longleftrightarrow> xs = []"
  by (auto simp: list_rep_def List_IsEmpty_def cells_def items_def)

lemma List_NumInList_ok: "list_rep l xs \<Longrightarrow> List_NumInList l = int (length xs)"
  by (auto simp: list_rep_def List_NumInList_def cells_def)

lemma List_Front_ok: "list_rep l (x # xs) \<Longrightarrow> List_Front l = Inr x"
  by (auto simp: list_rep_def cells_def List_Front_def items_def)

lemma Apply_loop_ok:
  "path (heap l) p as None \<Longrightarrow> length as \<le> n \<Longrightarrow> Apply_loop n l p = Inr (items (heap l) as)"
  by (induction as arbitrary: p n) (auto simp: Suc_le_eq gr0_conv_Suc elim!: less_natE)

lemma List_Apply_ok: "list_rep l xs \<Longrightarrow> List_Apply l = Inr xs"
  unfolding list_rep_def List_Apply_def
  using cells_length [of l] by (auto simp: cells_path le_SucI intro!: Apply_loop_ok)

lemma List_new_ok: "list_rep List_new []"
  by (auto simp: list_rep_def List_new_def cells_def intro: exI [of _ "[]"])

section \<open>Refinement of the updates\<close>

lemma items_upd_lnext:
  "h b = Some e \<Longrightarrow> items (h(b \<mapsto> e\<lparr>lnext := q\<rparr>)) as = items h as"
  by (simp add: items_def)

lemma path_snoc:
  assumes "path h p as None" "distinct as" "as \<noteq> []" "f \<notin> set as" "h (last as) = Some e"
    and "h f = Some e'" "lnext e' = None"
  shows "path (h(last as \<mapsto> e\<lparr>lnext := Some f\<rparr>)) p (as @ [f]) None"
proof -
  obtain bs b where as: "as = bs @ [b]" using assms(3) by (metis append_butlast_last_id)
  have "path h p bs (Some b)" using assms(1) by (auto simp: as path_append)
  then have "path (h(b \<mapsto> e\<lparr>lnext := Some f\<rparr>)) p bs (Some b)"
    by (rule path_frame) (use assms(2) as in auto)
  then show ?thesis using assms by (auto simp: as path_append)
qed

lemma cells_alloc:
  assumes "cells l as" and "new_ListElement l x = (f, l1)"
  shows "f \<notin> set as" "path (heap l1) (first l1) as None" "items (heap l1) as = items (heap l) as"
    "heap l1 f = Some \<lparr>item = x, lnext = None\<rparr>" "first l1 = first l" "lastp l1 = lastp l"
    "numInList l1 = numInList l" "fresh l1 = Suc f" "\<forall>a\<in>set as. a < f" "length as \<le> f"
    "List_IsInList l1 y = Inr (y \<in> set (items (heap l) as))" "cells l1 as"
proof -
  have l1: "f = fresh l" "l1 = l\<lparr>heap := (heap l)(fresh l \<mapsto> \<lparr>item = x, lnext = None\<rparr>), fresh := Suc (fresh l)\<rparr>"
    using assms(2) by (auto simp: new_ListElement_def)
  show f: "f \<notin> set as" using assms(1) by (auto simp: l1 cells_def)
  then show p: "path (heap l1) (first l1) as None"
    using assms(1) by (auto simp: cells_def l1 intro: path_frame)
  show i: "items (heap l1) as = items (heap l) as" using f by (auto simp: l1 items_def)
  show "heap l1 f = Some \<lparr>item = x, lnext = None\<rparr>" "first l1 = first l" "lastp l1 = lastp l"
    "numInList l1 = numInList l" "fresh l1 = Suc f" by (simp_all add: l1)
  show "\<forall>a\<in>set as. a < f" using assms(1) by (simp add: l1 cells_def)
  show len: "length as \<le> f" using cells_length [OF assms(1)] by (simp add: l1)
  show "List_IsInList l1 y = Inr (y \<in> set (items (heap l) as))"
    using List_IsInList_path [OF p, of y] len unfolding i by (simp add: l1)
  show "cells l1 as" using p assms(1) by (auto simp: cells_def l1 less_Suc_eq)
qed

lemma cells_snoc:
  assumes c: "cells l as" and f: "f \<notin> set as" "f < fresh l" "heap l f = Some \<lparr>item = x, lnext = None\<rparr>"
    and ne: "as \<noteq> []" and e: "heap l (last as) = Some e"
  defines "l' \<equiv> l\<lparr>heap := (heap l)(last as \<mapsto> e\<lparr>lnext := Some f\<rparr>), lastp := Some f,
      numInList := numInList l + 1\<rparr>"
  shows "cells l' (as @ [f])" "items (heap l') (as @ [f]) = items (heap l) as @ [x]"
proof -
  have "distinct as" using c by (simp add: cells_def)
  then have "path (heap l') (first l') (as @ [f]) None"
    using path_snoc [OF cells_path [OF c] _ ne f(1) e f(3)] by (simp add: l'_def)
  then show "cells l' (as @ [f])" using c f ne by (simp add: cells_def l'_def)
  have "f \<noteq> last as" using f ne by auto
  then show "items (heap l') (as @ [f]) = items (heap l) as @ [x]"
    using f by (simp add: l'_def items_upd_lnext [of "heap l", OF e])
qed

definition res_rep :: "'a List res \<Rightarrow> 'a list res \<Rightarrow> bool" where
  "res_rep r s = (case (r, s) of (Inr l, Inr xs) \<Rightarrow> list_rep l xs | (Inl a, Inl b) \<Rightarrow> a = b | _ \<Rightarrow> False)"

lemma res_rep_simps [simp]:
  "res_rep (Inr l) (Inr xs) = list_rep l xs" "res_rep (Inl a) (Inl b) = (a = b)"
  "res_rep (Inr l) (Inl b) = False" "res_rep (Inl a) (Inr xs) = False"
  by (simp_all add: res_rep_def)

lemma cells_finish:
  assumes "cells l' bs" "x \<in> set (items (heap l') bs)"
  shows "rbind (List_IsInList l' x) (\<lambda>b. rbind (ASSERT b) (\<lambda>_. Inr l')) = Inr l'"
  using assms by (simp add: List_IsInList_cells)

lemma List_Append_ok: "list_rep l xs \<Longrightarrow> res_rep (List_Append l x) (Append_spec xs x)"
proof -
  assume "list_rep l xs"
  then obtain as where c: "cells l as" and xs: "xs = items (heap l) as" by (auto simp: list_rep_def)
  obtain f l1 where n: "new_ListElement l x = (f, l1)" by fastforce
  note a = cells_alloc [OF c n]
  show ?thesis
  proof (cases "x \<in> set xs")
    case True
    then show ?thesis by (simp add: List_Append_def Append_spec_def n a xs)
  next
    case new: False
    show ?thesis
    proof (cases "as = []")
      case True
      have "cells (l1\<lparr>first := Some f, lastp := Some f, numInList := numInList l1 + 1\<rparr>) [f]"
        using c True by (simp add: cells_def a)
      from cells_finish [OF this, of x] this show ?thesis
        using new c True by (auto simp: List_Append_def Append_spec_def n a xs List_IsEmpty_def
            cells_def list_rep_def intro!: exI [of _ "[f]"])
    next
      case ne: False
      obtain e where e: "heap l1 (last as) = Some e"
        using path_in_heap [OF a(2), of "last as"] ne by auto
      define l2 where "l2 = l1\<lparr>heap := (heap l1)(last as \<mapsto> e\<lparr>lnext := Some f\<rparr>), lastp := Some f,
        numInList := numInList l1 + 1\<rparr>"
      have c2: "cells l2 (as @ [f])" and it: "items (heap l2) (as @ [f]) = xs @ [x]"
        unfolding l2_def xs using cells_snoc [OF a(12,1) _ a(4) ne e] a(3,8) by auto
      have "List_Append l x = rbind (List_IsInList l2 x) (\<lambda>b. rbind (ASSERT b) (\<lambda>_. Inr l2))"
        using new ne c e by (simp add: List_Append_def n a xs List_IsEmpty_def cells_def l2_def Let_def)
      also have "\<dots> = Inr l2" using c2 by (rule cells_finish) (simp add: it del: items_simps)
      finally show ?thesis using new c2 it by (auto simp: Append_spec_def list_rep_def)
    qed
  qed
qed

lemma cells_push:
  assumes c: "cells l as" and f: "f \<notin> set as" "f < fresh l" "heap l f = Some \<lparr>item = x, lnext = None\<rparr>"
    and ne: "as \<noteq> []"
  defines "l' \<equiv> l\<lparr>heap := (heap l)(f \<mapsto> \<lparr>item = x, lnext = first l\<rparr>), first := Some f,
      numInList := numInList l + 1\<rparr>"
  shows "cells l' (f # as)" "items (heap l') (f # as) = x # items (heap l) as"
proof -
  have "path (heap l') (first l) as None"
    using cells_path [OF c] by (rule path_frame) (use f in \<open>auto simp: l'_def\<close>)
  then show "cells l' (f # as)" using c f ne by (auto simp: cells_def l'_def)
  show "items (heap l') (f # as) = x # items (heap l) as"
    using f by (auto simp: l'_def items_def)
qed

lemma List_Prepend_ok: "list_rep l xs \<Longrightarrow> res_rep (List_Prepend l x) (Prepend_spec xs x)"
proof -
  assume "list_rep l xs"
  then obtain as where c: "cells l as" and xs: "xs = items (heap l) as" by (auto simp: list_rep_def)
  obtain f l1 where n: "new_ListElement l x = (f, l1)" by fastforce
  note a = cells_alloc [OF c n]
  consider "x \<in> set xs" | "x \<notin> set xs" "as = []" | "x \<notin> set xs" "as \<noteq> []" by blast
  then show ?thesis
  proof cases
    case 1
    then show ?thesis by (simp add: List_Prepend_def Prepend_spec_def n a xs)
  next
    case 2
    have "cells (l1\<lparr>first := Some f, lastp := Some f, numInList := numInList l1 + 1\<rparr>) [f]"
      using c 2 by (simp add: cells_def a)
    from cells_finish [OF this, of x] this show ?thesis
      using c 2 by (auto simp: List_Prepend_def Prepend_spec_def n a xs List_IsEmpty_def
          cells_def list_rep_def intro!: exI [of _ "[f]"])
  next
    case 3
    define l2 where "l2 = l1\<lparr>heap := (heap l1)(f \<mapsto> \<lparr>item = x, lnext = first l1\<rparr>), first := Some f,
      numInList := numInList l1 + 1\<rparr>"
    have c2: "cells l2 (f # as)" and it: "items (heap l2) (f # as) = x # xs"
      unfolding l2_def using cells_push [of l1 as f x] 3 a by (auto simp: xs)
    have "List_Prepend l x = rbind (List_IsInList l2 x) (\<lambda>b. rbind (ASSERT b) (\<lambda>_. Inr l2))"
      using 3 c by (simp add: List_Prepend_def n a xs List_IsEmpty_def cells_def l2_def Let_def)
    also have "\<dots> = Inr l2" using c2 by (rule cells_finish) (simp add: it del: items_simps)
    finally show ?thesis using 3 c2 it by (auto simp: Prepend_spec_def list_rep_def)
  qed
qed

lemma cells_pop:
  assumes c: "cells l (a # as)" and e: "heap l a = Some e"
  defines "l' \<equiv> (if first l = lastp l then l\<lparr>first := None, lastp := None\<rparr> else l\<lparr>first := lnext e\<rparr>)
      \<lparr>numInList := numInList l - 1, heap := (heap l)(a := None)\<rparr>"
  shows "cells l' as" "items (heap l') as = items (heap l) as"
proof -
  have "path (heap l) (lnext e) as None" using cells_path [OF c] e by simp
  then have "path ((heap l)(a := None)) (lnext e) as None"
    by (rule path_frame) (use c in \<open>auto simp: cells_def\<close>)
  moreover have "last as \<noteq> a" if "as \<noteq> []" using c that by (auto simp: cells_def)
  ultimately show "cells l' as" using c by (cases "as = []") (auto simp: cells_def l'_def)
  show "items (heap l') as = items (heap l) as"
    using c by (auto simp: l'_def cells_def intro!: items_frame)
qed

lemma List_RemoveFront_cells:
  assumes c: "cells l (a # as)"
  obtains l' where "List_RemoveFront l = Inr (hd (items (heap l) (a # as)), l')" "cells l' as"
    "items (heap l') as = items (heap l) as"
proof -
  obtain e where e: "heap l a = Some e" using cells_path [OF c] by auto
  note p = cells_pop [OF c e]
  show ?thesis
  proof (rule that [OF _ p])
    show "List_RemoveFront l = Inr (hd (items (heap l) (a # as)),
        (if first l = lastp l then l\<lparr>first := None, lastp := None\<rparr> else l\<lparr>first := lnext e\<rparr>)
        \<lparr>numInList := numInList l - 1, heap := (heap l)(a := None)\<rparr>)"
      using c e by (simp add: List_RemoveFront_def List_IsEmpty_def cells_def Let_def)
  qed
qed

lemma List_RemoveFront_ok:
  assumes "list_rep l xs"
  shows "case xs of [] \<Rightarrow> List_RemoveFront l = Inl AssertionFailed
    | x # ys \<Rightarrow> \<exists>l'. List_RemoveFront l = Inr (x, l') \<and> list_rep l' ys"
proof -
  obtain as where c: "cells l as" and xs: "xs = items (heap l) as"
    using assms by (auto simp: list_rep_def)
  show ?thesis
  proof (cases as)
    case Nil
    then show ?thesis using c by (simp add: xs List_RemoveFront_def List_IsEmpty_def cells_def)
  next
    case (Cons a as')
    then obtain l' where "List_RemoveFront l = Inr (hd (items (heap l) (a # as')), l')"
      "cells l' as'" "items (heap l') as' = items (heap l) as'"
      using c List_RemoveFront_cells [of l a as'] by blast
    then show ?thesis by (auto simp: xs list_rep_def Cons intro!: exI [of _ as'])
  qed
qed

lemma List_RemoveFront_Cons:
  "list_rep l (x # xs) \<Longrightarrow> \<exists>l'. List_RemoveFront l = Inr (x, l') \<and> list_rep l' xs"
  using List_RemoveFront_ok [of l "x # xs"] by simp

lemma cells_unlink:
  assumes c: "cells l (pre @ b # c # suf)" and b: "heap l b = Some eb" and c': "heap l c = Some ec"
  defines "l' \<equiv> (if lnext ec = None then l\<lparr>lastp := Some b\<rparr> else l)
      \<lparr>heap := ((heap l)(b \<mapsto> eb\<lparr>lnext := lnext ec\<rparr>))(c := None), numInList := numInList l - 1\<rparr>"
  shows "cells l' (pre @ b # suf)" "items (heap l') (pre @ b # suf) = items (heap l) (pre @ b # suf)"
proof -
  have d: "distinct (pre @ b # c # suf)" using c by (simp add: cells_def)
  have p: "path (heap l) (first l) pre (Some b)" "path (heap l) (lnext ec) suf None"
    using cells_path [OF c] b c' by (auto simp: path_append)
  have "path (heap l') (first l) pre (Some b)" using p(1)
    by (rule path_frame) (use d in \<open>auto simp: l'_def\<close>)
  moreover have "path (heap l') (lnext ec) suf None" using p(2)
    by (rule path_frame) (use d in \<open>auto simp: l'_def\<close>)
  ultimately have "path (heap l') (first l) (pre @ b # suf) None"
    using d by (auto simp: path_append l'_def)
  moreover have "lnext ec = None \<longleftrightarrow> suf = []" using p(2) by (cases suf) auto
  ultimately show "cells l' (pre @ b # suf)" using c by (auto simp: cells_def l'_def)
  show "items (heap l') (pre @ b # suf) = items (heap l) (pre @ b # suf)"
    using d b by (auto simp: l'_def items_def)
qed

lemma Remove_loop_ok:
  assumes "cells l (pre @ b # suf)" "heap l b = Some eb" "length suf \<le> n"
    and "x \<in> set (items (heap l) suf)"
  shows "\<exists>p l' as. Remove_loop n x (Some b) (lnext eb) l = Inr (Some p, l') \<and> cells l' as
    \<and> items (heap l') as = items (heap l) (pre @ [b]) @ remove1 x (items (heap l) suf)"
  using assms
proof (induction suf arbitrary: pre b eb n)
  case Nil
  then show ?case by simp
next
  case (Cons c suf)
  obtain ec where ec: "heap l c = Some ec"
    using path_in_heap [OF cells_path [OF Cons.prems(1)], of c] by auto
  have lb: "lnext eb = Some c" using cells_path [OF Cons.prems(1)] Cons.prems(2) by (auto simp: path_append)
  obtain m where n: "n = Suc m" using Cons.prems(3) by (cases n) auto
  show ?case
  proof (cases "x = item ec")
    case True
    define l' where "l' = (if lnext ec = None then l\<lparr>lastp := Some b\<rparr> else l)
        \<lparr>heap := ((heap l)(b \<mapsto> eb\<lparr>lnext := lnext ec\<rparr>))(c := None), numInList := numInList l - 1\<rparr>"
    have "cells l' (pre @ b # suf)" "items (heap l') (pre @ b # suf) = items (heap l) (pre @ b # suf)"
      unfolding l'_def by (rule cells_unlink [OF Cons.prems(1,2) ec])+
    moreover have "Remove_loop n x (Some b) (lnext eb) l = Inr (Some c, l')"
      using True Cons.prems(2) ec by (simp add: n lb Let_def l'_def)
    ultimately show ?thesis using True ec by (auto intro!: exI [of _ "pre @ b # suf"])
  next
    case False
    then have "x \<in> set (items (heap l) suf)" using Cons.prems(4) ec by auto
    from Cons.IH [of "pre @ [b]" c ec m, OF _ ec _ this] Cons.prems n
    obtain p l' as where "Remove_loop m x (Some c) (lnext ec) l = Inr (Some p, l')" "cells l' as"
      "items (heap l') as = items (heap l) ((pre @ [b]) @ [c]) @ remove1 x (items (heap l) suf)"
      by auto
    then show ?thesis using False ec by (auto simp: n lb)
  qed
qed

lemma List_Remove_ok: "list_rep l xs \<Longrightarrow> res_rep (List_Remove l x) (Remove_spec xs x)"
proof -
  assume rep: "list_rep l xs"
  then obtain as where c: "cells l as" and xs: "xs = items (heap l) as" by (auto simp: list_rep_def)
  show ?thesis
  proof (cases "x \<in> set xs")
    case False
    then show ?thesis by (simp add: List_Remove_def Remove_spec_def List_IsInList_ok [OF rep])
  next
    case True
    then obtain a as' where as: "as = a # as'" by (cases as) (auto simp: xs)
    obtain e where e: "heap l a = Some e" using cells_path [OF c] as by auto
    have f: "first l = Some a" using cells_path [OF c] as by simp
    let ?step = "if x = item e then
              rbind (List_RemoveFront l) (\<lambda>(removed, l). rbind (ASSERT (x = removed)) (\<lambda>_. Inr l))
            else
              rbind (Remove_loop (walk_fuel l) x (first l) (lnext e) l) (\<lambda>(ptr, l).
              rbind (ASSERT (ptr \<noteq> None)) (\<lambda>_. Inr l))"
    have "\<exists>l'. ?step = Inr l' \<and> list_rep l' (remove1 x xs)"
    proof (cases "x = item e")
      case True
      obtain l' where "List_RemoveFront l = Inr (x, l')" "list_rep l' (items (heap l) as')"
        using List_RemoveFront_Cons [of l x "items (heap l) as'"] rep True e by (auto simp: xs as)
      then show ?thesis using True e by (simp add: xs as)
    next
      case False
      have "\<exists>p l' bs. Remove_loop (walk_fuel l) x (Some a) (lnext e) l = Inr (Some p, l') \<and> cells l' bs
        \<and> items (heap l') bs = items (heap l) ([] @ [a]) @ remove1 x (items (heap l) as')"
        using c e True False cells_length [OF c] by (intro Remove_loop_ok) (auto simp: xs as)
      then show ?thesis using False e by (auto simp: f xs as intro: list_repI)
    qed
    then obtain l' where s: "?step = Inr l'" and r: "list_rep l' (remove1 x xs)" by blast
    have "List_Remove l x =
        rbind ?step (\<lambda>l. rbind (List_IsInList l x) (\<lambda>b. rbind (ASSERT (\<not> b)) (\<lambda>_. Inr l)))"
      using True e by (simp add: List_Remove_def List_IsInList_ok [OF rep] f)
    then show ?thesis unfolding s using True r
      by (simp add: List_IsInList_ok [OF r] Remove_spec_def ASSERT_def)
  qed
qed

lemma cells_link:
  assumes c: "cells l (pre @ b # suf)" and b: "heap l b = Some eb"
    and f: "f \<notin> set (pre @ b # suf)" "f < fresh l" "heap l f = Some \<lparr>item = x, lnext = None\<rparr>"
    and ne: "suf \<noteq> []"
  defines "l' \<equiv> l\<lparr>heap := ((heap l)(f \<mapsto> \<lparr>item = x, lnext = lnext eb\<rparr>))(b \<mapsto> eb\<lparr>lnext := Some f\<rparr>),
      numInList := numInList l + 1\<rparr>"
  shows "cells l' (pre @ b # f # suf)"
    "items (heap l') (pre @ b # f # suf) = items (heap l) (pre @ [b]) @ x # items (heap l) suf"
proof -
  have d: "distinct (pre @ b # suf)" using c by (simp add: cells_def)
  have p: "path (heap l) (first l) pre (Some b)" "path (heap l) (lnext eb) suf None"
    using cells_path [OF c] b by (auto simp: path_append)
  have "path (heap l') (first l) pre (Some b)" using p(1)
    by (rule path_frame) (use d f in \<open>auto simp: l'_def\<close>)
  moreover have "path (heap l') (lnext eb) suf None" using p(2)
    by (rule path_frame) (use d f in \<open>auto simp: l'_def\<close>)
  ultimately have "path (heap l') (first l) (pre @ b # f # suf) None"
    using d f by (auto simp: path_append l'_def)
  then show "cells l' (pre @ b # f # suf)" using c f ne by (auto simp: cells_def l'_def)
  show "items (heap l') (pre @ b # f # suf) = items (heap l) (pre @ [b]) @ x # items (heap l) suf"
    using d f b by (auto simp: l'_def items_def)
qed

lemma insort_cmp_prefix:
  "(\<And>y. y \<in> set ys \<Longrightarrow> \<not> cmp x y < 0) \<Longrightarrow> insort_cmp cmp x (ys @ zs) = ys @ insort_cmp cmp x zs"
  by (induction ys) auto

lemma set_insort_cmp [simp]: "set (insort_cmp cmp x xs) = insert x (set xs)"
  by (induction xs) auto

lemma Insert_loop_ok:
  assumes "cells l (pre @ b # suf)" "length suf < n"
    and f: "f \<notin> set (pre @ b # suf)" "f < fresh l" "heap l f = Some \<lparr>item = x, lnext = None\<rparr>"
  shows "Insert_loop n cmp x f (Some b) l = Inr (False, l)
      \<and> (\<forall>y\<in>set (items (heap l) suf). \<not> cmp x y < 0)
    \<or> (\<exists>l'. Insert_loop n cmp x f (Some b) l = Inr (True, l')
      \<and> list_rep l' (items (heap l) (pre @ [b]) @ insort_cmp cmp x (items (heap l) suf)))"
  using assms
proof (induction suf arbitrary: pre b n)
  case Nil
  then obtain m where "n = Suc m" by (cases n) auto
  moreover obtain eb where "heap l b = Some eb" "lnext eb = None"
    using cells_path [OF Nil.prems(1)] by (auto simp: path_append)
  ultimately show ?case by simp
next
  case (Cons c suf)
  then obtain m where n: "n = Suc m" by (cases n) auto
  obtain eb ec where e: "heap l b = Some eb" "heap l c = Some ec" "lnext eb = Some c"
    using cells_path [OF Cons.prems(1)] by (auto simp: path_append)
  show ?case
  proof (cases "cmp x (item ec) < 0")
    case True
    define l' where "l' = l\<lparr>heap := ((heap l)(f \<mapsto> \<lparr>item = x, lnext = lnext eb\<rparr>))(b \<mapsto> eb\<lparr>lnext := Some f\<rparr>),
      numInList := numInList l + 1\<rparr>"
    have "list_rep l' (items (heap l) (pre @ [b]) @ x # items (heap l) (c # suf))"
      unfolding l'_def using Cons.prems e by (intro list_repI [OF cells_link(1) cells_link(2)]) auto
    moreover have "f \<noteq> b" using Cons.prems(3) by auto
    then have "Insert_loop n cmp x f (Some b) l = Inr (True, l')"
      using True Cons.prems(5) e by (simp add: n l'_def)
    ultimately show ?thesis using True e by auto
  next
    case False
    have "Insert_loop n cmp x f (Some b) l = Insert_loop m cmp x f (Some c) l"
      using False e by (simp add: n)
    then show ?thesis
      using Cons.IH [of "pre @ [b]" c m] Cons.prems False e n by auto
  qed
qed

lemma SortedList_Insert_ok: "list_rep l xs \<Longrightarrow> res_rep (SortedList_Insert cmp l x) (Insert_spec cmp xs x)"
proof -
  assume "list_rep l xs"
  then obtain as where c: "cells l as" and xs: "xs = items (heap l) as" by (auto simp: list_rep_def)
  obtain f l1 where n: "new_ListElement l x = (f, l1)" by fastforce
  note a = cells_alloc [OF c n]
  consider "x \<in> set xs" | "x \<notin> set xs" "as = []"
    | b bs where "x \<notin> set xs" "as = b # bs" by (cases as) auto
  then show ?thesis
  proof cases
    case 1
    then show ?thesis by (simp add: SortedList_Insert_def Insert_spec_def n a xs)
  next
    case 2
    have "cells (l1\<lparr>first := Some f, lastp := Some f, numInList := numInList l1 + 1\<rparr>) [f]"
      using c 2 by (simp add: cells_def a)
    from cells_finish [OF this, of x] this show ?thesis
      using c 2 by (auto simp: SortedList_Insert_def Insert_spec_def n a xs List_IsEmpty_def
          cells_def list_rep_def Let_def intro!: exI [of _ "[f]"])
  next
    case 3
    obtain e where e: "heap l1 b = Some e" using a(2) 3 by auto
    have f: "first l1 = Some b" using a(2) 3 by simp
    have ne: "\<not> List_IsEmpty l1" using c 3 a by (simp add: List_IsEmpty_def cells_def)
    have it: "xs = item e # items (heap l1) bs" using e a(3) 3 by (simp add: xs)
    have nin: "List_IsInList l1 x = Inr False" using a(11) [of x] 3 by (simp add: xs)
    show ?thesis
    proof (cases "cmp x (item e) < 0")
      case True
      define l2 where "l2 = l1\<lparr>heap := (heap l1)(f \<mapsto> \<lparr>item = x, lnext = first l1\<rparr>), first := Some f,
        numInList := numInList l1 + 1\<rparr>"
      have c2: "cells l2 (f # as)" and it2: "items (heap l2) (f # as) = x # xs"
        unfolding l2_def using cells_push [of l1 as f x] 3 a by (auto simp: xs)
      have "SortedList_Insert cmp l x = rbind (List_IsInList l2 x) (\<lambda>b. rbind (ASSERT b) (\<lambda>_. Inr l2))"
        using True e f ne a(4) nin by (simp add: SortedList_Insert_def n l2_def Let_def)
      also have "\<dots> = Inr l2" using c2 by (rule cells_finish) (simp add: it2 del: items_simps)
      finally show ?thesis using 3 c2 it2 True it by (auto simp: Insert_spec_def list_rep_def)
    next
      case False
      have loop: "Insert_loop (walk_fuel l1) cmp x f (Some b) l1 = Inr (False, l1)
          \<and> (\<forall>y\<in>set (items (heap l1) bs). \<not> cmp x y < 0)
        \<or> (\<exists>l'. Insert_loop (walk_fuel l1) cmp x f (Some b) l1 = Inr (True, l')
          \<and> list_rep l' (items (heap l1) ([] @ [b]) @ insort_cmp cmp x (items (heap l1) bs)))"
        using a 3 by (intro Insert_loop_ok) auto
      then consider (end_of_list) "Insert_loop (walk_fuel l1) cmp x f (Some b) l1 = Inr (False, l1)"
          "\<forall>y\<in>set (items (heap l1) bs). \<not> cmp x y < 0"
        | (middle) l' where "Insert_loop (walk_fuel l1) cmp x f (Some b) l1 = Inr (True, l')"
          "list_rep l' (item e # insort_cmp cmp x (items (heap l1) bs))" using e by auto
      then show ?thesis
      proof cases
        case middle
        then show ?thesis using 3(1) False e f ne it nin
          by (simp add: SortedList_Insert_def Insert_spec_def n Let_def del: Insert_loop.simps)
      next
        case end_of_list
        obtain e' where e': "heap l1 (last as) = Some e'"
          using path_last [OF a(2)] 3 by auto
        define l2 where "l2 = l1\<lparr>heap := (heap l1)(last as \<mapsto> e'\<lparr>lnext := Some f\<rparr>), lastp := Some f,
          numInList := numInList l1 + 1\<rparr>"
        have c2: "cells l2 (as @ [f])" and it2: "items (heap l2) (as @ [f]) = xs @ [x]"
          unfolding l2_def xs using cells_snoc [OF a(12,1) _ a(4) _ e'] a(3,8) 3(2) by auto
        have "lastp l1 = Some (last as)" using a(12) 3 by (simp add: cells_def)
        then have "SortedList_Insert cmp l x = rbind (List_IsInList l2 x) (\<lambda>b. rbind (ASSERT b) (\<lambda>_. Inr l2))"
          using False e e' f ne nin end_of_list
          by (simp add: SortedList_Insert_def n l2_def Let_def del: Insert_loop.simps)
        also have "\<dots> = Inr l2" using c2 by (rule cells_finish) (simp add: it2 del: items_simps)
        finally have "SortedList_Insert cmp l x = Inr l2" .
        moreover have "insort_cmp cmp x xs = xs @ [x]"
          using end_of_list(2) False insort_cmp_prefix [of xs cmp x "[]"] it by auto
        ultimately show ?thesis using 3(1) list_repI [OF c2 it2] by (simp add: Insert_spec_def)
      qed
    qed
  qed
qed

lemma SanityCheck_loop_ok:
  assumes "cells l (pre @ b # suf)" "length suf \<le> n"
  shows "SanityCheck_loop n l (Some b) (int (length pre) + 1) = Inr (numInList l)"
  using assms
proof (induction suf arbitrary: pre b n)
  case Nil
  then show ?case by (cases n) (auto simp: cells_def)
next
  case (Cons c suf)
  then obtain m where n: "n = Suc m" by (cases n) auto
  obtain eb where e: "heap l b = Some eb" "lnext eb = Some c"
    using cells_path [OF Cons.prems(1)] by (auto simp: path_append)
  have "lastp l = Some (last (c # suf))" "last (c # suf) \<noteq> b" "numInList l = int (length pre + 2 + length suf)"
    using Cons.prems(1) by (auto simp: cells_def)
  then show ?case using Cons.IH [of "pre @ [b]" c m] Cons.prems e by (simp add: n algebra_simps)
qed

lemma List_SanityCheck_ok: "list_rep l xs \<Longrightarrow> List_SanityCheck l = Inr ()"
proof -
  assume "list_rep l xs"
  then obtain as where c: "cells l as" by (auto simp: list_rep_def)
  show ?thesis
  proof (cases as)
    case Nil
    then show ?thesis using c by (simp add: List_SanityCheck_def cells_def)
  next
    case (Cons b bs)
    obtain e where "heap l (last as) = Some e" "lnext e = None" "lastp l = Some (last as)" "first l = Some b"
      using path_last [OF cells_path [OF c]] c Cons by (auto simp: cells_def)
    moreover have "bs \<noteq> [] \<Longrightarrow> last as \<noteq> b" using c Cons by (auto simp: cells_def)
    moreover have "SanityCheck_loop (walk_fuel l) l (Some b) 1 = Inr (numInList l)"
      using SanityCheck_loop_ok [of l "[]" b bs "walk_fuel l"] c cells_length [OF c] Cons by simp
    ultimately show ?thesis using c Cons by (auto simp: List_SanityCheck_def cells_def)
  qed
qed

section \<open>Sorted lists stay sorted\<close>

text \<open>What a comparison function given to \<open>SortedList\<close> has to satisfy (the contract stated in
  \<open>list.h\<close>), and what the list then guarantees.\<close>

locale comparator =
  fixes cmp :: "'a \<Rightarrow> 'a \<Rightarrow> int"
  assumes cmp_flip: "0 \<le> cmp x y \<Longrightarrow> cmp y x \<le> 0"
    and cmp_trans: "cmp x y \<le> 0 \<Longrightarrow> cmp y z \<le> 0 \<Longrightarrow> cmp x z \<le> 0"
begin

abbreviation ordered :: "'a list \<Rightarrow> bool" where
  "ordered \<equiv> sorted_wrt (\<lambda>x y. cmp x y \<le> 0)"

lemma insort_ordered: "ordered xs \<Longrightarrow> ordered (insort_cmp cmp x xs)"
proof (induction xs)
  case (Cons y ys)
  show ?case
  proof (cases "cmp x y < 0")
    case True
    then show ?thesis using Cons.prems by (auto intro: cmp_trans [of x y])
  next
    case False
    then show ?thesis using Cons cmp_flip [of x y] by auto
  qed
qed simp

lemma insort_min: "ordered xs \<Longrightarrow> y \<in> set xs \<Longrightarrow> cmp (hd xs) y \<le> 0 \<or> y = hd xs"
  by (cases xs) auto

lemma insert_all_ok:
  "list_rep l xs \<Longrightarrow> distinct (xs @ ys) \<Longrightarrow>
    \<exists>l'. for_each (\<lambda>x l. rbind (SortedList_Insert cmp l x) (\<lambda>l.
              rbind (List_IsInList l x) (\<lambda>b. rbind (ASSERT b) (\<lambda>_. Inr l)))) ys l = Inr l'
      \<and> list_rep l' (fold (insort_cmp cmp) ys xs)"
proof (induction ys arbitrary: l xs)
  case (Cons y ys)
  have "res_rep (SortedList_Insert cmp l y) (Insert_spec cmp xs y)"
    using Cons.prems(1) by (rule SortedList_Insert_ok)
  then obtain l1 where l1: "SortedList_Insert cmp l y = Inr l1" "list_rep l1 (insort_cmp cmp y xs)"
    using Cons.prems(2) by (cases "SortedList_Insert cmp l y") (auto simp: Insert_spec_def)
  have "distinct (insort_cmp cmp y xs)" if "distinct xs" "y \<notin> set xs" for xs
    using that by (induction xs) auto
  then have "distinct (insort_cmp cmp y xs @ ys)" using Cons.prems(2) by auto
  then show ?case using Cons.IH [OF l1(2)] l1 by (simp add: List_IsInList_ok [OF l1(2)])
qed simp

lemma fold_insort_ordered: "ordered xs \<Longrightarrow> ordered (fold (insort_cmp cmp) ys xs)"
  by (induction ys arbitrary: xs) (simp_all add: insort_ordered)

lemma SortedSanity_loop_ok:
  assumes "path (heap l) (Some b) (b # bs) None" "length bs \<le> n" "ordered (items (heap l) (b # bs))"
    and "heap l b = Some e"
  shows "SortedSanity_loop n cmp l (Some b) (lnext e) = Inr ()"
  using assms
proof (induction bs arbitrary: b e n)
  case (Cons c cs)
  then obtain m ec where "n = Suc m" "heap l c = Some ec" "lnext e = Some c" by (cases n) auto
  then show ?case using Cons.IH [of c m ec] Cons.prems by auto
qed simp

lemma SortedList_SanityCheck_ok:
  "list_rep l xs \<Longrightarrow> ordered xs \<Longrightarrow> SortedList_SanityCheck cmp l = Inr ()"
proof -
  assume r: "list_rep l xs" and o: "ordered xs"
  then obtain as where c: "cells l as" and xs: "xs = items (heap l) as" by (auto simp: list_rep_def)
  show ?thesis
  proof (cases as)
    case Nil
    then show ?thesis using c by (simp add: SortedList_SanityCheck_def List_SanityCheck_ok [OF r] cells_def)
  next
    case (Cons b bs)
    obtain e where e: "heap l b = Some e" "first l = Some b" using cells_path [OF c] Cons by auto
    have "SortedSanity_loop (walk_fuel l) cmp l (Some b) (lnext e) = Inr ()"
      using cells_path [OF c] cells_length [OF c] o e Cons
      by (intro SortedSanity_loop_ok [of l b bs]) (auto simp: xs)
    then show ?thesis using e
      by (simp add: SortedList_SanityCheck_def List_SanityCheck_ok [OF r])
  qed
qed

end

definition IntCompare :: "int \<Rightarrow> int \<Rightarrow> int" where
  "IntCompare x y = (if x < y then - 1 else if x = y then 0 else 1)"

interpretation ic: comparator IntCompare
  by unfold_locales (auto simp: IntCompare_def split: if_splits)

section \<open>The queue interface\<close>

text \<open>Schedulers, semaphores and synchronised lists use a list as a queue: \<open>Append\<close> at the end,
  \<open>RemoveFront\<close> at the front.\<close>

locale fifo =
  fixes rep :: "'s \<Rightarrow> 'a list \<Rightarrow> bool"
    and append :: "'s \<Rightarrow> 'a \<Rightarrow> 's res"
    and remove_front :: "'s \<Rightarrow> ('a \<times> 's) res"
  assumes append_new: "rep s xs \<Longrightarrow> x \<notin> set xs \<Longrightarrow> \<exists>s'. append s x = Inr s' \<and> rep s' (xs @ [x])"
    and append_dup: "rep s xs \<Longrightarrow> x \<in> set xs \<Longrightarrow> append s x = Inl AssertionFailed"
    and remove_Cons: "rep s (x # xs) \<Longrightarrow> \<exists>s'. remove_front s = Inr (x, s') \<and> rep s' xs"
    and remove_Nil: "rep s [] \<Longrightarrow> remove_front s = Inl AssertionFailed"
begin

lemma append_all:
  "rep s xs \<Longrightarrow> distinct (xs @ ys) \<Longrightarrow>
    \<exists>s'. for_each (\<lambda>x s. append s x) ys s = Inr s' \<and> rep s' (xs @ ys)"
proof (induction ys arbitrary: s xs)
  case (Cons y ys)
  obtain s1 where "append s y = Inr s1" "rep s1 (xs @ [y])"
    using append_new [of s xs y] Cons.prems by auto
  then show ?case using Cons.IH [of s1 "xs @ [y]"] Cons.prems by auto
qed simp

lemma drain_all:
  "rep s xs \<Longrightarrow> length zs = length xs \<Longrightarrow>
    \<exists>s'. for_each (\<lambda>_ (q, s). rbind (remove_front s) (\<lambda>(x, s). Inr (q @ [x], s))) zs (acc, s)
        = Inr (acc @ xs, s') \<and> rep s' []"
proof (induction xs arbitrary: s acc zs)
  case (Cons x xs)
  obtain s1 where s1: "remove_front s = Inr (x, s1)" "rep s1 xs" using remove_Cons [OF Cons.prems(1)] by auto
  obtain z zs' where "zs = z # zs'" "length zs' = length xs" using Cons.prems(2) by (cases zs) auto
  then show ?case using Cons.IH [OF s1(2), of zs' "acc @ [x]"] s1 by simp
qed simp

lemma first_in_first_out:
  assumes "rep s []" "distinct ys"
  shows "\<exists>s' s''. for_each (\<lambda>x s. append s x) ys s = Inr s'
    \<and> for_each (\<lambda>_ (q, s). rbind (remove_front s) (\<lambda>(x, s). Inr (q @ [x], s)))
        ys ([], s') = Inr (ys, s'') \<and> rep s'' []"
  using append_all [OF assms(1), of ys] drain_all [of _ ys ys "[]"] assms(2) by fastforce

end

interpretation ll: fifo list_rep List_Append List_RemoveFront
proof
  fix s :: "'a List" and xs x
  show "\<exists>s'. List_Append s x = Inr s' \<and> list_rep s' (xs @ [x])" if "list_rep s xs" "x \<notin> set xs"
    using List_Append_ok [OF that(1), of x] that(2)
    by (cases "List_Append s x") (auto simp: Append_spec_def)
  show "List_Append s x = Inl AssertionFailed" if "list_rep s xs" "x \<in> set xs"
    using List_Append_ok [OF that(1), of x] that(2)
    by (cases "List_Append s x") (auto simp: Append_spec_def)
  show "\<exists>s'. List_RemoveFront s = Inr (x, s') \<and> list_rep s' xs" if "list_rep s (x # xs)"
    using that by (rule List_RemoveFront_Cons)
  show "List_RemoveFront s = Inl AssertionFailed" if "list_rep s []"
    using List_RemoveFront_ok [OF that] by simp
qed

interpretation seq: fifo "(=)" Append_spec RemoveFront_spec
  by unfold_locales (auto simp: Append_spec_def RemoveFront_spec_def)

section \<open>The self tests pass\<close>

lemma remove_all_ok:
  "list_rep l xs \<Longrightarrow> distinct xs \<Longrightarrow>
    \<exists>l'. for_each (\<lambda>x l. rbind (List_Remove l x) (\<lambda>l.
              rbind (List_IsInList l x) (\<lambda>b. rbind (ASSERT (\<not> b)) (\<lambda>_. Inr l)))) xs l = Inr l'
      \<and> list_rep l' []"
proof (induction xs arbitrary: l)
  case (Cons x xs)
  have "res_rep (List_Remove l x) (Remove_spec (x # xs) x)" using Cons.prems(1) by (rule List_Remove_ok)
  then obtain l1 where l1: "List_Remove l x = Inr l1" "list_rep l1 xs"
    using Cons.prems(2) by (cases "List_Remove l x") (auto simp: Remove_spec_def)
  then show ?case using Cons.IH [OF l1(2)] Cons.prems(2) by (simp add: List_IsInList_ok [OF l1(2)])
qed simp

lemma append_all_checked:
  "list_rep l xs \<Longrightarrow> distinct (xs @ ys) \<Longrightarrow>
    \<exists>l'. for_each (\<lambda>x l. rbind (List_Append l x) (\<lambda>l.
              rbind (List_IsInList l x) (\<lambda>b. rbind (ASSERT b) (\<lambda>_.
              rbind (ASSERT (\<not> List_IsEmpty l)) (\<lambda>_. Inr l))))) ys l = Inr l' \<and> list_rep l' (xs @ ys)"
proof (induction ys arbitrary: l xs)
  case (Cons y ys)
  then obtain l1 where l1: "List_Append l y = Inr l1" "list_rep l1 (xs @ [y])"
    using ll.append_new [of l xs y] by auto
  then show ?case using Cons.IH [OF l1(2)] Cons.prems
    by (simp add: List_IsInList_ok [OF l1(2)] List_IsEmpty_ok [OF l1(2)])
qed simp

lemma List_SelfTest_ok:
  assumes "list_rep l []" "distinct p"
  shows "\<exists>l'. List_SelfTest l p = Inr l' \<and> list_rep l' []"
proof -
  obtain l1 where l1: "for_each (\<lambda>x l. rbind (List_Append l x) (\<lambda>l.
              rbind (List_IsInList l x) (\<lambda>b. rbind (ASSERT b) (\<lambda>_.
              rbind (ASSERT (\<not> List_IsEmpty l)) (\<lambda>_. Inr l))))) p l = Inr l1" "list_rep l1 p"
    using append_all_checked [of l "[]" p] assms by auto
  obtain l2 where l2: "for_each (\<lambda>x l. rbind (List_Remove l x) (\<lambda>l.
              rbind (List_IsInList l x) (\<lambda>b. rbind (ASSERT (\<not> b)) (\<lambda>_. Inr l)))) p l1 = Inr l2"
      "list_rep l2 []"
    using remove_all_ok [OF l1(2)] assms(2) by blast
  have "first l = None" using assms(1) by (auto simp: list_rep_def cells_def items_def)
  then show ?thesis using l2(2) assms(1)
    by (simp add: List_SelfTest_def List_SanityCheck_ok [OF assms(1)] List_SanityCheck_ok [OF l1(2)]
        List_SanityCheck_ok [OF l2(2)] List_IsEmpty_ok l1(1) l2(1) ListIterator_new_def
        ListIterator_IsDone_def)
qed

context comparator
begin

lemma drain_sorted_checked:
  "list_rep l xs \<Longrightarrow> distinct xs \<Longrightarrow> length zs = length xs \<Longrightarrow>
    \<exists>l'. for_each (\<lambda>_ (q, l). rbind (List_RemoveFront l) (\<lambda>(x, l).
              rbind (List_IsInList l x) (\<lambda>b. rbind (ASSERT (\<not> b)) (\<lambda>_.
              Inr (q @ [x], l))))) zs (acc, l) = Inr (acc @ xs, l') \<and> list_rep l' []"
proof (induction xs arbitrary: l acc zs)
  case (Cons x xs)
  obtain l1 where l1: "List_RemoveFront l = Inr (x, l1)" "list_rep l1 xs"
    using List_RemoveFront_Cons [OF Cons.prems(1)] by auto
  obtain z zs' where "zs = z # zs'" "length zs' = length xs" using Cons.prems(3) by (cases zs) auto
  then show ?case using Cons.IH [OF l1(2), of zs' "acc @ [x]"] l1 Cons.prems(2)
    by (simp add: List_IsInList_ok [OF l1(2)])
qed simp

lemma fold_insort_props:
  "distinct (xs @ ys) \<Longrightarrow> distinct (fold (insort_cmp cmp) ys xs)
    \<and> length (fold (insort_cmp cmp) ys xs) = length xs + length ys"
proof (induction ys arbitrary: xs)
  case (Cons y ys)
  have "distinct (insort_cmp cmp y xs)" "length (insort_cmp cmp y xs) = Suc (length xs)"
    if "distinct xs" "y \<notin> set xs" for xs using that by (induction xs) auto
  then show ?case using Cons.IH [of "insort_cmp cmp y xs"] Cons.prems by auto
qed simp

lemma ordered_nth:
  "ordered xs \<Longrightarrow> length xs = n \<Longrightarrow>
    for_each (\<lambda>i _. ASSERT (cmp (xs ! i) (xs ! Suc i) \<le> 0)) [0..<n - 1] () = Inr ()"
proof -
  assume o: "ordered xs" and n: "length xs = n"
  have "for_each (\<lambda>i _. ASSERT (cmp (xs ! i) (xs ! Suc i) \<le> 0)) ks () = Inr ()"
    if "\<forall>i\<in>set ks. Suc i < n" for ks
    using that o n by (induction ks) (auto simp: sorted_wrt_iff_nth_less)
  note all = this
  show ?thesis by (rule all) (simp add: less_diff_conv)
qed

lemma SortedList_SelfTest_ok:
  assumes "list_rep l []" "distinct p"
  shows "\<exists>l'. SortedList_SelfTest cmp l p = Inr l' \<and> list_rep l' []"
proof -
  obtain l1 where l1: "List_SelfTest l p = Inr l1" "list_rep l1 []"
    using List_SelfTest_ok [OF assms] by blast
  define ys where "ys = fold (insort_cmp cmp) p []"
  obtain l2 where l2: "for_each (\<lambda>x l. rbind (SortedList_Insert cmp l x) (\<lambda>l.
              rbind (List_IsInList l x) (\<lambda>b. rbind (ASSERT b) (\<lambda>_. Inr l)))) p l1 = Inr l2"
      "list_rep l2 ys"
    unfolding ys_def using insert_all_ok [OF l1(2), of p] assms(2) by auto
  have ys: "distinct ys" "length ys = length p" "ordered ys"
    using fold_insort_props [of "[]" p] fold_insort_ordered [of "[]" p] assms(2) by (auto simp: ys_def)
  obtain l3 where l3: "for_each (\<lambda>_ (q, l). rbind (List_RemoveFront l) (\<lambda>(x, l).
              rbind (List_IsInList l x) (\<lambda>b. rbind (ASSERT (\<not> b)) (\<lambda>_.
              Inr (q @ [x], l))))) p ([], l2) = Inr (ys, l3)" "list_rep l3 []"
    using drain_sorted_checked [OF l2(2) ys(1), of p "[]"] ys(2) by auto
  show ?thesis using l3(2) ys ordered_nth [OF ys(3), of "length p"]
    by (simp add: SortedList_SelfTest_def l1(1) l2(1) l3(1) SortedList_SanityCheck_ok [OF l2(2)]
        SortedList_SanityCheck_ok [OF l3(2)] List_IsEmpty_ok [OF l3(2)])
qed

end

section \<open>Properties\<close>

lemma List_call_refines: "list_rep l xs \<Longrightarrow> res_rep (List_call cmp c l) (spec_call cmp c xs)"
proof (cases c)
  case CallRemoveFront
  assume "list_rep l xs"
  then show ?thesis using List_RemoveFront_ok [of l xs] CallRemoveFront
    by (auto simp: RemoveFront_spec_def split: list.splits)
qed (simp_all add: List_Append_ok List_Prepend_ok List_Remove_ok SortedList_Insert_ok)

lemma List_calls_refine:
  "list_rep l xs \<Longrightarrow> res_rep (for_each (List_call cmp) cs l) (for_each (spec_call cmp) cs xs)"
proof (induction cs arbitrary: l xs)
  case (Cons c cs)
  then show ?case using List_call_refines [OF Cons.prems, of cmp c]
    by (cases "List_call cmp c l"; cases "spec_call cmp c xs") auto
qed simp

text \<open>C1. Any sequence of list calls behaves on the linked cells as on HOL lists: it faults
  exactly when the HOL version faults, and otherwise leaves a well-formed list of the same items.\<close>

theorem list_refinement:
  "res_rep (for_each (List_call cmp) cs List_new) (for_each (spec_call cmp) cs [])"
  by (rule List_calls_refine) (rule List_new_ok)

text \<open>The self test of \<open>SortedList\<close> passes for every array of distinct integers: everything
  inserted is found, comes out in order, and the list is empty and sane again.\<close>

theorem sorted_self_test_passes:
  "distinct p \<Longrightarrow> \<exists>l. SortedList_SelfTest IntCompare List_new p = Inr l \<and> list_rep l []"
  by (rule ic.SortedList_SelfTest_ok) (rule List_new_ok)

theorem sorted_self_test_passes_witness:
  "\<exists>l. SortedList_SelfTest IntCompare List_new [3, -1, 7] = Inr l \<and> list_rep l []"
  by (rule sorted_self_test_passes) simp

end
