(* ===== verification/Interrupt.thy ===== *)
theory Interrupt
  imports Linked_List
begin

text \<open>
  The interrupt simulation of \<open>machine/interrupt.cc\<close> and the clock of \<open>machine/stats.cc\<close>.
  The record \<open>Interrupt\<close> is the part of the kernel these functions touch; the devices extend
  it with their own fields, so that an operation here works on every extension.  A pending
  interrupt carries the address of its object (\<open>pid\<close>), since the list of the code holds
  pointers.  The interrupt handler (the virtual method \<open>CallBack\<close>), the CPU's delayed load and
  \<open>Thread::Yield\<close> are arguments of the functions that call them.  The tick counters are
  unbounded integers; the counters of the code are 32-bit and last for \<open>2 ^ 31\<close> ticks.
\<close>

section \<open>Statistics\<close>

record Statistics =
  totalTicks :: int
  idleTicks :: int
  systemTicks :: int
  userTicks :: int
  numDiskReads :: int
  numDiskWrites :: int
  numConsoleCharsRead :: int
  numConsoleCharsWritten :: int
  numPageFaults :: int
  numPacketsSent :: int
  numPacketsRecvd :: int

definition Statistics_new :: Statistics where
  "Statistics_new = \<lparr>totalTicks = 0, idleTicks = 0, systemTicks = 0, userTicks = 0,
     numDiskReads = 0, numDiskWrites = 0, numConsoleCharsRead = 0, numConsoleCharsWritten = 0,
     numPageFaults = 0, numPacketsSent = 0, numPacketsRecvd = 0\<rparr>"

definition UserTick :: int where "UserTick = 1"
definition SystemTick :: int where "SystemTick = 10"
definition RotationTime :: int where "RotationTime = 500"
definition SeekTime :: int where "SeekTime = 500"
definition ConsoleTime :: int where "ConsoleTime = 100"
definition NetworkTime :: int where "NetworkTime = 100"
definition TimerTicks :: int where "TimerTicks = 100"

lemmas tick_consts = UserTick_def SystemTick_def RotationTime_def SeekTime_def ConsoleTime_def
  NetworkTime_def TimerTicks_def

section \<open>Interrupts\<close>

datatype IntStatus = IntOff | IntOn

datatype MachineStatus = IdleMode | SystemMode | UserMode

datatype IntType = TimerInt | DiskInt | ConsoleWriteInt | ConsoleReadInt | NetworkSendInt | NetworkRecvInt

text \<open>The objects whose \<open>CallBack\<close> the simulator invokes.\<close>

datatype device = DevTimer | DevDisk | DevConsoleOut | DevConsoleIn | DevNetworkOut | DevNetworkIn

record PendingInterrupt =
  pid :: nat
  callOnInterrupt :: device
  whent :: int
  int_type :: IntType

definition PendingCompare :: "PendingInterrupt \<Rightarrow> PendingInterrupt \<Rightarrow> int" where
  "PendingCompare x y = (if whent x < whent y then - 1 else if whent x > whent y then 1 else 0)"

record Interrupt =
  stats :: Statistics
  level :: IntStatus
  pending :: "PendingInterrupt list"
  inHandler :: bool
  yieldOnReturn :: bool
  status :: MachineStatus
  next_pid :: nat

definition Interrupt_new :: Interrupt where
  "Interrupt_new = \<lparr>stats = Statistics_new, level = IntOff, pending = [], inHandler = False,
     yieldOnReturn = False, status = SystemMode, next_pid = 0\<rparr>"

abbreviation now :: "'a Interrupt_scheme \<Rightarrow> int" where
  "now s \<equiv> totalTicks (stats s)"

definition new_PendingInterrupt ::
  "device \<Rightarrow> int \<Rightarrow> IntType \<Rightarrow> 'a Interrupt_scheme \<Rightarrow> PendingInterrupt \<times> 'a Interrupt_scheme" where
  "new_PendingInterrupt callOnInt time kind s =
     (\<lparr>pid = next_pid s, callOnInterrupt = callOnInt, whent = time, int_type = kind\<rparr>,
      s\<lparr>next_pid := Suc (next_pid s)\<rparr>)"

definition Schedule :: "device \<Rightarrow> int \<Rightarrow> IntType \<Rightarrow> 'a Interrupt_scheme \<Rightarrow> 'a Interrupt_scheme res" where
  "Schedule toCall fromNow type s =
     (let when = totalTicks (stats s) + fromNow;
          (toOccur, s) = new_PendingInterrupt toCall when type s in
      rbind (ASSERT (fromNow > 0)) (\<lambda>_.
      rbind (Insert_spec PendingCompare (pending s) toOccur) (\<lambda>p.
      Inr (s\<lparr>pending := p\<rparr>))))"

definition ChangeLevel :: "IntStatus \<Rightarrow> IntStatus \<Rightarrow> 'a Interrupt_scheme \<Rightarrow> 'a Interrupt_scheme" where
  "ChangeLevel old new s = s\<lparr>level := new\<rparr>"

definition YieldOnReturn :: "'a Interrupt_scheme \<Rightarrow> 'a Interrupt_scheme res" where
  "YieldOnReturn s = rbind (ASSERT (inHandler s)) (\<lambda>_. Inr (s\<lparr>yieldOnReturn := True\<rparr>))"

text \<open>The do-while loop of \<open>CheckIfDue\<close>: take the first pending interrupt, call its handler,
  go on while the next one is due.\<close>

fun fire_due :: "nat \<Rightarrow> (device \<Rightarrow> 'a Interrupt_scheme \<Rightarrow> 'a Interrupt_scheme res) \<Rightarrow>
    'a Interrupt_scheme \<Rightarrow> 'a Interrupt_scheme res" where
  "fire_due 0 callback s = Inl Diverges"
| "fire_due (Suc n) callback s =
     rbind (RemoveFront_spec (pending s)) (\<lambda>(nxt, rest).
     rbind (callback (callOnInterrupt nxt) (s\<lparr>pending := rest\<rparr>)) (\<lambda>s.
     if pending s \<noteq> [] \<and> whent (hd (pending s)) \<le> totalTicks (stats s)
     then fire_due n callback s else Inr s))"

definition CheckIfDue ::
  "('a Interrupt_scheme \<Rightarrow> 'a Interrupt_scheme) \<Rightarrow> (device \<Rightarrow> 'a Interrupt_scheme \<Rightarrow> 'a Interrupt_scheme res) \<Rightarrow>
   bool \<Rightarrow> 'a Interrupt_scheme \<Rightarrow> (bool \<times> 'a Interrupt_scheme) res" where
  "CheckIfDue delayedLoad callback advanceClock s =
     rbind (ASSERT (level s = IntOff)) (\<lambda>_.
     if pending s = [] then Inr (False, s)
     else
       let nxt = hd (pending s) in
       if whent nxt > totalTicks (stats s) \<and> \<not> advanceClock then Inr (False, s)
       else
         let s = (if whent nxt > totalTicks (stats s)
                  then s\<lparr>stats := (stats s)\<lparr>idleTicks := idleTicks (stats s) + (whent nxt - totalTicks (stats s)),
                                            totalTicks := whent nxt\<rparr>\<rparr>
                  else s);
             s = delayedLoad s;
             s = s\<lparr>inHandler := True\<rparr> in
         rbind (fire_due (Suc (length (pending s))) callback s) (\<lambda>s.
         Inr (True, s\<lparr>inHandler := False\<rparr>)))"

text \<open>Advancing the clock by one step of the current mode.\<close>

definition advance_tick :: "'a Interrupt_scheme \<Rightarrow> 'a Interrupt_scheme" where
  "advance_tick s =
     (if status s = SystemMode
      then s\<lparr>stats := (stats s)\<lparr>totalTicks := totalTicks (stats s) + SystemTick,
                                systemTicks := systemTicks (stats s) + SystemTick\<rparr>\<rparr>
      else s\<lparr>stats := (stats s)\<lparr>totalTicks := totalTicks (stats s) + UserTick,
                                userTicks := userTicks (stats s) + UserTick\<rparr>\<rparr>)"

definition OneTick ::
  "('a Interrupt_scheme \<Rightarrow> 'a Interrupt_scheme) \<Rightarrow> (device \<Rightarrow> 'a Interrupt_scheme \<Rightarrow> 'a Interrupt_scheme res) \<Rightarrow>
   ('a Interrupt_scheme \<Rightarrow> 'a Interrupt_scheme res) \<Rightarrow> 'a Interrupt_scheme \<Rightarrow> 'a Interrupt_scheme res" where
  "OneTick delayedLoad callback yield s =
     (let oldStatus = status s;
          s = advance_tick s;
          s = ChangeLevel IntOn IntOff s in
      rbind (CheckIfDue delayedLoad callback False s) (\<lambda>(_, s).
      let s = ChangeLevel IntOff IntOn s in
      if yieldOnReturn s then
        let s = s\<lparr>yieldOnReturn := False, status := SystemMode\<rparr> in
        rbind (yield s) (\<lambda>s. Inr (s\<lparr>status := oldStatus\<rparr>))
      else Inr s))"

definition SetLevel ::
  "('a Interrupt_scheme \<Rightarrow> 'a Interrupt_scheme) \<Rightarrow> (device \<Rightarrow> 'a Interrupt_scheme \<Rightarrow> 'a Interrupt_scheme res) \<Rightarrow>
   ('a Interrupt_scheme \<Rightarrow> 'a Interrupt_scheme res) \<Rightarrow> IntStatus \<Rightarrow> 'a Interrupt_scheme \<Rightarrow>
   (IntStatus \<times> 'a Interrupt_scheme) res" where
  "SetLevel delayedLoad callback yield new s =
     (let old = level s in
      rbind (ASSERT (new = IntOff \<or> \<not> inHandler s)) (\<lambda>_.
      let s = ChangeLevel old new s in
      if new = IntOn \<and> old = IntOff
      then rbind (OneTick delayedLoad callback yield s) (\<lambda>s. Inr (old, s))
      else Inr (old, s)))"

text \<open>\<open>Idle\<close> returns whether the machine goes on; \<open>False\<close> stands for \<open>Halt\<close>, which never
  returns.\<close>

definition Idle ::
  "('a Interrupt_scheme \<Rightarrow> 'a Interrupt_scheme) \<Rightarrow> (device \<Rightarrow> 'a Interrupt_scheme \<Rightarrow> 'a Interrupt_scheme res) \<Rightarrow>
   'a Interrupt_scheme \<Rightarrow> (bool \<times> 'a Interrupt_scheme) res" where
  "Idle delayedLoad callback s =
     (let s = s\<lparr>status := IdleMode\<rparr> in
      rbind (CheckIfDue delayedLoad callback True s) (\<lambda>(fired, s).
      if fired then Inr (True, s\<lparr>status := SystemMode\<rparr>) else Inr (False, s)))"

section \<open>The pending list\<close>

interpretation pc: comparator PendingCompare
  by unfold_locales (auto simp: PendingCompare_def split: if_splits)

definition ints_ok :: "'a Interrupt_scheme \<Rightarrow> bool" where
  "ints_ok s \<longleftrightarrow> sorted_wrt (\<lambda>x y. whent x \<le> whent y) (pending s)
     \<and> distinct (pending s) \<and> (\<forall>p\<in>set (pending s). pid p < next_pid s)"

lemma ordered_whent: "pc.ordered ps \<longleftrightarrow> sorted_wrt (\<lambda>x y. whent x \<le> whent y) ps"
proof -
  have "(\<lambda>x y. PendingCompare x y \<le> 0) = (\<lambda>x y. whent x \<le> whent y)"
    by (auto simp: fun_eq_iff PendingCompare_def)
  then show ?thesis by simp
qed

lemma distinct_insort: "distinct (insort_cmp cmp x xs) \<longleftrightarrow> x \<notin> set xs \<and> distinct xs"
  by (induction xs) auto

lemma ints_ok_pop: "ints_ok s \<Longrightarrow> pending s = p # ps \<Longrightarrow> ints_ok (s\<lparr>pending := ps\<rparr>)"
  by (auto simp: ints_ok_def)

lemma ints_ok_cong:
  "pending s' = pending s \<Longrightarrow> next_pid s' = next_pid s \<Longrightarrow> ints_ok s' = ints_ok s"
  by (simp add: ints_ok_def)

lemma ints_ok_new: "ints_ok Interrupt_new"
  by (simp add: ints_ok_def Interrupt_new_def)

definition scheduled :: "device \<Rightarrow> int \<Rightarrow> IntType \<Rightarrow> 'a Interrupt_scheme \<Rightarrow> 'a Interrupt_scheme" where
  "scheduled d fromNow ty s = s\<lparr>next_pid := Suc (next_pid s),
     pending := insort_cmp PendingCompare
       \<lparr>pid = next_pid s, callOnInterrupt = d, whent = now s + fromNow, int_type = ty\<rparr> (pending s)\<rparr>"

lemma Schedule_ok:
  assumes "ints_ok s" "0 < fromNow"
  shows "Schedule d fromNow ty s = Inr (scheduled d fromNow ty s)" "ints_ok (scheduled d fromNow ty s)"
proof -
  let ?p = "\<lparr>pid = next_pid s, callOnInterrupt = d, whent = now s + fromNow, int_type = ty\<rparr>"
  have n: "?p \<notin> set (pending s)" using assms(1) by (auto simp: ints_ok_def)
  then show "Schedule d fromNow ty s = Inr (scheduled d fromNow ty s)"
    using assms by (simp add: Schedule_def new_PendingInterrupt_def Insert_spec_def scheduled_def)
  have "sorted_wrt (\<lambda>x y. whent x \<le> whent y) (insort_cmp PendingCompare ?p (pending s))"
    using pc.insort_ordered [of "pending s" ?p] assms(1) by (simp add: ordered_whent ints_ok_def)
  then show "ints_ok (scheduled d fromNow ty s)"
    using assms(1) n by (auto simp: ints_ok_def scheduled_def distinct_insort less_Suc_eq)
qed

lemma scheduled_simps [simp]:
  "stats (scheduled d t ty s) = stats s" "level (scheduled d t ty s) = level s"
  "inHandler (scheduled d t ty s) = inHandler s" "status (scheduled d t ty s) = status s"
  "yieldOnReturn (scheduled d t ty s) = yieldOnReturn s"
  "more (scheduled d t ty s) = more s"
  by (simp_all add: scheduled_def)

abbreviation due :: "int \<Rightarrow> PendingInterrupt \<Rightarrow> bool" where
  "due t p \<equiv> whent p \<le> t"

lemma takeWhile_due_insort:
  "t < whent x \<Longrightarrow> takeWhile (due t) (insort_cmp PendingCompare x xs) = takeWhile (due t) xs"
  by (induction xs) (auto simp: PendingCompare_def)

lemma takeWhile_due_scheduled:
  "0 < d \<Longrightarrow> takeWhile (due (now s)) (pending (scheduled x d ty s)) = takeWhile (due (now s)) (pending s)"
  by (simp add: scheduled_def takeWhile_due_insort)

section \<open>What the simulator relies on in a handler\<close>

text \<open>A handler is called with interrupts off, after its interrupt has left the pending list.  It
  returns, leaves the clock, the level and the mode alone, and only schedules interrupts for
  later.\<close>

locale device_handlers =
  fixes ok :: "'a Interrupt_scheme \<Rightarrow> bool"
    and delayedLoad :: "'a Interrupt_scheme \<Rightarrow> 'a Interrupt_scheme"
    and callback :: "device \<Rightarrow> 'a Interrupt_scheme \<Rightarrow> 'a Interrupt_scheme res"
  assumes ok_ints: "ok s \<Longrightarrow> ints_ok s"
    and ok_flags: "ok (s\<lparr>inHandler := h\<rparr>) = ok s" "ok (s\<lparr>level := l\<rparr>) = ok s" "ok (s\<lparr>status := m\<rparr>) = ok s"
      "ok (s\<lparr>stats := st\<rparr>) = ok s" "ok (s\<lparr>yieldOnReturn := y\<rparr>) = ok s"
    and load_ok: "ok s \<Longrightarrow> ok (delayedLoad s)" "pending (delayedLoad s) = pending s"
      "stats (delayedLoad s) = stats s" "level (delayedLoad s) = level s"
      "status (delayedLoad s) = status s"
    and handler_step: "ok s \<Longrightarrow> inHandler s \<Longrightarrow> pending s = p # ps \<Longrightarrow>
      \<exists>s'. callback (callOnInterrupt p) (s\<lparr>pending := ps\<rparr>) = Inr s' \<and> ok s' \<and> inHandler s' \<and>
        now s' = now s \<and> level s' = level s \<and> status s' = status s \<and> set ps \<subseteq> set (pending s') \<and>
        takeWhile (due (now s)) (pending s') = takeWhile (due (now s)) ps"
begin

definition fire :: "PendingInterrupt \<Rightarrow> 'a Interrupt_scheme \<Rightarrow> 'a Interrupt_scheme res" where
  "fire p s = callback (callOnInterrupt p) (s\<lparr>pending := tl (pending s)\<rparr>)"

lemma takeWhile_hd: "takeWhile P xs = p # ps \<Longrightarrow> xs = p # tl xs \<and> takeWhile P (tl xs) = ps \<and> P p"
  by (cases xs) (auto split: if_splits)

lemma takeWhile_Nil_iff: "takeWhile P xs = [] \<longleftrightarrow> xs = [] \<or> \<not> P (hd xs)"
  by (cases xs) auto

lemma fire_step:
  assumes "ok s" "inHandler s" "takeWhile (due (now s)) (pending s) = p # ps"
  obtains s' where "fire p s = Inr s'" "ok s'" "inHandler s'" "now s' = now s" "level s' = level s"
    "status s' = status s" "takeWhile (due (now s')) (pending s') = ps"
    "set (tl (pending s)) \<subseteq> set (pending s')"
  using handler_step [OF assms(1,2), of p "tl (pending s)"] takeWhile_hd [OF assms(3)]
  unfolding fire_def by metis

lemma fire_due_eq:
  assumes "ok s" "inHandler s" "takeWhile (due (now s)) (pending s) = p # ps" "Suc (length ps) \<le> n"
  shows "fire_due n callback s = for_each fire (p # ps) s"
  using assms
proof (induction n arbitrary: s p ps)
  case (Suc n)
  obtain s1 where s1: "fire p s = Inr s1" "ok s1" "inHandler s1" "takeWhile (due (now s1)) (pending s1) = ps"
    using fire_step [OF Suc.prems(1-3)] by metis
  have rf: "RemoveFront_spec (pending s) = Inr (p, tl (pending s))"
    using takeWhile_hd [OF Suc.prems(3)] by (cases "pending s") (auto simp: RemoveFront_spec_def)
  have cb: "callback (callOnInterrupt p) (s\<lparr>pending := tl (pending s)\<rparr>) = Inr s1"
    using s1(1) by (simp add: fire_def)
  show ?case
  proof (cases ps)
    case Nil
    then have "pending s1 = [] \<or> \<not> due (now s1) (hd (pending s1))"
      using s1(4) takeWhile_Nil_iff by metis
    then show ?thesis using s1(1) Nil rf cb by auto
  next
    case (Cons q qs)
    have "pending s1 \<noteq> [] \<and> due (now s1) (hd (pending s1))"
      using s1(4) takeWhile_Nil_iff [of "due (now s1)" "pending s1"] Cons by auto
    then show ?thesis using Suc.IH [OF s1(2,3), of q qs] s1 Suc.prems(4) Cons rf cb by auto
  qed
qed simp

lemma for_each_fire_ok:
  assumes "ok s" "inHandler s" "takeWhile (due (now s)) (pending s) = ps"
  shows "\<exists>s'. for_each fire ps s = Inr s' \<and> ok s' \<and> now s' = now s \<and> level s' = level s \<and>
    status s' = status s \<and> takeWhile (due (now s')) (pending s') = [] \<and>
    (\<forall>p\<in>set (pending s). now s < whent p \<longrightarrow> p \<in> set (pending s'))"
  using assms
proof (induction ps arbitrary: s)
  case (Cons p ps)
  obtain s1 where s1: "fire p s = Inr s1" "ok s1" "inHandler s1" "now s1 = now s" "level s1 = level s"
      "status s1 = status s" "takeWhile (due (now s1)) (pending s1) = ps"
      "set (tl (pending s)) \<subseteq> set (pending s1)"
    using fire_step [OF Cons.prems] by metis
  have "pending s = p # tl (pending s)" "due (now s) p" using takeWhile_hd [OF Cons.prems(3)] by auto
  then have keep: "\<forall>q\<in>set (pending s). now s < whent q \<longrightarrow> q \<in> set (pending s1)"
    using s1(8) by (metis not_le set_ConsD subsetD)
  show ?case using Cons.IH [OF s1(2,3,7)] s1(1,4-6) keep by auto
qed auto

lemma none_due: "ints_ok s \<Longrightarrow> takeWhile (due t) (pending s) = [] \<Longrightarrow> p \<in> set (pending s) \<Longrightarrow> t < whent p"
  by (cases "pending s") (auto simp: ints_ok_def split: if_splits)

text \<open>The clock of \<open>CheckIfDue\<close> after the advance, and the state in which the handlers start.\<close>

definition idle_to :: "int \<Rightarrow> 'a Interrupt_scheme \<Rightarrow> 'a Interrupt_scheme" where
  "idle_to t s = (if t > now s then s\<lparr>stats := (stats s)\<lparr>idleTicks := idleTicks (stats s) + (t - now s),
     totalTicks := t\<rparr>\<rparr> else s)"

lemma idle_to_simps [simp]: "pending (idle_to t s) = pending s" "level (idle_to t s) = level s"
  "status (idle_to t s) = status s" "now (idle_to t s) = max t (now s)" "ok (idle_to t s) = ok s"
  by (simp_all add: idle_to_def ok_flags)

definition handler_start :: "'a Interrupt_scheme \<Rightarrow> 'a Interrupt_scheme" where
  "handler_start s = (delayedLoad (idle_to (whent (hd (pending s))) s))\<lparr>inHandler := True\<rparr>"

lemma handler_start_ok:
  "ok s \<Longrightarrow> ok (handler_start s)" "pending (handler_start s) = pending s" "inHandler (handler_start s)"
  "now (handler_start s) = max (whent (hd (pending s))) (now s)" "level (handler_start s) = level s"
  "status (handler_start s) = status s"
  by (simp_all add: handler_start_def ok_flags load_ok)

lemma CheckIfDue_fires:
  assumes s: "ok s" "level s = IntOff" "pending s \<noteq> []"
    and d: "advanceClock \<or> whent (hd (pending s)) \<le> now s"
  shows "CheckIfDue delayedLoad callback advanceClock s =
    rbind (for_each fire (takeWhile (due (now (handler_start s))) (pending s)) (handler_start s))
      (\<lambda>s. Inr (True, s\<lparr>inHandler := False\<rparr>))"
proof -
  let ?s = "handler_start s"
  obtain p ps where tw: "takeWhile (due (now ?s)) (pending s) = p # ps"
    using s(3) by (cases "pending s") (auto simp: handler_start_ok)
  have "length (p # ps) \<le> length (pending s)" using tw length_takeWhile_le by metis
  then have "fire_due (Suc (length (pending s))) callback ?s = for_each fire (p # ps) ?s"
    using tw s(1) by (intro fire_due_eq) (auto simp: handler_start_ok)
  moreover have "CheckIfDue delayedLoad callback advanceClock s =
    rbind (fire_due (Suc (length (pending ?s))) callback ?s) (\<lambda>s. Inr (True, s\<lparr>inHandler := False\<rparr>))"
    using s d by (auto simp: CheckIfDue_def Let_def handler_start_def idle_to_def simp del: fire_due.simps)
  ultimately show ?thesis unfolding tw by (simp add: handler_start_ok del: fire_due.simps)
qed

lemma CheckIfDue_quiet:
  assumes "level s = IntOff" "pending s = [] \<or> \<not> advanceClock \<and> now s < whent (hd (pending s))"
  shows "CheckIfDue delayedLoad callback advanceClock s = Inr (False, s)"
  using assms by (auto simp: CheckIfDue_def)

text \<open>When it fires, \<open>CheckIfDue\<close> returns; afterwards nothing pending is due, and interrupts that
  were not due yet are still pending.\<close>

lemma CheckIfDue_fired:
  assumes s: "ok s" "level s = IntOff" "pending s \<noteq> []"
    and d: "advanceClock \<or> whent (hd (pending s)) \<le> now s"
  shows "\<exists>s'. CheckIfDue delayedLoad callback advanceClock s = Inr (True, s') \<and>
    ok s' \<and> level s' = IntOff \<and> status s' = status s \<and>
    now s' = max (whent (hd (pending s))) (now s) \<and> (\<forall>p\<in>set (pending s'). now s' < whent p) \<and>
    (\<forall>p\<in>set (pending s). now s' < whent p \<longrightarrow> p \<in> set (pending s'))"
proof -
  let ?s = "handler_start s"
  obtain s1 where s1: "for_each fire (takeWhile (due (now ?s)) (pending s)) ?s = Inr s1" "ok s1"
    "now s1 = now ?s" "level s1 = level s" "status s1 = status s"
    "takeWhile (due (now s1)) (pending s1) = []"
    "\<forall>p\<in>set (pending s). now ?s < whent p \<longrightarrow> p \<in> set (pending s1)"
    using for_each_fire_ok [OF handler_start_ok(1) [OF s(1)] handler_start_ok(3) refl]
    unfolding handler_start_ok(2,5,6) by blast
  let ?r = "s1\<lparr>inHandler := False\<rparr>"
  have "now ?r = max (whent (hd (pending s))) (now s)" using s1(3) by (simp add: handler_start_ok)
  moreover have "CheckIfDue delayedLoad callback advanceClock s = Inr (True, ?r)"
    unfolding CheckIfDue_fires [OF s d] by (simp add: s1(1))
  moreover have "\<forall>p\<in>set (pending ?r). now ?r < whent p"
    using none_due [OF ok_ints [OF s1(2)] s1(6)] by simp
  moreover have "\<forall>p\<in>set (pending s). now ?r < whent p \<longrightarrow> p \<in> set (pending ?r)"
    using s1(3,7) by simp
  moreover have "ok ?r" "level ?r = IntOff" "status ?r = status s" using s1 s(2) by (simp_all add: ok_flags)
  ultimately show ?thesis by (intro exI [of _ ?r] conjI)
qed

lemma CheckIfDue_total:
  assumes s: "ok s" "level s = IntOff"
  shows "\<exists>b s'. CheckIfDue delayedLoad callback advanceClock s = Inr (b, s') \<and> ok s' \<and> level s' = IntOff \<and>
    now s \<le> now s' \<and> (\<not> advanceClock \<longrightarrow> now s' = now s) \<and> (\<forall>p\<in>set (pending s'). now s' < whent p)"
proof (cases "pending s = [] \<or> \<not> advanceClock \<and> now s < whent (hd (pending s))")
  case True
  then have "takeWhile (due (now s)) (pending s) = []" by (cases "pending s") auto
  then have "\<forall>p\<in>set (pending s). now s < whent p" using none_due [OF ok_ints [OF s(1)]] by blast
  with s show ?thesis unfolding CheckIfDue_quiet [OF s(2) True] by (intro exI conjI impI) auto
next
  case False
  then have d: "pending s \<noteq> []" "advanceClock \<or> whent (hd (pending s)) \<le> now s" by auto
  obtain s' where "CheckIfDue delayedLoad callback advanceClock s = Inr (True, s')" "ok s'" "level s' = IntOff"
      "now s' = max (whent (hd (pending s))) (now s)" "\<forall>p\<in>set (pending s'). now s' < whent p"
    using CheckIfDue_fired [OF s d] by blast
  moreover from this(4) d(2) have "now s \<le> now s'" "\<not> advanceClock \<longrightarrow> now s' = now s" by auto
  ultimately show ?thesis by blast
qed

end

end
