(* ===== verification/Devices.thy ===== *)
theory Devices
  imports Interrupt
begin

text \<open>
  The simulated hardware: timer and software alarm (\<open>machine/timer.cc\<close>, \<open>threads/alarm.cc\<close>),
  console (\<open>machine/console.cc\<close>, \<open>userprog/synchconsole.cc\<close>), disk (\<open>machine/disk.cc\<close>,
  \<open>filesys/synchdisk.cc\<close>) and network interface (\<open>machine/network.cc\<close>).  The record \<open>Hardware\<close>
  extends the interrupt state with the fields of these classes.  What the host operating system
  delivers is a field too: \<open>keyboard\<close> and \<open>net_sock\<close> list the outcomes of the successive polls,
  \<open>randoms\<close> the successive values of \<open>RandomNumber\<close>.  A semaphore is its counter here; the
  waiting threads are the subject of the theories on threads.
\<close>

datatype poll = NoInput | EndOfFile | KeyTyped byte

definition EOFc :: byte where
  "EOFc = - 1"

record Hardware = Interrupt +
  hostName :: int
  randomize :: bool
  timer_disable :: bool
  randoms :: "int list"
  incoming :: byte
  keyboard :: "poll list"
  conin_waitFor :: nat
  putBusy :: bool
  display :: "byte list"
  conout_waitFor :: nat
  active :: bool
  lastSector :: int
  bufferInit :: int
  disk_file :: "nat \<Rightarrow> byte"
  disk_semaphore :: nat
  net_sock :: "byte list option list"
  current_packet :: "byte list"
  messageAvailable :: nat
  sendBusy :: bool
  wire :: "(string \<times> byte list) list"

section \<open>Timer and alarm\<close>

definition RandomNumber :: "'a Hardware_scheme \<Rightarrow> int \<times> 'a Hardware_scheme" where
  "RandomNumber s = (case randoms s of [] \<Rightarrow> (0, s) | r # rs \<Rightarrow> (r, s\<lparr>randoms := rs\<rparr>))"

definition Timer_SetInterrupt :: "'a Hardware_scheme \<Rightarrow> 'a Hardware_scheme res" where
  "Timer_SetInterrupt s =
     (if \<not> timer_disable s then
        let (delay, s) = (if randomize s
                          then let (r, s) = RandomNumber s in (1 + r mod (TimerTicks * 2), s)
                          else (TimerTicks, s)) in
        Schedule DevTimer delay TimerInt s
      else Inr s)"

definition Alarm_CallBack :: "'a Hardware_scheme \<Rightarrow> 'a Hardware_scheme res" where
  "Alarm_CallBack s = (if status s \<noteq> IdleMode then YieldOnReturn s else Inr s)"

definition Timer_CallBack :: "'a Hardware_scheme \<Rightarrow> 'a Hardware_scheme res" where
  "Timer_CallBack s = rbind (Alarm_CallBack s) Timer_SetInterrupt"

definition Timer_new :: "bool \<Rightarrow> 'a Hardware_scheme \<Rightarrow> 'a Hardware_scheme res" where
  "Timer_new doRandom s = Timer_SetInterrupt (s\<lparr>randomize := doRandom, timer_disable := False\<rparr>)"

definition Timer_Disable :: "'a Hardware_scheme \<Rightarrow> 'a Hardware_scheme" where
  "Timer_Disable s = s\<lparr>timer_disable := True\<rparr>"

section \<open>Console\<close>

definition poll_keyboard :: "'a Hardware_scheme \<Rightarrow> poll \<times> 'a Hardware_scheme" where
  "poll_keyboard s = (case keyboard s of [] \<Rightarrow> (NoInput, s) | k # ks \<Rightarrow> (k, s\<lparr>keyboard := ks\<rparr>))"

definition SynchConsoleInput_CallBack :: "'a Hardware_scheme \<Rightarrow> 'a Hardware_scheme" where
  "SynchConsoleInput_CallBack s = s\<lparr>conin_waitFor := conin_waitFor s + 1\<rparr>"

definition ConsoleInput_new :: "'a Hardware_scheme \<Rightarrow> 'a Hardware_scheme res" where
  "ConsoleInput_new s = Schedule DevConsoleIn ConsoleTime ConsoleReadInt (s\<lparr>incoming := EOFc\<rparr>)"

definition ConsoleInput_CallBack :: "'a Hardware_scheme \<Rightarrow> 'a Hardware_scheme res" where
  "ConsoleInput_CallBack s =
     rbind (ASSERT (incoming s = EOFc)) (\<lambda>_.
     let (k, s) = poll_keyboard s in
     case k of
       NoInput \<Rightarrow> Schedule DevConsoleIn ConsoleTime ConsoleReadInt s
     | EndOfFile \<Rightarrow> Inr (SynchConsoleInput_CallBack s)
     | KeyTyped c \<Rightarrow> Inr (SynchConsoleInput_CallBack (s\<lparr>incoming := c,
         stats := (stats s)\<lparr>numConsoleCharsRead := numConsoleCharsRead (stats s) + 1\<rparr>\<rparr>)))"

definition ConsoleInput_GetChar :: "'a Hardware_scheme \<Rightarrow> (byte \<times> 'a Hardware_scheme) res" where
  "ConsoleInput_GetChar s =
     (let ch = incoming s in
      rbind (if incoming s \<noteq> EOFc then Schedule DevConsoleIn ConsoleTime ConsoleReadInt s else Inr s) (\<lambda>s.
      Inr (ch, s\<lparr>incoming := EOFc\<rparr>)))"

definition SynchConsoleOutput_CallBack :: "'a Hardware_scheme \<Rightarrow> 'a Hardware_scheme" where
  "SynchConsoleOutput_CallBack s = s\<lparr>conout_waitFor := conout_waitFor s + 1\<rparr>"

definition ConsoleOutput_new :: "'a Hardware_scheme \<Rightarrow> 'a Hardware_scheme" where
  "ConsoleOutput_new s = s\<lparr>putBusy := False\<rparr>"

definition ConsoleOutput_CallBack :: "'a Hardware_scheme \<Rightarrow> 'a Hardware_scheme" where
  "ConsoleOutput_CallBack s = SynchConsoleOutput_CallBack (s\<lparr>putBusy := False,
     stats := (stats s)\<lparr>numConsoleCharsWritten := numConsoleCharsWritten (stats s) + 1\<rparr>\<rparr>)"

definition ConsoleOutput_PutChar :: "byte \<Rightarrow> 'a Hardware_scheme \<Rightarrow> 'a Hardware_scheme res" where
  "ConsoleOutput_PutChar ch s =
     rbind (ASSERT (\<not> putBusy s)) (\<lambda>_.
     Schedule DevConsoleOut ConsoleTime ConsoleWriteInt (s\<lparr>display := display s @ [ch], putBusy := True\<rparr>))"

section \<open>Disk\<close>

definition SectorSize :: int where "SectorSize = 128"
definition SectorsPerTrack :: int where "SectorsPerTrack = 32"
definition NumTracks :: int where "NumTracks = 32"
definition NumSectors :: int where "NumSectors = SectorsPerTrack * NumTracks"
definition MagicSize :: int where "MagicSize = 4"

lemmas disk_consts = SectorSize_def SectorsPerTrack_def NumTracks_def NumSectors_def MagicSize_def

text \<open>\<open>Lseek\<close> followed by \<open>Read\<close> or \<open>WriteFile\<close> on the UNIX file that holds the disk.\<close>

definition file_read :: "(nat \<Rightarrow> byte) \<Rightarrow> nat \<Rightarrow> nat \<Rightarrow> byte list" where
  "file_read f off n = map (\<lambda>i. f (off + i)) [0..<n]"

definition file_write :: "(nat \<Rightarrow> byte) \<Rightarrow> nat \<Rightarrow> byte list \<Rightarrow> nat \<Rightarrow> byte" where
  "file_write f off bs = (\<lambda>i. if off \<le> i \<and> i < off + length bs then bs ! (i - off) else f i)"

definition sector_offset :: "int \<Rightarrow> nat" where
  "sector_offset sectorNumber = nat (SectorSize * sectorNumber + MagicSize)"

definition MagicNumber :: "byte list" where
  "MagicNumber = [0xab, 0x89, 0x67, 0x45]"

definition DiskSize :: int where
  "DiskSize = MagicSize + NumSectors * SectorSize"

text \<open>\<open>exists\<close> says whether the file \<open>DISK_n\<close> was found; a new file starts out empty and reads as
  zeros once its last word has been written.\<close>

definition Disk_new :: "bool \<Rightarrow> 'a Hardware_scheme \<Rightarrow> 'a Hardware_scheme res" where
  "Disk_new exists s =
     (let s = s\<lparr>lastSector := 0, bufferInit := 0\<rparr> in
      rbind (if exists
             then rbind (ASSERT (file_read (disk_file s) 0 (nat MagicSize) = MagicNumber)) (\<lambda>_. Inr s)
             else let f = file_write (\<lambda>_. 0) 0 MagicNumber;
                      f = file_write f (nat (DiskSize - 4)) [0, 0, 0, 0] in
                  Inr (s\<lparr>disk_file := f\<rparr>)) (\<lambda>s.
      Inr (s\<lparr>active := False\<rparr>)))"

definition TimeToSeek :: "int \<Rightarrow> 'a Hardware_scheme \<Rightarrow> int \<times> int" where
  "TimeToSeek newSector s =
     (let newTrack = newSector sdiv SectorsPerTrack;
          oldTrack = lastSector s sdiv SectorsPerTrack;
          seek = \<bar>newTrack - oldTrack\<bar> * SeekTime;
          over = (totalTicks (stats s) + seek) smod RotationTime;
          rotation = (if over > 0 then RotationTime - over else 0) in
      (seek, rotation))"

definition ModuloDiff :: "int \<Rightarrow> int \<Rightarrow> int" where
  "ModuloDiff to from =
     (let toOffset = to smod SectorsPerTrack;
          fromOffset = from smod SectorsPerTrack in
      ((toOffset - fromOffset) + SectorsPerTrack) smod SectorsPerTrack)"

definition ComputeLatency :: "int \<Rightarrow> bool \<Rightarrow> 'a Hardware_scheme \<Rightarrow> int" where
  "ComputeLatency newSector writing s =
     (let (seek, rotation) = TimeToSeek newSector s;
          timeAfter = totalTicks (stats s) + seek + rotation in
      if \<not> writing \<and> seek = 0 \<and>
         (timeAfter - bufferInit s) sdiv RotationTime > ModuloDiff newSector (bufferInit s sdiv RotationTime)
      then RotationTime
      else
        let rotation = rotation + ModuloDiff newSector (timeAfter sdiv RotationTime) * RotationTime in
        seek + rotation + RotationTime)"

definition UpdateLast :: "int \<Rightarrow> 'a Hardware_scheme \<Rightarrow> 'a Hardware_scheme" where
  "UpdateLast newSector s =
     (let (seek, rotate) = TimeToSeek newSector s;
          s = (if seek \<noteq> 0 then s\<lparr>bufferInit := totalTicks (stats s) + seek + rotate\<rparr> else s) in
      s\<lparr>lastSector := newSector\<rparr>)"

definition Disk_ReadRequest :: "int \<Rightarrow> 'a Hardware_scheme \<Rightarrow> (byte list \<times> 'a Hardware_scheme) res" where
  "Disk_ReadRequest sectorNumber s =
     (let ticks = ComputeLatency sectorNumber False s in
      rbind (ASSERT (\<not> active s)) (\<lambda>_.
      rbind (ASSERT (sectorNumber \<ge> 0 \<and> sectorNumber < NumSectors)) (\<lambda>_.
      let data = file_read (disk_file s) (sector_offset sectorNumber) (nat SectorSize);
          s = UpdateLast sectorNumber (s\<lparr>active := True\<rparr>);
          s = s\<lparr>stats := (stats s)\<lparr>numDiskReads := numDiskReads (stats s) + 1\<rparr>\<rparr> in
      rbind (Schedule DevDisk ticks DiskInt s) (\<lambda>s. Inr (data, s)))))"

definition Disk_WriteRequest :: "int \<Rightarrow> byte list \<Rightarrow> 'a Hardware_scheme \<Rightarrow> 'a Hardware_scheme res" where
  "Disk_WriteRequest sectorNumber data s =
     (let ticks = ComputeLatency sectorNumber True s in
      rbind (ASSERT (\<not> active s)) (\<lambda>_.
      rbind (ASSERT (sectorNumber \<ge> 0 \<and> sectorNumber < NumSectors)) (\<lambda>_.
      rbind (if int (length data) < SectorSize then Inl OutOfRange else Inr ()) (\<lambda>_.
      let s = s\<lparr>disk_file := file_write (disk_file s) (sector_offset sectorNumber) (take (nat SectorSize) data)\<rparr>;
          s = UpdateLast sectorNumber (s\<lparr>active := True\<rparr>);
          s = s\<lparr>stats := (stats s)\<lparr>numDiskWrites := numDiskWrites (stats s) + 1\<rparr>\<rparr> in
      Schedule DevDisk ticks DiskInt s))))"

definition SynchDisk_CallBack :: "'a Hardware_scheme \<Rightarrow> 'a Hardware_scheme" where
  "SynchDisk_CallBack s = s\<lparr>disk_semaphore := disk_semaphore s + 1\<rparr>"

definition Disk_CallBack :: "'a Hardware_scheme \<Rightarrow> 'a Hardware_scheme" where
  "Disk_CallBack s = SynchDisk_CallBack (s\<lparr>active := False\<rparr>)"

section \<open>Network interface\<close>

definition PacketBytes :: nat where "PacketBytes = 1526"

definition Ethernet_Layer_CallBack :: "'a Hardware_scheme \<Rightarrow> 'a Hardware_scheme" where
  "Ethernet_Layer_CallBack s = s\<lparr>messageAvailable := messageAvailable s + 1\<rparr>"

definition NetworkInput_new :: "'a Hardware_scheme \<Rightarrow> 'a Hardware_scheme res" where
  "NetworkInput_new s = Schedule DevNetworkIn NetworkTime NetworkRecvInt s"

definition poll_socket :: "'a Hardware_scheme \<Rightarrow> byte list option \<times> 'a Hardware_scheme" where
  "poll_socket s = (case net_sock s of [] \<Rightarrow> (None, s) | m # ms \<Rightarrow> (m, s\<lparr>net_sock := ms\<rparr>))"

text \<open>A datagram shorter than a packet leaves the tail of the freshly allocated buffer
  undefined; the model takes packets of full size, which is what both senders produce.\<close>

definition NetworkInput_CallBack :: "'a Hardware_scheme \<Rightarrow> 'a Hardware_scheme res" where
  "NetworkInput_CallBack s =
     rbind (Schedule DevNetworkIn NetworkTime NetworkRecvInt s) (\<lambda>s.
     let (m, s) = poll_socket s in
     case m of
       None \<Rightarrow> Inr s
     | Some buffer \<Rightarrow> Inr (Ethernet_Layer_CallBack (s\<lparr>current_packet := take PacketBytes buffer,
         stats := (stats s)\<lparr>numPacketsRecvd := numPacketsRecvd (stats s) + 1\<rparr>\<rparr>)))"

definition NetworkInput_Receive :: "'a Hardware_scheme \<Rightarrow> byte list" where
  "NetworkInput_Receive s = current_packet s"

definition NetworkOutput_new :: "'a Hardware_scheme \<Rightarrow> 'a Hardware_scheme" where
  "NetworkOutput_new s = s\<lparr>sendBusy := False\<rparr>"

definition NetworkOutput_CallBack :: "'a Hardware_scheme \<Rightarrow> 'a Hardware_scheme" where
  "NetworkOutput_CallBack s = s\<lparr>sendBusy := False,
     stats := (stats s)\<lparr>numPacketsSent := numPacketsSent (stats s) + 1\<rparr>\<rparr>"

definition NetworkOutput_Send :: "byte list \<Rightarrow> 'a Hardware_scheme \<Rightarrow> 'a Hardware_scheme res" where
  "NetworkOutput_Send buffer s =
     (let toName = ''/tmp/switch'' @ to_string (hostName s) in
      rbind (Schedule DevNetworkOut NetworkTime NetworkSendInt s) (\<lambda>s.
      Inr (s\<lparr>wire := wire s @ [(toName, take PacketBytes buffer)]\<rparr>)))"

section \<open>Dispatch, and waiting for a device\<close>

definition device_callback :: "device \<Rightarrow> 'a Hardware_scheme \<Rightarrow> 'a Hardware_scheme res" where
  "device_callback d s = (case d of
       DevTimer \<Rightarrow> Timer_CallBack s
     | DevDisk \<Rightarrow> Inr (Disk_CallBack s)
     | DevConsoleOut \<Rightarrow> Inr (ConsoleOutput_CallBack s)
     | DevConsoleIn \<Rightarrow> ConsoleInput_CallBack s
     | DevNetworkOut \<Rightarrow> Inr (NetworkOutput_CallBack s)
     | DevNetworkIn \<Rightarrow> NetworkInput_CallBack s)"

text \<open>A thread that has to wait while no other thread can run: the machine idles from interrupt to
  interrupt (the loop of \<open>Thread::Sleep\<close>) until the awaited condition holds.  Interrupts are off
  all the time.  \<open>Halted\<close> is the halt of an idle machine with nothing pending.\<close>

fun idle_until :: "nat \<Rightarrow> ('a Hardware_scheme \<Rightarrow> bool) \<Rightarrow> 'a Hardware_scheme \<Rightarrow> 'a Hardware_scheme res" where
  "idle_until 0 ready s = (if ready s then Inr s else Inl Diverges)"
| "idle_until (Suc n) ready s =
     (if ready s then Inr s
      else rbind (Idle (\<lambda>s. s) device_callback s) (\<lambda>(go, s). if go then idle_until n ready s else Inl Halted))"

definition disk_P :: "nat \<Rightarrow> 'a Hardware_scheme \<Rightarrow> 'a Hardware_scheme res" where
  "disk_P n s = rbind (idle_until n (\<lambda>s. disk_semaphore s > 0) s) (\<lambda>s.
     Inr (s\<lparr>disk_semaphore := disk_semaphore s - 1\<rparr>))"

definition conin_P :: "nat \<Rightarrow> 'a Hardware_scheme \<Rightarrow> 'a Hardware_scheme res" where
  "conin_P n s = rbind (idle_until n (\<lambda>s. conin_waitFor s > 0) s) (\<lambda>s.
     Inr (s\<lparr>conin_waitFor := conin_waitFor s - 1\<rparr>))"

definition conout_P :: "nat \<Rightarrow> 'a Hardware_scheme \<Rightarrow> 'a Hardware_scheme res" where
  "conout_P n s = rbind (idle_until n (\<lambda>s. conout_waitFor s > 0) s) (\<lambda>s.
     Inr (s\<lparr>conout_waitFor := conout_waitFor s - 1\<rparr>))"

text \<open>The synchronous devices, over the semaphore and lock operations they are given.\<close>

definition SynchDisk_ReadSector ::
  "('a Hardware_scheme \<Rightarrow> 'a Hardware_scheme res) \<Rightarrow> ('a Hardware_scheme \<Rightarrow> 'a Hardware_scheme res) \<Rightarrow>
   ('a Hardware_scheme \<Rightarrow> 'a Hardware_scheme res) \<Rightarrow> int \<Rightarrow> 'a Hardware_scheme \<Rightarrow>
   (byte list \<times> 'a Hardware_scheme) res" where
  "SynchDisk_ReadSector acquire semP release sectorNumber s =
     rbind (acquire s) (\<lambda>s.
     rbind (Disk_ReadRequest sectorNumber s) (\<lambda>(data, s).
     rbind (semP s) (\<lambda>s.
     rbind (release s) (\<lambda>s. Inr (data, s)))))"

definition SynchDisk_WriteSector ::
  "('a Hardware_scheme \<Rightarrow> 'a Hardware_scheme res) \<Rightarrow> ('a Hardware_scheme \<Rightarrow> 'a Hardware_scheme res) \<Rightarrow>
   ('a Hardware_scheme \<Rightarrow> 'a Hardware_scheme res) \<Rightarrow> int \<Rightarrow> byte list \<Rightarrow> 'a Hardware_scheme \<Rightarrow>
   'a Hardware_scheme res" where
  "SynchDisk_WriteSector acquire semP release sectorNumber data s =
     rbind (acquire s) (\<lambda>s.
     rbind (Disk_WriteRequest sectorNumber data s) (\<lambda>s.
     rbind (semP s) release))"

definition SynchConsoleInput_GetChar ::
  "('a Hardware_scheme \<Rightarrow> 'a Hardware_scheme res) \<Rightarrow> ('a Hardware_scheme \<Rightarrow> 'a Hardware_scheme res) \<Rightarrow>
   ('a Hardware_scheme \<Rightarrow> 'a Hardware_scheme res) \<Rightarrow> 'a Hardware_scheme \<Rightarrow> (byte \<times> 'a Hardware_scheme) res" where
  "SynchConsoleInput_GetChar acquire semP release s =
     rbind (acquire s) (\<lambda>s. rbind (semP s) (\<lambda>s.
     rbind (ConsoleInput_GetChar s) (\<lambda>(ch, s).
     rbind (release s) (\<lambda>s. Inr (ch, s)))))"

text \<open>\<open>GetString\<close> fills the buffer one character at a time; the result is the return value and
  the characters stored.\<close>

fun GetString_loop ::
  "('a Hardware_scheme \<Rightarrow> (byte \<times> 'a Hardware_scheme) res) \<Rightarrow> nat \<Rightarrow> byte list \<Rightarrow> 'a Hardware_scheme \<Rightarrow>
   (bool \<times> byte list \<times> 'a Hardware_scheme) res" where
  "GetString_loop getChar 0 buffer s = Inr (True, buffer, s)"
| "GetString_loop getChar (Suc n) buffer s =
     rbind (getChar s) (\<lambda>(c, s).
     if c = EOFc then Inr (False, buffer @ [0], s)
     else GetString_loop getChar n (buffer @ [c]) s)"

definition SynchConsoleInput_GetString ::
  "('a Hardware_scheme \<Rightarrow> (byte \<times> 'a Hardware_scheme) res) \<Rightarrow> int \<Rightarrow> 'a Hardware_scheme \<Rightarrow>
   (int \<times> byte list \<times> 'a Hardware_scheme) res" where
  "SynchConsoleInput_GetString getChar sz s =
     rbind (GetString_loop getChar (nat sz) [] s) (\<lambda>(full, buffer, s).
     Inr (if full then sz else - 2, buffer, s))"

definition SynchConsoleOutput_PutChar ::
  "('a Hardware_scheme \<Rightarrow> 'a Hardware_scheme res) \<Rightarrow> ('a Hardware_scheme \<Rightarrow> 'a Hardware_scheme res) \<Rightarrow>
   ('a Hardware_scheme \<Rightarrow> 'a Hardware_scheme res) \<Rightarrow> byte \<Rightarrow> 'a Hardware_scheme \<Rightarrow> 'a Hardware_scheme res" where
  "SynchConsoleOutput_PutChar acquire semP release ch s =
     rbind (acquire s) (\<lambda>s. rbind (ConsoleOutput_PutChar ch s) (\<lambda>s.
     rbind (semP s) release))"

definition SynchConsoleOutput_PutString ::
  "(byte \<Rightarrow> 'a Hardware_scheme \<Rightarrow> 'a Hardware_scheme res) \<Rightarrow> byte list \<Rightarrow> 'a Hardware_scheme \<Rightarrow>
   (int \<times> 'a Hardware_scheme) res" where
  "SynchConsoleOutput_PutString putChar buffer s =
     rbind (for_each putChar buffer s) (\<lambda>s. Inr (int (length buffer), s))"

section \<open>The hardware invariant\<close>

definition num_pending :: "device \<Rightarrow> 'a Interrupt_scheme \<Rightarrow> nat" where
  "num_pending d s = length (filter (\<lambda>p. callOnInterrupt p = d) (pending s))"

definition hw_ok :: "'a Hardware_scheme \<Rightarrow> bool" where
  "hw_ok s \<longleftrightarrow> ints_ok s \<and> (\<forall>r\<in>set (randoms s). 0 \<le> r)
     \<and> num_pending DevConsoleIn s \<le> (if incoming s = EOFc then 1 else 0)
     \<and> num_pending DevDisk s = (if active s then 1 else 0)
     \<and> num_pending DevConsoleOut s = (if putBusy s then 1 else 0)"

lemma length_filter_insort:
  "length (filter P (insort_cmp cmp x xs)) = length (filter P xs) + (if P x then 1 else 0)"
  by (induction xs) auto

lemma num_pending_scheduled [simp]:
  "num_pending d (scheduled d' t ty s) = num_pending d s + (if d = d' then 1 else 0)"
  by (simp add: num_pending_def scheduled_def length_filter_insort)

lemma num_pending_cong: "pending s' = pending s \<Longrightarrow> num_pending d s' = num_pending d s"
  by (simp add: num_pending_def)

lemma hardware_scheduled [simp]:
  "incoming (scheduled d t ty s) = incoming s" "active (scheduled d t ty s) = active s"
  "randoms (scheduled d t ty s) = randoms s" "disk_file (scheduled d t ty s) = disk_file s"
  "disk_semaphore (scheduled d t ty s) = disk_semaphore s" "hostName (scheduled d t ty s) = hostName s"
  "wire (scheduled d t ty s) = wire s" "net_sock (scheduled d t ty s) = net_sock s"
  "messageAvailable (scheduled d t ty s) = messageAvailable s"
  "current_packet (scheduled d t ty s) = current_packet s" "keyboard (scheduled d t ty s) = keyboard s"
  "conin_waitFor (scheduled d t ty s) = conin_waitFor s" "putBusy (scheduled d t ty s) = putBusy s"
  "conout_waitFor (scheduled d t ty s) = conout_waitFor s" "display (scheduled d t ty s) = display s"
  "lastSector (scheduled d t ty s) = lastSector s" "bufferInit (scheduled d t ty s) = bufferInit s"
  by (simp_all add: scheduled_def)

lemma set_pending_scheduled: "set (pending s) \<subseteq> set (pending (scheduled d t ty s))"
  by (auto simp: scheduled_def)

lemma ints_ok_upd [simp]:
  "ints_ok (s\<lparr>stats := x1\<rparr>) = ints_ok s" "ints_ok (s\<lparr>level := x2\<rparr>) = ints_ok s"
  "ints_ok (s\<lparr>inHandler := x3\<rparr>) = ints_ok s" "ints_ok (s\<lparr>yieldOnReturn := x4\<rparr>) = ints_ok s"
  "ints_ok (s\<lparr>status := x5\<rparr>) = ints_ok s"
  by (simp_all add: ints_ok_def)

lemma ints_ok_hw [simp]:
  "ints_ok (h\<lparr>randoms := y1\<rparr>) = ints_ok h" "ints_ok (h\<lparr>incoming := y2\<rparr>) = ints_ok h"
  "ints_ok (h\<lparr>keyboard := y3\<rparr>) = ints_ok h" "ints_ok (h\<lparr>conin_waitFor := y4\<rparr>) = ints_ok h"
  "ints_ok (h\<lparr>putBusy := y5\<rparr>) = ints_ok h" "ints_ok (h\<lparr>display := y6\<rparr>) = ints_ok h"
  "ints_ok (h\<lparr>conout_waitFor := y7\<rparr>) = ints_ok h" "ints_ok (h\<lparr>active := y8\<rparr>) = ints_ok h"
  "ints_ok (h\<lparr>lastSector := y9\<rparr>) = ints_ok h" "ints_ok (h\<lparr>bufferInit := y10\<rparr>) = ints_ok h"
  "ints_ok (h\<lparr>disk_file := y11\<rparr>) = ints_ok h" "ints_ok (h\<lparr>disk_semaphore := y12\<rparr>) = ints_ok h"
  "ints_ok (h\<lparr>net_sock := y13\<rparr>) = ints_ok h" "ints_ok (h\<lparr>current_packet := y14\<rparr>) = ints_ok h"
  "ints_ok (h\<lparr>messageAvailable := y15\<rparr>) = ints_ok h" "ints_ok (h\<lparr>sendBusy := y16\<rparr>) = ints_ok h"
  "ints_ok (h\<lparr>wire := y17\<rparr>) = ints_ok h" "ints_ok (h\<lparr>timer_disable := y18\<rparr>) = ints_ok h"
  "ints_ok (h\<lparr>randomize := y19\<rparr>) = ints_ok h"
  for h :: "'a Hardware_scheme"
  by (simp_all add: ints_ok_def)

text \<open>What the handler of the keyboard does with the next result of its poll.\<close>

definition key_state :: "'a Hardware_scheme \<Rightarrow> byte \<times> poll list \<times> nat" where
  "key_state s = (incoming s, keyboard s, conin_waitFor s)"

fun key_step :: "byte \<times> poll list \<times> nat \<Rightarrow> byte \<times> poll list \<times> nat" where
  "key_step (ch, [], w) = (ch, [], w)"
| "key_step (ch, NoInput # ks, w) = (ch, ks, w)"
| "key_step (ch, EndOfFile # ks, w) = (ch, ks, w + 1)"
| "key_step (ch, KeyTyped c # ks, w) = (c, ks, w + 1)"

lemma Schedule_keys: "Schedule d t ty s = Inr s' \<Longrightarrow> key_state s' = key_state s"
  by (auto simp: Schedule_def new_PendingInterrupt_def key_state_def Let_def rbind_Inr_iff)

lemma device_callback_keys:
  assumes "device_callback d s = Inr s'"
  shows "key_state s' = (if d = DevConsoleIn then key_step (key_state s) else key_state s)"
proof (cases d)
  case DevConsoleIn
  then show ?thesis using assms
    by (auto simp: device_callback_def ConsoleInput_CallBack_def poll_keyboard_def SynchConsoleInput_CallBack_def rbind_Inr_iff
        key_state_def dest!: Schedule_keys split: list.splits poll.splits)
next
  case DevTimer
  then show ?thesis using assms
    by (auto simp: device_callback_def Timer_CallBack_def Alarm_CallBack_def YieldOnReturn_def Timer_SetInterrupt_def
        RandomNumber_def rbind_Inr_iff Let_def dest!: Schedule_keys split: list.splits if_splits) (auto simp: key_state_def)
next
  case DevNetworkIn
  then obtain x where x: "Schedule DevNetworkIn NetworkTime NetworkRecvInt s = Inr x"
      "(let (m, s) = poll_socket x in case m of None \<Rightarrow> Inr s | Some buffer \<Rightarrow> Inr (Ethernet_Layer_CallBack
         (s\<lparr>current_packet := take PacketBytes buffer, stats := (stats s)\<lparr>numPacketsRecvd := numPacketsRecvd (stats s) + 1\<rparr>\<rparr>))) = (Inr s' :: _ res)"
    using assms by (auto simp: device_callback_def NetworkInput_CallBack_def rbind_Inr_iff)
  have "key_state s' = key_state x" using x(2)
    by (cases "net_sock x"; cases "hd (net_sock x)") (auto simp: poll_socket_def Ethernet_Layer_CallBack_def key_state_def)
  then show ?thesis using DevNetworkIn Schedule_keys [OF x(1)] by simp
qed (use assms in \<open>auto simp: device_callback_def Disk_CallBack_def SynchDisk_CallBack_def ConsoleOutput_CallBack_def
    SynchConsoleOutput_CallBack_def NetworkOutput_CallBack_def key_state_def\<close>)

text \<open>What is true after a handler, relative to the state it was called in.\<close>

definition handled :: "device \<Rightarrow> 'a Hardware_scheme \<Rightarrow> 'a Hardware_scheme \<Rightarrow> bool" where
  "handled d s s' \<longleftrightarrow> hw_ok s' \<and> inHandler s' = inHandler s \<and> now s' = now s \<and> level s' = level s \<and>
     status s' = status s \<and> set (pending s) \<subseteq> set (pending s') \<and>
     takeWhile (due (now s)) (pending s') = takeWhile (due (now s)) (pending s) \<and>
     disk_file s' = disk_file s \<and>
     disk_semaphore s' = disk_semaphore s + (if d = DevDisk then 1 else 0) \<and>
     conout_waitFor s' = conout_waitFor s + (if d = DevConsoleOut then 1 else 0) \<and>
     active s' = (active s \<and> d \<noteq> DevDisk) \<and> putBusy s' = (putBusy s \<and> d \<noteq> DevConsoleOut) \<and>
     lastSector s' = lastSector s \<and> display s' = display s \<and> wire s' = wire s"

text \<open>The state of the devices just after the interrupt of \<open>d\<close> left the list.\<close>

definition popped :: "device \<Rightarrow> 'a Hardware_scheme \<Rightarrow> bool" where
  "popped d s \<longleftrightarrow> ints_ok s \<and> (\<forall>r\<in>set (randoms s). 0 \<le> r)
     \<and> num_pending DevConsoleIn s + (if d = DevConsoleIn then 1 else 0) \<le> (if incoming s = EOFc then 1 else 0)
     \<and> num_pending DevDisk s + (if d = DevDisk then 1 else 0) = (if active s then 1 else 0)
     \<and> num_pending DevConsoleOut s + (if d = DevConsoleOut then 1 else 0) = (if putBusy s then 1 else 0)"

lemma hw_ok_pop:
  assumes "hw_ok s" "pending s = p # ps"
  shows "popped (callOnInterrupt p) (s\<lparr>pending := ps\<rparr>)"
  using assms ints_ok_pop [of s p ps] by (auto simp: hw_ok_def popped_def num_pending_def split: if_splits)

text \<open>Two states that agree on what these predicates look at.\<close>

definition like :: "'a Hardware_scheme \<Rightarrow> 'a Hardware_scheme \<Rightarrow> bool" where
  "like s s1 \<longleftrightarrow> pending s1 = pending s \<and> next_pid s1 = next_pid s \<and> now s1 = now s \<and> level s1 = level s \<and>
     status s1 = status s \<and> inHandler s1 = inHandler s \<and> disk_file s1 = disk_file s \<and>
     disk_semaphore s1 = disk_semaphore s \<and> conout_waitFor s1 = conout_waitFor s \<and> display s1 = display s \<and>
     wire s1 = wire s \<and> putBusy s1 = putBusy s \<and> lastSector s1 = lastSector s \<and> incoming s1 = incoming s \<and> active s1 = active s \<and> set (randoms s1) \<subseteq> set (randoms s)"

lemma like_popped: "like s s1 \<Longrightarrow> popped d s \<Longrightarrow> popped d s1"
  by (auto simp: like_def popped_def num_pending_def ints_ok_def)

lemma like_handled: "like s s1 \<Longrightarrow> handled d s1 x \<Longrightarrow> handled d s x"
  by (simp add: like_def handled_def)

lemma like_hw_ok: "like s s1 \<Longrightarrow> hw_ok s \<Longrightarrow> hw_ok s1"
  by (auto simp: like_def hw_ok_def num_pending_def ints_ok_def)

lemma handled_like: "handled d s x \<Longrightarrow> like x y \<Longrightarrow> handled d s y"
  using like_hw_ok [of x y] by (simp add: like_def handled_def)

lemma like_refl: "like s s"
  by (simp add: like_def)

lemma popped_sched:
  assumes "popped d s" "0 < t" "d = DevTimer \<or> d = DevConsoleIn \<or> d = DevNetworkIn"
  shows "Schedule d t ty s = Inr (scheduled d t ty s)" "handled d s (scheduled d t ty s)"
proof -
  have i: "ints_ok s" using assms(1) by (simp add: popped_def)
  show "Schedule d t ty s = Inr (scheduled d t ty s)" using Schedule_ok(1) [OF i assms(2)] .
  have "hw_ok (scheduled d t ty s)"
    using assms Schedule_ok(2) [OF i assms(2), of d ty] by (auto simp: hw_ok_def popped_def split: if_splits)
  then show "handled d s (scheduled d t ty s)"
    using assms(2,3) set_pending_scheduled [of s d t ty] by (auto simp: handled_def takeWhile_due_scheduled)
qed

lemma RandomNumber_like:
  assumes "RandomNumber s = (r, s1)" shows "like s s1"
  using assms by (auto simp: RandomNumber_def like_def split: list.splits)

lemma RandomNumber_nonneg:
  assumes "RandomNumber s = (r, s1)" "popped d s" shows "0 \<le> r"
  using assms by (auto simp: RandomNumber_def popped_def split: list.splits)

lemma Timer_SetInterrupt_ok:
  assumes p: "popped DevTimer s"
  shows "\<exists>s'. Timer_SetInterrupt s = Inr s' \<and> handled DevTimer s s'"
proof (cases "timer_disable s")
  case True
  then show ?thesis using p by (auto simp: Timer_SetInterrupt_def handled_def hw_ok_def popped_def)
next
  case False
  obtain r s1 where r: "RandomNumber s = (r, s1)" by fastforce
  have s1: "popped DevTimer s1" "like s s1" "0 < 1 + r mod (TimerTicks * 2)"
    using like_popped [OF RandomNumber_like [OF r] p] RandomNumber_like [OF r] RandomNumber_nonneg [OF r p]
    by (simp_all add: TimerTicks_def)
  show ?thesis
  proof (cases "randomize s")
    case True
    then show ?thesis using False r popped_sched [OF s1(1,3), of TimerInt] like_handled [OF s1(2)]
      by (simp add: Timer_SetInterrupt_def)
  next
    case no: False
    have "0 < TimerTicks" by (simp add: TimerTicks_def)
    then show ?thesis using False no popped_sched [OF p, of TimerTicks TimerInt]
      by (simp add: Timer_SetInterrupt_def)
  qed
qed

lemma Timer_CallBack_ok:
  assumes p: "popped DevTimer s" and i: "inHandler s"
  shows "\<exists>s'. Timer_CallBack s = Inr s' \<and> handled DevTimer s s'"
proof -
  obtain s1 where a: "Alarm_CallBack s = Inr s1" "like s s1"
    using i by (cases "status s = IdleMode") (auto simp: Alarm_CallBack_def YieldOnReturn_def like_def)
  show ?thesis using Timer_SetInterrupt_ok [OF like_popped [OF a(2) p]] like_handled [OF a(2)] a(1)
    by (auto simp: Timer_CallBack_def)
qed

lemma poll_keyboard_like: "poll_keyboard s = (k, s1) \<Longrightarrow> like s s1"
  by (auto simp: poll_keyboard_def like_def split: list.splits)

lemma ConsoleInput_CallBack_ok:
  assumes p: "popped DevConsoleIn s"
  shows "\<exists>s'. ConsoleInput_CallBack s = Inr s' \<and> handled DevConsoleIn s s'"
proof -
  have e: "incoming s = EOFc" "num_pending DevConsoleIn s = 0"
    using p by (auto simp: popped_def split: if_splits)
  obtain k s1 where k: "poll_keyboard s = (k, s1)" by fastforce
  note l = poll_keyboard_like [OF k]
  note p1 = like_popped [OF l p]
  show ?thesis
  proof (cases k)
    case NoInput
    have "0 < ConsoleTime" by (simp add: ConsoleTime_def)
    then show ?thesis using NoInput e k popped_sched [OF p1, of ConsoleTime ConsoleReadInt] like_handled [OF l]
      by (simp add: ConsoleInput_CallBack_def)
  next
    case EndOfFile
    have "handled DevConsoleIn s1 (SynchConsoleInput_CallBack s1)"
      using p1 by (auto simp: handled_def hw_ok_def popped_def num_pending_def SynchConsoleInput_CallBack_def)
    then show ?thesis using EndOfFile e k like_handled [OF l] by (simp add: ConsoleInput_CallBack_def)
  next
    case (KeyTyped c)
    have "num_pending DevConsoleIn s1 = 0" using e l by (simp add: num_pending_def like_def)
    then have "handled DevConsoleIn s1 (SynchConsoleInput_CallBack (s1\<lparr>incoming := c,
         stats := (stats s1)\<lparr>numConsoleCharsRead := numConsoleCharsRead (stats s1) + 1\<rparr>\<rparr>))"
      using p1 by (simp add: handled_def hw_ok_def popped_def num_pending_def SynchConsoleInput_CallBack_def)
    then show ?thesis using KeyTyped e k like_handled [OF l] by (simp add: ConsoleInput_CallBack_def)
  qed
qed

lemma NetworkInput_CallBack_ok:
  assumes p: "popped DevNetworkIn s"
  shows "\<exists>s'. NetworkInput_CallBack s = Inr s' \<and> handled DevNetworkIn s s'"
proof -
  let ?s = "scheduled DevNetworkIn NetworkTime NetworkRecvInt s"
  have "0 < NetworkTime" by (simp add: NetworkTime_def)
  then have sc: "Schedule DevNetworkIn NetworkTime NetworkRecvInt s = Inr ?s" "handled DevNetworkIn s ?s"
    using popped_sched [OF p] by auto
  obtain m s1 where m: "poll_socket ?s = (m, s1)" by fastforce
  have "like ?s s1" using m by (auto simp: poll_socket_def like_def split: list.splits)
  then have h: "handled DevNetworkIn s s1" using handled_like [OF sc(2)] by blast
  show ?thesis
  proof (cases m)
    case None
    then show ?thesis using sc m h by (simp add: NetworkInput_CallBack_def)
  next
    case (Some b)
    then show ?thesis using sc m h
      by (simp add: NetworkInput_CallBack_def Ethernet_Layer_CallBack_def handled_def hw_ok_def num_pending_def)
  qed
qed

lemma Disk_CallBack_ok: "popped DevDisk s \<Longrightarrow> handled DevDisk s (Disk_CallBack s)"
proof -
  assume p: "popped DevDisk s"
  then have "num_pending DevDisk s = 0" by (auto simp: popped_def split: if_splits)
  then show ?thesis using p
    by (simp add: handled_def popped_def hw_ok_def num_pending_def Disk_CallBack_def SynchDisk_CallBack_def)
qed

lemma ConsoleOutput_CallBack_ok: "popped DevConsoleOut s \<Longrightarrow> handled DevConsoleOut s (ConsoleOutput_CallBack s)"
proof -
  assume p: "popped DevConsoleOut s"
  then have "num_pending DevConsoleOut s = 0" by (auto simp: popped_def split: if_splits)
  then show ?thesis using p
    by (simp add: handled_def popped_def hw_ok_def num_pending_def ConsoleOutput_CallBack_def
        SynchConsoleOutput_CallBack_def)
qed

lemma NetworkOutput_CallBack_ok: "popped DevNetworkOut s \<Longrightarrow> handled DevNetworkOut s (NetworkOutput_CallBack s)"
  by (simp add: handled_def popped_def hw_ok_def num_pending_def NetworkOutput_CallBack_def)

lemma device_callback_ok:
  "popped d s \<Longrightarrow> inHandler s \<Longrightarrow> \<exists>s'. device_callback d s = Inr s' \<and> handled d s s'"
  by (cases d) (auto simp: device_callback_def Timer_CallBack_ok ConsoleInput_CallBack_ok
      NetworkInput_CallBack_ok Disk_CallBack_ok ConsoleOutput_CallBack_ok NetworkOutput_CallBack_ok)

interpretation hw: device_handlers hw_ok "\<lambda>s. s" device_callback
proof
  fix s :: "'a Hardware_scheme" and p ps
  show "ints_ok s" if "hw_ok s" using that by (simp add: hw_ok_def)
  show "\<exists>s'. device_callback (callOnInterrupt p) (s\<lparr>pending := ps\<rparr>) = Inr s' \<and> hw_ok s' \<and> inHandler s' \<and>
      now s' = now s \<and> level s' = level s \<and> status s' = status s \<and> set ps \<subseteq> set (pending s') \<and>
      takeWhile (due (now s)) (pending s') = takeWhile (due (now s)) ps"
    if "hw_ok s" "inHandler s" "pending s = p # ps"
    using device_callback_ok [OF hw_ok_pop [OF that(1,3)]] that(2) by (auto simp: handled_def)
qed (auto simp: hw_ok_def num_pending_def)

section \<open>Idling until a device is done\<close>

definition fired :: "device \<Rightarrow> PendingInterrupt list \<Rightarrow> nat" where
  "fired d ps = length (filter (\<lambda>p. callOnInterrupt p = d) ps)"

text \<open>What a run of handlers does to the devices whose completion threads wait for.\<close>

definition after_fire :: "PendingInterrupt list \<Rightarrow> 'a Hardware_scheme \<Rightarrow> 'a Hardware_scheme \<Rightarrow> bool" where
  "after_fire ps s s' \<longleftrightarrow> disk_file s' = disk_file s \<and> display s' = display s \<and> wire s' = wire s \<and>
     lastSector s' = lastSector s \<and>
     disk_semaphore s' = disk_semaphore s + fired DevDisk ps \<and>
     conout_waitFor s' = conout_waitFor s + fired DevConsoleOut ps \<and>
     active s' = (active s \<and> fired DevDisk ps = 0) \<and> putBusy s' = (putBusy s \<and> fired DevConsoleOut ps = 0) \<and>
     key_state s' = (key_step ^^ fired DevConsoleIn ps) (key_state s)"

lemma for_each_fire_effect:
  assumes "hw_ok s" "inHandler s" "takeWhile (due (now s)) (pending s) = ps" "for_each hw.fire ps s = Inr s'"
  shows "after_fire ps s s'"
  using assms
proof (induction ps arbitrary: s)
  case Nil
  then show ?case by (simp add: after_fire_def fired_def)
next
  case (Cons p ps)
  have pend: "pending s = p # tl (pending s)" using hw.takeWhile_hd [OF Cons.prems(3)] by simp
  let ?s = "s\<lparr>pending := tl (pending s)\<rparr>"
  have "popped (callOnInterrupt p) ?s" using hw_ok_pop [OF Cons.prems(1) pend] .
  then obtain s1 where s1: "device_callback (callOnInterrupt p) ?s = Inr s1" "handled (callOnInterrupt p) ?s s1"
    using device_callback_ok [of "callOnInterrupt p" ?s] Cons.prems(2) by auto
  have f: "hw.fire p s = Inr s1" using s1(1) by (simp add: hw.fire_def)
  have st: "hw_ok s1" "inHandler s1" "takeWhile (due (now s1)) (pending s1) = ps"
    using hw.fire_step [OF Cons.prems(1-3)] f by (metis sum.inject(2))+
  have "for_each hw.fire ps s1 = Inr s'" using Cons.prems(4) f by simp
  then have "after_fire ps s1 s'" by (rule Cons.IH [OF st])
  moreover have "key_state s1 = (if callOnInterrupt p = DevConsoleIn then key_step (key_state s) else key_state s)"
    using device_callback_keys [OF s1(1)] by (simp add: key_state_def)
  moreover have "(key_step ^^ n) (key_step x) = (key_step ^^ Suc n) x" for n x by (simp add: funpow_swap1)
  ultimately show ?case using s1(2) by (auto simp: after_fire_def handled_def fired_def)
qed

definition quiet :: "'a Hardware_scheme \<Rightarrow> bool" where
  "quiet s \<longleftrightarrow> (\<forall>p\<in>set (pending s). now s < whent p)"

lemma Idle_ok:
  assumes s: "hw_ok s" "level s = IntOff" "pending s \<noteq> []"
  shows "\<exists>s'. Idle (\<lambda>s. s) device_callback s = Inr (True, s') \<and> hw_ok s' \<and> level s' = IntOff \<and> quiet s' \<and>
    now s' = max (whent (hd (pending s))) (now s) \<and>
    (\<forall>p\<in>set (pending s). now s' < whent p \<longrightarrow> p \<in> set (pending s')) \<and>
    after_fire (takeWhile (due (now s')) (pending s)) s s'"
proof -
  let ?i = "s\<lparr>status := IdleMode\<rparr>"
  have i: "hw_ok ?i" "level ?i = IntOff" "pending ?i \<noteq> []" using s by (simp_all add: hw.ok_flags)
  obtain s1 where r: "CheckIfDue (\<lambda>s. s) device_callback True ?i = Inr (True, s1)" "hw_ok s1" "level s1 = IntOff"
      "now s1 = max (whent (hd (pending ?i))) (now ?i)" "\<forall>p\<in>set (pending s1). now s1 < whent p"
      "\<forall>p\<in>set (pending ?i). now s1 < whent p \<longrightarrow> p \<in> set (pending s1)"
    using hw.CheckIfDue_fired [OF i, of True] by blast
  have n: "now s1 = max (whent (hd (pending s))) (now s)" using r(4) by simp
  let ?h = "hw.handler_start ?i"
  have h: "hw_ok ?h" "inHandler ?h" "pending ?h = pending s" "now ?h = now s1"
    using hw.handler_start_ok [of ?i] i(1) r(4) by simp_all
  obtain s2 where s2: "for_each hw.fire (takeWhile (due (now ?h)) (pending s)) ?h = Inr s2" "s1 = s2\<lparr>inHandler := False\<rparr>"
    using r(1) unfolding hw.CheckIfDue_fires [OF i disjI1 [OF TrueI]] rbind_Inr_iff by auto
  have "after_fire (takeWhile (due (now ?h)) (pending s)) ?h s2"
    by (rule for_each_fire_effect [OF h(1,2) _ s2(1)]) (simp add: h(3))
  then have "after_fire (takeWhile (due (now s1)) (pending s)) s s1"
    unfolding h(4) s2(2) by (simp add: after_fire_def hw.handler_start_def hw.idle_to_def key_state_def)
  then have "after_fire (takeWhile (due (now s1)) (pending s)) s (s1\<lparr>status := SystemMode\<rparr>)"
    by (simp add: after_fire_def key_state_def)
  moreover have "Idle (\<lambda>s. s) device_callback s = Inr (True, s1\<lparr>status := SystemMode\<rparr>)"
    using r(1) by (simp add: Idle_def)
  moreover have "quiet (s1\<lparr>status := SystemMode\<rparr>)" using r(5) by (simp add: quiet_def)
  moreover have "\<forall>p\<in>set (pending s). now s1 < whent p \<longrightarrow> p \<in> set (pending s1)" using r(6) by simp
  ultimately show ?thesis using r(2,3) n
    by (intro exI [of _ "s1\<lparr>status := SystemMode\<rparr>"] conjI) (simp_all add: hw.ok_flags)
qed

lemma hd_pending_le: "ints_ok s \<Longrightarrow> p \<in> set (pending s) \<Longrightarrow> whent (hd (pending s)) \<le> whent p"
  by (cases "pending s") (auto simp: ints_ok_def)

lemma fired_pos:
  "ints_ok s \<Longrightarrow> p \<in> set (pending s) \<Longrightarrow> whent p \<le> t \<Longrightarrow> 0 < fired (callOnInterrupt p) (takeWhile (due t) (pending s))"
proof -
  assume i: "ints_ok s" and p: "p \<in> set (pending s)" "whent p \<le> t"
  have "p \<in> set (takeWhile (due t) ps)" if "sorted_wrt (\<lambda>x y. whent x \<le> whent y) ps" "p \<in> set ps" for ps
    using that p(2) by (induction ps) auto
  then show ?thesis using i p by (auto simp: fired_def ints_ok_def filter_empty_conv)
qed

lemma fired_le_pending: "fired d (takeWhile P (pending s)) \<le> num_pending d s"
proof -
  have "length (filter Q (takeWhile P xs)) \<le> length (filter Q xs)" for Q and xs :: "PendingInterrupt list"
    by (induction xs) auto
  then show ?thesis by (simp add: fired_def num_pending_def)
qed

text \<open>A device whose semaphore counts its interrupts: waiting on it ends once its interrupt is
  reached.  The fuel is the number of ticks until then, plus one.\<close>

lemma idle_until_quiet:
  assumes "hw_ok s" "level s = IntOff" "quiet s" "p \<in> set (pending s)" "callOnInterrupt p = d"
    and "nat (whent p - now s) \<le> n"
    and J: "J s" "\<And>h h'. J h \<Longrightarrow> R h h' \<Longrightarrow> \<not> ready h' \<Longrightarrow> J h'"
    and sem: "\<And>t h h'. J h \<Longrightarrow> hw_ok h \<Longrightarrow> after_fire (takeWhile (due t) (pending h)) h h' \<Longrightarrow>
      0 < fired d (takeWhile (due t) (pending h)) \<Longrightarrow> ready h'"
    and skip: "\<And>t h h'. hw_ok h \<Longrightarrow> \<not> ready h \<Longrightarrow> after_fire (takeWhile (due t) (pending h)) h h' \<Longrightarrow> R h h'"
    and refl: "\<And>h. R h h"
    and trans: "\<And>a b c. R a b \<Longrightarrow> \<not> ready b \<Longrightarrow> R b c \<Longrightarrow> R a c"
  shows "\<exists>s'. idle_until n ready s = Inr s' \<and> hw_ok s' \<and> level s' = IntOff \<and> quiet s' \<and> ready s' \<and>
    now s \<le> now s' \<and> R s s'"
  using assms(1-7)
proof (induction n arbitrary: s)
  case 0
  then have "now s < whent p" by (auto simp: quiet_def)
  then show ?case using 0 by simp
next
  case (Suc n)
  show ?case
  proof (cases "ready s")
    case True
    then show ?thesis using Suc.prems refl by auto
  next
    case False
    have ne: "pending s \<noteq> []" using Suc.prems(4) by auto
    obtain s1 where s1: "Idle (\<lambda>s. s) device_callback s = Inr (True, s1)" "hw_ok s1" "level s1 = IntOff" "quiet s1"
        "now s1 = max (whent (hd (pending s))) (now s)"
        "\<forall>q\<in>set (pending s). now s1 < whent q \<longrightarrow> q \<in> set (pending s1)"
        "after_fire (takeWhile (due (now s1)) (pending s)) s s1"
      using Idle_ok [OF Suc.prems(1,2) ne] by blast
    have i: "ints_ok s" using Suc.prems(1) by (simp add: hw_ok_def)
    have "hd (pending s) \<in> set (pending s)" using ne by simp
    then have adv: "now s < now s1" using Suc.prems(3) s1(5) by (simp add: quiet_def)
    have step: "idle_until (Suc n) ready s = idle_until n ready s1" using False s1(1) by simp
    show ?thesis
    proof (cases "whent p \<le> now s1")
      case True
      then have "ready s1"
        using sem [OF Suc.prems(7,1) s1(7)] fired_pos [OF i Suc.prems(4), of "now s1"] Suc.prems(5) by simp
      then have "idle_until n ready s1 = Inr s1" by (cases n) auto
      then show ?thesis using step s1(2-4) \<open>ready s1\<close> skip [OF Suc.prems(1) False s1(7)] adv by auto
    next
      case later: False
      show ?thesis
      proof (cases "ready s1")
        case True
        then have "idle_until n ready s1 = Inr s1" by (cases n) auto
        then show ?thesis using step s1(2-4) True skip [OF Suc.prems(1) False s1(7)] adv by auto
      next
        case unready: False
      have "p \<in> set (pending s1)" using s1(6) Suc.prems(4) later by auto
      moreover have "nat (whent p - now s1) \<le> n" using Suc.prems(6) adv later by auto
      moreover have "J s1" using J(2) [OF Suc.prems(7) skip [OF Suc.prems(1) False s1(7)] unready] .
      ultimately obtain s2 where "idle_until n ready s1 = Inr s2" "hw_ok s2" "level s2 = IntOff" "quiet s2" "ready s2"
          "now s1 \<le> now s2" "R s1 s2"
        using Suc.IH [OF s1(2-4) _ Suc.prems(5)] by blast
      then show ?thesis using step adv trans [OF skip [OF Suc.prems(1) False s1(7)] unready] by auto
      qed
    qed
  qed
qed

section \<open>Disk requests\<close>

lemma TimeToSeek_bounds:
  assumes "0 \<le> newSector" "newSector < NumSectors" "0 \<le> lastSector s" "lastSector s < NumSectors" "0 \<le> now s"
    and "TimeToSeek newSector s = (seek, rotation)"
  shows "0 \<le> seek" "seek \<le> 31 * SeekTime" "0 \<le> rotation" "rotation < RotationTime"
    "(now s + seek + rotation) mod RotationTime = 0"
proof -
  let ?t = "\<bar>newSector div 32 - lastSector s div 32\<bar>"
  have "x div 32 < 32 \<and> 0 \<le> x div 32" if "0 \<le> x" "x < 1024" for x :: int using that by presburger
  from this [of newSector] this [of "lastSector s"] have "?t \<le> 31"
    using assms(1-4) unfolding disk_consts abs_le_iff by linarith
  moreover have sk: "seek = ?t * 500" using assms by (auto simp: TimeToSeek_def disk_consts tick_consts Let_def)
  ultimately show "0 \<le> seek" "seek \<le> 31 * SeekTime" by (auto simp: tick_consts)
  have r: "rotation = (if (now s + seek) mod 500 > 0 then 500 - (now s + seek) mod 500 else 0)"
    using assms sk by (auto simp: TimeToSeek_def disk_consts tick_consts Let_def)
  show "0 \<le> rotation" "rotation < RotationTime" unfolding r by (auto simp: tick_consts less_imp_le)
  have "(now s + seek) mod 500 = 0" if "\<not> (now s + seek) mod 500 > 0"
    using that pos_mod_sign [of 500 "now s + seek"] by linarith
  moreover have "now s + seek + (500 - (now s + seek) mod 500) = 500 * ((now s + seek) div 500 + 1)"
    using mult_div_mod_eq [of 500 "now s + seek"] by (simp add: algebra_simps)
  then have "(now s + seek + (500 - (now s + seek) mod 500)) mod 500 = 0" by (metis mod_mult_self1_is_0)
  ultimately show "(now s + seek + rotation) mod RotationTime = 0"
    unfolding r by (simp add: tick_consts)
qed

lemma ModuloDiff_bounds: "0 \<le> to \<Longrightarrow> 0 \<le> from \<Longrightarrow> 0 \<le> ModuloDiff to from \<and> ModuloDiff to from < SectorsPerTrack
    \<and> (from + ModuloDiff to from) mod SectorsPerTrack = to mod SectorsPerTrack"
proof -
  assume "0 \<le> to" "0 \<le> from"
  moreover have "0 \<le> to mod 32 - from mod 32 + 32" by (smt (verit) pos_mod_bound pos_mod_sign)
  ultimately have "ModuloDiff to from = (to mod 32 - from mod 32 + 32) mod 32"
    by (simp add: ModuloDiff_def disk_consts Let_def)
  then show ?thesis by (simp add: disk_consts mod_simps)
qed

lemma ComputeLatency_bounds:
  assumes "0 \<le> newSector" "newSector < NumSectors" "0 \<le> lastSector s" "lastSector s < NumSectors" "0 \<le> now s"
  shows "RotationTime \<le> ComputeLatency newSector writing s" "ComputeLatency newSector writing s < 32000"
proof -
  obtain seek rotation where t: "TimeToSeek newSector s = (seek, rotation)" by fastforce
  note b = TimeToSeek_bounds [OF assms t]
  define m where "m = ModuloDiff newSector ((now s + seek + rotation) sdiv RotationTime)"
  have "0 \<le> m \<and> m < SectorsPerTrack" unfolding m_def
    using ModuloDiff_bounds [of newSector "(now s + seek + rotation) sdiv RotationTime"] assms(1,5) b
    by (simp add: tick_consts)
  then have m: "0 \<le> m" "m \<le> 31" by (auto simp: disk_consts)
  have "ComputeLatency newSector writing s = RotationTime \<or>
      ComputeLatency newSector writing s = seek + (rotation + m * RotationTime) + RotationTime"
    unfolding ComputeLatency_def t m_def by (simp add: Let_def)
  then show "RotationTime \<le> ComputeLatency newSector writing s" "ComputeLatency newSector writing s < 32000"
    using b m by (auto simp: tick_consts)
qed

section \<open>Synchronous disk and console\<close>

lemma Schedule_quiet:
  assumes "ints_ok s" "quiet s" "0 < t"
  shows "quiet (scheduled d t ty s)"
  using assms by (auto simp: quiet_def scheduled_def)

lemma scheduled_in_pending:
  "\<exists>p\<in>set (pending (scheduled d t ty s)). callOnInterrupt p = d \<and> whent p = now s + t"
  by (auto simp: scheduled_def intro!: bexI [of _ "\<lparr>pid = next_pid s, callOnInterrupt = d, whent = now s + t,
      int_type = ty\<rparr>"])

text \<open>What an idle wait keeps: the stored data, and the number of completions a semaphore has
  counted or will count.\<close>

definition kept :: "'a Hardware_scheme \<Rightarrow> 'a Hardware_scheme \<Rightarrow> bool" where
  "kept s s' \<longleftrightarrow> disk_file s' = disk_file s \<and> display s' = display s \<and> wire s' = wire s \<and>
     lastSector s' = lastSector s \<and>
     disk_semaphore s' + of_bool (active s') = disk_semaphore s + of_bool (active s) \<and>
     conout_waitFor s' + of_bool (putBusy s') = conout_waitFor s + of_bool (putBusy s)"

lemma after_fire_kept:
  assumes "hw_ok h" "after_fire (takeWhile (due t) (pending h)) h h'"
  shows "kept h h'"
proof -
  have "fired DevDisk (takeWhile (due t) (pending h)) \<le> of_bool (active h)"
    "fired DevConsoleOut (takeWhile (due t) (pending h)) \<le> of_bool (putBusy h)"
    using assms(1) fired_le_pending [of DevDisk "due t" h] fired_le_pending [of DevConsoleOut "due t" h]
    by (auto simp: hw_ok_def split: if_splits)
  moreover have "\<forall>n. n \<le> of_bool b \<longrightarrow> n + of_bool (b \<and> n = 0) = (of_bool b :: nat)" for b
    by (auto simp: le_Suc_eq)
  ultimately show ?thesis using assms(2) by (simp add: kept_def after_fire_def)
qed

lemma kept_trans: "kept a b \<Longrightarrow> kept b c \<Longrightarrow> kept a c"
  by (simp add: kept_def)

lemma idle_until_kept:
  assumes "hw_ok s" "level s = IntOff" "quiet s" "p \<in> set (pending s)" "callOnInterrupt p = d"
    and "nat (whent p - now s) \<le> n"
    and "\<And>ps h h'. after_fire ps h h' \<Longrightarrow> 0 < fired d ps \<Longrightarrow> ready h'"
  shows "\<exists>s'. idle_until n ready s = Inr s' \<and> hw_ok s' \<and> level s' = IntOff \<and> quiet s' \<and> ready s' \<and>
    now s \<le> now s' \<and> kept s s'"
  by (rule idle_until_quiet [OF assms(1-6), where J = "\<lambda>_. True"])
    (simp_all add: kept_def assms(7) after_fire_kept [unfolded kept_def])

definition disk_ready :: "'a Hardware_scheme \<Rightarrow> bool" where
  "disk_ready s \<longleftrightarrow> hw_ok s \<and> level s = IntOff \<and> quiet s \<and> \<not> active s \<and> disk_semaphore s = 0 \<and>
     0 \<le> lastSector s \<and> lastSector s < NumSectors \<and> 0 \<le> now s"

lemma disk_P_ok:
  assumes s: "hw_ok s" "level s = IntOff" "quiet s" "active s" "disk_semaphore s = 0"
    and p: "p \<in> set (pending s)" "callOnInterrupt p = DevDisk" "nat (whent p - now s) \<le> n"
  shows "\<exists>s'. disk_P n s = Inr s' \<and> hw_ok s' \<and> level s' = IntOff \<and> quiet s' \<and> \<not> active s' \<and>
    disk_semaphore s' = 0 \<and> disk_file s' = disk_file s \<and> lastSector s' = lastSector s \<and> now s \<le> now s'"
proof -
  obtain s1 where s1: "idle_until n (\<lambda>s. disk_semaphore s > 0) s = Inr s1" "hw_ok s1" "level s1 = IntOff"
      "quiet s1" "disk_semaphore s1 > 0" "now s \<le> now s1" "kept s s1"
    using idle_until_kept [OF s(1-3) p, of "\<lambda>s. disk_semaphore s > 0"] by (auto simp: after_fire_def)
  then have k: "disk_semaphore s1 = 1" "\<not> active s1" "disk_file s1 = disk_file s" "lastSector s1 = lastSector s"
    using s(4,5) by (auto simp: kept_def split: if_splits)
  let ?s2 = "s1\<lparr>disk_semaphore := disk_semaphore s1 - 1\<rparr>"
  have "hw_ok ?s2" "quiet ?s2" using s1(2,4) by (simp_all add: hw_ok_def num_pending_def quiet_def)
  then show ?thesis using s1(1,3,6) k by (intro exI [of _ ?s2]) (simp add: disk_P_def)
qed

definition requested :: "int \<Rightarrow> 'a Hardware_scheme \<Rightarrow> 'a Hardware_scheme" where
  "requested sector s = UpdateLast sector (s\<lparr>active := True\<rparr>)"

lemma requested_simps [simp]:
  "pending (requested k s) = pending s" "next_pid (requested k s) = next_pid s" "stats (requested k s) = stats s"
  "level (requested k s) = level s" "active (requested k s)" "disk_file (requested k s) = disk_file s"
  "disk_semaphore (requested k s) = disk_semaphore s" "lastSector (requested k s) = k"
  "incoming (requested k s) = incoming s" "putBusy (requested k s) = putBusy s" "randoms (requested k s) = randoms s"
  by (simp_all add: requested_def UpdateLast_def Let_def split: prod.splits)

text \<open>The state in which a request has been accepted and its interrupt scheduled.\<close>

lemma request_scheduled:
  assumes r: "disk_ready s" and t: "0 < ticks" and k: "0 \<le> k" "k < NumSectors"
    and n: "nat ticks \<le> n" and r1: "r1 = (requested k s)\<lparr>stats := st\<rparr>" "totalTicks st = now s"
  shows "\<exists>s1 s2. Schedule DevDisk ticks DiskInt r1 = Inr s1 \<and> disk_P n s1 = Inr s2 \<and> disk_ready s2 \<and>
    disk_file s2 = disk_file s"
proof -
  have i: "ints_ok r1" "quiet r1" using r r1 by (simp_all add: disk_ready_def hw_ok_def ints_ok_def quiet_def)
  let ?s1 = "scheduled DevDisk ticks DiskInt r1"
  have sc: "Schedule DevDisk ticks DiskInt r1 = Inr ?s1" "ints_ok ?s1" using Schedule_ok [OF i(1) t] by auto
  have np: "num_pending d r1 = num_pending d s" for d by (simp add: num_pending_def r1)
  have f: "randoms r1 = randoms s" "incoming r1 = incoming s" "active r1" "putBusy r1 = putBusy s"
    by (simp_all add: r1)
  have "hw_ok s" "\<not> active s" using r by (simp_all add: disk_ready_def)
  then have ok: "hw_ok ?s1" using sc(2) by (simp add: hw_ok_def np f)
  obtain p where p: "p \<in> set (pending ?s1)" "callOnInterrupt p = DevDisk" "whent p = now r1 + ticks"
    using scheduled_in_pending [of DevDisk ticks DiskInt r1] by auto
  have "\<exists>s2. disk_P n ?s1 = Inr s2 \<and> hw_ok s2 \<and> level s2 = IntOff \<and> quiet s2 \<and> \<not> active s2 \<and>
    disk_semaphore s2 = 0 \<and> disk_file s2 = disk_file ?s1 \<and> lastSector s2 = lastSector ?s1 \<and> now ?s1 \<le> now s2"
    using r r1 n p Schedule_quiet [OF i t] by (intro disk_P_ok [OF ok]) (auto simp: disk_ready_def)
  then show ?thesis using sc(1) k r r1 by (auto simp: disk_ready_def)
qed

lemma SynchDisk_ReadSector_ok:
  assumes r: "disk_ready s" and k: "0 \<le> k" "k < NumSectors" and n: "32000 \<le> n"
  shows "\<exists>s'. SynchDisk_ReadSector Inr (disk_P n) Inr k s =
      Inr (file_read (disk_file s) (sector_offset k) (nat SectorSize), s') \<and> disk_ready s' \<and>
      disk_file s' = disk_file s"
proof -
  have t: "RotationTime \<le> ComputeLatency k False s" "ComputeLatency k False s < 32000"
    using ComputeLatency_bounds [OF k] r by (auto simp: disk_ready_def)
  then have "0 < ComputeLatency k False s" "nat (ComputeLatency k False s) \<le> n"
    using n by (auto simp: tick_consts)
  from request_scheduled [OF r this(1) k this(2) refl, of "(stats s)\<lparr>numDiskReads := numDiskReads (stats s) + 1\<rparr>"]
  obtain s1 s2 where
    "Schedule DevDisk (ComputeLatency k False s) DiskInt ((requested k s)
       \<lparr>stats := (stats s)\<lparr>numDiskReads := numDiskReads (stats s) + 1\<rparr>\<rparr>) = Inr s1"
    "disk_P n s1 = Inr s2" "disk_ready s2" "disk_file s2 = disk_file s" by auto
  moreover have "\<not> active s" using r by (simp add: disk_ready_def)
  ultimately show ?thesis using k
    by (simp add: SynchDisk_ReadSector_def Disk_ReadRequest_def Let_def requested_def [symmetric])
qed

lemma SynchDisk_WriteSector_ok:
  assumes r: "disk_ready s" and k: "0 \<le> k" "k < NumSectors" and n: "32000 \<le> n"
    and l: "int (length data) = SectorSize"
  shows "\<exists>s'. SynchDisk_WriteSector Inr (disk_P n) Inr k data s = Inr s' \<and> disk_ready s' \<and>
      disk_file s' = file_write (disk_file s) (sector_offset k) data"
proof -
  let ?w = "s\<lparr>disk_file := file_write (disk_file s) (sector_offset k) data\<rparr>"
  have w: "disk_ready ?w" using r by (simp add: disk_ready_def hw_ok_def quiet_def num_pending_def)
  have t: "RotationTime \<le> ComputeLatency k True s" "ComputeLatency k True s < 32000"
    using ComputeLatency_bounds [OF k] r by (auto simp: disk_ready_def)
  then have "0 < ComputeLatency k True s" "nat (ComputeLatency k True s) \<le> n"
    using n by (auto simp: tick_consts)
  from request_scheduled [OF w this(1) k this(2) refl, of "(stats s)\<lparr>numDiskWrites := numDiskWrites (stats s) + 1\<rparr>"]
  obtain s1 s2 where
    "Schedule DevDisk (ComputeLatency k True s) DiskInt ((requested k ?w)
       \<lparr>stats := (stats s)\<lparr>numDiskWrites := numDiskWrites (stats s) + 1\<rparr>\<rparr>) = Inr s1"
    "disk_P n s1 = Inr s2" "disk_ready s2" "disk_file s2 = disk_file ?w" by auto
  moreover have "\<not> active s" using r by (simp add: disk_ready_def)
  moreover have "take (nat SectorSize) data = data" using l by simp
  moreover have "UpdateLast k (s\<lparr>disk_file := f, active := True\<rparr>) = requested k (s\<lparr>disk_file := f\<rparr>)" for f
    by (simp add: requested_def)
  ultimately show ?thesis using k l
    by (simp add: SynchDisk_WriteSector_def Disk_WriteRequest_def Let_def)
qed

lemma file_read_write_same: "file_read (file_write f off bs) off (length bs) = bs"
  by (auto simp: file_read_def file_write_def intro: nth_equalityI)

lemma file_read_write_other:
  "off' + n \<le> off \<or> off + length bs \<le> off' \<Longrightarrow> file_read (file_write f off bs) off' n = file_read f off' n"
  by (auto simp: file_read_def file_write_def)

lemma sector_disjoint:
  assumes "0 \<le> j" "0 \<le> k" "j \<noteq> k" "length bs = nat SectorSize"
  shows "file_read (file_write f (sector_offset k) bs) (sector_offset j) (nat SectorSize) =
    file_read f (sector_offset j) (nat SectorSize)"
proof (rule file_read_write_other)
  have "j + 1 \<le> k \<or> k + 1 \<le> j" using assms(3) by linarith
  then show "sector_offset j + nat SectorSize \<le> sector_offset k \<or> sector_offset k + length bs \<le> sector_offset j"
    using assms(1,2,4) by (auto simp: sector_offset_def disk_consts)
qed

definition console_ready :: "'a Hardware_scheme \<Rightarrow> bool" where
  "console_ready s \<longleftrightarrow> hw_ok s \<and> level s = IntOff \<and> quiet s \<and> \<not> putBusy s \<and> conout_waitFor s = 0"

lemma SynchConsoleOutput_PutChar_ok:
  assumes r: "console_ready s" and n: "100 \<le> n"
  shows "\<exists>s'. SynchConsoleOutput_PutChar Inr (conout_P n) Inr ch s = Inr s' \<and> console_ready s' \<and>
    display s' = display s @ [ch] \<and> disk_file s' = disk_file s"
proof -
  let ?b = "s\<lparr>display := display s @ [ch], putBusy := True\<rparr>"
  let ?s1 = "scheduled DevConsoleOut ConsoleTime ConsoleWriteInt ?b"
  have t: "0 < ConsoleTime" by (simp add: ConsoleTime_def)
  have ok: "hw_ok s" "quiet s" "level s = IntOff" "\<not> putBusy s" "conout_waitFor s = 0"
    using r by (simp_all add: console_ready_def)
  have i: "ints_ok ?b" "quiet ?b" using ok by (simp_all add: hw_ok_def quiet_def)
  have sc: "Schedule DevConsoleOut ConsoleTime ConsoleWriteInt ?b = Inr ?s1" "ints_ok ?s1"
    using Schedule_ok [OF i(1) t] by auto
  have np: "num_pending d ?b = num_pending d s" for d by (simp add: num_pending_def)
  have ok1: "hw_ok ?s1" using ok sc(2) by (simp add: hw_ok_def np)
  have s1: "level ?s1 = IntOff" "quiet ?s1" using ok Schedule_quiet [OF i t] by simp_all
  obtain p where p: "p \<in> set (pending ?s1)" "callOnInterrupt p = DevConsoleOut" "whent p = now ?b + ConsoleTime"
    using scheduled_in_pending [of DevConsoleOut ConsoleTime ConsoleWriteInt ?b] by auto
  have f: "nat (whent p - now ?s1) \<le> n" using p(3) n by (simp add: ConsoleTime_def)
  obtain s2 where s2: "idle_until n (\<lambda>s. conout_waitFor s > 0) ?s1 = Inr s2" "hw_ok s2" "level s2 = IntOff" "quiet s2"
      "conout_waitFor s2 > 0" "kept ?s1 s2"
    using idle_until_kept [OF ok1 s1 p(1,2) f, of "\<lambda>s. conout_waitFor s > 0"] by (auto simp: after_fire_def)
  have k: "conout_waitFor s2 = 1" "\<not> putBusy s2" "display s2 = display s @ [ch]" "disk_file s2 = disk_file s"
    using s2(5,6) ok by (auto simp: kept_def split: if_splits)
  let ?s3 = "s2\<lparr>conout_waitFor := conout_waitFor s2 - 1\<rparr>"
  have "console_ready ?s3" using s2(2-4) k by (simp add: console_ready_def hw_ok_def num_pending_def quiet_def)
  moreover have "SynchConsoleOutput_PutChar Inr (conout_P n) Inr ch s = Inr ?s3"
    using ok sc(1) s2(1) by (simp add: SynchConsoleOutput_PutChar_def ConsoleOutput_PutChar_def conout_P_def)
  ultimately show ?thesis using k by (intro exI [of _ ?s3]) simp
qed

text \<open>The keyboard: a poll is on its way, and no character waits.\<close>

definition input_ready :: "'a Hardware_scheme \<Rightarrow> bool" where
  "input_ready s \<longleftrightarrow> hw_ok s \<and> level s = IntOff \<and> quiet s \<and> incoming s = EOFc \<and> conin_waitFor s = 0 \<and>
     (\<exists>p\<in>set (pending s). callOnInterrupt p = DevConsoleIn \<and> whent p \<le> now s + ConsoleTime)"

definition typed_only :: "'a Hardware_scheme \<Rightarrow> 'a Hardware_scheme \<Rightarrow> bool" where
  "typed_only s s' \<longleftrightarrow> kept s s' \<and>
     (\<forall>c ks. key_state s = (EOFc, KeyTyped c # ks, 0) \<longrightarrow> key_state s' = key_state s \<or> key_state s' = (c, ks, 1))"

lemma after_fire_typed:
  assumes "hw_ok h" "after_fire (takeWhile (due t) (pending h)) h h'"
  shows "typed_only h h'"
proof -
  let ?f = "fired DevConsoleIn (takeWhile (due t) (pending h))"
  have "?f \<le> 1" using fired_le_pending [of DevConsoleIn "due t" h] assms(1) by (auto simp: hw_ok_def split: if_splits)
  then have "?f = 0 \<or> ?f = 1" by linarith
  then have "key_state h' = key_state h \<or> key_state h' = key_step (key_state h)"
    using assms(2) by (auto simp: after_fire_def)
  then show ?thesis using after_fire_kept [OF assms] by (auto simp: typed_only_def)
qed

lemma typed_only_refl: "typed_only s s"
  by (simp add: typed_only_def kept_def)

lemma typed_only_unready:
  "typed_only s s' \<Longrightarrow> \<not> 0 < conin_waitFor s' \<Longrightarrow> key_state s = (EOFc, KeyTyped c # ks, 0) \<Longrightarrow> key_state s' = key_state s"
  by (auto simp: typed_only_def key_state_def)

lemma typed_only_trans:
  assumes "typed_only a b" "\<not> 0 < conin_waitFor b" "typed_only b c"
  shows "typed_only a c"
  using assms typed_only_unready [OF assms(1,2)] kept_trans [of a b c] by (auto simp: typed_only_def)

lemma SynchConsoleInput_GetChar_ok:
  assumes r: "input_ready s" and k: "keyboard s = KeyTyped c # ks" "c \<noteq> EOFc" and n: "100 \<le> n"
  shows "\<exists>s'. SynchConsoleInput_GetChar Inr (conin_P n) Inr s = Inr (c, s') \<and> input_ready s' \<and> keyboard s' = ks \<and>
    kept s s'"
proof -
  let ?ready = "\<lambda>s. conin_waitFor s > 0"
  have ok: "hw_ok s" "level s = IntOff" "quiet s" and ks: "key_state s = (EOFc, KeyTyped c # ks, 0)"
    using r k by (simp_all add: input_ready_def key_state_def)
  obtain p where p: "p \<in> set (pending s)" "callOnInterrupt p = DevConsoleIn" "nat (whent p - now s) \<le> n"
    using r n by (auto simp: input_ready_def ConsoleTime_def)
  have "\<exists>s'. idle_until n ?ready s = Inr s' \<and> hw_ok s' \<and> level s' = IntOff \<and> quiet s' \<and> ?ready s' \<and>
      now s \<le> now s' \<and> typed_only s s'"
  proof (rule idle_until_quiet [OF ok p, where J = "\<lambda>s. key_state s = (EOFc, KeyTyped c # ks, 0)"])
    fix t h h' assume h: "key_state h = (EOFc, KeyTyped c # ks, 0)" "hw_ok h"
      "after_fire (takeWhile (due t) (pending h)) h h'" "0 < fired DevConsoleIn (takeWhile (due t) (pending h))"
    have "fired DevConsoleIn (takeWhile (due t) (pending h)) \<le> 1"
      using fired_le_pending [of DevConsoleIn "due t" h] h(2) by (auto simp: hw_ok_def split: if_splits)
    then have "fired DevConsoleIn (takeWhile (due t) (pending h)) = 1" using h(4) by linarith
    then have "key_state h' = (c, ks, 1)" using h(1,3) by (simp add: after_fire_def)
    then show "conin_waitFor h' > 0" by (simp add: key_state_def)
  next
    fix h h' :: "'a Hardware_scheme"
    assume "key_state h = (EOFc, KeyTyped c # ks, 0)" "typed_only h h'" "\<not> 0 < conin_waitFor h'"
    then show "key_state h' = (EOFc, KeyTyped c # ks, 0)" using typed_only_unready by metis
  qed (erule (1) after_fire_typed | erule (2) typed_only_trans | rule typed_only_refl ks)+
  then obtain s1 where s1: "idle_until n ?ready s = Inr s1" "hw_ok s1" "level s1 = IntOff" "quiet s1" "typed_only s s1" "?ready s1"
    by auto
  have k1: "key_state s1 = (c, ks, 1)" using s1(5,6) ks by (auto simp: typed_only_def key_state_def)
  let ?s2 = "s1\<lparr>conin_waitFor := 0\<rparr>"
  let ?s3 = "scheduled DevConsoleIn ConsoleTime ConsoleReadInt ?s2"
  have t: "0 < ConsoleTime" by (simp add: ConsoleTime_def)
  have i: "ints_ok ?s2" "quiet ?s2" using s1(2,4) by (simp_all add: hw_ok_def quiet_def)
  have sc: "Schedule DevConsoleIn ConsoleTime ConsoleReadInt ?s2 = Inr ?s3" "ints_ok ?s3" using Schedule_ok [OF i(1) t] by auto
  have f: "incoming s1 = c" "keyboard s1 = ks" "conin_waitFor s1 = 1" using k1 by (simp_all add: key_state_def)
  have g: "SynchConsoleInput_GetChar Inr (conin_P n) Inr s = Inr (c, ?s3\<lparr>incoming := EOFc\<rparr>)"
    using s1(1) sc(1) f k(2) by (simp add: SynchConsoleInput_GetChar_def conin_P_def ConsoleInput_GetChar_def)
  have np: "num_pending d ?s2 = num_pending d s1" for d by (simp add: num_pending_def)
  have "num_pending d (?s3\<lparr>incoming := EOFc\<rparr>) = num_pending d ?s3" for d by (simp add: num_pending_def)
  then have ok3: "hw_ok (?s3\<lparr>incoming := EOFc\<rparr>)" using s1(2) sc(2) f k(2) by (auto simp: hw_ok_def np)
  moreover have "quiet (?s3\<lparr>incoming := EOFc\<rparr>)" using Schedule_quiet [OF i t] by (simp add: quiet_def)
  ultimately have "input_ready (?s3\<lparr>incoming := EOFc\<rparr>)"
    using s1(3) scheduled_in_pending [of DevConsoleIn ConsoleTime ConsoleReadInt ?s2] by (auto simp: input_ready_def)
  moreover have "kept s (?s3\<lparr>incoming := EOFc\<rparr>)" using s1(5) by (simp add: typed_only_def kept_def)
  ultimately show ?thesis using g f(2) by auto
qed

section \<open>A machine at power-on\<close>

definition power_on :: "int \<Rightarrow> int list \<Rightarrow> poll list \<Rightarrow> byte list option list \<Rightarrow> (nat \<Rightarrow> byte) \<Rightarrow> Hardware" where
  "power_on host rs keys packets disk =
     Interrupt.extend Interrupt_new (Hardware.fields host False False rs EOFc keys 0 False [] 0 False 0 0 disk 0
       packets [] 0 False [])"

lemma power_on_ready:
  assumes "\<forall>r\<in>set rs. 0 \<le> r"
  shows "disk_ready (power_on host rs keys packets disk)" "console_ready (power_on host rs keys packets disk)"
  using assms by (simp_all add: power_on_def Interrupt.defs Hardware.defs Interrupt_new_def Statistics_new_def
      disk_ready_def console_ready_def hw_ok_def ints_ok_def num_pending_def quiet_def disk_consts)

section \<open>Properties\<close>


definition disk_due :: Hardware where
  "disk_due = (power_on 0 [] [] [] (\<lambda>_. 0))\<lparr>next_pid := 1, active := True,
     pending := [\<lparr>pid = 0, callOnInterrupt = DevDisk, whent = 0, int_type = DiskInt\<rparr>]\<rparr>"


text \<open>\<open>CheckIfDue\<close> always returns and is complete: the clock never goes back (it moves only when
  the machine idles), and no interrupt that is due is left pending.\<close>

theorem check_if_due_total:
  assumes "hw_ok s" "level s = IntOff"
  shows "\<exists>b s'. CheckIfDue (\<lambda>s. s) device_callback advanceClock s = Inr (b, s') \<and> hw_ok s' \<and>
    now s \<le> now s' \<and> (\<not> advanceClock \<longrightarrow> now s' = now s) \<and> (\<forall>p\<in>set (pending s'). now s' < whent p)"
  using hw.CheckIfDue_total [OF assms, of advanceClock] by blast

theorem check_if_due_total_witness:
  "\<exists>b s'. CheckIfDue (\<lambda>s. s) device_callback True disk_due = Inr (b, s') \<and> hw_ok s' \<and>
    now disk_due \<le> now s' \<and> (\<not> True \<longrightarrow> now s' = now disk_due) \<and> (\<forall>p\<in>set (pending s'). now s' < whent p)"
  by (rule check_if_due_total)
    (simp_all add: disk_due_def power_on_def Interrupt.defs Hardware.defs Interrupt_new_def Statistics_new_def
      hw_ok_def ints_ok_def num_pending_def)

text \<open>C3. The synchronous disk is a disk: writing a sector and reading it back gives the data
  written, any other sector is unchanged, and every request completes (the waiting thread idles
  through at most 32000 interrupts, whatever the other devices do meanwhile).\<close>

theorem synch_disk_write_read:
  assumes "disk_ready s" "0 \<le> k" "k < NumSectors" "0 \<le> j" "j < NumSectors" "j \<noteq> k"
    and "length data = nat SectorSize" "32000 \<le> n"
  shows "\<exists>s1 s2 s3. SynchDisk_WriteSector Inr (disk_P n) Inr k data s = Inr s1 \<and>
    SynchDisk_ReadSector Inr (disk_P n) Inr k s1 = Inr (data, s2) \<and>
    SynchDisk_ReadSector Inr (disk_P n) Inr j s2 =
      Inr (file_read (disk_file s) (sector_offset j) (nat SectorSize), s3) \<and> disk_ready s3"
proof -
  have l: "int (length data) = SectorSize" using assms(7) by (simp add: disk_consts)
  obtain s1 where s1: "SynchDisk_WriteSector Inr (disk_P n) Inr k data s = Inr s1" "disk_ready s1"
      "disk_file s1 = file_write (disk_file s) (sector_offset k) data"
    using SynchDisk_WriteSector_ok [OF assms(1-3,8) l] by blast
  obtain s2 where s2: "SynchDisk_ReadSector Inr (disk_P n) Inr k s1 =
      Inr (file_read (disk_file s1) (sector_offset k) (nat SectorSize), s2)" "disk_ready s2" "disk_file s2 = disk_file s1"
    using SynchDisk_ReadSector_ok [OF s1(2) assms(2,3,8)] by blast
  obtain s3 where s3: "SynchDisk_ReadSector Inr (disk_P n) Inr j s2 =
      Inr (file_read (disk_file s2) (sector_offset j) (nat SectorSize), s3)" "disk_ready s3"
    using SynchDisk_ReadSector_ok [OF s2(2) assms(4,5,8)] by blast
  have "file_read (disk_file s1) (sector_offset k) (nat SectorSize) = data"
    unfolding s1(3) assms(7) [symmetric] by (rule file_read_write_same)
  moreover have "file_read (disk_file s2) (sector_offset j) (nat SectorSize) =
      file_read (disk_file s) (sector_offset j) (nat SectorSize)"
    unfolding s2(3) s1(3) using assms by (intro sector_disjoint) auto
  ultimately show ?thesis using s1(1) s2(1) s3 by auto
qed

theorem synch_disk_write_read_witness:
  "\<exists>s1 s2 s3. SynchDisk_WriteSector Inr (disk_P 32000) Inr 7 (replicate 128 1) (power_on 0 [] [] [] (\<lambda>_. 0)) = Inr s1 \<and>
    SynchDisk_ReadSector Inr (disk_P 32000) Inr 7 s1 = Inr (replicate 128 1, s2) \<and>
    SynchDisk_ReadSector Inr (disk_P 32000) Inr 1023 s2 =
      Inr (file_read (disk_file (power_on 0 [] [] [] (\<lambda>_. 0))) (sector_offset 1023) (nat SectorSize), s3) \<and>
    disk_ready s3"
  by (rule synch_disk_write_read) (simp_all add: power_on_ready disk_consts)

text \<open>C4. \<open>SynchConsoleOutput::PutString\<close> prints every character of the string, in order, and
  returns its length; each character completes.\<close>

theorem put_string_prints_everything:
  assumes "console_ready s" "100 \<le> n"
  shows "\<exists>s'. SynchConsoleOutput_PutString (SynchConsoleOutput_PutChar Inr (conout_P n) Inr) buffer s =
    Inr (int (length buffer), s') \<and> display s' = display s @ buffer"
proof -
  have "\<exists>s'. for_each (SynchConsoleOutput_PutChar Inr (conout_P n) Inr) buffer s = Inr s' \<and> display s' = display s @ buffer"
    using assms(1)
  proof (induction buffer arbitrary: s)
    case (Cons c cs)
    obtain s1 where "SynchConsoleOutput_PutChar Inr (conout_P n) Inr c s = Inr s1" "console_ready s1"
        "display s1 = display s @ [c]"
      using SynchConsoleOutput_PutChar_ok [OF Cons.prems assms(2)] by blast
    then show ?case using Cons.IH [of s1] by auto
  qed simp
  then show ?thesis by (auto simp: SynchConsoleOutput_PutString_def)
qed

theorem put_string_prints_everything_witness:
  "\<exists>s'. SynchConsoleOutput_PutString (SynchConsoleOutput_PutChar Inr (conout_P 100) Inr) [72, 105]
      (power_on 0 [] [] [] (\<lambda>_. 0)) = Inr (int (length [72, 105 :: byte]), s') \<and>
    display s' = display (power_on 0 [] [] [] (\<lambda>_. 0)) @ [72, 105]"
  by (rule put_string_prints_everything) (simp_all add: power_on_ready)

end
