(* ===== verification/Packets.thy ===== *)
theory Packets
  imports Nachos_Prelude
begin

text \<open>
  The packed structs of \<open>network/post.h\<close> and \<open>Switch/ethernet.h\<close> as records, with the byte
  layouts the casts of the code rely on: little-endian integers, bit fields allocated from the
  low bit (the x86 target of the makefile), no padding.  \<open>X_bytes\<close> is the memory image of a
  struct, \<open>X_of\<close> the struct seen through a cast of a byte buffer.
\<close>

section \<open>Integers in memory\<close>

definition u16_bytes :: "16 word \<Rightarrow> byte list" where
  "u16_bytes w = [ucast w, ucast (drop_bit 8 w)]"

definition bytes_u16 :: "byte list \<Rightarrow> 16 word" where
  "bytes_u16 b = ucast (b ! 0) OR push_bit 8 (ucast (b ! 1))"

definition u32_bytes :: "32 word \<Rightarrow> byte list" where
  "u32_bytes w = [ucast w, ucast (drop_bit 8 w), ucast (drop_bit 16 w), ucast (drop_bit 24 w)]"

definition bytes_u32 :: "byte list \<Rightarrow> 32 word" where
  "bytes_u32 b = ucast (b ! 0) OR push_bit 8 (ucast (b ! 1)) OR push_bit 16 (ucast (b ! 2))
     OR push_bit 24 (ucast (b ! 3))"

definition slice_of :: "nat \<Rightarrow> nat \<Rightarrow> 'a list \<Rightarrow> 'a list" where
  "slice_of off n bs = take n (drop off bs)"

lemma u16_roundtrip [simp]: "bytes_u16 (u16_bytes w) = w"
  by (rule bit_word_eqI) (auto simp: bytes_u16_def u16_bytes_def bit_simps)

lemma u32_roundtrip [simp]: "bytes_u32 (u32_bytes w) = w"
proof (rule bit_word_eqI)
  fix n assume "n < LENGTH(32)"
  then consider "n < 8" | "8 \<le> n" "n < 16" | "16 \<le> n" "n < 24" | "24 \<le> n" "n < 32" by fastforce
  then show "bit (bytes_u32 (u32_bytes w)) n = bit w n"
    by cases (auto simp: bytes_u32_def u32_bytes_def bit_simps)
qed

lemma length_uN [simp]: "length (u16_bytes w) = 2" "length (u32_bytes v) = 4"
  by (simp_all add: u16_bytes_def u32_bytes_def)

lemma slice_append1: "off + n \<le> length xs \<Longrightarrow> slice_of off n (xs @ ys) = slice_of off n xs"
  by (simp add: slice_of_def)

lemma slice_append2: "length xs \<le> off \<Longrightarrow> slice_of off n (xs @ ys) = slice_of (off - length xs) n ys"
  by (simp add: slice_of_def)

lemma slice_Cons: "0 < off \<Longrightarrow> slice_of off n (x # xs) = slice_of (off - 1) n xs"
  by (cases off) (simp_all add: slice_of_def)

lemma slice_all: "length xs = n \<Longrightarrow> slice_of 0 n xs = xs"
  by (simp add: slice_of_def)

lemma slice_0_append: "length xs = n \<Longrightarrow> slice_of 0 n (xs @ ys) = xs"
  by (simp add: slice_of_def)

lemma length_slice [simp]: "length (slice_of off n xs) = min n (length xs - off)"
  by (simp add: slice_of_def)

lemmas slice_simps = slice_append1 slice_append2 slice_all slice_0_append slice_Cons

section \<open>Ethernet frames\<close>

record Ethernet_Packet =
  preamble :: "byte list"
  SFD :: byte
  destMAC :: "byte list"
  srcMAC :: "byte list"
  ethertype :: "16 word"
  crc :: "32 word"
  eth_payload :: "byte list"

definition eth_wf :: "Ethernet_Packet \<Rightarrow> bool" where
  "eth_wf e \<longleftrightarrow> length (preamble e) = 7 \<and> length (destMAC e) = 6 \<and> length (srcMAC e) = 6 \<and>
     length (eth_payload e) = 1500"

definition eth_bytes :: "Ethernet_Packet \<Rightarrow> byte list" where
  "eth_bytes e = preamble e @ [SFD e] @ destMAC e @ srcMAC e @ u16_bytes (ethertype e) @
     u32_bytes (crc e) @ eth_payload e"

definition eth_of :: "byte list \<Rightarrow> Ethernet_Packet" where
  "eth_of b = \<lparr>preamble = slice_of 0 7 b, SFD = b ! 7, destMAC = slice_of 8 6 b, srcMAC = slice_of 14 6 b,
     ethertype = bytes_u16 (slice_of 20 2 b), crc = bytes_u32 (slice_of 22 4 b),
     eth_payload = slice_of 26 1500 b\<rparr>"

lemma length_eth_bytes: "eth_wf e \<Longrightarrow> length (eth_bytes e) = 1526"
  by (simp add: eth_wf_def eth_bytes_def)

lemma eth_roundtrip: "eth_wf e \<Longrightarrow> eth_of (eth_bytes e) = e"
  by (cases e) (simp add: eth_wf_def eth_bytes_def eth_of_def slice_simps nth_append)

text \<open>The frame as the switch declares it: a 4-byte ethertype, and the CRC after the payload.\<close>

record Ethernet =
  sw_preamble :: "byte list"
  sw_SFD :: byte
  sw_destMAC :: "byte list"
  sw_srcMAC :: "byte list"
  sw_ethertype :: "32 word"
  sw_payload :: "byte list"

definition sw_of :: "byte list \<Rightarrow> Ethernet" where
  "sw_of b = \<lparr>sw_preamble = slice_of 0 7 b, sw_SFD = b ! 7, sw_destMAC = slice_of 8 6 b,
     sw_srcMAC = slice_of 14 6 b, sw_ethertype = bytes_u32 (slice_of 20 4 b), sw_payload = slice_of 24 1500 b\<rparr>"

lemma sw_of_addresses: "eth_wf e \<Longrightarrow> sw_destMAC (sw_of (eth_bytes e)) = destMAC e \<and> sw_srcMAC (sw_of (eth_bytes e)) = srcMAC e"
  by (simp add: eth_wf_def eth_bytes_def sw_of_def slice_simps)

section \<open>IP fragments\<close>

record IP_Fragment =
  version :: "4 word"
  IHL :: "4 word"
  DSCP :: "6 word"
  ECN :: "2 word"
  totalLength :: "16 word"
  identification :: "16 word"
  reserved :: "1 word"
  DF :: "1 word"
  MF :: "1 word"
  fragmentOffset :: "13 word"
  timeToLive :: "8 word"
  protocol :: "8 word"
  checksum :: "16 word"
  srcIP :: "byte list"
  destIP :: "byte list"
  ip_payload :: "byte list"

definition ip_wf :: "IP_Fragment \<Rightarrow> bool" where
  "ip_wf f \<longleftrightarrow> length (srcIP f) = 4 \<and> length (destIP f) = 4 \<and> length (ip_payload f) = 1480"

definition flags_word :: "IP_Fragment \<Rightarrow> 16 word" where
  "flags_word f = ucast (reserved f) OR push_bit 1 (ucast (DF f)) OR push_bit 2 (ucast (MF f))
     OR push_bit 3 (ucast (fragmentOffset f))"

definition version_byte :: "IP_Fragment \<Rightarrow> byte" where
  "version_byte f = ucast (version f) OR push_bit 4 (ucast (IHL f))"

definition service_byte :: "IP_Fragment \<Rightarrow> byte" where
  "service_byte f = ucast (DSCP f) OR push_bit 6 (ucast (ECN f))"

definition ip_bytes :: "IP_Fragment \<Rightarrow> byte list" where
  "ip_bytes f =
     [version_byte f, service_byte f] @
     u16_bytes (totalLength f) @ u16_bytes (identification f) @ u16_bytes (flags_word f) @
     [timeToLive f, protocol f] @ u16_bytes (checksum f) @ srcIP f @ destIP f @ ip_payload f"

definition ip_of :: "byte list \<Rightarrow> IP_Fragment" where
  "ip_of b =
     (let fl = bytes_u16 (slice_of 6 2 b) in
      \<lparr>version = ucast (b ! 0), IHL = ucast (drop_bit 4 (b ! 0)), DSCP = ucast (b ! 1),
       ECN = ucast (drop_bit 6 (b ! 1)), totalLength = bytes_u16 (slice_of 2 2 b),
       identification = bytes_u16 (slice_of 4 2 b), reserved = ucast fl, DF = ucast (drop_bit 1 fl),
       MF = ucast (drop_bit 2 fl), fragmentOffset = ucast (drop_bit 3 fl), timeToLive = b ! 8,
       protocol = b ! 9, checksum = bytes_u16 (slice_of 10 2 b), srcIP = slice_of 12 4 b,
       destIP = slice_of 16 4 b, ip_payload = slice_of 20 1480 b\<rparr>)"

lemma length_ip_bytes: "ip_wf f \<Longrightarrow> length (ip_bytes f) = 1500"
  by (simp add: ip_wf_def ip_bytes_def)

lemma byte0_fields: "ucast (version_byte f) = version f" "ucast (drop_bit 4 (version_byte f)) = IHL f"
  by (rule bit_word_eqI; auto simp: version_byte_def bit_simps dest: bit_imp_le_length)+

lemma byte1_fields: "ucast (service_byte f) = DSCP f" "ucast (drop_bit 6 (service_byte f)) = ECN f"
  by (rule bit_word_eqI; auto simp: service_byte_def bit_simps dest: bit_imp_le_length)+

lemma flags_fields:
  "ucast (flags_word f) = reserved f" "ucast (drop_bit 1 (flags_word f)) = DF f"
  "ucast (drop_bit 2 (flags_word f)) = MF f" "ucast (drop_bit 3 (flags_word f)) = fragmentOffset f"
  by (rule bit_word_eqI;
      auto simp: flags_word_def bit_simps simp del: push_bit_Suc drop_bit_Suc dest: bit_imp_le_length)+

lemma ip_roundtrip: "ip_wf f \<Longrightarrow> ip_of (ip_bytes f) = f"
  by (rule IP_Fragment.equality) (simp_all add: ip_wf_def ip_bytes_def ip_of_def slice_simps Let_def nth_append
      byte0_fields byte1_fields flags_fields [simplified])

section \<open>UDP datagrams\<close>

record UDP_Datagram =
  sourcePort :: "16 word"
  destinationPort :: "16 word"
  udp_length :: "16 word"
  udp_checksum :: "16 word"
  udp_data :: "byte list"

definition udp_bytes :: "UDP_Datagram \<Rightarrow> byte list" where
  "udp_bytes u = u16_bytes (sourcePort u) @ u16_bytes (destinationPort u) @ u16_bytes (udp_length u) @
     u16_bytes (udp_checksum u) @ udp_data u"

definition udp_of :: "byte list \<Rightarrow> UDP_Datagram" where
  "udp_of b = \<lparr>sourcePort = bytes_u16 (slice_of 0 2 b), destinationPort = bytes_u16 (slice_of 2 2 b),
     udp_length = bytes_u16 (slice_of 4 2 b), udp_checksum = bytes_u16 (slice_of 6 2 b), udp_data = drop 8 b\<rparr>"

lemma udp_roundtrip: "udp_of (udp_bytes u) = u"
  by (cases u) (simp add: udp_bytes_def udp_of_def slice_simps)

text \<open>The wire format loses nothing: a fragment placed in a frame, written out as the 1526 bytes
  that are sent and read back by the casts of the receiver, gives the same fragment with every bit
  field of its header, in the same frame.\<close>

theorem headers_roundtrip:
  assumes "eth_wf e" "ip_wf f"
  shows "let b = eth_bytes (e\<lparr>eth_payload := ip_bytes f\<rparr>) in
    length b = 1526 \<and> eth_of b = e\<lparr>eth_payload := ip_bytes f\<rparr> \<and> ip_of (eth_payload (eth_of b)) = f"
proof -
  have w: "eth_wf (e\<lparr>eth_payload := ip_bytes f\<rparr>)" using assms by (simp add: eth_wf_def length_ip_bytes)
  show ?thesis unfolding Let_def eth_roundtrip [OF w] using length_eth_bytes [OF w] ip_roundtrip [OF assms(2)] by simp
qed

definition sample_packet :: Ethernet_Packet where
  "sample_packet = \<lparr>preamble = replicate 7 0, SFD = 0, destMAC = [1, 2, 3, 4, 5, 6], srcMAC = [6, 5, 4, 3, 2, 1],
     ethertype = 0x0800, crc = 0, eth_payload = replicate 1500 0\<rparr>"

definition sample_fragment :: IP_Fragment where
  "sample_fragment = \<lparr>version = 4, IHL = 5, DSCP = 0, ECN = 0, totalLength = 3060, identification = 0xBEEF,
     reserved = 0, DF = 0, MF = 1, fragmentOffset = 185, timeToLive = 1, protocol = 17, checksum = 0,
     srcIP = [1, 2, 3, 4], destIP = [5, 6, 7, 8], ip_payload = replicate 1480 9\<rparr>"

theorem headers_roundtrip_witness:
  "eth_wf sample_packet \<and> ip_wf sample_fragment \<and>
   (let b = eth_bytes (sample_packet\<lparr>eth_payload := ip_bytes sample_fragment\<rparr>) in
    length b = 1526 \<and> eth_of b = sample_packet\<lparr>eth_payload := ip_bytes sample_fragment\<rparr> \<and>
    ip_of (eth_payload (eth_of b)) = sample_fragment)"
proof -
  have "eth_wf sample_packet" "ip_wf sample_fragment"
    by (simp_all add: eth_wf_def ip_wf_def sample_packet_def sample_fragment_def)
  then show ?thesis using headers_roundtrip by blast
qed

end
