(* ===== verification/Post.thy ===== *)
theory Post
  imports Devices Packets
begin

text \<open>
  The protocol layers of \<open>network/post.cc\<close>: Ethernet, IP with fragmentation and reassembly, and
  UDP, over the network interface of \<^theory_text>\<open>Devices\<close>; and the part of the kernel that holds
  the received datagrams (\<open>threads/kernel.cc\<close>).  A buffer is the list of its bytes; copying more
  bytes than a buffer holds is the fault \<open>OutOfRange\<close>.  The lists of the code hold pointers to
  freshly allocated buffers, so that their check for duplicates never fires; the model keeps the
  contents.  The loops of the two receiving threads are given as one iteration each, \<open>None\<close>
  meaning that the thread is blocked.
\<close>

section \<open>State\<close>

record Fragment =
  frag_MF :: bool
  frag_data :: "byte list"
  frag_offset :: int

record sock_struct =
  sock_ip :: "byte list"
  srcPort :: int
  destPort :: int

type_synonym datagram_queue = "(int \<times> byte list) list"

record NetKernel = Hardware +
  messages :: "byte list list"
  fragmentDict :: "string \<Rightarrow> Fragment list option"
  current_socket :: int
  connected_sockets :: "int \<Rightarrow> sock_struct option"
  bind_sockets :: "(int \<times> int) list"
  datagrams :: "int \<Rightarrow> datagram_queue option"

definition macpool :: "byte list list" where
  "macpool =
    [[0xe5, 0xae, 0x32, 0x18, 0xd9, 0x21],
     [0xd5, 0xae, 0x32, 0x18, 0xd9, 0x21],
     [0xe5, 0x3e, 0x32, 0x18, 0xd9, 0x21],
     [0xe5, 0xae, 0x34, 0x18, 0xd9, 0x21],
     [0xe5, 0xa9, 0x32, 0x18, 0xd9, 0x21],
     [0xe5, 0xae, 0x32, 0x58, 0xd9, 0x21],
     [0xe5, 0xae, 0x32, 0x18, 0xa9, 0x21],
     [0xe5, 0xae, 0x32, 0x28, 0xd9, 0x21],
     [0xe5, 0xae, 0x66, 0x18, 0xd9, 0x21],
     [0xe5, 0xae, 0x32, 0x99, 0xd9, 0x21]]"

definition ippool :: "byte list list" where
  "ippool =
    [[0xe5, 0xae, 0x32, 0x18],
     [0xae, 0x32, 0x18, 0xd9],
     [0x3e, 0x32, 0x18, 0xd9],
     [0xae, 0x34, 0x18, 0xd9],
     [0xa9, 0x32, 0x18, 0xd9],
     [0xae, 0x32, 0x58, 0xd9],
     [0xae, 0x32, 0x18, 0xa9],
     [0xae, 0x32, 0x28, 0xd9],
     [0xae, 0x66, 0x18, 0xd9],
     [0xae, 0x32, 0x99, 0xd9]]"

definition memcpy :: "byte list \<Rightarrow> int \<Rightarrow> int \<Rightarrow> byte list res" where
  "memcpy src off n =
     (if 0 \<le> off \<and> 0 \<le> n \<and> off + n \<le> int (length src) then Inr (slice_of (nat off) (nat n) src)
      else Inl OutOfRange)"

section \<open>Sending\<close>

definition Ethernet_Send :: "byte list \<Rightarrow> byte list \<Rightarrow> 'a NetKernel_scheme \<Rightarrow> 'a NetKernel_scheme res" where
  "Ethernet_Send data dest s =
     rbind (arr_get macpool (hostName s)) (\<lambda>src.
     rbind (memcpy dest 0 6) (\<lambda>dest.
     rbind (memcpy data 0 1500) (\<lambda>data.
     let eth = \<lparr>preamble = replicate 7 0, SFD = 0, destMAC = dest, srcMAC = src, ethertype = 0x0800,
                crc = 0, eth_payload = data\<rparr>;
         buffer = eth_bytes eth in
     NetworkOutput_Send buffer s)))"

definition get_Random_Identification :: "'a NetKernel_scheme \<Rightarrow> 16 word \<times> 'a NetKernel_scheme" where
  "get_Random_Identification s = (let (r, s) = RandomNumber s in (word_of_int (r smod (64 * 1024)), s))"

text \<open>The search for the machine with an IP address; \<open>- 1\<close> when there is none.\<close>

fun find_machine :: "int \<Rightarrow> byte list list \<Rightarrow> byte list \<Rightarrow> int" where
  "find_machine i [] dest = - 1"
| "find_machine i (p # ps) dest = (if take 4 dest = p then i else find_machine (i + 1) ps dest)"

definition num_of_fragments :: "int \<Rightarrow> int" where
  "num_of_fragments sz = - ((- sz) div 1480)"

definition make_fragment ::
  "byte list \<Rightarrow> int \<Rightarrow> byte list \<Rightarrow> byte list \<Rightarrow> 16 word \<Rightarrow> int \<Rightarrow> IP_Fragment res" where
  "make_fragment data sz srcip destip ident i =
     (let num = num_of_fragments sz; total_len = sz + num * 20 in
      rbind (memcpy data (i * 1480) (min (sz - i * 1480) 1480)) (\<lambda>chunk.
      Inr \<lparr>version = 4, IHL = 5, DSCP = 0, ECN = 0, totalLength = word_of_int total_len,
           identification = ident, reserved = 0, DF = 0, MF = of_bool (i < num - 1),
           fragmentOffset = word_of_int ((i * 1480) sdiv 8), timeToLive = 1, protocol = 17, checksum = 0,
           srcIP = srcip, destIP = destip, ip_payload = chunk @ replicate (1480 - length chunk) 0\<rparr>))"

definition IP_Send :: "byte list \<Rightarrow> int \<Rightarrow> byte list \<Rightarrow> 'a NetKernel_scheme \<Rightarrow> 'a NetKernel_scheme res" where
  "IP_Send data sz dest s =
     (let num = num_of_fragments sz;
          (ident, s) = get_Random_Identification s;
          dest_machine = find_machine 0 ippool dest in
      for_each (\<lambda>i s.
        rbind (arr_get ippool (hostName s)) (\<lambda>src.
        rbind (memcpy dest 0 4) (\<lambda>dest.
        rbind (make_fragment data sz src dest ident i) (\<lambda>f.
        rbind (arr_get macpool dest_machine) (\<lambda>mac.
        Ethernet_Send (ip_bytes f) mac s))))) [0..num - 1] s)"

text \<open>\<open>junk\<close> is the content of the datagram's checksum field, which the code never sets.\<close>

definition UDP_Send ::
  "16 word \<Rightarrow> byte list \<Rightarrow> int \<Rightarrow> byte list \<Rightarrow> int \<Rightarrow> int \<Rightarrow> 'a NetKernel_scheme \<Rightarrow> 'a NetKernel_scheme res" where
  "UDP_Send junk data sz dest sport dport s =
     rbind (if 65536 < sz then Inl OutOfRange else memcpy data 0 sz) (\<lambda>d.
     let udp = \<lparr>sourcePort = word_of_int sport, destinationPort = word_of_int dport,
                udp_length = word_of_int (sz + 8), udp_checksum = junk,
                udp_data = d @ replicate (65536 - length d) 0\<rparr> in
     rbind (memcpy (udp_bytes udp) 0 (sz + 8)) (\<lambda>buffer.
     IP_Send buffer (sz + 8) dest s))"

section \<open>Receiving\<close>

definition putData :: "byte list \<Rightarrow> int \<Rightarrow> int \<Rightarrow> 'a NetKernel_scheme \<Rightarrow> 'a NetKernel_scheme" where
  "putData data sz port s =
     (let s = (if datagrams s port = None then s\<lparr>datagrams := (datagrams s)(port \<mapsto> [])\<rparr> else s) in
      s\<lparr>datagrams := (datagrams s)(port \<mapsto> the (datagrams s port) @ [(sz, data)])\<rparr>)"

definition UDP_Receive :: "byte list \<Rightarrow> 'a NetKernel_scheme \<Rightarrow> 'a NetKernel_scheme" where
  "UDP_Receive data s =
     (let udp = udp_of data in
      putData (udp_data udp) (uint (udp_length udp) - 8) (uint (destinationPort udp)) s)"

definition computeHash :: "byte list \<Rightarrow> byte list \<Rightarrow> int \<Rightarrow> string" where
  "computeHash src dest ident =
     map (\<lambda>i. char_of (unat (src ! i + dest ! i))) [0..<4] @ to_string ident"

fun insert_frag :: "Fragment \<Rightarrow> Fragment list \<Rightarrow> Fragment list" where
  "insert_frag f [] = [f]"
| "insert_frag f (g # gs) = (if frag_offset g > frag_offset f then f # g # gs else g # insert_frag f gs)"

definition to_Fragment :: "IP_Fragment \<Rightarrow> Fragment" where
  "to_Fragment ip = \<lparr>frag_MF = (MF ip = 1), frag_data = ip_payload ip, frag_offset = uint (fragmentOffset ip)\<rparr>"

definition insertToMap :: "string \<Rightarrow> IP_Fragment \<Rightarrow> 'a NetKernel_scheme \<Rightarrow> 'a NetKernel_scheme" where
  "insertToMap key ip s =
     (let f = to_Fragment ip in
      case fragmentDict s key of
        None \<Rightarrow> s\<lparr>fragmentDict := (fragmentDict s)(key \<mapsto> [f])\<rparr>
      | Some v \<Rightarrow> s\<lparr>fragmentDict := (fragmentDict s)(key \<mapsto> insert_frag f v)\<rparr>)"

definition no_gaps :: "Fragment list \<Rightarrow> bool" where
  "no_gaps v \<longleftrightarrow> list_all (\<lambda>i. frag_offset (v ! i) = int i * 185) [0..<length v]"

definition IP_check :: "string \<Rightarrow> 'a NetKernel_scheme \<Rightarrow> 'a NetKernel_scheme res" where
  "IP_check key s =
     (let v = (case fragmentDict s key of None \<Rightarrow> [] | Some v \<Rightarrow> v) in
      if \<not> no_gaps v then Inr s
      else if v = [] then Inl OutOfRange
      else if \<not> frag_MF (last v) then
        let datagram = concat (map frag_data v);
            s = UDP_Receive datagram s in
        Inr (s\<lparr>fragmentDict := (fragmentDict s)(key := None)\<rparr>)
      else Inr s)"

definition IP_Receive :: "byte list \<Rightarrow> 'a NetKernel_scheme \<Rightarrow> 'a NetKernel_scheme res" where
  "IP_Receive data s =
     (let ip = ip_of data;
          key = computeHash (srcIP ip) (destIP ip) (uint (identification ip)) in
      IP_check key (insertToMap key ip s))"

definition pktrecv :: "'a NetKernel_scheme \<Rightarrow> 'a NetKernel_scheme res option" where
  "pktrecv s =
     (if messageAvailable s = 0 then None
      else Some (
        let s = s\<lparr>messageAvailable := messageAvailable s - 1\<rparr>;
            bf = NetworkInput_Receive s;
            eth = eth_of bf in
        rbind (arr_get macpool (hostName s)) (\<lambda>mac.
        if destMAC eth = mac then Inr (s\<lparr>messages := messages s @ [bf]\<rparr>) else Inr s)))"

definition Ethernet_Receive :: "'a NetKernel_scheme \<Rightarrow> (byte list \<times> 'a NetKernel_scheme) option" where
  "Ethernet_Receive s = (case messages s of
       [] \<Rightarrow> None
     | buffer # rest \<Rightarrow> Some (eth_payload (eth_of buffer), s\<lparr>messages := rest\<rparr>))"

definition ethrecv :: "'a NetKernel_scheme \<Rightarrow> 'a NetKernel_scheme res option" where
  "ethrecv s = (case Ethernet_Receive s of None \<Rightarrow> None | Some (data, s) \<Rightarrow> Some (IP_Receive data s))"

section \<open>Reassembly\<close>

text \<open>The fragments of one datagram, by index: \<open>n\<close> of them, with the chunks \<open>c\<close>.\<close>

definition frag :: "nat \<Rightarrow> (nat \<Rightarrow> byte list) \<Rightarrow> nat \<Rightarrow> Fragment" where
  "frag n c j = \<lparr>frag_MF = (Suc j < n), frag_data = c j, frag_offset = int j * 185\<rparr>"

lemma insert_frag_frag:
  "j \<notin> set js \<Longrightarrow> insert_frag (frag n c j) (map (frag n c) js) = map (frag n c) (insort j js)"
  by (induction js) (auto simp: frag_def)

lemma no_gaps_frag: "no_gaps (map (frag n c) js) \<longleftrightarrow> js = [0..<length js]"
proof
  assume g: "no_gaps (map (frag n c) js)"
  show "js = [0..<length js]"
    using g by (intro nth_equalityI) (auto simp: no_gaps_def list_all_iff frag_def)
next
  assume "js = [0..<length js]"
  then have "js ! i = i" if "i < length js" for i using that by (metis add_0 nth_upt)
  then show "no_gaps (map (frag n c) js)" by (auto simp: no_gaps_def list_all_iff frag_def)
qed

lemma insert_frag_not_Nil [simp]: "insert_frag f v \<noteq> []"
  by (cases v) auto

lemma IP_Receive_total: "\<exists>s'. IP_Receive data s = Inr s'"
  by (auto simp: IP_Receive_def IP_check_def insertToMap_def Let_def split: option.splits)

text \<open>The fragments received so far, \<open>js\<close>, in the dictionary.\<close>

definition partial_dict :: "nat \<Rightarrow> (nat \<Rightarrow> byte list) \<Rightarrow> nat list \<Rightarrow> Fragment list option" where
  "partial_dict n c js = (if js = [] then None else Some (map (frag n c) (sort js)))"

definition ip_key :: "byte list \<Rightarrow> string" where
  "ip_key data = (let ip = ip_of data in computeHash (srcIP ip) (destIP ip) (uint (identification ip)))"

lemma insertToMap_frag:
  assumes "fragmentDict s k = partial_dict n c js" "to_Fragment ip = frag n c j" "j \<notin> set js"
  shows "insertToMap k ip s = s\<lparr>fragmentDict := (fragmentDict s)(k := partial_dict n c (j # js))\<rparr>"
  using assms insert_frag_frag [of j "sort js" n c]
  by (auto simp: insertToMap_def partial_dict_def Let_def split: option.splits)

lemma sorted_upt_length:
  assumes "distinct js" "sort js = [0..<length js]" shows "set js = {0..<length js}"
  using arg_cong [OF assms(2), of set] by simp

lemma IP_Receive_partial:
  assumes d: "fragmentDict s k = partial_dict n c js" and ip: "to_Fragment (ip_of data) = frag n c j"
    and k: "ip_key data = k" and js: "distinct (j # js)" "set (j # js) \<subset> {0..<n}"
  shows "IP_Receive data s = Inr (s\<lparr>fragmentDict := (fragmentDict s)(k := partial_dict n c (j # js))\<rparr>)"
proof -
  let ?s = "s\<lparr>fragmentDict := (fragmentDict s)(k := partial_dict n c (j # js))\<rparr>"
  let ?v = "map (frag n c) (sort (j # js))"
  have ins: "insertToMap k (ip_of data) s = ?s" using js by (intro insertToMap_frag [OF d ip]) simp
  have "frag_MF (last ?v)" if "no_gaps ?v"
  proof -
    have u: "sort (j # js) = [0..<length (j # js)]" using that no_gaps_frag [of n c "sort (j # js)"] by simp
    have "card (set (j # js)) < card {0..<n}" using js(2) by (intro psubset_card_mono) auto
    then have "length (j # js) < n" using distinct_card [OF js(1)] by simp
    moreover have "last ?v = frag n c (length js)" unfolding u by (simp add: last_map)
    ultimately show ?thesis by (simp add: frag_def)
  qed
  then show ?thesis using ins k
    by (auto simp: IP_Receive_def IP_check_def ip_key_def partial_dict_def Let_def)
qed

lemma IP_Receive_complete:
  assumes d: "fragmentDict s k = partial_dict n c js" and ip: "to_Fragment (ip_of data) = frag n c j"
    and k: "ip_key data = k" and js: "distinct (j # js)" "set (j # js) = {0..<n}"
  shows "IP_Receive data s =
    Inr ((UDP_Receive (concat (map c [0..<n])) s)\<lparr>fragmentDict := (fragmentDict s)(k := None)\<rparr>)"
proof -
  let ?s = "s\<lparr>fragmentDict := (fragmentDict s)(k := partial_dict n c (j # js))\<rparr>"
  let ?v = "map (frag n c) (sort (j # js))"
  have ins: "insertToMap k (ip_of data) s = ?s" using js by (intro insertToMap_frag [OF d ip]) simp
  have n: "n = length (j # js)" using distinct_card [OF js(1)] js(2) by simp
  have u: "sort (j # js) = [0..<n]"
    using js by (metis sorted_list_of_set_sort_remdups distinct_remdups_id sorted_list_of_set_range)
  have "no_gaps ?v" unfolding u by (simp add: no_gaps_frag)
  moreover have "\<not> frag_MF (last ?v)" unfolding u using n by (simp add: last_map frag_def)
  moreover have "map frag_data ?v = map c [0..<n]" unfolding u by (simp add: frag_def)
  moreover have "UDP_Receive D (s\<lparr>fragmentDict := x\<rparr>) = (UDP_Receive D s)\<lparr>fragmentDict := x\<rparr>" for D x
    by (simp add: UDP_Receive_def putData_def Let_def)
  ultimately show ?thesis using ins k
    by (simp add: IP_Receive_def IP_check_def ip_key_def partial_dict_def Let_def)
qed

text \<open>Payloads carrying the fragments of one datagram.\<close>

definition carries :: "nat \<Rightarrow> (nat \<Rightarrow> byte list) \<Rightarrow> string \<Rightarrow> (nat \<Rightarrow> byte list) \<Rightarrow> bool" where
  "carries n c k p \<longleftrightarrow> (\<forall>j<n. to_Fragment (ip_of (p j)) = frag n c j \<and> ip_key (p j) = k)"

lemma receive_fragments_aux:
  assumes "carries n c k p" "fragmentDict s k = partial_dict n c js" "distinct (js @ rest)"
    and "set (js @ rest) = {0..<n}" "rest \<noteq> []"
  shows "for_each (\<lambda>j. IP_Receive (p j)) rest s =
    Inr ((UDP_Receive (concat (map c [0..<n])) s)\<lparr>fragmentDict := (fragmentDict s)(k := None)\<rparr>)"
  using assms
proof (induction rest arbitrary: js s)
  case (Cons j rest)
  have "j \<in> set (js @ j # rest)" by simp
  then have j: "to_Fragment (ip_of (p j)) = frag n c j" "ip_key (p j) = k"
    using Cons.prems(1) unfolding Cons.prems(4) by (simp_all add: carries_def)
  have js: "distinct (j # js)" using Cons.prems(3) by auto
  show ?case
  proof (cases "rest = []")
    case True
    then have "set (j # js) = {0..<n}" using Cons.prems(4) by auto
    then show ?thesis using IP_Receive_complete [OF Cons.prems(2) j js] True by (simp add: fun_upd_def)
  next
    case False
    have "set (j # js) \<subset> {0..<n}" using Cons.prems(3,4) False by (cases rest) auto
    then have r: "IP_Receive (p j) s = Inr (s\<lparr>fragmentDict := (fragmentDict s)(k := partial_dict n c (j # js))\<rparr>)"
      by (rule IP_Receive_partial [OF Cons.prems(2) j js])
    have "UDP_Receive D (s\<lparr>fragmentDict := x\<rparr>) = (UDP_Receive D s)\<lparr>fragmentDict := x\<rparr>" for D x
      by (simp add: UDP_Receive_def putData_def Let_def)
    then show ?thesis
      using Cons.IH [OF Cons.prems(1), of "s\<lparr>fragmentDict := (fragmentDict s)(k := partial_dict n c (j # js))\<rparr>" "j # js"]
        Cons.prems(3,4) False r by (simp add: Un_commute fun_upd_def cong: if_cong)
  qed
qed simp

lemma receive_fragments:
  assumes "carries n c k p" "fragmentDict s k = None" "distinct js" "set js = {0..<n}" "0 < n"
  shows "for_each (\<lambda>j. IP_Receive (p j)) js s =
    Inr ((UDP_Receive (concat (map c [0..<n])) s)\<lparr>fragmentDict := fragmentDict s\<rparr>)"
proof -
  have "js \<noteq> []" using assms(4,5) by auto
  moreover have "(fragmentDict s)(k := None) = fragmentDict s" using assms(2) by auto
  ultimately show ?thesis
    using receive_fragments_aux [OF assms(1), of s "[]" js] assms by (simp add: partial_dict_def)
qed

section \<open>Fragmentation\<close>

definition chunk :: "byte list \<Rightarrow> nat \<Rightarrow> byte list" where
  "chunk data j = (let c = slice_of (j * 1480) 1480 data in c @ replicate (1480 - length c) 0)"

definition fragments_needed :: "nat \<Rightarrow> nat" where
  "fragments_needed sz = (sz + 1479) div 1480"

lemma fragments_needed_pos: "0 < k \<Longrightarrow> 0 < fragments_needed k"
  by (simp add: fragments_needed_def div_greater_zero_iff)

lemma num_of_fragments_nat: "num_of_fragments (int sz) = int (fragments_needed sz)"
proof -
  define x q r where "x = int sz" and "q = x div 1480" and "r = x mod 1480"
  have x: "x + 1479 = r + 1479 + 1480 * q" and r: "0 \<le> r" "r < 1480" by (simp_all add: q_def r_def)
  have "(r + 1479) div 1480 = (if r = 0 then 0 else 1)"
    using r by (auto intro: int_div_pos_eq [of _ _ _ "r - 1"])
  moreover have "(x + 1479) div 1480 = (r + 1479) div 1480 + q" unfolding x by simp
  moreover have "(- x) div 1480 = (if r = 0 then - q else - q - 1)"
    by (simp add: zdiv_zminus1_eq_if q_def r_def)
  ultimately have "- ((- x) div 1480) = (x + 1479) div 1480" by simp
  then show ?thesis by (simp add: num_of_fragments_def fragments_needed_def zdiv_int x_def)
qed

lemma concat_chunks:
  "concat (map (chunk data) [0..<m]) =
    take (m * 1480) data @ replicate (m * 1480 - length data) 0"
proof (induction m)
  case (Suc m)
  show ?case
  proof (cases "length data \<le> m * 1480")
    case True
    then show ?thesis using Suc by (simp add: chunk_def slice_of_def replicate_add [symmetric])
  next
    case False
    have "take (1480 + m * 1480) data = take (m * 1480) data @ take 1480 (drop (m * 1480) data)"
      by (metis add.commute take_add)
    then show ?thesis using Suc False
      by (simp add: chunk_def slice_of_def min_def Let_def)
  qed
qed simp

lemma length_chunk [simp]: "length (chunk data j) = 1480"
  by (simp add: chunk_def Let_def)

definition sent_fragment :: "byte list \<Rightarrow> byte list \<Rightarrow> byte list \<Rightarrow> 16 word \<Rightarrow> nat \<Rightarrow> IP_Fragment" where
  "sent_fragment data src dest ident j =
     (let n = fragments_needed (length data) in
      \<lparr>version = 4, IHL = 5, DSCP = 0, ECN = 0, totalLength = word_of_int (int (length data) + int n * 20),
       identification = ident, reserved = 0, DF = 0, MF = of_bool (Suc j < n),
       fragmentOffset = word_of_int (int j * 185), timeToLive = 1, protocol = 17, checksum = 0,
       srcIP = src, destIP = dest, ip_payload = chunk data j\<rparr>)"

lemma make_fragment_ok:
  assumes "j < fragments_needed (length data)"
  shows "make_fragment data (int (length data)) src dest ident (int j) = Inr (sent_fragment data src dest ident j)"
proof -
  let ?n = "fragments_needed (length data)" and ?l = "min (int (length data) - int j * 1480) 1480"
  have j: "j * 1480 < length data" using assms by (simp add: fragments_needed_def)
  then have l: "0 \<le> ?l" "int j * 1480 + ?l \<le> int (length data)" by auto
  have nl: "nat ?l = min (length data - j * 1480) 1480" using j by (simp add: min_def) linarith
  have s: "slice_of (nat (int j * 1480)) (nat ?l) data = slice_of (j * 1480) 1480 data"
    unfolding nl by (simp add: slice_of_def nat_mult_distrib min.commute flip: take_take)
  have "memcpy data (int j * 1480) ?l = Inr (slice_of (j * 1480) 1480 data)"
    using l s by (simp add: memcpy_def)
  moreover have "int j * 1480 sdiv 8 = int j * 185" by (simp add: mult.commute)
  ultimately show ?thesis
    by (simp add: make_fragment_def sent_fragment_def num_of_fragments_nat chunk_def Let_def)
qed

lemma sent_fragment_wf: "length src = 4 \<Longrightarrow> length dest = 4 \<Longrightarrow> ip_wf (sent_fragment data src dest ident j)"
  by (simp add: ip_wf_def sent_fragment_def Let_def)

lemma fragments_needed_bound: "sz \<le> 65535 \<Longrightarrow> j < fragments_needed sz \<Longrightarrow> j \<le> 44"
  by (simp add: fragments_needed_def less_eq_div_iff_mult_less_eq)

lemma uint_offset: "0 \<le> k \<Longrightarrow> k < 8192 \<Longrightarrow> uint (word_of_int k :: 13 word) = k"
  by (simp add: uint_word_of_int take_bit_int_eq_self)

lemma sent_fragments_carry:
  assumes "length src = 4" "length dest = 4" "length data \<le> 65535"
  shows "carries (fragments_needed (length data)) (chunk data) (computeHash src dest (uint ident))
    (\<lambda>j. ip_bytes (sent_fragment data src dest ident j))"
proof -
  have "to_Fragment (sent_fragment data src dest ident j) = frag (fragments_needed (length data)) (chunk data) j"
    if "j < fragments_needed (length data)" for j
  proof -
    have "j \<le> 44" using fragments_needed_bound [OF assms(3) that] .
    then have "uint (word_of_int (int j * 185) :: 13 word) = int j * 185"
      by (intro uint_offset) auto
    then show ?thesis by (simp add: to_Fragment_def sent_fragment_def frag_def Let_def)
  qed
  then show ?thesis
    by (simp add: carries_def ip_roundtrip sent_fragment_wf [OF assms(1,2)] ip_key_def Let_def)
      (simp add: sent_fragment_def Let_def)
qed

section \<open>Frames on the wire\<close>

definition frame_of :: "byte list \<Rightarrow> byte list \<Rightarrow> byte list \<Rightarrow> byte list" where
  "frame_of src dest payload = eth_bytes \<lparr>preamble = replicate 7 0, SFD = 0, destMAC = dest, srcMAC = src,
     ethertype = 0x0800, crc = 0, eth_payload = payload\<rparr>"

abbreviation mac :: "int \<Rightarrow> byte list" where "mac h \<equiv> macpool ! nat h"
abbreviation ip :: "int \<Rightarrow> byte list" where "ip h \<equiv> ippool ! nat h"

lemma host_range: "0 \<le> h \<Longrightarrow> h < 10 \<Longrightarrow> nat h \<in> {0, 1, 2, 3, 4, 5, 6, 7, 8, 9}"
  unfolding insert_iff empty_iff by presburger

lemma pools:
  assumes "0 \<le> h" "h < 10"
  shows "arr_get macpool h = Inr (mac h)" "arr_get ippool h = Inr (ip h)" "length (mac h) = 6" "length (ip h) = 4"
proof -
  have l: "length macpool = 10" "length ippool = 10" by (simp_all add: macpool_def ippool_def)
  then show "arr_get macpool h = Inr (mac h)" "arr_get ippool h = Inr (ip h)"
    using assms by (simp_all add: arr_get_ok)
  show "length (mac h) = 6" "length (ip h) = 4"
    using host_range [OF assms] by (auto simp: macpool_def ippool_def)
qed

lemma find_machine_ip: "0 \<le> h \<Longrightarrow> h < 10 \<Longrightarrow> find_machine 0 ippool (ip h) = h"
proof -
  assume h: "0 \<le> h" "h < 10"
  then have "h = int (nat h)" by simp
  with host_range [OF h] show ?thesis by (elim insertE emptyE) (simp_all add: ippool_def)
qed

lemma frame_wf: "length src = 6 \<Longrightarrow> length dest = 6 \<Longrightarrow> length p = 1500 \<Longrightarrow>
    eth_wf \<lparr>preamble = replicate 7 0, SFD = 0, destMAC = dest, srcMAC = src, ethertype = 0x0800, crc = 0, eth_payload = p\<rparr>"
  by (simp add: eth_wf_def)

lemma frame_of_fields:
  assumes "length src = 6" "length dest = 6" "length p = 1500"
  shows "length (frame_of src dest p) = 1526" "destMAC (eth_of (frame_of src dest p)) = dest"
    "eth_payload (eth_of (frame_of src dest p)) = p"
  using frame_wf [OF assms] by (simp_all add: frame_of_def length_eth_bytes eth_roundtrip)

text \<open>What sending leaves alone: everything but the wire and the pending interrupts.\<close>

definition port_name :: "int \<Rightarrow> string" where
  "port_name h = ''/tmp/switch'' @ to_string h"

lemma Ethernet_Send_ok:
  assumes "ints_ok s" "0 \<le> hostName s" "hostName s < 10" "length dest = 6" "length data = 1500"
  shows "\<exists>s'. Ethernet_Send data dest s = Inr s' \<and> ints_ok s' \<and> hostName s' = hostName s \<and>
    wire s' = wire s @ [(port_name (hostName s), frame_of (mac (hostName s)) dest data)]"
proof -
  have t: "0 < NetworkTime" by (simp add: NetworkTime_def)
  have m: "memcpy dest 0 6 = Inr dest" "memcpy data 0 1500 = Inr data"
    using assms(4,5) by (simp_all add: memcpy_def slice_of_def)
  have l: "length (frame_of (mac (hostName s)) dest data) = PacketBytes"
    using pools [OF assms(2,3)] assms(4,5) by (simp add: frame_of_fields PacketBytes_def)
  let ?s = "scheduled DevNetworkOut NetworkTime NetworkSendInt s"
  have sc: "Schedule DevNetworkOut NetworkTime NetworkSendInt s = Inr ?s" "ints_ok ?s"
    using Schedule_ok [OF assms(1) t] by auto
  then show ?thesis using pools [OF assms(2,3)] l
    by (simp add: Ethernet_Send_def m NetworkOutput_Send_def frame_of_def [symmetric] port_name_def)
qed

lemma get_Random_Identification_frame:
  "get_Random_Identification s = (ident, s1) \<Longrightarrow>
    ints_ok s1 = ints_ok s \<and> hostName s1 = hostName s \<and> wire s1 = wire s"
  by (auto simp: get_Random_Identification_def RandomNumber_def ints_ok_def Let_def split: list.splits)

definition sent_frame :: "int \<Rightarrow> int \<Rightarrow> byte list \<Rightarrow> 16 word \<Rightarrow> nat \<Rightarrow> byte list" where
  "sent_frame a b data ident j = frame_of (mac a) (mac b) (ip_bytes (sent_fragment data (ip a) (ip b) ident j))"

lemma IP_Send_ok:
  assumes s: "ints_ok s" "0 \<le> hostName s" "hostName s < 10" and b: "0 \<le> b" "b < 10"
  defines "ident \<equiv> fst (get_Random_Identification s)"
  shows "\<exists>s'. IP_Send data (int (length data)) (ip b) s = Inr s' \<and> ints_ok s' \<and>
    wire s' = wire s @ map (\<lambda>j. (port_name (hostName s), sent_frame (hostName s) b data ident j))
      [0..<fragments_needed (length data)]"
proof -
  let ?n = "fragments_needed (length data)" and ?a = "hostName s"
  obtain s1 where s1: "get_Random_Identification s = (ident, s1)" by (metis ident_def prod.collapse)
  note f = get_Random_Identification_frame [OF s1]
  let ?step = "\<lambda>i s. rbind (arr_get ippool (hostName s)) (\<lambda>src. rbind (memcpy (ip b) 0 4) (\<lambda>dest.
        rbind (make_fragment data (int (length data)) src dest ident i) (\<lambda>f.
        rbind (arr_get macpool b) (\<lambda>mac. Ethernet_Send (ip_bytes f) mac s))))"
  have m: "memcpy (ip b) 0 4 = Inr (ip b)" using pools(4) [OF b] by (simp add: memcpy_def slice_of_def)
  have "\<exists>s'. for_each ?step (map int js) x = Inr s' \<and> ints_ok s' \<and>
      wire s' = wire x @ map (\<lambda>j. (port_name ?a, sent_frame ?a b data ident j)) js"
    if "set js \<subseteq> {0..<?n}" "ints_ok x" "hostName x = ?a" for js x
    using that
  proof (induction js arbitrary: x)
    case (Cons j js)
    let ?p = "ip_bytes (sent_fragment data (ip ?a) (ip b) ident j)"
    have "length ?p = 1500"
      using pools(4) [OF b] pools(4) [OF s(2,3)] by (simp add: length_ip_bytes sent_fragment_wf)
    then obtain x1 where x1: "Ethernet_Send ?p (mac b) x = Inr x1" "ints_ok x1" "hostName x1 = ?a"
        "wire x1 = wire x @ [(port_name ?a, sent_frame ?a b data ident j)]"
      using Ethernet_Send_ok [of x "mac b" ?p] Cons.prems s(2,3) pools(3) [OF b] by (auto simp: sent_frame_def)
    have "?step (int j) x = Inr x1"
      using Cons.prems make_fragment_ok [of j data "ip ?a" "ip b" ident] pools [OF b] pools [OF s(2,3)] x1(1) m by simp
    then show ?case using Cons.IH [OF _ x1(2,3)] Cons.prems(1) x1(4) by simp
  qed simp
  from this [of "[0..<?n]" s1] show ?thesis
    using s(1) f s1 by (simp add: IP_Send_def num_of_fragments_nat upto_int find_machine_ip [OF b])
qed

section \<open>One frame through the receiver\<close>

text \<open>A frame arrives, the two receiving threads take it in turn.\<close>

definition frame_arrives :: "byte list \<Rightarrow> 'a NetKernel_scheme \<Rightarrow> 'a NetKernel_scheme" where
  "frame_arrives fr r = Ethernet_Layer_CallBack (r\<lparr>current_packet := fr\<rparr>)"

definition deliver :: "byte list \<Rightarrow> 'a NetKernel_scheme \<Rightarrow> 'a NetKernel_scheme res" where
  "deliver fr r = (case pktrecv (frame_arrives fr r) of
       None \<Rightarrow> Inr r
     | Some res \<Rightarrow> rbind res (\<lambda>r. case ethrecv r of None \<Rightarrow> Inr r | Some res \<Rightarrow> res))"

lemma insertToMap_frame:
  "insertToMap k f (r\<lparr>current_packet := x\<rparr>) = (insertToMap k f r)\<lparr>current_packet := x\<rparr>"
  by (simp add: insertToMap_def Let_def split: option.split)

lemma UDP_Receive_frame:
  "UDP_Receive d (r\<lparr>current_packet := x\<rparr>) = (UDP_Receive d r)\<lparr>current_packet := x\<rparr>"
  by (simp add: UDP_Receive_def putData_def Let_def)

lemma IP_check_frame:
  "IP_check k (r\<lparr>current_packet := x\<rparr>) = rbind (IP_check k r) (\<lambda>r. Inr (r\<lparr>current_packet := x\<rparr>))"
  by (simp add: IP_check_def Let_def UDP_Receive_frame)

lemma IP_Receive_frame:
  "IP_Receive p (r\<lparr>current_packet := x\<rparr>) = rbind (IP_Receive p r) (\<lambda>r. Inr (r\<lparr>current_packet := x\<rparr>))"
  by (simp add: IP_Receive_def Let_def insertToMap_frame IP_check_frame)

lemma deliver_ok:
  assumes "messageAvailable r = 0" "messages r = []" "0 \<le> hostName r" "hostName r < 10"
    and "length src = 6" "length p = 1500"
  shows "deliver (frame_of src (mac (hostName r)) p) r =
    rbind (IP_Receive p r) (\<lambda>r'. Inr (r'\<lparr>current_packet := frame_of src (mac (hostName r)) p\<rparr>))"
proof -
  let ?f = "frame_of src (mac (hostName r)) p"
  have m: "length (mac (hostName r)) = 6" using pools(3) [OF assms(3,4)] .
  note fr = frame_of_fields [OF assms(5) m assms(6)]
  have e: "r\<lparr>current_packet := ?f, messageAvailable := 0, messages := []\<rparr> = r\<lparr>current_packet := ?f\<rparr>"
    using assms(1,2) by simp
  have "pktrecv (frame_arrives ?f r) = Some (Inr (r\<lparr>current_packet := ?f, messageAvailable := 0, messages := [?f]\<rparr>))"
    using assms(1-4) fr pools(1) [OF assms(3,4)]
    by (simp add: pktrecv_def frame_arrives_def Ethernet_Layer_CallBack_def NetworkInput_Receive_def Let_def)
  moreover have "ethrecv (r\<lparr>current_packet := ?f, messageAvailable := 0, messages := [?f]\<rparr>) =
      Some (IP_Receive p (r\<lparr>current_packet := ?f, messageAvailable := 0, messages := []\<rparr>))"
    using fr by (simp add: ethrecv_def Ethernet_Receive_def)
  ultimately show ?thesis by (simp add: deliver_def e IP_Receive_frame)
qed

lemma IP_Receive_keeps:
  assumes "IP_Receive p r = Inr r'"
  shows "messageAvailable r' = messageAvailable r \<and> messages r' = messages r \<and> hostName r' = hostName r"
proof -
  have i: "messageAvailable (insertToMap k f x) = messageAvailable x" "messages (insertToMap k f x) = messages x"
    "hostName (insertToMap k f x) = hostName x" for k f and x :: "'a NetKernel_scheme"
    by (simp_all add: insertToMap_def Let_def split: option.split)
  have u: "messageAvailable (UDP_Receive d x) = messageAvailable x" "messages (UDP_Receive d x) = messages x"
    "hostName (UDP_Receive d x) = hostName x" for d and x :: "'a NetKernel_scheme"
    by (simp_all add: UDP_Receive_def putData_def Let_def)
  show ?thesis using assms by (auto simp: IP_Receive_def IP_check_def Let_def i u split: if_splits)
qed

lemma for_each_IP_Receive_frame:
  "for_each (\<lambda>j. IP_Receive (p j)) js (r\<lparr>current_packet := x\<rparr>) =
    rbind (for_each (\<lambda>j. IP_Receive (p j)) js r) (\<lambda>r. Inr (r\<lparr>current_packet := x\<rparr>))"
proof (induction js arbitrary: r)
  case (Cons j js)
  obtain r1 where "IP_Receive (p j) r = Inr r1" using IP_Receive_total by blast
  then show ?case using Cons by (simp add: IP_Receive_frame)
qed simp

lemma deliver_all:
  assumes "messageAvailable r = 0" "messages r = []" "0 \<le> hostName r" "hostName r < 10" "length src = 6"
    and "\<forall>j\<in>set js. length (p j) = 1500" "hostName r = b"
  shows "\<exists>x. for_each deliver (map (\<lambda>j. frame_of src (mac b) (p j)) js) r =
    rbind (for_each (\<lambda>j. IP_Receive (p j)) js r) (\<lambda>r. Inr (r\<lparr>current_packet := x\<rparr>))"
  using assms
proof (induction js arbitrary: r)
  case Nil
  have "r = r\<lparr>current_packet := current_packet r\<rparr>" by simp
  then show ?case by (intro exI [of _ "current_packet r"]) simp
next
  case (Cons j js)
  obtain r1 where r1: "IP_Receive (p j) r = Inr r1" using IP_Receive_total by blast
  note k = IP_Receive_keeps [OF r1]
  let ?r = "r1\<lparr>current_packet := frame_of src (mac b) (p j)\<rparr>"
  have d: "deliver (frame_of src (mac b) (p j)) r = Inr ?r"
    using deliver_ok [OF Cons.prems(1-5), of "p j"] Cons.prems(6,7) r1 by simp
  obtain x where "for_each deliver (map (\<lambda>j. frame_of src (mac b) (p j)) js) ?r =
      rbind (for_each (\<lambda>j. IP_Receive (p j)) js ?r) (\<lambda>r. Inr (r\<lparr>current_packet := x\<rparr>))"
    using Cons.IH [of ?r] k Cons.prems by auto
  then show ?case using d r1 by (auto simp: for_each_IP_Receive_frame rbind_assoc)
qed

section \<open>End to end\<close>

lemma UDP_image:
  assumes "sz = length data" "sz \<le> 65527"
  shows "memcpy (udp_bytes \<lparr>sourcePort = sp, destinationPort = dp, udp_length = len, udp_checksum = junk,
      udp_data = data @ replicate (65536 - length data) 0\<rparr>) 0 (int sz + 8) =
    Inr (udp_bytes \<lparr>sourcePort = sp, destinationPort = dp, udp_length = len, udp_checksum = junk, udp_data = data\<rparr>)"
  using assms by (simp add: memcpy_def udp_bytes_def slice_of_def nat_add_distrib)

definition sent_datagram :: "16 word \<Rightarrow> byte list \<Rightarrow> int \<Rightarrow> int \<Rightarrow> byte list" where
  "sent_datagram junk data sport dport = udp_bytes \<lparr>sourcePort = word_of_int sport, destinationPort = word_of_int dport,
     udp_length = word_of_int (int (length data) + 8), udp_checksum = junk, udp_data = data\<rparr>"

lemma length_sent_datagram [simp]: "length (sent_datagram junk data sp dp) = length data + 8"
  by (simp add: sent_datagram_def udp_bytes_def)

lemma UDP_Send_ok:
  assumes "ints_ok s" "0 \<le> hostName s" "hostName s < 10" "0 \<le> b" "b < 10" "length data \<le> 65527"
  shows "\<exists>s'. UDP_Send junk data (int (length data)) (ip b) sp dp s = Inr s' \<and>
    wire s' = wire s @ map (\<lambda>j. (port_name (hostName s),
        sent_frame (hostName s) b (sent_datagram junk data sp dp) (fst (get_Random_Identification s)) j))
      [0..<fragments_needed (length data + 8)]"
proof -
  let ?d = "sent_datagram junk data sp dp"
  have m: "memcpy data 0 (int (length data)) = Inr data" by (simp add: memcpy_def slice_of_def)
  have "UDP_Send junk data (int (length data)) (ip b) sp dp s = IP_Send ?d (int (length ?d)) (ip b) s"
    using assms(6) by (simp add: UDP_Send_def m UDP_image [OF refl] Let_def length_sent_datagram
        sent_datagram_def [symmetric] del: of_int_add)
  then show ?thesis using IP_Send_ok [OF assms(1-5), of ?d] by auto
qed

lemma UDP_Receive_sent:
  assumes "length data \<le> 65527" "0 \<le> dp" "dp < 65536"
  shows "UDP_Receive (sent_datagram junk data sp dp @ zs) r = putData (data @ zs) (int (length data)) dp r"
proof -
  have u: "uint (word_of_int k :: 16 word) = k" if "0 \<le> k" "k < 65536" for k
    using that by (simp add: uint_word_of_int take_bit_int_eq_self)
  have "udp_of (sent_datagram junk data sp dp @ zs) = \<lparr>sourcePort = word_of_int sp, destinationPort = word_of_int dp,
     udp_length = word_of_int (int (length data) + 8), udp_checksum = junk, udp_data = data @ zs\<rparr>"
    unfolding sent_datagram_def using udp_roundtrip [of "\<lparr>sourcePort = word_of_int sp, destinationPort = word_of_int dp,
     udp_length = word_of_int (int (length data) + 8), udp_checksum = junk, udp_data = data @ zs\<rparr>"]
    by (simp add: udp_bytes_def)
  then show ?thesis using assms u [of dp] u [of "int (length data) + 8"] by (simp add: UDP_Receive_def Let_def)
qed

lemma datagrams_putData:
  "datagrams (putData d sz port r) =
    (datagrams r)(port \<mapsto> (case datagrams r port of None \<Rightarrow> [] | Some q \<Rightarrow> q) @ [(sz, d)])"
  by (auto simp: putData_def Let_def split: option.splits)

lemma chunks_of_datagram:
  "concat (map (chunk d) [0..<fragments_needed (length d)]) =
    d @ replicate (fragments_needed (length d) * 1480 - length d) 0"
proof -
  have "length d \<le> fragments_needed (length d) * 1480" by (simp add: fragments_needed_def)
  then show ?thesis by (simp add: concat_chunks)
qed

lemma sent_frames_delivered:
  assumes r: "messageAvailable r = 0" "messages r = []" "0 \<le> hostName r" "hostName r < 10"
    and a: "0 \<le> a" "a < 10" and l: "length d \<le> 65535" "0 < length d"
    and free: "fragmentDict r (computeHash (ip a) (ip (hostName r)) (uint ident)) = None"
    and js: "distinct js" "set js = {0..<fragments_needed (length d)}"
  shows "\<exists>x. for_each deliver (map (sent_frame a (hostName r) d ident) js) r =
    Inr ((UDP_Receive (d @ replicate (fragments_needed (length d) * 1480 - length d) 0) r)
      \<lparr>fragmentDict := fragmentDict r, current_packet := x\<rparr>)"
proof -
  let ?b = "hostName r" and ?n = "fragments_needed (length d)"
  let ?p = "\<lambda>j. ip_bytes (sent_fragment d (ip a) (ip ?b) ident j)"
  have b4: "length (ip a) = 4" "length (ip ?b) = 4" "length (mac a) = 6" using pools [OF a] pools [OF r(3,4)] by auto
  have pl: "length (?p j) = 1500" for j by (simp add: length_ip_bytes sent_fragment_wf [OF b4(1,2)])
  have n: "0 < ?n" by (rule fragments_needed_pos [OF l(2)])
  have "for_each (\<lambda>j. IP_Receive (?p j)) js r =
      Inr ((UDP_Receive (concat (map (chunk d) [0..<?n])) r)\<lparr>fragmentDict := fragmentDict r\<rparr>)"
    by (rule receive_fragments [OF sent_fragments_carry [OF b4(1,2) l(1), of ident] free js n])
  moreover obtain x where "for_each deliver (map (\<lambda>j. frame_of (mac a) (mac ?b) (?p j)) js) r =
      rbind (for_each (\<lambda>j. IP_Receive (?p j)) js r) (\<lambda>r. Inr (r\<lparr>current_packet := x\<rparr>))"
    using deliver_all [OF r b4(3), of js ?p ?b] pl by auto
  moreover have "sent_frame a ?b d ident = (\<lambda>j. frame_of (mac a) (mac ?b) (?p j))"
    by (simp add: fun_eq_iff sent_frame_def)
  ultimately show ?thesis unfolding chunks_of_datagram by auto
qed

section \<open>Interleaved and incomplete datagrams\<close>

lemma IP_Receive_other:
  assumes "ip_key x \<noteq> k" "IP_Receive x r = Inr r'"
  shows "fragmentDict r' k = fragmentDict r k"
proof -
  have u: "fragmentDict (UDP_Receive d y) = fragmentDict y" for d and y :: "'a NetKernel_scheme"
    by (simp add: UDP_Receive_def putData_def Let_def)
  have i: "fragmentDict (insertToMap k' f y) k = fragmentDict y k" if "k' \<noteq> k" for k' f and y :: "'a NetKernel_scheme"
    using that by (simp add: insertToMap_def Let_def split: option.split)
  show ?thesis using assms i [of "ip_key x" "ip_of x" r]
    by (auto simp: IP_Receive_def IP_check_def ip_key_def Let_def u split: if_splits)
qed

definition grows :: "'a NetKernel_scheme \<Rightarrow> 'a NetKernel_scheme \<Rightarrow> bool" where
  "grows r r' \<longleftrightarrow> (\<forall>port q. datagrams r port = Some q \<longrightarrow> (\<exists>more. datagrams r' port = Some (q @ more)))"

lemma grows_trans: "grows a b \<Longrightarrow> grows b c \<Longrightarrow> grows a c"
  unfolding grows_def by (metis append.assoc)

lemma grows_refl: "datagrams r' = datagrams r \<Longrightarrow> grows r r'"
  by (simp add: grows_def)

lemma UDP_Receive_grows: "grows r ((UDP_Receive d r)\<lparr>fragmentDict := x\<rparr>)"
  by (auto simp: UDP_Receive_def Let_def grows_def datagrams_putData)

lemma IP_Receive_grows:
  assumes "IP_Receive x r = Inr r'" shows "grows r r'"
proof -
  have i: "datagrams (insertToMap k f y) = datagrams y" for k f and y :: "'a NetKernel_scheme"
    by (simp add: insertToMap_def Let_def split: option.split)
  let ?r = "insertToMap (ip_key x) (ip_of x) r"
  have "grows ?r r'"
    using assms UDP_Receive_grows [of ?r] grows_refl
    by (auto simp: IP_Receive_def IP_check_def ip_key_def Let_def split: if_splits)
  then show ?thesis using i by (simp add: grows_def)
qed

lemma receive_others:
  assumes "fragmentDict r k = None" "\<forall>x\<in>set xs. ip_key x \<noteq> k"
  shows "\<exists>r'. for_each IP_Receive xs r = Inr r' \<and> fragmentDict r' k = None \<and> grows r r'"
  using assms
proof (induction xs arbitrary: r)
  case (Cons z zs)
  obtain r1 where r1: "IP_Receive z r = Inr r1" using IP_Receive_total by blast
  then have "fragmentDict r1 k = None" using IP_Receive_other [of z k r r1] Cons.prems by simp
  then show ?case using Cons.IH [of r1] Cons.prems r1 grows_trans [OF IP_Receive_grows [OF r1]] by auto
qed (simp add: grows_refl)

text \<open>Receiving any mix of payloads in which those with the key \<open>k\<close> are the fragments \<open>rest\<close>.\<close>

lemma receive_interleaved:
  assumes "carries n c k p" "fragmentDict r k = partial_dict n c js" "distinct (js @ rest)"
    and "set (js @ rest) = {0..<n}" "filter (\<lambda>x. ip_key x = k) xs = map p rest" "rest \<noteq> []"
  shows "\<exists>r0 r'. for_each IP_Receive xs r = Inr r' \<and> fragmentDict r' k = None \<and>
    grows r r0 \<and> grows ((UDP_Receive (concat (map c [0..<n])) r0)\<lparr>fragmentDict := fragmentDict r\<rparr>) r'"
  using assms
proof (induction xs arbitrary: r js rest)
  case (Cons x xs)
  obtain r1 where r1: "IP_Receive x r = Inr r1" using IP_Receive_total by blast
  show ?case
  proof (cases "ip_key x = k")
    case False
    have d: "fragmentDict r1 k = partial_dict n c js" using IP_Receive_other [OF False r1] Cons.prems(2) by simp
    have "filter (\<lambda>x. ip_key x = k) xs = map p rest" using Cons.prems(5) False by simp
    from Cons.IH [OF Cons.prems(1) d Cons.prems(3,4) this Cons.prems(6)] obtain r0 r' where
      i: "for_each IP_Receive xs r1 = Inr r'" "fragmentDict r' k = None" "grows r1 r0"
        "grows ((UDP_Receive (concat (map c [0..<n])) r0)\<lparr>fragmentDict := fragmentDict r1\<rparr>) r'" by blast
    then show ?thesis using r1 grows_trans [OF IP_Receive_grows [OF r1] i(3)]
      by (intro exI [of _ r0] exI [of _ r']) (simp add: grows_def)
  next
    case True
    then obtain j rest' where rest: "rest = j # rest'" "x = p j" "filter (\<lambda>x. ip_key x = k) xs = map p rest'"
      using Cons.prems(5) by (cases rest) auto
    have "j \<in> set (js @ rest)" using rest by simp
    then have j: "to_Fragment (ip_of x) = frag n c j" "ip_key x = k"
      using Cons.prems(1) rest(2) unfolding Cons.prems(4) by (auto simp: carries_def)
    have dj: "distinct (j # js)" using Cons.prems(3) rest(1) by auto
    show ?thesis
    proof (cases "rest' = []")
      case last: True
      then have "set (j # js) = {0..<n}" using Cons.prems(4) rest(1) by auto
      from IP_Receive_complete [OF Cons.prems(2) j dj this] r1 have
        r1': "r1 = (UDP_Receive (concat (map c [0..<n])) r)\<lparr>fragmentDict := (fragmentDict r)(k := None)\<rparr>" by simp
      have "fragmentDict r1 k = None" "\<forall>x\<in>set xs. ip_key x \<noteq> k"
        using rest(3) last r1' by (simp_all add: filter_empty_conv)
      then obtain r' where r': "for_each IP_Receive xs r1 = Inr r'" "fragmentDict r' k = None" "grows r1 r'"
        using receive_others by blast
      have "grows ((UDP_Receive (concat (map c [0..<n])) r)\<lparr>fragmentDict := fragmentDict r\<rparr>) r'"
        using r'(3) by (simp add: grows_def r1')
      then show ?thesis using r1 r'(1,2) grows_refl [of r r]
        by (intro exI [of _ r] exI [of _ r'] conjI) simp_all
    next
      case more: False
      have "set (j # js) \<subset> {0..<n}" using Cons.prems(3,4) more rest(1) by (cases rest') auto
      from IP_Receive_partial [OF Cons.prems(2) j dj this] r1 have
        r1': "r1 = r\<lparr>fragmentDict := (fragmentDict r)(k := partial_dict n c (j # js))\<rparr>" by simp
      have "\<exists>r0 r'. for_each IP_Receive xs r1 = Inr r' \<and> fragmentDict r' k = None \<and>
        grows r1 r0 \<and> grows ((UDP_Receive (concat (map c [0..<n])) r0)\<lparr>fragmentDict := fragmentDict r1\<rparr>) r'"
        using Cons.prems(1,3,4) rest more r1' by (intro Cons.IH [of r1 "j # js" rest']) auto
      then show ?thesis using r1 r1' by (auto simp: grows_def)
    qed
  qed
qed simp

lemma receive_incomplete:
  assumes "carries n c k p" "fragmentDict r k = partial_dict n c js" "distinct (js @ rest)"
    and "set (js @ rest) \<subset> {0..<n}"
  shows "for_each (\<lambda>j. IP_Receive (p j)) rest r =
    Inr (r\<lparr>fragmentDict := (fragmentDict r)(k := partial_dict n c (rev rest @ js))\<rparr>)"
  using assms
proof (induction rest arbitrary: js r)
  case Nil
  then show ?case by (simp add: fun_upd_idem)
next
  case (Cons j rest)
  have "j \<in> set (js @ j # rest)" by simp
  then have "j < n" using Cons.prems(4) by fastforce
  then have j: "to_Fragment (ip_of (p j)) = frag n c j" "ip_key (p j) = k"
    using Cons.prems(1) by (simp_all add: carries_def)
  have "distinct (j # js)" "set (j # js) \<subset> {0..<n}" using Cons.prems(3,4) by auto
  note r = IP_Receive_partial [OF Cons.prems(2) j this]
  let ?r = "r\<lparr>fragmentDict := (fragmentDict r)(k := partial_dict n c (j # js))\<rparr>"
  have "for_each (\<lambda>j. IP_Receive (p j)) rest ?r =
      Inr (?r\<lparr>fragmentDict := (fragmentDict ?r)(k := partial_dict n c (rev rest @ j # js))\<rparr>)"
    using Cons.prems(1,3,4) by (intro Cons.IH) auto
  then show ?case using r by (simp add: fun_upd_def cong: if_cong)
qed

section \<open>Properties\<close>

definition net_boot :: "int \<Rightarrow> NetKernel" where
  "net_boot host = Hardware.extend (power_on host [] [] [] (\<lambda>_. 0))
     (NetKernel.fields [] (\<lambda>_. None) 0 (\<lambda>_. None) [] (\<lambda>_. None))"

lemmas net_boot_defs = net_boot_def power_on_def Hardware.defs NetKernel.defs Interrupt.defs Interrupt_new_def
  Statistics_new_def

lemma net_boot_simps [simp]:
  "ints_ok (net_boot h)" "hostName (net_boot h) = h" "messageAvailable (net_boot h) = 0" "messages (net_boot h) = []"
  "fragmentDict (net_boot h) = (\<lambda>_. None)" "datagrams (net_boot h) = (\<lambda>_. None)" "wire (net_boot h) = []"
  by (simp_all add: net_boot_defs ints_ok_def)

lemma bind_putData: "bind_sockets (putData d sz port r) = bind_sockets r"
  by (simp add: putData_def Let_def)

lemma udp_delivery:
  assumes s: "ints_ok s" "0 \<le> hostName s" "hostName s < 10"
    and r: "0 \<le> hostName r" "hostName r < 10" "messageAvailable r = 0" "messages r = []"
    and d: "length data \<le> 65527" "0 \<le> dp" "dp < 65536"
    and free: "fragmentDict r (computeHash (ip (hostName s)) (ip (hostName r))
        (uint (fst (get_Random_Identification s)))) = None"
  shows "\<exists>s' frames. UDP_Send junk data (int (length data)) (ip (hostName r)) sp dp s = Inr s' \<and>
    map snd (wire s') = map snd (wire s) @ frames \<and>
    (\<forall>js. distinct js \<and> set js = {0..<length frames} \<longrightarrow>
      (\<exists>r' zs. for_each deliver (map ((!) frames) js) r = Inr r' \<and> fragmentDict r' = fragmentDict r \<and>
        bind_sockets r' = bind_sockets r \<and> datagrams r' = (datagrams r)(dp \<mapsto>
          (case datagrams r dp of None \<Rightarrow> [] | Some q \<Rightarrow> q) @ [(int (length data), data @ zs)])))"
proof -
  let ?D = "sent_datagram junk data sp dp" and ?i = "fst (get_Random_Identification s)"
  let ?n = "fragments_needed (length data + 8)"
  let ?f = "sent_frame (hostName s) (hostName r) ?D ?i"
  let ?z = "replicate (?n * 1480 - (length data + 8)) 0 :: byte list"
  obtain s' where s': "UDP_Send junk data (int (length data)) (ip (hostName r)) sp dp s = Inr s'"
      "map snd (wire s') = map snd (wire s) @ map ?f [0..<?n]"
    using UDP_Send_ok [OF s r(1,2) d(1), of junk sp dp] by (auto simp: comp_def)
  have "\<exists>r' zs. for_each deliver (map ((!) (map ?f [0..<?n])) js) r = Inr r' \<and> fragmentDict r' = fragmentDict r \<and>
        bind_sockets r' = bind_sockets r \<and> datagrams r' = (datagrams r)(dp \<mapsto>
          (case datagrams r dp of None \<Rightarrow> [] | Some q \<Rightarrow> q) @ [(int (length data), data @ zs)])"
    if js: "distinct js" "set js = {0..<?n}" for js
  proof -
    have m: "map ((!) (map ?f [0..<?n])) js = map ?f js" using js(2) by auto
    obtain x where "for_each deliver (map ?f js) r = Inr ((UDP_Receive (?D @ ?z) r)
        \<lparr>fragmentDict := fragmentDict r, current_packet := x\<rparr>)"
      using sent_frames_delivered [OF r(3,4,1,2) s(2,3), of ?D ?i js] d(1) free js by auto
    then show ?thesis unfolding m UDP_Receive_sent [OF d]
      by (intro exI [of _ "(putData (data @ ?z) (int (length data)) dp r)
        \<lparr>fragmentDict := fragmentDict r, current_packet := x\<rparr>"] exI [of _ ?z]) (simp add: datagrams_putData bind_putData)
  qed
  then show ?thesis using s' by (intro exI [of _ s'] exI [of _ "map ?f [0..<?n]"]) simp
qed

text \<open>C5. A datagram of up to 65527 bytes sent with \<open>UDP_Layer::Send\<close> to another machine leaves as
  Ethernet frames which, delivered to that machine in any order, put exactly one datagram into the
  queue of the destination port: its size is the size sent and its first bytes are the bytes sent.
  The reassembly dictionary is left as it was.\<close>

theorem udp_end_to_end:
  assumes s: "ints_ok s" "0 \<le> hostName s" "hostName s < 10"
    and r: "0 \<le> hostName r" "hostName r < 10" "messageAvailable r = 0" "messages r = []"
    and d: "length data \<le> 65527" "0 \<le> dp" "dp < 65536"
    and free: "fragmentDict r (computeHash (ip (hostName s)) (ip (hostName r))
        (uint (fst (get_Random_Identification s)))) = None"
  shows "\<exists>s' frames. UDP_Send junk data (int (length data)) (ip (hostName r)) sp dp s = Inr s' \<and>
    map snd (wire s') = map snd (wire s) @ frames \<and>
    (\<forall>js. distinct js \<and> set js = {0..<length frames} \<longrightarrow>
      (\<exists>r' zs. for_each deliver (map ((!) frames) js) r = Inr r' \<and> fragmentDict r' = fragmentDict r \<and>
        datagrams r' = (datagrams r)(dp \<mapsto>
          (case datagrams r dp of None \<Rightarrow> [] | Some q \<Rightarrow> q) @ [(int (length data), data @ zs)])))"
  using udp_delivery [OF assms, of junk sp] by meson

theorem udp_end_to_end_witness:
  "\<exists>s' frames. UDP_Send 7 (replicate 3000 97) (int (length (replicate 3000 (97 :: byte)))) (ip (hostName (net_boot 1)))
      5 9 (net_boot 0) = Inr s' \<and>
    map snd (wire s') = map snd (wire (net_boot 0)) @ frames \<and>
    (\<forall>js. distinct js \<and> set js = {0..<length frames} \<longrightarrow>
      (\<exists>r' zs. for_each deliver (map ((!) frames) js) (net_boot 1) = Inr r' \<and>
        fragmentDict r' = fragmentDict (net_boot 1) \<and>
        datagrams r' = (datagrams (net_boot 1))(9 \<mapsto>
          (case datagrams (net_boot 1) 9 of None \<Rightarrow> [] | Some q \<Rightarrow> q) @
          [(int (length (replicate 3000 (97 :: byte))), replicate 3000 97 @ zs)])))"
  by (rule udp_end_to_end) simp_all



text \<open>C7. An incomplete datagram is never delivered: whatever proper subset of its fragments arrives,
  in whatever order, no port receives anything.\<close>

theorem incomplete_datagram_not_delivered:
  assumes "length src = 4" "length dest = 4" "length data \<le> 65535"
    and "fragmentDict r (computeHash src dest (uint ident)) = None"
    and "distinct js" "set js \<subset> {0..<fragments_needed (length data)}"
  shows "\<exists>r'. for_each IP_Receive (map (\<lambda>j. ip_bytes (sent_fragment data src dest ident j)) js) r = Inr r' \<and>
    datagrams r' = datagrams r"
  unfolding for_each_map
  using receive_incomplete [OF sent_fragments_carry [OF assms(1-3), of ident], of r "[]" js] assms(4-6)
  by (simp add: partial_dict_def)

theorem incomplete_datagram_not_delivered_witness:
  "\<exists>r'. for_each IP_Receive (map (\<lambda>j. ip_bytes (sent_fragment (replicate 3000 1) (ip 0) (ip 1) 3 j)) [2, 0]) (net_boot 1)
      = Inr r' \<and> datagrams r' = datagrams (net_boot 1)"
proof (rule incomplete_datagram_not_delivered)
  have n: "fragments_needed (length (replicate 3000 (1 :: byte))) = 3" by (simp add: fragments_needed_def)
  have "1 \<in> {0..<3 :: nat}" "1 \<notin> set [2, 0 :: nat]" "set [2, 0 :: nat] \<subseteq> {0..<3}" by simp_all
  then show "set [2, 0 :: nat] \<subset> {0..<fragments_needed (length (replicate 3000 (1 :: byte)))}"
    unfolding n by blast
qed (simp_all add: ippool_def)

text \<open>The reassembly key separates senders: for one receiving machine, two datagrams have the
  same key only if they have the same source address and the same identification.\<close>

theorem hash_separates_senders:
  assumes "length src1 = 4" "length src2 = 4" "0 \<le> i1" "0 \<le> i2"
    and "computeHash src1 dest i1 = computeHash src2 dest i2"
  shows "src1 = src2 \<and> i1 = i2"
proof -
  let ?c = "\<lambda>src i. char_of (unat (src ! i + dest ! i)) :: char"
  have "map (?c src1) [0..<4] = map (?c src2) [0..<4]" "to_string i1 = to_string i2"
    using assms(5) append_eq_append_conv [of "map (?c src1) [0..<4]" "map (?c src2) [0..<4]"]
    by (auto simp: computeHash_def)
  then have c: "\<forall>i<4. ?c src1 i = ?c src2 i" and t: "nat i1 = nat i2"
    using assms(3,4) by (auto simp: to_string_def)
  have "src1 ! i = src2 ! i" if "i < 4" for i
  proof -
    have "of_char (?c src1 i) = (of_char (?c src2 i) :: nat)" using c that by simp
    moreover have "unat x < 2 ^ LENGTH(8)" for x :: byte by (rule unsigned_less)
    ultimately have "unat (src1 ! i + dest ! i) = unat (src2 ! i + dest ! i)" by simp
    then show ?thesis by (simp add: word_unat_eq_iff [symmetric])
  qed
  then show ?thesis using assms(1-4) t by (auto intro: nth_equalityI)
qed

theorem hash_separates_senders_witness:
  "computeHash [1, 2, 3, 4] [9, 9, 9, 255] 77 = computeHash [1, 2, 3, 4] [9, 9, 9, 255] 77 \<and>
   ([1, 2, 3, 4 :: byte] = [1, 2, 3, 4] \<and> (77 :: int) = 77)"
  using hash_separates_senders [of "[1, 2, 3, 4]" "[1, 2, 3, 4]" 77 77 "[9, 9, 9, 255]"] by simp

text \<open>A packet that arrives before the receiving thread has taken the previous one replaces it:
  the first is lost and the second is processed twice, since the interface counts both arrivals but
  has room for one packet.\<close>

theorem overrun_loses_and_duplicates:
  assumes "messageAvailable r = 0" "0 \<le> hostName r" "hostName r < 10"
    and "destMAC (eth_of f2) = mac (hostName r)"
  shows "\<exists>r1 r2. pktrecv (frame_arrives f2 (frame_arrives f1 r)) = Some (Inr r1) \<and> pktrecv r1 = Some (Inr r2) \<and>
    messages r2 = messages r @ [f2, f2] \<and> pktrecv r2 = None"
  using assms pools(1) [OF assms(2,3)]
  by (simp add: pktrecv_def frame_arrives_def Ethernet_Layer_CallBack_def NetworkInput_Receive_def)

theorem overrun_loses_and_duplicates_witness:
  "\<exists>r1 r2. pktrecv (frame_arrives (frame_of (mac 0) (mac 1) (replicate 1500 2))
      (frame_arrives (frame_of (mac 0) (mac 1) (replicate 1500 1)) (net_boot 1))) = Some (Inr r1) \<and>
    pktrecv r1 = Some (Inr r2) \<and>
    messages r2 = messages (net_boot 1) @
      [frame_of (mac 0) (mac 1) (replicate 1500 2), frame_of (mac 0) (mac 1) (replicate 1500 2)] \<and> pktrecv r2 = None"
  by (rule overrun_loses_and_duplicates) (simp_all add: frame_of_fields macpool_def)

text \<open>Sending to an address that no machine has goes wrong: the code only prints a message and
  then reads outside the table of MAC addresses.\<close>

theorem unknown_destination_faults:
  assumes "0 \<le> hostName s" "hostName s < 10" "length dest = 4" "dest \<notin> set ippool" "data \<noteq> []"
  shows "IP_Send data (int (length data)) dest s = Inl OutOfRange"
proof -
  have "find_machine i ps dest = - 1" if "dest \<notin> set ps" for i ps
    using that assms(3) by (induction ps arbitrary: i) auto
  then have f: "find_machine 0 ippool dest = - 1" using assms(4) by simp
  have m: "memcpy dest 0 4 = Inr dest" using assms(3) by (simp add: memcpy_def slice_of_def)
  obtain i s1 where s1: "get_Random_Identification s = (i, s1)" "hostName s1 = hostName s"
    using get_Random_Identification_frame by (metis surj_pair)
  have pos: "0 < fragments_needed (length data)" using assms(5) by (simp add: fragments_needed_pos)
  then obtain n where n: "fragments_needed (length data) = Suc n" by (cases "fragments_needed (length data)") auto
  have "make_fragment data (int (length data)) (ip (hostName s)) dest i (int 0) = Inr (sent_fragment data (ip (hostName s)) dest i 0)"
    using pos by (rule make_fragment_ok)
  moreover have "[0..int (fragments_needed (length data)) - 1] = 0 # map int [1..<Suc n]"
    unfolding upto_int n by (simp add: upt_conv_Cons del: upt_Suc)
  moreover have "arr_get macpool (- 1) = Inl OutOfRange" by (simp add: arr_get_def)
  ultimately show ?thesis using f m s1 pools(2) [OF assms(1,2)]
    by (simp add: IP_Send_def num_of_fragments_nat)
qed

theorem unknown_destination_faults_witness:
  "IP_Send [1] (int (length [1 :: byte])) [10, 0, 0, 1] (net_boot 0) = Inl OutOfRange"
  by (rule unknown_destination_faults) (simp_all add: ippool_def)

end
