(* ===== verification/Machine.thy ===== *)
theory Machine
  imports Post
begin

text \<open>
  The simulated machine as user programs see it (\<open>machine/machine.cc\<close>, \<open>machine/translate.cc\<close>):
  the forty registers, main memory, address translation by a linear page table or by a TLB, and the
  trap into the kernel.  Registers hold 32-bit words; the code declares them as \<open>int\<close>, and its signed
  operations are written out as such.  The handler of exceptions, which belongs to the kernel, is the
  argument \<open>eh\<close> of the operations that may trap.  Memory is the function of an address below
  \<open>MemorySize\<close> to its byte; accesses are asserted to be below by \<open>Translate\<close> itself.
\<close>

section \<open>Constants and state\<close>

definition PageSize :: int where "PageSize = 128"
definition NumPhysPages :: int where "NumPhysPages = 128"
definition MemorySize :: int where "MemorySize = NumPhysPages * PageSize"
definition TLBSize :: int where "TLBSize = 4"

lemmas memory_consts = PageSize_def NumPhysPages_def MemorySize_def TLBSize_def

datatype ExceptionType = NoException | SyscallException | PageFaultException | ReadOnlyException
  | BusErrorException | AddressErrorException | OverflowException | IllegalInstrException | NumExceptionTypes

abbreviation (input) StackReg :: nat where "StackReg \<equiv> 29"
abbreviation (input) RetAddrReg :: nat where "RetAddrReg \<equiv> 31"
abbreviation (input) NumGPRegs :: nat where "NumGPRegs \<equiv> 32"
abbreviation (input) HiReg :: nat where "HiReg \<equiv> 32"
abbreviation (input) LoReg :: nat where "LoReg \<equiv> 33"
abbreviation (input) PCReg :: nat where "PCReg \<equiv> 34"
abbreviation (input) NextPCReg :: nat where "NextPCReg \<equiv> 35"
abbreviation (input) PrevPCReg :: nat where "PrevPCReg \<equiv> 36"
abbreviation (input) LoadReg :: nat where "LoadReg \<equiv> 37"
abbreviation (input) LoadValueReg :: nat where "LoadValueReg \<equiv> 38"
abbreviation (input) BadVAddrReg :: nat where "BadVAddrReg \<equiv> 39"
abbreviation (input) NumTotalRegs :: nat where "NumTotalRegs \<equiv> 40"

record TranslationEntry =
  virtualPage :: int
  physicalPage :: int
  valid :: bool
  readOnly :: bool
  used :: bool
  dirty :: bool

record Machine = NetKernel +
  registers :: "32 word list"
  mainMemory :: "nat \<Rightarrow> byte"
  tlb :: "TranslationEntry list option"
  pageTable :: "TranslationEntry list option"
  pageTableSize :: int
  singleStep :: bool
  runUntilTime :: int

abbreviation reg :: "'a Machine_scheme \<Rightarrow> nat \<Rightarrow> 32 word" where
  "reg s n \<equiv> registers s ! n"

abbreviation set_reg :: "nat \<Rightarrow> 32 word \<Rightarrow> 'a Machine_scheme \<Rightarrow> 'a Machine_scheme" where
  "set_reg n v s \<equiv> s\<lparr>registers := (registers s)[n := v]\<rparr>"

definition Machine_new :: "bool \<Rightarrow> NetKernel \<Rightarrow> Machine" where
  "Machine_new dbg k =
     NetKernel.extend k (Machine.fields (replicate NumTotalRegs 0) (\<lambda>_. 0) None None 0 dbg 0)"

definition ReadRegister :: "int \<Rightarrow> 'a Machine_scheme \<Rightarrow> 32 word res" where
  "ReadRegister num s = rbind (ASSERT (0 \<le> num \<and> num < int NumTotalRegs)) (\<lambda>_. arr_get (registers s) num)"

definition WriteRegister :: "int \<Rightarrow> 32 word \<Rightarrow> 'a Machine_scheme \<Rightarrow> 'a Machine_scheme res" where
  "WriteRegister num v s =
     rbind (ASSERT (0 \<le> num \<and> num < int NumTotalRegs)) (\<lambda>_.
     rbind (arr_set (registers s) num v) (\<lambda>rs. Inr (s\<lparr>registers := rs\<rparr>)))"

section \<open>Delayed loads and traps\<close>

text \<open>The target of the pending load is itself read from a register.\<close>

definition DelayedLoad :: "32 word \<Rightarrow> 32 word \<Rightarrow> 'a Machine_scheme \<Rightarrow> 'a Machine_scheme res" where
  "DelayedLoad nextReg nextValue s =
     rbind (arr_set (registers s) (sint (reg s LoadReg)) (reg s LoadValueReg)) (\<lambda>rs.
     Inr (s\<lparr>registers := rs[LoadReg := nextReg, LoadValueReg := nextValue, 0 := 0]\<rparr>))"

type_synonym 's handler = "ExceptionType \<Rightarrow> 's \<Rightarrow> 's res"

definition RaiseException ::
  "'a Machine_scheme handler \<Rightarrow> ExceptionType \<Rightarrow> 32 word \<Rightarrow> 'a Machine_scheme \<Rightarrow> 'a Machine_scheme res" where
  "RaiseException eh which badVAddr s =
     rbind (DelayedLoad 0 0 (set_reg BadVAddrReg badVAddr s)) (\<lambda>s.
     rbind (eh which (s\<lparr>status := SystemMode\<rparr>)) (\<lambda>s.
     Inr (s\<lparr>status := UserMode\<rparr>)))"

section \<open>Address translation\<close>

definition WordToHost :: "32 word \<Rightarrow> 32 word" where "WordToHost w = w"
definition ShortToHost :: "16 word \<Rightarrow> 16 word" where "ShortToHost w = w"
definition WordToMachine :: "32 word \<Rightarrow> 32 word" where "WordToMachine w = WordToHost w"
definition ShortToMachine :: "16 word \<Rightarrow> 16 word" where "ShortToMachine w = ShortToHost w"

fun tlb_search :: "int \<Rightarrow> TranslationEntry list \<Rightarrow> 32 word \<Rightarrow> int option" where
  "tlb_search i [] vpn = None"
| "tlb_search i (e # es) vpn =
     (if valid e \<and> virtualPage e = sint vpn then Some i else tlb_search (i + 1) es vpn)"

text \<open>What is found for a page: the exception to raise, or the table that holds the entry and the
  entry's index there.\<close>

definition find_entry :: "32 word \<Rightarrow> 'a Machine_scheme \<Rightarrow> (ExceptionType + int \<times> TranslationEntry) res" where
  "find_entry vpn s = (case tlb s of
       None \<Rightarrow>
         if uint vpn \<ge> pageTableSize s then Inr (Inl AddressErrorException)
         else (case pageTable s of
             None \<Rightarrow> Inl NullPointer
           | Some pt \<Rightarrow> rbind (arr_get pt (uint vpn)) (\<lambda>e.
               if \<not> valid e then Inr (Inl PageFaultException) else Inr (Inr (uint vpn, e))))
     | Some t \<Rightarrow> (case tlb_search 0 t vpn of
           None \<Rightarrow> Inr (Inl PageFaultException)
         | Some i \<Rightarrow> rbind (arr_get t i) (\<lambda>e. Inr (Inr (i, e)))))"

definition store_entry :: "int \<Rightarrow> TranslationEntry \<Rightarrow> 'a Machine_scheme \<Rightarrow> 'a Machine_scheme" where
  "store_entry i e s = (case tlb s of
       None \<Rightarrow> s\<lparr>pageTable := map_option (\<lambda>pt. pt[nat i := e]) (pageTable s)\<rparr>
     | Some t \<Rightarrow> s\<lparr>tlb := Some (t[nat i := e])\<rparr>)"

definition Translate ::
  "32 word \<Rightarrow> int \<Rightarrow> bool \<Rightarrow> 'a Machine_scheme \<Rightarrow> (ExceptionType \<times> int \<times> 'a Machine_scheme) res" where
  "Translate virtAddr sz writing s =
     (if sz = 4 \<and> virtAddr AND 3 \<noteq> 0 \<or> sz = 2 \<and> virtAddr AND 1 \<noteq> 0
      then Inr (AddressErrorException, 0, s)
      else
        rbind (ASSERT (tlb s = None \<or> pageTable s = None)) (\<lambda>_.
        rbind (ASSERT (tlb s \<noteq> None \<or> pageTable s \<noteq> None)) (\<lambda>_.
        let vpn = virtAddr div word_of_int PageSize; offset = uint (virtAddr mod word_of_int PageSize) in
        rbind (find_entry vpn s) (\<lambda>found. case found of
            Inl ex \<Rightarrow> Inr (ex, 0, s)
          | Inr (i, entry) \<Rightarrow>
              if readOnly entry \<and> writing then Inr (ReadOnlyException, 0, s)
              else
                let pageFrame = uint (word_of_int (physicalPage entry) :: 32 word) in
                if pageFrame \<ge> NumPhysPages then Inr (BusErrorException, 0, s)
                else
                  let entry = entry\<lparr>used := True, dirty := (dirty entry \<or> writing)\<rparr>;
                      s = store_entry i entry s;
                      physAddr = pageFrame * PageSize + offset in
                  rbind (ASSERT (0 \<le> physAddr \<and> physAddr + sz \<le> MemorySize)) (\<lambda>_.
                  Inr (NoException, physAddr, s))))))"

text \<open>Reads and writes give \<open>None\<close> or \<open>False\<close> when they trapped.\<close>

definition ReadMem ::
  "'a Machine_scheme handler \<Rightarrow> 32 word \<Rightarrow> int \<Rightarrow> 'a Machine_scheme \<Rightarrow> (32 word option \<times> 'a Machine_scheme) res" where
  "ReadMem eh addr sz s =
     rbind (Translate addr sz False s) (\<lambda>(ex, physicalAddress, s).
     if ex \<noteq> NoException then rbind (RaiseException eh ex addr s) (\<lambda>s. Inr (None, s))
     else
       let m = mainMemory s; p = nat physicalAddress in
       if sz = 1 then Inr (Some (scast (m p)), s)
       else if sz = 2 then Inr (Some (ucast (ShortToHost (bytes_u16 (file_read m p 2)))), s)
       else if sz = 4 then Inr (Some (WordToHost (bytes_u32 (file_read m p 4))), s)
       else Inl AssertionFailed)"

definition WriteMem ::
  "'a Machine_scheme handler \<Rightarrow> 32 word \<Rightarrow> int \<Rightarrow> 32 word \<Rightarrow> 'a Machine_scheme \<Rightarrow> (bool \<times> 'a Machine_scheme) res" where
  "WriteMem eh addr sz v s =
     rbind (Translate addr sz True s) (\<lambda>(ex, physicalAddress, s).
     if ex \<noteq> NoException then rbind (RaiseException eh ex addr s) (\<lambda>s. Inr (False, s))
     else
       let m = mainMemory s; p = nat physicalAddress in
       if sz = 1 then Inr (True, s\<lparr>mainMemory := m(p := ucast (v AND 0xff))\<rparr>)
       else if sz = 2 then
         Inr (True, s\<lparr>mainMemory := file_write m p (u16_bytes (ShortToMachine (ucast (v AND 0xffff))))\<rparr>)
       else if sz = 4 then Inr (True, s\<lparr>mainMemory := file_write m p (u32_bytes (WordToMachine v))\<rparr>)
       else Inl AssertionFailed)"

section \<open>Translation as a partial map\<close>

text \<open>The frame that a page is mapped to for reading or for writing; the bits \<open>use\<close> and \<open>dirty\<close> play no
  part in it.\<close>

definition frame_of_entry :: "TranslationEntry \<Rightarrow> int" where
  "frame_of_entry e = uint (word_of_int (physicalPage e) :: 32 word)"

definition lookup_page :: "'a Machine_scheme \<Rightarrow> bool \<Rightarrow> int \<Rightarrow> int option" where
  "lookup_page s writing v = (case pageTable s of
       None \<Rightarrow> None
     | Some pt \<Rightarrow>
         if 0 \<le> v \<and> v < pageTableSize s \<and> v < int (length pt) \<and> valid (pt ! nat v) \<and>
            \<not> (readOnly (pt ! nat v) \<and> writing) \<and> frame_of_entry (pt ! nat v) < NumPhysPages
         then Some (frame_of_entry (pt ! nat v)) else None)"

definition phys_addr :: "'a Machine_scheme \<Rightarrow> bool \<Rightarrow> 32 word \<Rightarrow> int option" where
  "phys_addr s writing a =
     map_option (\<lambda>f. f * PageSize + uint a mod PageSize) (lookup_page s writing (uint a div PageSize))"

definition aligned :: "32 word \<Rightarrow> int \<Rightarrow> bool" where
  "aligned a sz \<longleftrightarrow> uint a mod sz = 0"

definition table_ok :: "'a Machine_scheme \<Rightarrow> bool" where
  "table_ok s \<longleftrightarrow> tlb s = None \<and> (\<exists>pt. pageTable s = Some pt \<and> pageTableSize s \<le> int (length pt))"

lemma alignment_test: "a AND 3 \<noteq> 0 \<longleftrightarrow> \<not> aligned a 4" "a AND 1 \<noteq> 0 \<longleftrightarrow> \<not> aligned a 2" for a :: "32 word"
proof -
  have "a AND 3 = take_bit 2 a" "a AND 1 = take_bit 1 a" by (simp_all add: take_bit_eq_mask mask_eq_exp_minus_1)
  moreover have "uint (take_bit 2 a) = uint a mod 4" "uint (take_bit 1 a) = uint a mod 2"
    by (simp_all add: take_bit_eq_mod uint_mod)
  ultimately show "a AND 3 \<noteq> 0 \<longleftrightarrow> \<not> aligned a 4" "a AND 1 \<noteq> 0 \<longleftrightarrow> \<not> aligned a 2"
    by (metis aligned_def uint_0_iff)+
qed

lemma page_split:
  "uint (a div word_of_int PageSize) = uint a div PageSize" "uint (a mod word_of_int PageSize) = uint a mod PageSize"
  for a :: "32 word"
  by (simp_all add: memory_consts uint_div uint_mod)

lemma phys_addr_bounds:
  assumes "phys_addr s w a = Some p" "aligned a sz" "sz \<in> {1, 2, 4}"
  shows "0 \<le> p" "p + sz \<le> MemorySize" "\<exists>f. lookup_page s w (uint a div PageSize) = Some f \<and>
    f * PageSize \<le> p \<and> p + sz \<le> (f + 1) * PageSize"
proof -
  obtain f where f: "lookup_page s w (uint a div PageSize) = Some f" "p = f * 128 + uint a mod 128"
    using assms(1) by (auto simp: phys_addr_def memory_consts)
  then have r: "0 \<le> f" "f < 128"
    by (auto simp: lookup_page_def frame_of_entry_def memory_consts split: option.splits if_splits)
  have "uint a mod 128 + sz \<le> 128"
  proof -
    have "sz dvd uint a mod 128" using assms(2,3) by (auto simp: aligned_def dvd_mod dvd_eq_mod_eq_0 mod_mod_cancel)
    moreover have "sz dvd 128" using assms(3) by auto
    ultimately have "sz dvd 128 - uint a mod 128" by simp
    moreover have "0 < 128 - uint a mod 128" by simp
    ultimately show ?thesis using zdvd_imp_le by fastforce
  qed
  then show "0 \<le> p" "p + sz \<le> MemorySize" "\<exists>f. lookup_page s w (uint a div PageSize) = Some f \<and>
    f * PageSize \<le> p \<and> p + sz \<le> (f + 1) * PageSize"
    using f r by (simp_all add: memory_consts)
qed

text \<open>A state that differs in the bits \<open>use\<close> and \<open>dirty\<close> of the page table only.\<close>

definition touched :: "'a Machine_scheme \<Rightarrow> 'a Machine_scheme \<Rightarrow> bool" where
  "touched s s' \<longleftrightarrow> (\<exists>pt. s' = s\<lparr>pageTable := pt\<rparr>) \<and> table_ok s' \<and> lookup_page s' = lookup_page s"

lemma store_entry_touched:
  assumes "table_ok s" "pageTable s = Some pt" "0 \<le> i" "i < int (length pt)"
  shows "touched s (store_entry i ((pt ! nat i)\<lparr>used := u, dirty := d\<rparr>) s)"
proof -
  let ?pt = "pt[nat i := (pt ! nat i)\<lparr>used := u, dirty := d\<rparr>]"
  have t: "tlb s = None" "pageTableSize s \<le> int (length pt)" using assms(1,2) by (auto simp: table_ok_def)
  have same: "valid (?pt ! j) = valid (pt ! j)" "readOnly (?pt ! j) = readOnly (pt ! j)"
    "frame_of_entry (?pt ! j) = frame_of_entry (pt ! j)" for j
    using assms(3,4) by (cases "j = nat i"; simp add: frame_of_entry_def)+
  have "lookup_page (store_entry i ((pt ! nat i)\<lparr>used := u, dirty := d\<rparr>) s) = lookup_page s"
    by (intro ext) (simp add: lookup_page_def store_entry_def t assms(2) same)
  moreover have "table_ok (store_entry i ((pt ! nat i)\<lparr>used := u, dirty := d\<rparr>) s)"
    using t assms(2) by (simp add: table_ok_def store_entry_def)
  moreover have "store_entry i ((pt ! nat i)\<lparr>used := u, dirty := d\<rparr>) s = s\<lparr>pageTable := Some ?pt\<rparr>"
    using t assms(2) by (simp add: store_entry_def)
  ultimately show ?thesis unfolding touched_def by blast
qed

text \<open>\<open>Translate\<close> computes this map: it never fails an assertion and never reads outside the table.\<close>

lemma Translate_ok:
  assumes "table_ok s" "sz \<in> {1, 2, 4}"
  shows "\<exists>ex p s'. Translate a sz w s = Inr (ex, p, s') \<and> touched s s' \<and>
    (ex = NoException \<longleftrightarrow> aligned a sz \<and> phys_addr s w a \<noteq> None) \<and> (ex = NoException \<longrightarrow> phys_addr s w a = Some p) \<and>
    (ex \<noteq> NoException \<longrightarrow> s' = s)"
proof (cases "aligned a sz")
  case False
  then have "Translate a sz w s = Inr (AddressErrorException, 0, s)"
    using assms(2) by (auto simp: Translate_def alignment_test, auto simp: aligned_def)
  then show ?thesis using False assms(1) by (auto simp: touched_def intro!: exI [of _ "pageTable s"])
next
  case True
  obtain pt where pt: "tlb s = None" "pageTable s = Some pt" "pageTableSize s \<le> int (length pt)"
    using assms(1) by (auto simp: table_ok_def)
  let ?v = "uint a div PageSize" let ?e = "pt ! nat ?v"
  have v: "0 \<le> ?v" by (simp add: memory_consts pos_imp_zdiv_nonneg_iff)
  have al: "\<not> (sz = 4 \<and> a AND 3 \<noteq> 0 \<or> sz = 2 \<and> a AND 1 \<noteq> 0)" using True by (auto simp: alignment_test)
  have tr: "Translate a sz w s = rbind (find_entry (a div word_of_int PageSize) s) (\<lambda>found. case found of
            Inl ex \<Rightarrow> Inr (ex, 0, s)
          | Inr (i, entry) \<Rightarrow>
              if readOnly entry \<and> w then Inr (ReadOnlyException, 0, s)
              else if frame_of_entry entry \<ge> NumPhysPages then Inr (BusErrorException, 0, s)
                else rbind (ASSERT (0 \<le> frame_of_entry entry * PageSize + uint a mod PageSize \<and>
                       frame_of_entry entry * PageSize + uint a mod PageSize + sz \<le> MemorySize)) (\<lambda>_.
                  Inr (NoException, frame_of_entry entry * PageSize + uint a mod PageSize,
                    store_entry i (entry\<lparr>used := True, dirty := (dirty entry \<or> w)\<rparr>) s)))"
    using al pt by (simp only: Translate_def if_False Let_def page_split frame_of_entry_def ASSERT_def) simp
  have self: "touched s s" using assms(1) by (auto simp: touched_def intro!: exI [of _ "pageTable s"])
  consider "?v \<ge> pageTableSize s" | "?v < pageTableSize s" "\<not> valid ?e" | "?v < pageTableSize s" "valid ?e" by linarith
  then show ?thesis
  proof cases
    case 3
    have i: "?v < int (length pt)" using 3 pt by linarith
    have fe: "find_entry (a div word_of_int PageSize) s = Inr (Inr (?v, ?e))"
      using 3 pt i v by (simp add: find_entry_def page_split arr_get_def)
    show ?thesis
    proof (cases "readOnly ?e \<and> w \<or> frame_of_entry ?e \<ge> NumPhysPages")
      case True
      then have "phys_addr s w a = None" using pt by (auto simp: phys_addr_def lookup_page_def)
      moreover have "\<exists>ex. Translate a sz w s = Inr (ex, 0, s) \<and> ex \<noteq> NoException" using True by (auto simp: tr fe)
      ultimately show ?thesis using self by auto
    next
      case False
      then have pa: "phys_addr s w a = Some (frame_of_entry ?e * PageSize + uint a mod PageSize)"
        using pt 3 i v by (simp add: phys_addr_def lookup_page_def)
      have "Translate a sz w s = Inr (NoException, frame_of_entry ?e * PageSize + uint a mod PageSize,
          store_entry ?v (?e\<lparr>used := True, dirty := (dirty ?e \<or> w)\<rparr>) s)"
        using False phys_addr_bounds(1,2) [OF pa True assms(2)] by (simp add: tr fe ASSERT_def)
      then show ?thesis using pa True store_entry_touched [OF assms(1) pt(2) v i] by auto
    qed
  next
    case 1
    then show ?thesis using self pt by (simp add: tr find_entry_def page_split phys_addr_def lookup_page_def)
  next
    case 2
    then show ?thesis using self pt v by (simp add: tr find_entry_def page_split phys_addr_def lookup_page_def arr_get_def)
  qed
qed

section \<open>Steps of a user program\<close>

text \<open>What an instruction may do to the machine: set registers other than the pending load's, mark
  pages as used, and write to frames that the page table maps as writable.  Nothing else of the
  kernel's state changes.\<close>

definition writable_frame :: "'a Machine_scheme \<Rightarrow> int \<Rightarrow> bool" where
  "writable_frame s f \<longleftrightarrow> (\<exists>v. lookup_page s True v = Some f)"

definition user_step :: "'a Machine_scheme \<Rightarrow> 'a Machine_scheme \<Rightarrow> bool" where
  "user_step s s' \<longleftrightarrow>
     (\<exists>rs m pt. s' = s\<lparr>registers := rs, mainMemory := m, pageTable := pt\<rparr>) \<and>
     length (registers s') = length (registers s) \<and> reg s' LoadReg = reg s LoadReg \<and>
     table_ok s' \<and> lookup_page s' = lookup_page s \<and>
     (\<forall>a. mainMemory s' a \<noteq> mainMemory s a \<longrightarrow> writable_frame s (int a div PageSize))"

lemma user_step_refl [simp]: "table_ok s \<Longrightarrow> user_step s s"
  by (auto simp: user_step_def intro!: exI [of _ "registers s"] exI [of _ "mainMemory s"] exI [of _ "pageTable s"])

lemma user_step_trans [trans]:
  assumes "user_step s s1" "user_step s1 s2"
  shows "user_step s s2"
proof -
  have "writable_frame s1 = writable_frame s" using assms(1) by (simp add: fun_eq_iff writable_frame_def user_step_def)
  then have "\<forall>a. mainMemory s2 a \<noteq> mainMemory s a \<longrightarrow> writable_frame s (int a div PageSize)"
    using assms unfolding user_step_def by metis
  moreover obtain rs m pt rs' m' pt' where "s1 = s\<lparr>registers := rs, mainMemory := m, pageTable := pt\<rparr>"
      "s2 = s1\<lparr>registers := rs', mainMemory := m', pageTable := pt'\<rparr>"
    using assms unfolding user_step_def by blast
  then have "s2 = s\<lparr>registers := rs', mainMemory := m', pageTable := pt'\<rparr>" by simp
  then have "\<exists>rs m pt. s2 = s\<lparr>registers := rs, mainMemory := m, pageTable := pt\<rparr>" by blast
  ultimately show ?thesis using assms by (simp add: user_step_def)
qed

lemma user_step_set_reg:
  assumes "user_step s s'" "n \<noteq> LoadReg"
  shows "user_step s (set_reg n v s')"
proof -
  obtain rs m pt where "s' = s\<lparr>registers := rs, mainMemory := m, pageTable := pt\<rparr>"
    using assms unfolding user_step_def by blast
  then have "set_reg n v s' = s\<lparr>registers := rs[n := v], mainMemory := m, pageTable := pt\<rparr>" by simp
  then have "\<exists>rs m pt. set_reg n v s' = s\<lparr>registers := rs, mainMemory := m, pageTable := pt\<rparr>" by blast
  moreover have "lookup_page (set_reg n v s') = lookup_page s'" by (simp add: fun_eq_iff lookup_page_def split: option.split)
  moreover have "table_ok (set_reg n v s') = table_ok s'" by (simp add: table_ok_def)
  ultimately show ?thesis using assms by (simp add: user_step_def)
qed

lemma touched_user_step: "touched s s' \<Longrightarrow> user_step s s'"
proof -
  assume t: "touched s s'"
  then obtain pt where "s' = s\<lparr>pageTable := pt\<rparr>" by (auto simp: touched_def)
  then have "s' = s\<lparr>registers := registers s, mainMemory := mainMemory s, pageTable := pt\<rparr>" by simp
  then show ?thesis using t unfolding user_step_def touched_def by fastforce
qed

lemma user_step_memory:
  assumes "user_step s s'" "\<forall>a. m a \<noteq> mainMemory s' a \<longrightarrow> writable_frame s (int a div PageSize)"
  shows "user_step s (s'\<lparr>mainMemory := m\<rparr>)"
proof -
  obtain rs m' pt where "s' = s\<lparr>registers := rs, mainMemory := m', pageTable := pt\<rparr>"
    using assms unfolding user_step_def by blast
  then have "s'\<lparr>mainMemory := m\<rparr> = s\<lparr>registers := rs, mainMemory := m, pageTable := pt\<rparr>" by simp
  then have "\<exists>rs m' pt. s'\<lparr>mainMemory := m\<rparr> = s\<lparr>registers := rs, mainMemory := m', pageTable := pt\<rparr>" by blast
  moreover have "lookup_page (s'\<lparr>mainMemory := m\<rparr>) = lookup_page s'" by (simp add: fun_eq_iff lookup_page_def split: option.split)
  moreover have "table_ok (s'\<lparr>mainMemory := m\<rparr>) = table_ok s'" by (simp add: table_ok_def)
  moreover have "\<forall>a. m a \<noteq> mainMemory s a \<longrightarrow> writable_frame s (int a div PageSize)"
    using assms unfolding user_step_def by metis
  ultimately show ?thesis using assms(1) by (simp add: user_step_def)
qed

text \<open>A value read, by the size of the access.\<close>

definition fetch :: "(nat \<Rightarrow> byte) \<Rightarrow> nat \<Rightarrow> int \<Rightarrow> 32 word" where
  "fetch m p sz = (if sz = 1 then scast (m p) else if sz = 2 then ucast (bytes_u16 (file_read m p 2))
     else bytes_u32 (file_read m p 4))"

definition put :: "(nat \<Rightarrow> byte) \<Rightarrow> nat \<Rightarrow> int \<Rightarrow> 32 word \<Rightarrow> nat \<Rightarrow> byte" where
  "put m p sz v = (if sz = 1 then m(p := ucast (v AND 0xff))
     else if sz = 2 then file_write m p (u16_bytes (ucast (v AND 0xffff))) else file_write m p (u32_bytes v))"

lemma ReadMem_cases:
  assumes "table_ok s" "sz \<in> {1, 2, 4}"
  obtains (loaded) p s' where "aligned a sz" "phys_addr s False a = Some p" "touched s s'"
      "ReadMem eh a sz s = Inr (Some (fetch (mainMemory s) (nat p) sz), s')"
  | (trap) ex where "\<not> (aligned a sz \<and> phys_addr s False a \<noteq> None)" "ex \<noteq> NoException"
      "ReadMem eh a sz s = rbind (RaiseException eh ex a s) (\<lambda>s. Inr (None, s))"
proof -
  obtain ex p s' where t: "Translate a sz False s = Inr (ex, p, s')" "touched s s'"
      "ex = NoException \<longleftrightarrow> aligned a sz \<and> phys_addr s False a \<noteq> None" "ex = NoException \<longrightarrow> phys_addr s False a = Some p"
      "ex \<noteq> NoException \<longrightarrow> s' = s"
    using Translate_ok [OF assms] by blast
  have m: "mainMemory s' = mainMemory s" using t(2) by (auto simp: touched_def)
  show thesis
  proof (cases "ex = NoException")
    case True
    then have "ReadMem eh a sz s = Inr (Some (fetch (mainMemory s) (nat p) sz), s')"
      using assms(2) t(1) m by (auto simp: ReadMem_def fetch_def Let_def WordToHost_def ShortToHost_def)
    then show ?thesis using loaded t True by blast
  next
    case False
    then have "ReadMem eh a sz s = rbind (RaiseException eh ex a s) (\<lambda>s. Inr (None, s))"
      using t by (simp add: ReadMem_def)
    then show ?thesis using trap False t(3) by blast
  qed
qed

lemma WriteMem_cases:
  assumes "table_ok s" "sz \<in> {1, 2, 4}"
  obtains (stored) p s' where "aligned a sz" "phys_addr s True a = Some p" "touched s s'"
      "WriteMem eh a sz v s = Inr (True, s'\<lparr>mainMemory := put (mainMemory s) (nat p) sz v\<rparr>)"
  | (trap) ex where "\<not> (aligned a sz \<and> phys_addr s True a \<noteq> None)" "ex \<noteq> NoException"
      "WriteMem eh a sz v s = rbind (RaiseException eh ex a s) (\<lambda>s. Inr (False, s))"
proof -
  obtain ex p s' where t: "Translate a sz True s = Inr (ex, p, s')" "touched s s'"
      "ex = NoException \<longleftrightarrow> aligned a sz \<and> phys_addr s True a \<noteq> None" "ex = NoException \<longrightarrow> phys_addr s True a = Some p"
      "ex \<noteq> NoException \<longrightarrow> s' = s"
    using Translate_ok [OF assms] by blast
  have m: "mainMemory s' = mainMemory s" using t(2) by (auto simp: touched_def)
  show thesis
  proof (cases "ex = NoException")
    case True
    then have "WriteMem eh a sz v s = Inr (True, s'\<lparr>mainMemory := put (mainMemory s) (nat p) sz v\<rparr>)"
      using assms(2) t(1) m
      by (auto simp: WriteMem_def put_def Let_def WordToHost_def ShortToHost_def WordToMachine_def ShortToMachine_def)
    then show ?thesis using stored t True by blast
  next
    case False
    then have "WriteMem eh a sz v s = rbind (RaiseException eh ex a s) (\<lambda>s. Inr (False, s))"
      using t by (simp add: WriteMem_def)
    then show ?thesis using trap False t(3) by blast
  qed
qed

lemma put_outside: "sz \<in> {1, 2, 4} \<Longrightarrow> b < p \<or> int p + sz \<le> int b \<Longrightarrow> put m p sz v b = m b"
  by (auto simp: put_def file_write_def)

lemma put_user_step:
  assumes "aligned a sz" "phys_addr s True a = Some p" "touched s s'" "sz \<in> {1, 2, 4}"
  shows "user_step s (s'\<lparr>mainMemory := put (mainMemory s) (nat p) sz v\<rparr>)"
proof (rule user_step_memory [OF touched_user_step [OF assms(3)]], intro allI impI)
  fix b assume d: "put (mainMemory s) (nat p) sz v b \<noteq> mainMemory s' b"
  have m: "mainMemory s' = mainMemory s" using assms(3) by (auto simp: touched_def)
  obtain f where f: "lookup_page s True (uint a div PageSize) = Some f" "f * PageSize \<le> p" "p + sz \<le> (f + 1) * PageSize"
      and p: "0 \<le> p"
    using phys_addr_bounds [OF assms(2,1,4)] by blast
  have "p \<le> int b" "int b < p + sz" using d m put_outside [OF assms(4)] p by (metis nat_less_iff not_le zle_int nat_0_le)+
  then have "int b div PageSize = f" using f(2,3) int_div_pos_eq [of "int b" PageSize f "int b - f * PageSize"]
    by (simp add: memory_consts algebra_simps)
  then show "writable_frame s (int b div PageSize)" using f(1) by (auto simp: writable_frame_def)
qed

section \<open>Properties of memory\<close>

lemma lookup_page_weaken: "lookup_page s True v = Some f \<Longrightarrow> lookup_page s w v = Some f"
  by (auto simp: lookup_page_def split: option.splits if_splits)

lemma phys_addr_weaken: "phys_addr s True a = Some p \<Longrightarrow> phys_addr s w a = Some p"
  by (auto simp: phys_addr_def intro: lookup_page_weaken)

lemma put_touched:
  assumes "touched s s'"
  shows "table_ok (s'\<lparr>mainMemory := m\<rparr>)" "phys_addr (s'\<lparr>mainMemory := m\<rparr>) w a = phys_addr s w a"
proof -
  have "lookup_page (s'\<lparr>mainMemory := m\<rparr>) = lookup_page s'" by (simp add: fun_eq_iff lookup_page_def split: option.split)
  then show "phys_addr (s'\<lparr>mainMemory := m\<rparr>) w a = phys_addr s w a" using assms by (simp add: phys_addr_def touched_def)
  show "table_ok (s'\<lparr>mainMemory := m\<rparr>)" using assms by (simp add: touched_def table_ok_def)
qed

lemma fetch_put_same:
  "sz \<in> {1, 2, 4} \<Longrightarrow> fetch (put m p sz v) p sz =
     (if sz = 1 then scast (ucast v :: 8 word) else if sz = 2 then ucast (ucast v :: 16 word) else v)"
proof -
  have "file_read (file_write m p (u16_bytes w)) p 2 = u16_bytes w" for w
    using file_read_write_same [of m p "u16_bytes w"] by simp
  moreover have "file_read (file_write m p (u32_bytes w)) p 4 = u32_bytes w" for w
    using file_read_write_same [of m p "u32_bytes w"] by simp
  moreover have "ucast (v AND mask 8) = (ucast v :: 8 word)" "ucast (v AND mask 16) = (ucast v :: 16 word)"
    by (rule bit_word_eqI, simp add: bit_simps)+
  moreover have "0xff = (mask 8 :: 32 word)" "0xffff = (mask 16 :: 32 word)" by (simp_all add: mask_eq_exp_minus_1)
  ultimately show "sz \<in> {1, 2, 4} \<Longrightarrow> ?thesis" by (auto simp: fetch_def put_def)
qed

lemma fetch_put_other:
  assumes "sz \<in> {1, 2, 4}" "sz' \<in> {1, 2, 4}" "int q + sz' \<le> int p \<or> int p + sz \<le> int q"
  shows "fetch (put m p sz v) q sz' = fetch m q sz'"
proof -
  have "put m p sz v (q + i) = m (q + i)" if "int i < sz'" for i using put_outside [OF assms(1)] assms(3) that by auto
  then have "put m p sz v q = m q" "\<And>n. int n \<le> sz' \<Longrightarrow> file_read (put m p sz v) q n = file_read m q n"
    using assms(2) by (force simp: file_read_def)+
  then show ?thesis using assms(2) by (auto simp: fetch_def)
qed

text \<open>C9. \<open>Translate\<close> is safe: on every address and access size it returns, without a failed
  assertion or a read outside the table; it succeeds exactly on aligned addresses of mapped pages
  that allow the access, and then the physical address lies with all its bytes in the frame of the
  page, at the offset of the virtual address, inside main memory.\<close>

theorem translate_safe:
  assumes "table_ok s" "sz \<in> {1, 2, 4}"
  shows "\<exists>ex p s'. Translate a sz w s = Inr (ex, p, s') \<and>
    (ex = NoException \<longleftrightarrow> aligned a sz \<and> lookup_page s w (uint a div PageSize) \<noteq> None) \<and>
    (ex = NoException \<longrightarrow> 0 \<le> p \<and> p + sz \<le> MemorySize \<and>
       (\<exists>f. lookup_page s w (uint a div PageSize) = Some f \<and> f * PageSize \<le> p \<and> p + sz \<le> (f + 1) * PageSize \<and>
         p = f * PageSize + uint a mod PageSize)) \<and>
    lookup_page s' = lookup_page s"
proof -
  obtain ex p s' where t: "Translate a sz w s = Inr (ex, p, s')" "touched s s'"
      "ex = NoException \<longleftrightarrow> aligned a sz \<and> phys_addr s w a \<noteq> None" "ex = NoException \<longrightarrow> phys_addr s w a = Some p"
    using Translate_ok [OF assms] by blast
  moreover have "phys_addr s w a \<noteq> None \<longleftrightarrow> lookup_page s w (uint a div PageSize) \<noteq> None" by (auto simp: phys_addr_def)
  moreover have "ex = NoException \<longrightarrow> 0 \<le> p \<and> p + sz \<le> MemorySize \<and>
       (\<exists>f. lookup_page s w (uint a div PageSize) = Some f \<and> f * PageSize \<le> p \<and> p + sz \<le> (f + 1) * PageSize \<and>
         p = f * PageSize + uint a mod PageSize)"
  proof
    assume "ex = NoException"
    then have p: "phys_addr s w a = Some p" "aligned a sz" using t(3,4) by auto
    then have "\<exists>f. lookup_page s w (uint a div PageSize) = Some f \<and> p = f * PageSize + uint a mod PageSize"
      by (auto simp: phys_addr_def)
    then show "0 \<le> p \<and> p + sz \<le> MemorySize \<and>
       (\<exists>f. lookup_page s w (uint a div PageSize) = Some f \<and> f * PageSize \<le> p \<and> p + sz \<le> (f + 1) * PageSize \<and>
         p = f * PageSize + uint a mod PageSize)"
      using phys_addr_bounds [OF p assms(2)] by auto
  qed
  moreover have "lookup_page s' = lookup_page s" using t(2) by (simp add: touched_def)
  ultimately show ?thesis by blast
qed

text \<open>A machine with one writable page, one that is read-only and one that is not valid.\<close>

definition demo_table :: "TranslationEntry list" where
  "demo_table =
     [\<lparr>virtualPage = 0, physicalPage = 5, valid = True, readOnly = False, used = False, dirty = False\<rparr>,
      \<lparr>virtualPage = 1, physicalPage = 3, valid = True, readOnly = True, used = False, dirty = False\<rparr>,
      \<lparr>virtualPage = 2, physicalPage = 0, valid = False, readOnly = False, used = False, dirty = False\<rparr>]"

definition demo_machine :: Machine where
  "demo_machine = (Machine_new False (net_boot 0))\<lparr>pageTable := Some demo_table, pageTableSize := 3\<rparr>"

lemma demo_machine_fields:
  "pageTable demo_machine = Some demo_table" "pageTableSize demo_machine = 3" "tlb demo_machine = None"
  "registers demo_machine = replicate 40 0" "mainMemory demo_machine = (\<lambda>_. 0)"
  by (simp_all add: demo_machine_def Machine_new_def NetKernel.defs Machine.defs)

lemma demo_machine_table: "table_ok demo_machine"
  by (simp add: table_ok_def demo_machine_fields demo_table_def)

lemma demo_machine_lookup:
  "lookup_page demo_machine w 0 = Some 5" "lookup_page demo_machine w 1 = (if w then None else Some 3)"
  "lookup_page demo_machine w 2 = None"
  by (simp_all add: lookup_page_def demo_machine_fields demo_table_def frame_of_entry_def memory_consts)

theorem translate_safe_witness:
  "table_ok demo_machine \<and>
   (\<exists>ex p s'. Translate 132 4 False demo_machine = Inr (ex, p, s') \<and>
    (ex = NoException \<longleftrightarrow> aligned 132 4 \<and> lookup_page demo_machine False (uint (132 :: 32 word) div PageSize) \<noteq> None) \<and>
    (ex = NoException \<longrightarrow> 0 \<le> p \<and> p + 4 \<le> MemorySize \<and>
       (\<exists>f. lookup_page demo_machine False (uint (132 :: 32 word) div PageSize) = Some f \<and> f * PageSize \<le> p \<and>
         p + 4 \<le> (f + 1) * PageSize \<and> p = f * PageSize + uint (132 :: 32 word) mod PageSize)) \<and>
    lookup_page s' = lookup_page demo_machine)"
  using translate_safe [OF demo_machine_table, of 4 132 False] demo_machine_table by simp

text \<open>C10. Memory is memory: a word, half word or byte written at a writable address is what a read of
  the same size at that address gives, sign-extended for a byte and zero-extended for a half word,
  and every address with other physical bytes reads as before.\<close>

theorem memory_write_read:
  assumes "table_ok s" "sz \<in> {1, 2, 4}" "aligned a sz" "phys_addr s True a = Some p"
  shows "\<exists>s1 s2. WriteMem eh a sz v s = Inr (True, s1) \<and>
    ReadMem eh a sz s1 =
      Inr (Some (if sz = 1 then scast (ucast v :: 8 word) else if sz = 2 then ucast (ucast v :: 16 word) else v), s2) \<and>
    (\<forall>b sz' q. sz' \<in> {1, 2, 4} \<and> aligned b sz' \<and> phys_addr s False b = Some q \<and> (q + sz' \<le> p \<or> p + sz \<le> q) \<longrightarrow>
      (\<exists>x s3 s4. ReadMem eh b sz' s = Inr (Some x, s3) \<and> ReadMem eh b sz' s1 = Inr (Some x, s4)))"
proof -
  obtain s' where w: "touched s s'" "WriteMem eh a sz v s = Inr (True, s'\<lparr>mainMemory := put (mainMemory s) (nat p) sz v\<rparr>)"
    using WriteMem_cases [OF assms(1,2), of a eh v] assms(3,4) by auto
  let ?s1 = "s'\<lparr>mainMemory := put (mainMemory s) (nat p) sz v\<rparr>"
  have rd: "\<exists>s2. ReadMem eh b z t = Inr (Some (fetch (mainMemory t) (nat q) z), s2)"
    if "table_ok t" "z \<in> {1, 2, 4}" "aligned b z" "phys_addr t False b = Some q" for b z q and t :: "'a Machine_scheme"
    using ReadMem_cases [OF that(1,2), of b eh] that(3,4) by (metis option.sel option.discI)
  have p0: "0 \<le> p" using phys_addr_bounds(1) [OF assms(4,3,2)] .
  obtain s2 where "ReadMem eh a sz ?s1 = Inr (Some (fetch (mainMemory ?s1) (nat p) sz), s2)"
    using rd [OF put_touched(1) [OF w(1)] assms(2,3)] put_touched(2) [OF w(1)] phys_addr_weaken [OF assms(4)] by metis
  moreover have "\<exists>x s3 s4. ReadMem eh b z s = Inr (Some x, s3) \<and> ReadMem eh b z ?s1 = Inr (Some x, s4)"
    if z: "z \<in> {1, 2, 4}" "aligned b z" "phys_addr s False b = Some q" "q + z \<le> p \<or> p + sz \<le> q" for b z q
  proof -
    have q: "0 \<le> q" using phys_addr_bounds(1) [OF z(3,2,1)] .
    have "fetch (mainMemory ?s1) (nat q) z = fetch (mainMemory s) (nat q) z"
      using fetch_put_other [OF assms(2) z(1), of "nat q" "nat p"] z(4) q p0 by simp
    then show ?thesis
      using rd [OF assms(1) z(1-3)] rd [OF put_touched(1) [OF w(1)] z(1,2)] put_touched(2) [OF w(1)] z(3) by metis
  qed
  ultimately show ?thesis using w(2) fetch_put_same [OF assms(2)] by (intro exI [of _ ?s1] exI [of _ s2]) simp
qed

theorem memory_write_read_witness:
  "table_ok demo_machine \<and> aligned 12 4 \<and> phys_addr demo_machine True 12 = Some 652 \<and>
   (\<exists>s1 s2. WriteMem (\<lambda>_ _. Inl Halted) 12 4 0xDEADBEEF demo_machine = Inr (True, s1) \<and>
     ReadMem (\<lambda>_ _. Inl Halted) 12 4 s1 = Inr (Some 0xDEADBEEF, s2))"
proof -
  have p: "phys_addr demo_machine True 12 = Some 652"
    by (simp add: phys_addr_def memory_consts demo_machine_lookup)
  have a: "aligned 12 4" by (simp add: aligned_def)
  show ?thesis using memory_write_read [OF demo_machine_table _ a p, where eh = "\<lambda>_ _. Inl Halted" and v = "0xDEADBEEF"] p a
      demo_machine_table
    by auto
qed

end
