(* ===== verification/Mips.thy ===== *)
theory Mips
  imports Machine
begin

text \<open>
  The simulator of the MIPS processor (\<open>machine/mipssim.cc\<close>, \<open>machine/mipssim.h\<close>): decoding by the
  two tables of the code, one definition per run of cases of the big switch in \<open>OneInstruction\<close>, the
  shift-and-add multiplication, delayed loads and the branch delay slot.  Signed additions,
  subtractions and shifts wrap as the compiled code does; the one signed operation that does not,
  the division of the smallest integer by \<open>- 1\<close>, stops the simulator with \<open>DivisionTrap\<close>.
\<close>

section \<open>Operation codes and instructions\<close>

datatype (plugins del: "quickcheck" size transfer lifting) OpCode = OP_ADD | OP_ADDI | OP_ADDIU | OP_ADDU | OP_AND | OP_ANDI | OP_BEQ | OP_BGEZ | OP_BGEZAL
  | OP_BGTZ | OP_BLEZ | OP_BLTZ | OP_BLTZAL | OP_BNE | OP_DIV | OP_DIVU | OP_J | OP_JAL | OP_JALR | OP_JR
  | OP_LB | OP_LBU | OP_LH | OP_LHU | OP_LUI | OP_LW | OP_LWL | OP_LWR | OP_MFHI | OP_MFLO | OP_MTHI | OP_MTLO
  | OP_MULT | OP_MULTU | OP_NOR | OP_OR | OP_ORI | OP_RFE | OP_SB | OP_SH | OP_SLL | OP_SLLV | OP_SLT | OP_SLTI
  | OP_SLTIU | OP_SLTU | OP_SRA | OP_SRAV | OP_SRL | OP_SRLV | OP_SUB | OP_SUBU | OP_SW | OP_SWL | OP_SWR
  | OP_XOR | OP_XORI | OP_SYSCALL | OP_UNIMP | OP_RES | SPECIAL | BCOND

datatype Format = IFMT | JFMT | RFMT

definition IndexToAddr :: "32 word \<Rightarrow> 32 word" where
  "IndexToAddr x = push_bit 2 x"

definition SIGN_BIT :: "32 word" where
  "SIGN_BIT = 0x80000000"

definition opTable :: "(OpCode \<times> Format) list" where
  "opTable =
    [(SPECIAL, RFMT),  (BCOND, IFMT),    (OP_J, JFMT),     (OP_JAL, JFMT),
     (OP_BEQ, IFMT),   (OP_BNE, IFMT),   (OP_BLEZ, IFMT),  (OP_BGTZ, IFMT),
     (OP_ADDI, IFMT),  (OP_ADDIU, IFMT), (OP_SLTI, IFMT),  (OP_SLTIU, IFMT),
     (OP_ANDI, IFMT),  (OP_ORI, IFMT),   (OP_XORI, IFMT),  (OP_LUI, IFMT),
     (OP_UNIMP, IFMT), (OP_UNIMP, IFMT), (OP_UNIMP, IFMT), (OP_UNIMP, IFMT),
     (OP_RES, IFMT),   (OP_RES, IFMT),   (OP_RES, IFMT),   (OP_RES, IFMT),
     (OP_RES, IFMT),   (OP_RES, IFMT),   (OP_RES, IFMT),   (OP_RES, IFMT),
     (OP_RES, IFMT),   (OP_RES, IFMT),   (OP_RES, IFMT),   (OP_RES, IFMT),
     (OP_LB, IFMT),    (OP_LH, IFMT),    (OP_LWL, IFMT),   (OP_LW, IFMT),
     (OP_LBU, IFMT),   (OP_LHU, IFMT),   (OP_LWR, IFMT),   (OP_RES, IFMT),
     (OP_SB, IFMT),    (OP_SH, IFMT),    (OP_SWL, IFMT),   (OP_SW, IFMT),
     (OP_RES, IFMT),   (OP_RES, IFMT),   (OP_SWR, IFMT),   (OP_RES, IFMT),
     (OP_UNIMP, IFMT), (OP_UNIMP, IFMT), (OP_UNIMP, IFMT), (OP_UNIMP, IFMT),
     (OP_RES, IFMT),   (OP_RES, IFMT),   (OP_RES, IFMT),   (OP_RES, IFMT),
     (OP_UNIMP, IFMT), (OP_UNIMP, IFMT), (OP_UNIMP, IFMT), (OP_UNIMP, IFMT),
     (OP_RES, IFMT),   (OP_RES, IFMT),   (OP_RES, IFMT),   (OP_RES, IFMT)]"

definition specialTable :: "OpCode list" where
  "specialTable =
    [OP_SLL,  OP_RES,   OP_SRL,  OP_SRA,  OP_SLLV,    OP_RES,   OP_SRLV, OP_SRAV,
     OP_JR,   OP_JALR,  OP_RES,  OP_RES,  OP_SYSCALL, OP_UNIMP, OP_RES,  OP_RES,
     OP_MFHI, OP_MTHI,  OP_MFLO, OP_MTLO, OP_RES,     OP_RES,   OP_RES,  OP_RES,
     OP_MULT, OP_MULTU, OP_DIV,  OP_DIVU, OP_RES,     OP_RES,   OP_RES,  OP_RES,
     OP_ADD,  OP_ADDU,  OP_SUB,  OP_SUBU, OP_AND,     OP_OR,    OP_XOR,  OP_NOR,
     OP_RES,  OP_RES,   OP_SLT,  OP_SLTU, OP_RES,     OP_RES,   OP_RES,  OP_RES,
     OP_RES,  OP_RES,   OP_RES,  OP_RES,  OP_RES,     OP_RES,   OP_RES,  OP_RES,
     OP_RES,  OP_RES,   OP_RES,  OP_RES,  OP_RES,     OP_RES,   OP_RES,  OP_RES]"

record Instruction =
  ivalue :: "32 word"
  opCode :: OpCode
  i_rs :: nat
  i_rt :: nat
  i_rd :: nat
  extra :: "32 word"

definition Decode :: "32 word \<Rightarrow> Instruction" where
  "Decode w =
     (let (op, fmt) = opTable ! unat (drop_bit 26 w AND 0x3f);
          ex = (case fmt of
              IFMT \<Rightarrow> let e = w AND 0xffff in if e AND 0x8000 \<noteq> 0 then e OR 0xffff0000 else e
            | RFMT \<Rightarrow> drop_bit 6 w AND 0x1f
            | JFMT \<Rightarrow> w AND 0x3ffffff);
          op = (if op = SPECIAL then specialTable ! unat (w AND 0x3f)
                else if op = BCOND then
                  let i = w AND 0x1f0000 in
                  if i = 0 then OP_BLTZ
                  else if i = 0x10000 then OP_BGEZ
                  else if i = 0x100000 then OP_BLTZAL
                  else if i = 0x110000 then OP_BGEZAL
                  else OP_UNIMP
                else op) in
      \<lparr>ivalue = w, opCode = op, i_rs = unat (drop_bit 21 w AND 0x1f), i_rt = unat (drop_bit 16 w AND 0x1f),
       i_rd = unat (drop_bit 11 w AND 0x1f), extra = ex\<rparr>)"

section \<open>Multiplication\<close>

text \<open>The loop of \<open>Mult\<close> with its early exit; \<open>a\<close> is shifted as a signed number.\<close>

fun Mult_loop :: "nat \<Rightarrow> 32 word \<Rightarrow> 32 word \<Rightarrow> 32 word \<Rightarrow> 32 word \<Rightarrow> 32 word \<Rightarrow> 32 word \<times> 32 word" where
  "Mult_loop 0 a bHi bLo hi lo = (hi, lo)"
| "Mult_loop (Suc n) a bHi bLo hi lo =
     (let (hi, lo) = (if a AND 1 \<noteq> 0
            then let lo = lo + bLo; hi = (if lo < bLo then hi + 1 else hi) in (hi + bHi, lo)
            else (hi, lo)) in
      if a AND 1 \<noteq> 0 \<and> a AND 0xfffffffe = 0 then (hi, lo)
      else
        let bHi = push_bit 1 bHi;
            bHi = (if bLo AND 0x80000000 \<noteq> 0 then bHi OR 1 else bHi) in
        Mult_loop n (signed_drop_bit 1 a) bHi (push_bit 1 bLo) hi lo)"

definition Mult :: "32 word \<Rightarrow> 32 word \<Rightarrow> bool \<Rightarrow> 32 word \<times> 32 word" where
  "Mult a b signedArith =
     (if a = 0 \<or> b = 0 then (0, 0)
      else
        let (negative, a) = (if signedArith \<and> a <s 0 then (True, - a) else (False, a));
            (negative, b) = (if signedArith \<and> b <s 0 then (\<not> negative, - b) else (negative, b));
            (hi, lo) = Mult_loop 32 a 0 b 0 0 in
        if negative then
          let hi = NOT hi; lo = NOT lo + 1 in
          (if lo = 0 then hi + 1 else hi, lo)
        else (hi, lo))"

section \<open>One instruction\<close>

text \<open>The outcome of a case of the switch: \<open>Return\<close> leaves \<open>OneInstruction\<close> (after a trap), \<open>Break\<close>
  goes on behind the switch with \<open>pcAfter\<close>, \<open>nextLoadReg\<close> and \<open>nextLoadValue\<close>.\<close>

datatype 's flow = Return 's | Break "32 word" "32 word" "32 word" 's

definition fall :: "32 word \<Rightarrow> 's \<Rightarrow> 's flow res" where
  "fall pcAfter s = Inr (Break pcAfter 0 0 s)"

definition trap :: "'a Machine_scheme handler \<Rightarrow> ExceptionType \<Rightarrow> 32 word \<Rightarrow> 'a Machine_scheme \<Rightarrow> 'a Machine_scheme flow res" where
  "trap eh ex bad s = rbind (RaiseException eh ex bad s) (\<lambda>s. Inr (Return s))"

type_synonym 's exec = "'s handler \<Rightarrow> Instruction \<Rightarrow> 32 word \<Rightarrow> 's \<Rightarrow> 's flow res"

definition exec_add_and :: "'a Machine_scheme exec" where
  "exec_add_and eh i pcAfter s =
     (let a = reg s (i_rs i); b = reg s (i_rt i); imm = extra i in
      if opCode i = OP_ADD then
        let sum = a + b in
        if (a XOR b) AND SIGN_BIT = 0 \<and> (a XOR sum) AND SIGN_BIT \<noteq> 0 then trap eh OverflowException 0 s
        else fall pcAfter (set_reg (i_rd i) sum s)
      else if opCode i = OP_ADDI then
        let sum = a + imm in
        if (a XOR imm) AND SIGN_BIT = 0 \<and> (imm XOR sum) AND SIGN_BIT \<noteq> 0 then trap eh OverflowException 0 s
        else fall pcAfter (set_reg (i_rt i) sum s)
      else if opCode i = OP_ADDIU then fall pcAfter (set_reg (i_rt i) (a + imm) s)
      else if opCode i = OP_ADDU then fall pcAfter (set_reg (i_rd i) (a + b) s)
      else if opCode i = OP_AND then fall pcAfter (set_reg (i_rd i) (a AND b) s)
      else fall pcAfter (set_reg (i_rt i) (a AND (imm AND 0xffff)) s))"

definition exec_branch :: "'a Machine_scheme exec" where
  "exec_branch eh i pcAfter s =
     (let op = opCode i;
          target = reg s NextPCReg + IndexToAddr (extra i);
          s = (if op = OP_BGEZAL \<or> op = OP_BLTZAL then set_reg 31 (reg s NextPCReg + 4) s else s);
          a = reg s (i_rs i); b = reg s (i_rt i);
          taken = (if op = OP_BEQ then a = b
            else if op = OP_BGEZAL \<or> op = OP_BGEZ then a AND SIGN_BIT = 0
            else if op = OP_BGTZ then 0 <s a
            else if op = OP_BLEZ then a \<le>s 0
            else if op = OP_BLTZAL \<or> op = OP_BLTZ then a AND SIGN_BIT \<noteq> 0
            else a \<noteq> b) in
      fall (if taken then target else pcAfter) s)"

definition exec_div :: "'a Machine_scheme exec" where
  "exec_div eh i pcAfter s =
     (let a = reg s (i_rs i); b = reg s (i_rt i) in
      if b = 0 then fall pcAfter (set_reg HiReg 0 (set_reg LoReg 0 s))
      else if opCode i = OP_DIV then
        if a = SIGN_BIT \<and> b = - 1 then Inl DivisionTrap
        else fall pcAfter (set_reg HiReg (word_of_int (sint a smod sint b))
               (set_reg LoReg (word_of_int (sint a sdiv sint b)) s))
      else fall pcAfter (set_reg HiReg (a mod b) (set_reg LoReg (a div b) s)))"

definition exec_jump :: "'a Machine_scheme exec" where
  "exec_jump eh i pcAfter s =
     (if opCode i = OP_JAL \<or> opCode i = OP_J then
        let s = (if opCode i = OP_JAL then set_reg 31 (reg s NextPCReg + 4) s else s) in
        fall ((pcAfter AND 0xf0000000) OR IndexToAddr (extra i)) s
      else
        let s = (if opCode i = OP_JALR then set_reg (i_rd i) (reg s NextPCReg + 4) s else s) in
        fall (reg s (i_rs i)) s)"

definition exec_load :: "'a Machine_scheme exec" where
  "exec_load eh i pcAfter s =
     (let op = opCode i; tmp = reg s (i_rs i) + extra i; rt = word_of_nat (i_rt i) in
      if op = OP_LB \<or> op = OP_LBU then
        rbind (ReadMem eh tmp 1 s) (\<lambda>(v, s). case v of None \<Rightarrow> Inr (Return s) | Some v \<Rightarrow>
          Inr (Break pcAfter rt (if v AND 0x80 \<noteq> 0 \<and> op = OP_LB then v OR 0xffffff00 else v AND 0xff) s))
      else if op = OP_LH \<or> op = OP_LHU then
        if tmp AND 1 \<noteq> 0 then trap eh AddressErrorException tmp s
        else rbind (ReadMem eh tmp 2 s) (\<lambda>(v, s). case v of None \<Rightarrow> Inr (Return s) | Some v \<Rightarrow>
          Inr (Break pcAfter rt (if v AND 0x8000 \<noteq> 0 \<and> op = OP_LH then v OR 0xffff0000 else v AND 0xffff) s))
      else if op = OP_LUI then fall pcAfter (set_reg (i_rt i) (push_bit 16 (extra i)) s)
      else
        if tmp AND 3 \<noteq> 0 then trap eh AddressErrorException tmp s
        else rbind (ReadMem eh tmp 4 s) (\<lambda>(v, s). case v of None \<Rightarrow> Inr (Return s) | Some v \<Rightarrow>
          Inr (Break pcAfter rt v s)))"

text \<open>The merging of an unaligned word with a register, by the position of the address in its word.\<close>

definition lwl_merge :: "32 word \<Rightarrow> 32 word \<Rightarrow> 32 word \<Rightarrow> 32 word" where
  "lwl_merge pos old v =
     (if 3 - pos = 0 then v
      else if 3 - pos = 1 then (old AND 0xff) OR push_bit 8 v
      else if 3 - pos = 2 then (old AND 0xffff) OR push_bit 16 v
      else (old AND 0xffffff) OR push_bit 24 v)"

definition lwr_merge :: "32 word \<Rightarrow> 32 word \<Rightarrow> 32 word \<Rightarrow> 32 word" where
  "lwr_merge pos old v =
     (if 3 - pos = 0 then (old AND 0xffffff00) OR (signed_drop_bit 24 v AND 0xff)
      else if 3 - pos = 1 then (old AND 0xffff0000) OR (signed_drop_bit 16 v AND 0xffff)
      else if 3 - pos = 2 then (old AND 0xff000000) OR (signed_drop_bit 8 v AND 0xffffff)
      else v)"

definition exec_unaligned_load :: "'a Machine_scheme exec" where
  "exec_unaligned_load eh i pcAfter s =
     (let tmp = reg s (i_rs i) + extra i; pos = tmp AND 3; rt = word_of_nat (i_rt i) in
      rbind (ReadMem eh (tmp - pos) 4 s) (\<lambda>(v, s). case v of None \<Rightarrow> Inr (Return s) | Some v \<Rightarrow>
        let old = (if reg s LoadReg = rt then reg s LoadValueReg else reg s (i_rt i)) in
        Inr (Break pcAfter rt (if opCode i = OP_LWL then lwl_merge pos old v else lwr_merge pos old v) s)))"

definition exec_hilo :: "'a Machine_scheme exec" where
  "exec_hilo eh i pcAfter s =
     (let op = opCode i; a = reg s (i_rs i); b = reg s (i_rt i) in
      if op = OP_MFHI then fall pcAfter (set_reg (i_rd i) (reg s HiReg) s)
      else if op = OP_MFLO then fall pcAfter (set_reg (i_rd i) (reg s LoReg) s)
      else if op = OP_MTHI then fall pcAfter (set_reg HiReg a s)
      else if op = OP_MTLO then fall pcAfter (set_reg LoReg a s)
      else let (hi, lo) = Mult a b (op = OP_MULT) in fall pcAfter (set_reg LoReg lo (set_reg HiReg hi s)))"

definition exec_logic :: "'a Machine_scheme exec" where
  "exec_logic eh i pcAfter s =
     (let op = opCode i; a = reg s (i_rs i); b = reg s (i_rt i) in
      if op = OP_NOR then fall pcAfter (set_reg (i_rd i) (NOT (a OR b)) s)
      else if op = OP_OR then fall pcAfter (set_reg (i_rd i) (a OR b) s)
      else fall pcAfter (set_reg (i_rt i) (a OR (extra i AND 0xffff)) s))"

definition exec_store :: "int \<Rightarrow> 'a Machine_scheme exec" where
  "exec_store sz eh i pcAfter s =
     rbind (WriteMem eh (reg s (i_rs i) + extra i) sz (reg s (i_rt i)) s) (\<lambda>(stored, s).
     if stored then fall pcAfter s else Inr (Return s))"

definition exec_shift_left_set :: "'a Machine_scheme exec" where
  "exec_shift_left_set eh i pcAfter s =
     (let op = opCode i; a = reg s (i_rs i); b = reg s (i_rt i) in
      if op = OP_SLL then fall pcAfter (set_reg (i_rd i) (push_bit (unat (extra i)) b) s)
      else if op = OP_SLLV then fall pcAfter (set_reg (i_rd i) (push_bit (unat (a AND 0x1f)) b) s)
      else if op = OP_SLT then fall pcAfter (set_reg (i_rd i) (if a <s b then 1 else 0) s)
      else if op = OP_SLTI then fall pcAfter (set_reg (i_rt i) (if a <s extra i then 1 else 0) s)
      else if op = OP_SLTIU then fall pcAfter (set_reg (i_rt i) (if a < extra i then 1 else 0) s)
      else fall pcAfter (set_reg (i_rd i) (if a < b then 1 else 0) s))"

definition exec_shift_right_sub :: "'a Machine_scheme exec" where
  "exec_shift_right_sub eh i pcAfter s =
     (let op = opCode i; a = reg s (i_rs i); b = reg s (i_rt i) in
      if op = OP_SRA then fall pcAfter (set_reg (i_rd i) (signed_drop_bit (unat (extra i)) b) s)
      else if op = OP_SRAV then fall pcAfter (set_reg (i_rd i) (signed_drop_bit (unat (a AND 0x1f)) b) s)
      else if op = OP_SRL then fall pcAfter (set_reg (i_rd i) (signed_drop_bit (unat (extra i)) b) s)
      else if op = OP_SRLV then fall pcAfter (set_reg (i_rd i) (signed_drop_bit (unat (a AND 0x1f)) b) s)
      else if op = OP_SUB then
        let diff = a - b in
        if (a XOR b) AND SIGN_BIT \<noteq> 0 \<and> (a XOR diff) AND SIGN_BIT \<noteq> 0 then trap eh OverflowException 0 s
        else fall pcAfter (set_reg (i_rd i) diff s)
      else fall pcAfter (set_reg (i_rd i) (a - b) s))"

definition swl_merge :: "32 word \<Rightarrow> 32 word \<Rightarrow> 32 word \<Rightarrow> 32 word" where
  "swl_merge pos v r =
     (if 3 - pos = 0 then r
      else if 3 - pos = 1 then (v AND 0xff000000) OR (signed_drop_bit 8 r AND 0xffffff)
      else if 3 - pos = 2 then (v AND 0xffff0000) OR (signed_drop_bit 16 r AND 0xffff)
      else (v AND 0xffffff00) OR (signed_drop_bit 24 r AND 0xff))"

definition swr_merge :: "32 word \<Rightarrow> 32 word \<Rightarrow> 32 word \<Rightarrow> 32 word" where
  "swr_merge pos v r =
     (if 3 - pos = 0 then (v AND 0xffffff) OR push_bit 24 r
      else if 3 - pos = 1 then (v AND 0xffff) OR push_bit 16 r
      else if 3 - pos = 2 then (v AND 0xff) OR push_bit 8 r
      else r)"

definition exec_unaligned_store :: "'a Machine_scheme exec" where
  "exec_unaligned_store eh i pcAfter s =
     (let tmp = reg s (i_rs i) + extra i; pos = tmp AND 3 in
      rbind (ReadMem eh (tmp - pos) 4 s) (\<lambda>(v, s). case v of None \<Rightarrow> Inr (Return s) | Some v \<Rightarrow>
        let v = (if opCode i = OP_SWL then swl_merge pos v (reg s (i_rt i)) else swr_merge pos v (reg s (i_rt i))) in
        rbind (WriteMem eh (tmp - pos) 4 v s) (\<lambda>(stored, s).
        if stored then fall pcAfter s else Inr (Return s))))"

definition exec_other :: "'a Machine_scheme exec" where
  "exec_other eh i pcAfter s =
     (let a = reg s (i_rs i); b = reg s (i_rt i) in
      if opCode i = OP_SYSCALL then trap eh SyscallException 0 s
      else if opCode i = OP_XOR then fall pcAfter (set_reg (i_rd i) (a XOR b) s)
      else if opCode i = OP_XORI then fall pcAfter (set_reg (i_rt i) (a XOR (extra i AND 0xffff)) s)
      else if opCode i = OP_RES \<or> opCode i = OP_UNIMP then trap eh IllegalInstrException 0 s
      else Inl AssertionFailed)"

definition execute :: "'a Machine_scheme exec" where
  "execute eh i pcAfter s =
     (let op = opCode i in
      if op \<in> {OP_ADD, OP_ADDI, OP_ADDIU, OP_ADDU, OP_AND, OP_ANDI} then exec_add_and eh i pcAfter s
      else if op \<in> {OP_BEQ, OP_BGEZAL, OP_BGEZ, OP_BGTZ, OP_BLEZ, OP_BLTZAL, OP_BLTZ, OP_BNE} then exec_branch eh i pcAfter s
      else if op \<in> {OP_DIV, OP_DIVU} then exec_div eh i pcAfter s
      else if op \<in> {OP_JAL, OP_J, OP_JALR, OP_JR} then exec_jump eh i pcAfter s
      else if op \<in> {OP_LB, OP_LBU, OP_LH, OP_LHU, OP_LUI, OP_LW} then exec_load eh i pcAfter s
      else if op \<in> {OP_LWL, OP_LWR} then exec_unaligned_load eh i pcAfter s
      else if op \<in> {OP_MFHI, OP_MFLO, OP_MTHI, OP_MTLO, OP_MULT, OP_MULTU} then exec_hilo eh i pcAfter s
      else if op \<in> {OP_NOR, OP_OR, OP_ORI} then exec_logic eh i pcAfter s
      else if op = OP_SB then exec_store 1 eh i pcAfter s
      else if op = OP_SH then exec_store 2 eh i pcAfter s
      else if op = OP_SW then exec_store 4 eh i pcAfter s
      else if op \<in> {OP_SLL, OP_SLLV, OP_SLT, OP_SLTI, OP_SLTIU, OP_SLTU} then exec_shift_left_set eh i pcAfter s
      else if op \<in> {OP_SRA, OP_SRAV, OP_SRL, OP_SRLV, OP_SUB, OP_SUBU} then exec_shift_right_sub eh i pcAfter s
      else if op \<in> {OP_SWL, OP_SWR} then exec_unaligned_store eh i pcAfter s
      else exec_other eh i pcAfter s)"

definition OneInstruction :: "'a Machine_scheme handler \<Rightarrow> 'a Machine_scheme \<Rightarrow> 'a Machine_scheme res" where
  "OneInstruction eh s =
     rbind (ReadMem eh (reg s PCReg) 4 s) (\<lambda>(raw, s). case raw of None \<Rightarrow> Inr s | Some raw \<Rightarrow>
     let instr = Decode raw; pcAfter = reg s NextPCReg + 4 in
     rbind (execute eh instr pcAfter s) (\<lambda>f. case f of
         Return s \<Rightarrow> Inr s
       | Break pcAfter nextLoadReg nextLoadValue s \<Rightarrow>
           rbind (DelayedLoad nextLoadReg nextLoadValue s) (\<lambda>s.
           let s = set_reg PrevPCReg (reg s PCReg) s;
               s = set_reg PCReg (reg s NextPCReg) s in
           Inr (set_reg NextPCReg pcAfter s))))"

section \<open>The processor loop\<close>

text \<open>\<open>DelayedLoad (0, 0)\<close> as called by the interrupt hardware, on a machine whose pending load names a
  register.\<close>

definition finish_load :: "'a Machine_scheme \<Rightarrow> 'a Machine_scheme" where
  "finish_load s = (case DelayedLoad 0 0 s of Inr s' \<Rightarrow> s' | Inl _ \<Rightarrow> s)"

text \<open>\<open>sscanf (buf, "%d")\<close>: white space, an optional sign and at least one digit.\<close>

definition scan_int :: "string \<Rightarrow> int option" where
  "scan_int line =
     (let t = dropWhile (\<lambda>c. c \<in> {CHR '' '', CHR 0x09}) line;
          (neg, t) = (case t of [] \<Rightarrow> (False, t) | c # cs \<Rightarrow>
             if c = CHR ''-'' then (True, cs) else if c = CHR ''+'' then (False, cs) else (False, t));
          ds = takeWhile is_digit t in
      if ds = [] then None else Some (if neg then - int (digits_val ds) else int (digits_val ds)))"

text \<open>The debugger reads lines until one lets the program go on; an input that ended reads as the empty
  line.  Its printing is left out.\<close>

fun Debugger :: "string list \<Rightarrow> 'a Machine_scheme \<Rightarrow> string list \<times> 'a Machine_scheme" where
  "Debugger [] s = ([], s\<lparr>runUntilTime := 0\<rparr>)"
| "Debugger (buf # rest) s = (case scan_int buf of
       Some num \<Rightarrow> (rest, s\<lparr>runUntilTime := num\<rparr>)
     | None \<Rightarrow>
         let s = s\<lparr>runUntilTime := 0\<rparr> in
         case buf of
           [] \<Rightarrow> (rest, s)
         | c # _ \<Rightarrow> if c = CHR ''c'' then (rest, s\<lparr>singleStep := False\<rparr>) else Debugger rest s)"

definition Run_step ::
  "'a Machine_scheme handler \<Rightarrow> ('a Machine_scheme \<Rightarrow> 'a Machine_scheme res) \<Rightarrow> string list \<times> 'a Machine_scheme \<Rightarrow>
   (string list \<times> 'a Machine_scheme) res" where
  "Run_step eh yield = (\<lambda>(input, s).
     rbind (OneInstruction eh s) (\<lambda>s.
     rbind (OneTick finish_load device_callback yield s) (\<lambda>s.
     Inr (if singleStep s \<and> runUntilTime s \<le> totalTicks (stats s) then Debugger input s else (input, s)))))"

text \<open>\<open>Run\<close> loops for ever; the first argument is the number of turns.\<close>

definition Run ::
  "nat \<Rightarrow> 'a Machine_scheme handler \<Rightarrow> ('a Machine_scheme \<Rightarrow> 'a Machine_scheme res) \<Rightarrow> string list \<Rightarrow> 'a Machine_scheme \<Rightarrow>
   (string list \<times> 'a Machine_scheme) res" where
  "Run n eh yield input s = for_each (\<lambda>_. Run_step eh yield) [0..<n] (input, s\<lparr>status := UserMode\<rparr>)"

section \<open>What an instruction may do\<close>

text \<open>A case of the switch ends in one of three ways: behind the switch after a step of the user program
  proper, with a trap after such a step, or with the division trap of the host.\<close>

definition sound :: "'a Machine_scheme handler \<Rightarrow> 'a Machine_scheme \<Rightarrow> 'a Machine_scheme flow res \<Rightarrow> bool" where
  "sound eh s r \<longleftrightarrow>
     (\<exists>pc n v s'. r = Inr (Break pc n v s') \<and> uint n < 32 \<and> user_step s s') \<or>
     (\<exists>ex bad s'. r = trap eh ex bad s' \<and> ex \<noteq> NoException \<and> user_step s s') \<or>
     r = Inl DivisionTrap"

lemma sound_fall [intro]: "user_step s s' \<Longrightarrow> sound eh s (fall pc s')"
  unfolding sound_def fall_def by force

lemma sound_break [intro]: "user_step s s' \<Longrightarrow> uint n < 32 \<Longrightarrow> sound eh s (Inr (Break pc n v s'))"
  unfolding sound_def by blast

lemma sound_trap [intro]: "user_step s s' \<Longrightarrow> ex \<noteq> NoException \<Longrightarrow> sound eh s (trap eh ex bad s')"
  unfolding sound_def by blast

lemma sound_step: "user_step s s' \<Longrightarrow> sound eh s' r \<Longrightarrow> sound eh s r"
  unfolding sound_def using user_step_trans by metis

lemma sound_ReadMem:
  assumes "table_ok s" "sz \<in> {1, 2, 4}" "\<And>v s'. touched s s' \<Longrightarrow> sound eh s (f v s')"
  shows "sound eh s (rbind (ReadMem eh a sz s) (\<lambda>(v, s). case v of None \<Rightarrow> Inr (Return s) | Some v \<Rightarrow> f v s))"
proof (cases rule: ReadMem_cases [OF assms(1,2), of a eh])
  case (1 p s')
  then show ?thesis using assms(3) by simp
next
  case (2 ex)
  then have "rbind (ReadMem eh a sz s) (\<lambda>(v, s). case v of None \<Rightarrow> Inr (Return s) | Some v \<Rightarrow> f v s) = trap eh ex a s"
    by (simp add: rbind_assoc trap_def)
  then show ?thesis using 2 assms(1) by auto
qed

lemma sound_WriteMem:
  assumes "table_ok s" "sz \<in> {1, 2, 4}"
  shows "sound eh s (rbind (WriteMem eh a sz v s) (\<lambda>(stored, s). if stored then fall pc s else Inr (Return s)))"
proof (cases rule: WriteMem_cases [OF assms, of a eh v])
  case (1 p s')
  then show ?thesis using put_user_step [OF 1(1-3) assms(2)] by auto
next
  case (2 ex)
  then have "rbind (WriteMem eh a sz v s) (\<lambda>(stored, s). if stored then fall pc s else Inr (Return s)) = trap eh ex a s"
    by (simp add: rbind_assoc trap_def)
  then show ?thesis using 2 assms(1) by auto
qed

lemma and_1f_less: "unat (w AND 0x1f) < 32" for w :: "32 word"
proof -
  have "w AND 0x1f = take_bit 5 w" by (simp add: take_bit_eq_mask mask_eq_exp_minus_1)
  then show ?thesis using take_bit_nat_less_exp [of 5 "unat w"] by (simp add: unsigned_take_bit_eq)
qed

lemma Decode_fields [simp]: "i_rs (Decode w) < 32" "i_rt (Decode w) < 32" "i_rd (Decode w) < 32" "ivalue (Decode w) = w"
  by (simp_all add: Decode_def Let_def and_1f_less split: prod.split)

lemma and_3f_less: "unat (w AND 0x3f) < 64" for w :: "32 word"
proof -
  have "w AND 0x3f = take_bit 6 w" by (simp add: take_bit_eq_mask mask_eq_exp_minus_1)
  then show ?thesis using take_bit_nat_less_exp [of 6 "unat w"] by (simp add: unsigned_take_bit_eq)
qed

text \<open>Decoding never gives an operation that the switch does not handle.\<close>

lemma Decode_opCode: "opCode (Decode w) \<notin> {OP_RFE, SPECIAL, BCOND}"
proof -
  have "length opTable = 64" "length specialTable = 64" by (simp_all add: opTable_def specialTable_def)
  then have o: "opTable ! unat (drop_bit 26 w AND 0x3f) \<in> set opTable" "specialTable ! unat (w AND 0x3f) \<in> set specialTable"
    using and_3f_less nth_mem by metis+
  moreover have "\<forall>x\<in>set opTable. fst x \<noteq> OP_RFE" "\<forall>x\<in>set specialTable. x \<notin> {OP_RFE, SPECIAL, BCOND}"
    by (simp_all add: opTable_def specialTable_def)
  ultimately show ?thesis by (auto simp: Decode_def Let_def split: prod.splits)
qed

definition registers_named :: "Instruction \<Rightarrow> bool" where
  "registers_named i \<longleftrightarrow> i_rs i < 32 \<and> i_rt i < 32 \<and> i_rd i < 32"

lemma user_step_named:
  assumes "registers_named i" "user_step s s'"
  shows "user_step s (set_reg (i_rd i) v s')" "user_step s (set_reg (i_rt i) v s')"
    "user_step s (set_reg 31 v s')" "user_step s (set_reg HiReg v s')" "user_step s (set_reg LoReg v s')"
  using assms by (auto simp: registers_named_def intro!: user_step_set_reg)

lemma user_step_hilo:
  assumes "table_ok s"
  shows "user_step s (s\<lparr>registers := (registers s)[LoReg := a, HiReg := b]\<rparr>)"
    "user_step s (s\<lparr>registers := (registers s)[HiReg := a, LoReg := b]\<rparr>)"
  using user_step_set_reg [OF user_step_set_reg [OF user_step_refl [OF assms], of LoReg a], of HiReg b]
    user_step_set_reg [OF user_step_set_reg [OF user_step_refl [OF assms], of HiReg a], of LoReg b] by simp_all

lemma sound_division_trap: "sound eh s (Inl DivisionTrap)"
  by (simp add: sound_def)

lemma sound_touched: "touched s s' \<Longrightarrow> uint n < 32 \<Longrightarrow> sound eh s (Inr (Break pc n v s'))"
  by (intro sound_break touched_user_step)

lemmas exec_intros = sound_division_trap user_step_hilo sound_fall sound_break sound_trap user_step_refl user_step_named

lemma sound_exec_add_and: "table_ok s \<Longrightarrow> registers_named i \<Longrightarrow> sound eh s (exec_add_and eh i pc s)"
  unfolding exec_add_and_def Let_def by (simp add: exec_intros)

lemma sound_exec_branch: "table_ok s \<Longrightarrow> registers_named i \<Longrightarrow> sound eh s (exec_branch eh i pc s)"
  unfolding exec_branch_def Let_def by (intro sound_fall) (simp add: exec_intros)

lemma sound_exec_div: "table_ok s \<Longrightarrow> registers_named i \<Longrightarrow> sound eh s (exec_div eh i pc s)"
  unfolding exec_div_def Let_def
  by (simp add: exec_intros)

lemma sound_exec_jump: "table_ok s \<Longrightarrow> registers_named i \<Longrightarrow> sound eh s (exec_jump eh i pc s)"
  unfolding exec_jump_def Let_def by (simp add: exec_intros)

lemma rt_less: "registers_named i \<Longrightarrow> uint (word_of_nat (i_rt i) :: 32 word) < 32"
  by (simp add: registers_named_def uint_nat unat_of_nat)

lemma sound_exec_load: "table_ok s \<Longrightarrow> registers_named i \<Longrightarrow> sound eh s (exec_load eh i pc s)"
  unfolding exec_load_def Let_def
  by (auto simp: exec_intros intro!: sound_ReadMem sound_touched rt_less)

lemma sound_exec_unaligned_load: "table_ok s \<Longrightarrow> registers_named i \<Longrightarrow> sound eh s (exec_unaligned_load eh i pc s)"
  unfolding exec_unaligned_load_def Let_def
  by (auto intro!: sound_ReadMem sound_touched rt_less)

lemma sound_exec_hilo: "table_ok s \<Longrightarrow> registers_named i \<Longrightarrow> sound eh s (exec_hilo eh i pc s)"
  unfolding exec_hilo_def Let_def
  by (cases "Mult (reg s (i_rs i)) (reg s (i_rt i)) (opCode i = OP_MULT)") (simp add: exec_intros)

lemma sound_exec_logic: "table_ok s \<Longrightarrow> registers_named i \<Longrightarrow> sound eh s (exec_logic eh i pc s)"
  unfolding exec_logic_def Let_def by (simp add: exec_intros)

lemma sound_exec_store: "table_ok s \<Longrightarrow> sz \<in> {1, 2, 4} \<Longrightarrow> sound eh s (exec_store sz eh i pc s)"
  unfolding exec_store_def by (rule sound_WriteMem)

lemma sound_exec_shift_left_set: "table_ok s \<Longrightarrow> registers_named i \<Longrightarrow> sound eh s (exec_shift_left_set eh i pc s)"
  unfolding exec_shift_left_set_def Let_def by (simp add: exec_intros)

lemma sound_exec_shift_right_sub: "table_ok s \<Longrightarrow> registers_named i \<Longrightarrow> sound eh s (exec_shift_right_sub eh i pc s)"
  unfolding exec_shift_right_sub_def Let_def by (simp add: exec_intros)

lemma touched_table: "touched s s' \<Longrightarrow> table_ok s'"
  by (simp add: touched_def)

lemma sound_exec_unaligned_store: "table_ok s \<Longrightarrow> sound eh s (exec_unaligned_store eh i pc s)"
  unfolding exec_unaligned_store_def Let_def
  by (rule sound_ReadMem) (simp_all add: sound_step [OF touched_user_step] sound_WriteMem touched_table)

lemma sound_exec_other:
  "table_ok s \<Longrightarrow> registers_named i \<Longrightarrow> opCode i \<in> {OP_SYSCALL, OP_XOR, OP_XORI, OP_RES, OP_UNIMP} \<Longrightarrow>
   sound eh s (exec_other eh i pc s)"
  unfolding exec_other_def Let_def by (elim insertE emptyE) (simp_all add: exec_intros)

lemmas sound_cases = sound_exec_add_and sound_exec_branch sound_exec_div sound_exec_jump sound_exec_load
  sound_exec_unaligned_load sound_exec_hilo sound_exec_logic sound_exec_store sound_exec_shift_left_set
  sound_exec_shift_right_sub sound_exec_unaligned_store sound_exec_other

lemma sound_execute:
  assumes "table_ok s" "registers_named i" "opCode i \<notin> {OP_RFE, SPECIAL, BCOND}"
  shows "sound eh s (execute eh i pc s)"
  using assms(3) by (cases "opCode i") (simp_all add: execute_def sound_cases [OF assms(1)] assms(2))

section \<open>Confinement of user programs\<close>

definition machine_ok :: "'a Machine_scheme \<Rightarrow> bool" where
  "machine_ok s \<longleftrightarrow> length (registers s) = NumTotalRegs \<and> reg s 0 = 0 \<and> uint (reg s LoadReg) < int NumGPRegs \<and> table_ok s"

text \<open>Of the whole state only the mode, the registers, memory in writable frames and the \<open>use\<close> and \<open>dirty\<close>
  bits of the page table change.\<close>

definition confined :: "'a Machine_scheme \<Rightarrow> 'a Machine_scheme \<Rightarrow> bool" where
  "confined s s' \<longleftrightarrow>
     (\<exists>st rs m pt. s' = s\<lparr>status := st, registers := rs, mainMemory := m, pageTable := pt\<rparr>) \<and>
     lookup_page s' = lookup_page s \<and>
     (\<forall>a. mainMemory s' a \<noteq> mainMemory s a \<longrightarrow> writable_frame s (int a div PageSize))"

lemma user_step_confined:
  assumes "user_step s s'"
  shows "confined s (s'\<lparr>status := st, registers := rs\<rparr>)"
proof -
  obtain rs' m pt where "s' = s\<lparr>registers := rs', mainMemory := m, pageTable := pt\<rparr>"
    using assms unfolding user_step_def by blast
  then have "s'\<lparr>status := st, registers := rs\<rparr> = s\<lparr>status := st, registers := rs, mainMemory := m, pageTable := pt\<rparr>" by simp
  then have "\<exists>st' rs' m pt. s'\<lparr>status := st, registers := rs\<rparr> =
      s\<lparr>status := st', registers := rs', mainMemory := m, pageTable := pt\<rparr>" by blast
  moreover have "lookup_page (s'\<lparr>status := st, registers := rs\<rparr>) = lookup_page s'"
    by (simp add: fun_eq_iff lookup_page_def split: option.split)
  ultimately show ?thesis using assms by (simp add: confined_def user_step_def)
qed

text \<open>The registers after a delayed load.\<close>

definition loaded_regs :: "32 word \<Rightarrow> 32 word \<Rightarrow> 32 word list \<Rightarrow> 32 word list" where
  "loaded_regs n v rs = rs[unat (rs ! LoadReg) := rs ! LoadValueReg, LoadReg := n, LoadValueReg := v, 0 := 0]"

lemma DelayedLoad_ok:
  assumes "length (registers s) = NumTotalRegs" "uint (reg s LoadReg) < int NumGPRegs"
  shows "DelayedLoad n v s = Inr (s\<lparr>registers := loaded_regs n v (registers s)\<rparr>)"
proof -
  have "- (2 ^ 31) \<le> uint (reg s LoadReg)" by (rule order_trans [of _ 0]) simp_all
  then have "sint (reg s LoadReg) = uint (reg s LoadReg)"
    using assms(2) signed_take_bit_int_eq_self [of 31 "uint (reg s LoadReg)"] by (simp add: sint_uint)
  then show ?thesis using assms by (simp add: DelayedLoad_def arr_set_def loaded_regs_def)
qed

lemma loaded_regs_ok:
  assumes "length rs = NumTotalRegs"
  shows "length (loaded_regs n v rs) = NumTotalRegs" "loaded_regs n v rs ! 0 = 0" "loaded_regs n v rs ! LoadReg = n"
  using assms by (simp_all add: loaded_regs_def)

lemma user_step_registers:
  assumes "machine_ok s" "user_step s s'"
  shows "length (registers s') = NumTotalRegs" "uint (reg s' LoadReg) < int NumGPRegs" "table_ok s'"
  using assms by (simp_all add: machine_ok_def user_step_def)

text \<open>The state handed to the exception handler.\<close>

definition trapped :: "32 word \<Rightarrow> 'a Machine_scheme \<Rightarrow> 'a Machine_scheme" where
  "trapped bad s = s\<lparr>status := SystemMode, registers := loaded_regs 0 0 ((registers s)[BadVAddrReg := bad])\<rparr>"

lemma RaiseException_ok:
  assumes "length (registers s) = NumTotalRegs" "uint (reg s LoadReg) < int NumGPRegs"
  shows "RaiseException eh ex bad s = rbind (eh ex (trapped bad s)) (\<lambda>s. Inr (s\<lparr>status := UserMode\<rparr>))"
proof -
  have "s\<lparr>registers := loaded_regs 0 0 ((registers s)[BadVAddrReg := bad]), status := SystemMode\<rparr> = trapped bad s"
    unfolding trapped_def by (rule Machine.equality) simp_all
  then show ?thesis using DelayedLoad_ok [of "set_reg BadVAddrReg bad s" 0 0] assms by (simp add: RaiseException_def)
qed

lemma machine_ok_regs:
  assumes "table_ok s" "length rs = NumTotalRegs" "rs ! 0 = 0" "uint (rs ! LoadReg) < int NumGPRegs"
  shows "machine_ok (s\<lparr>status := st, registers := rs\<rparr>)"
  using assms by (simp add: machine_ok_def table_ok_def)

lemma trapped_ok:
  assumes "machine_ok s" "user_step s s'"
  shows "machine_ok (trapped bad s')" "confined s (trapped bad s')" "status (trapped bad s') = SystemMode"
proof -
  have l: "length ((registers s')[BadVAddrReg := bad]) = NumTotalRegs" using user_step_registers [OF assms] by simp
  show "machine_ok (trapped bad s')" unfolding trapped_def
    using machine_ok_regs [OF user_step_registers(3) [OF assms]] loaded_regs_ok [OF l, of 0 0] by simp
  show "confined s (trapped bad s')" unfolding trapped_def by (rule user_step_confined [OF assms(2)])
qed (simp add: trapped_def)

text \<open>The state after an instruction that completed.\<close>

definition advanced :: "32 word \<Rightarrow> 32 word \<Rightarrow> 32 word \<Rightarrow> 'a Machine_scheme \<Rightarrow> 'a Machine_scheme" where
  "advanced pc n v s =
     (let rs = loaded_regs n v (registers s) in
      s\<lparr>registers := rs[PrevPCReg := rs ! PCReg, PCReg := rs ! NextPCReg, NextPCReg := pc]\<rparr>)"

lemma advanced_ok:
  assumes "machine_ok s" "user_step s s'" "uint n < int NumGPRegs"
  shows "machine_ok (advanced pc n v s')" "confined s (advanced pc n v s')"
proof -
  let ?rs = "loaded_regs n v (registers s')"
  have a: "advanced pc n v s' =
      s'\<lparr>status := status s', registers := ?rs[PrevPCReg := ?rs ! PCReg, PCReg := ?rs ! NextPCReg, NextPCReg := pc]\<rparr>"
    by (simp add: advanced_def Let_def)
  show "machine_ok (advanced pc n v s')" unfolding a
    using loaded_regs_ok [OF user_step_registers(1) [OF assms(1,2)], of n v] assms(3)
    by (intro machine_ok_regs user_step_registers(3) [OF assms(1,2)]) simp_all
  show "confined s (advanced pc n v s')" unfolding a by (rule user_step_confined [OF assms(2)])
qed

lemma OneInstruction_execute:
  assumes "machine_ok s"
  obtains (fetched) raw s1 where "touched s s1" "OneInstruction eh s =
      rbind (execute eh (Decode raw) (reg s1 NextPCReg + 4) s1) (\<lambda>f. case f of Return s \<Rightarrow> Inr s
        | Break pc n v s \<Rightarrow> rbind (DelayedLoad n v s) (\<lambda>s.
            Inr (s\<lparr>registers := (registers s)[PrevPCReg := reg s PCReg, PCReg := reg s NextPCReg, NextPCReg := pc]\<rparr>)))"
  | (trapped) ex bad where "OneInstruction eh s = RaiseException eh ex bad s" "ex \<noteq> NoException"
proof -
  have t: "table_ok s" using assms by (simp add: machine_ok_def)
  show thesis
  proof (cases rule: ReadMem_cases [OF t, of 4 "reg s PCReg" eh])
    case (2 p s1)
    show ?thesis by (rule fetched [OF 2(3), of "fetch (mainMemory s) (nat p) 4"]) (simp add: OneInstruction_def 2(4) Let_def)
  next
    case (3 ex)
    then have "OneInstruction eh s = RaiseException eh ex (reg s PCReg) s"
      by (simp add: OneInstruction_def rbind_assoc rbind_Inr_right)
    then show ?thesis using trapped 3(2) by blast
  qed simp
qed

lemma OneInstruction_cases:
  assumes ok: "machine_ok s"
  obtains (completed) s' where "OneInstruction eh s = Inr s'" "machine_ok s'" "confined s s'"
  | (trapped) ex s' where "OneInstruction eh s = rbind (eh ex s') (\<lambda>s. Inr (s\<lparr>status := UserMode\<rparr>))"
      "ex \<noteq> NoException" "machine_ok s'" "confined s s'" "status s' = SystemMode"
  | (host) "OneInstruction eh s = Inl DivisionTrap"
proof (cases rule: OneInstruction_execute [OF ok, of eh])
  case (1 raw s1)
  let ?r = "execute eh (Decode raw) (reg s1 NextPCReg + 4) s1"
  have u: "user_step s s1" using 1(1) by (rule touched_user_step)
  have "sound eh s ?r"
    by (rule sound_step [OF u], rule sound_execute [OF user_step_registers(3) [OF ok u] _ Decode_opCode])
      (simp add: registers_named_def)
  then consider (a) pc n v s' where "?r = Inr (Break pc n v s')" "uint n < 32" "user_step s s'"
    | (b) ex bad s' where "?r = trap eh ex bad s'" "ex \<noteq> NoException" "user_step s s'" | (c) "?r = Inl DivisionTrap"
    unfolding sound_def by blast
  then show thesis
  proof cases
    case a
    have "OneInstruction eh s = Inr (advanced pc n v s')"
      by (simp add: 1(2) a(1) advanced_def Let_def DelayedLoad_ok [OF user_step_registers(1,2) [OF ok a(3)]])
    then show thesis using completed advanced_ok [OF ok a(3)] a(2) by simp
  next
    case b
    have "OneInstruction eh s = rbind (eh ex (trapped bad s')) (\<lambda>s. Inr (s\<lparr>status := UserMode\<rparr>))"
      by (simp add: 1(2) b(1) trap_def rbind_assoc RaiseException_ok [OF user_step_registers(1,2) [OF ok b(3)]])
    then show thesis using trapped trapped_ok [OF ok b(3)] b(2) by blast
  next
    case c
    then show thesis using host 1(2) by simp
  qed
next
  case (2 ex bad)
  have u: "user_step s s" using ok by (simp add: machine_ok_def)
  show thesis using trapped trapped_ok [OF ok u] 2 RaiseException_ok user_step_registers(1,2) [OF ok u] by metis
qed

lemma demo_machine_ok: "machine_ok demo_machine"
  by (simp add: machine_ok_def demo_machine_fields demo_machine_table)

text \<open>C11. User programs are confined: from a well-formed machine, one instruction, whatever the bytes at
  the program counter, either completes and leaves a well-formed machine, or hands a well-formed
  machine in system mode to the exception handler, or divides the smallest integer by \<open>- 1\<close>.  In the
  first two cases nothing of the kernel's state has changed, the translation of addresses is the
  same, and memory differs only in frames that the page table maps as writable.  Register 0 stays
  zero, no assertion of the simulator fails and no array is indexed out of range.\<close>

theorem instruction_confined:
  assumes "machine_ok s"
  shows "(\<exists>s'. OneInstruction eh s = Inr s' \<and> machine_ok s' \<and> confined s s') \<or>
    (\<exists>ex s'. OneInstruction eh s = rbind (eh ex s') (\<lambda>s. Inr (s\<lparr>status := UserMode\<rparr>)) \<and> ex \<noteq> NoException \<and>
      machine_ok s' \<and> confined s s' \<and> status s' = SystemMode) \<or>
    OneInstruction eh s = Inl DivisionTrap"
  by (cases rule: OneInstruction_cases [OF assms, of eh]) blast+

theorem instruction_confined_witness:
  "machine_ok demo_machine \<and>
   ((\<exists>s'. OneInstruction (\<lambda>_ _. Inl Halted) demo_machine = Inr s' \<and> machine_ok s' \<and> confined demo_machine s') \<or>
    (\<exists>ex s'. OneInstruction (\<lambda>_ _. Inl Halted) demo_machine =
        rbind ((\<lambda>_ _. Inl Halted) ex s') (\<lambda>s. Inr (s\<lparr>status := UserMode\<rparr>)) \<and> ex \<noteq> NoException \<and>
      machine_ok s' \<and> confined demo_machine s' \<and> status s' = SystemMode) \<or>
    OneInstruction (\<lambda>_ _. Inl Halted) demo_machine = Inl DivisionTrap)"
  using instruction_confined [OF demo_machine_ok, of "\<lambda>_ _. Inl Halted"] demo_machine_ok by (rule_tac conjI)

end
