(* ===== verification/Mips_Arith.thy ===== *)
theory Mips_Arith
  imports Mips
begin

text \<open>
  The arithmetic of the simulated processor: the shift-and-add loop of \<open>Mult\<close>, with its hand-made
  carries, its early exit and its negation of a double word, gives the exact 64-bit product; overflow
  is detected exactly when the integer result does not fit; a pair of \<open>LWR\<close> and \<open>LWL\<close>, or of \<open>SWR\<close> and
  \<open>SWL\<close>, moves an unaligned word; and the logical right shifts are arithmetic ones.
\<close>

section \<open>Multiplication\<close>

definition double :: "32 word \<Rightarrow> 32 word \<Rightarrow> 64 word" where
  "double hi lo = word_of_int (uint hi * 2 ^ 32 + uint lo)"

lemma double_hi:
  assumes "hi = word_of_int z"
  shows "double hi lo = word_of_int (z * 2 ^ 32 + uint lo)"
proof -
  have "uint hi = z mod 2 ^ 32" using assms by (simp add: uint_word_of_int)
  then obtain q where "z = q * 2 ^ 32 + uint hi" by (metis div_mult_mod_eq)
  then have "z * 2 ^ 32 + uint lo = uint hi * 2 ^ 32 + uint lo + 2 ^ 64 * q" by simp
  then show ?thesis by (simp only: double_def word_of_int_eq_iff take_bit_eq_mod) simp
qed

lemma double_add:
  "double (hi + (if lo + bLo < bLo then 1 else 0) + bHi) (lo + bLo) = double hi lo + double bHi bLo"
proof -
  let ?c = "if lo + bLo < bLo then 1 else 0 :: int"
  have lo: "uint (lo + bLo) = uint lo + uint bLo - ?c * 2 ^ 32"
    using uint_plus_if' [of lo bLo] unsigned_greater_eq [of lo] unsigned_less [of bLo] unsigned_less [of lo]
    by (auto simp: word_less_def split: if_splits)
  have "hi + (if lo + bLo < bLo then 1 else 0) + bHi = word_of_int (uint hi + ?c + uint bHi)" by simp
  from double_hi [OF this] have "double (hi + (if lo + bLo < bLo then 1 else 0) + bHi) (lo + bLo) =
      word_of_int ((uint hi + ?c + uint bHi) * 2 ^ 32 + (uint lo + uint bLo - ?c * 2 ^ 32))"
    by (simp only: lo)
  also have "\<dots> = word_of_int ((uint hi * 2 ^ 32 + uint lo) + (uint bHi * 2 ^ 32 + uint bLo))"
    by (simp add: algebra_simps)
  finally show ?thesis by (simp add: double_def)
qed

lemma top_bit: "w AND 0x80000000 \<noteq> 0 \<longleftrightarrow> 2 ^ 31 \<le> uint w" for w :: "32 word"
proof -
  have "w AND 0x80000000 \<noteq> 0 \<longleftrightarrow> bit w 31" using and_exp_eq_0_iff_not_bit [of w 31] by simp
  also have "\<dots> \<longleftrightarrow> bit (uint w) 31" by (simp add: bit_uint_iff)
  also have "\<dots> \<longleftrightarrow> odd (uint w div 2 ^ 31)" by (rule bit_iff_odd)
  also have "uint w div 2 ^ 31 = (if 2 ^ 31 \<le> uint w then 1 else 0)"
  proof (cases "2 ^ 31 \<le> uint w")
    case True
    then show ?thesis using unsigned_less [of w] int_div_pos_eq [of "uint w" "2 ^ 31" 1 "uint w - 2 ^ 31"] by simp
  next
    case False
    then show ?thesis by simp
  qed
  finally show ?thesis by simp
qed

lemma double_shift:
  "double (if bLo AND 0x80000000 \<noteq> 0 then push_bit 1 bHi OR 1 else push_bit 1 bHi) (push_bit 1 bLo) = 2 * double bHi bLo"
proof -
  let ?m = "if 2 ^ 31 \<le> uint bLo then 1 else 0 :: int"
  have lo: "uint (push_bit 1 bLo) = 2 * uint bLo - ?m * 2 ^ 32"
  proof -
    have "uint (push_bit 1 bLo) = (2 * uint bLo) mod 2 ^ 32"
      by (simp add: push_bit_eq_mult uint_word_ariths mult.commute)
    moreover have "(2 * uint bLo) mod 2 ^ 32 = 2 * uint bLo - ?m * 2 ^ 32"
    proof (cases "2 ^ 31 \<le> uint bLo")
      case True
      then have "2 * uint bLo div 2 ^ 32 = 1"
        using unsigned_less [of bLo] int_div_pos_eq [of "2 * uint bLo" "2 ^ 32" 1 "2 * uint bLo - 2 ^ 32"] by simp
      then show ?thesis using True minus_div_mult_eq_mod [of "2 * uint bLo" "2 ^ 32"] by simp
    qed simp
    ultimately show ?thesis by simp
  qed
  have "push_bit 1 bHi OR 1 = push_bit 1 bHi + 1"
    by (simp add: or_one_eq)
  then have "(if bLo AND 0x80000000 \<noteq> 0 then push_bit 1 bHi OR 1 else push_bit 1 bHi) = word_of_int (2 * uint bHi + ?m)"
    by (simp add: top_bit push_bit_eq_mult mult.commute)
  from double_hi [OF this] have "double (if bLo AND 0x80000000 \<noteq> 0 then push_bit 1 bHi OR 1 else push_bit 1 bHi)
      (push_bit 1 bLo) = word_of_int ((2 * uint bHi + ?m) * 2 ^ 32 + (2 * uint bLo - ?m * 2 ^ 32))"
    by (simp only: lo)
  also have "\<dots> = word_of_int (2 * (uint bHi * 2 ^ 32 + uint bLo))" by (simp add: algebra_simps)
  finally show ?thesis by (simp add: double_def)
qed

lemma low_bit: "a AND 1 \<noteq> 0 \<longleftrightarrow> odd (sint a)" for a :: "32 word"
proof -
  have "bit (sint a) 0 \<longleftrightarrow> bit a 0" by (simp only: bit_sint_iff) simp
  then show ?thesis by (simp add: and_one_eq mod_2_eq_odd bit_0)
qed

lemma last_bit:
  assumes "a AND 1 \<noteq> 0" "a AND 0xfffffffe = 0"
  shows "a = (1 :: 32 word)"
proof -
  have "a = (a AND 1) OR (a AND 0xfffffffe)"
  proof -
    have "(1 OR 0xfffffffe :: 32 word) = - 1" by simp
    then show ?thesis by (metis bit.conj_disj_distrib and.right_neutral)
  qed
  then have "a = a AND 1" using assms(2) by simp
  moreover have "a AND 1 = 0 \<or> a AND 1 = 1" by (simp add: and_one_eq mod_2_eq_odd)
  ultimately show ?thesis using assms(1) by metis
qed

lemma sint_shift: "sint (signed_drop_bit 1 a) = sint a div 2" for a :: "32 word"
  by (simp add: sint_signed_drop_bit_eq drop_bit_eq_div)

lemma double_Mult_loop:
  "double (fst (Mult_loop n a bHi bLo hi lo)) (snd (Mult_loop n a bHi bLo hi lo)) =
     double hi lo + word_of_int (sint a mod 2 ^ n) * double bHi bLo"
proof (induction n arbitrary: a bHi bLo hi lo)
  case (Suc n)
  let ?hi = "if a AND 1 \<noteq> 0 then hi + (if lo + bLo < bLo then 1 else 0) + bHi else hi"
  let ?lo = "if a AND 1 \<noteq> 0 then lo + bLo else lo"
  let ?bHi = "if bLo AND 0x80000000 \<noteq> 0 then push_bit 1 bHi OR 1 else push_bit 1 bHi"
  have add: "double ?hi ?lo = double hi lo + word_of_int (sint a mod 2) * double bHi bLo"
    using double_add [of hi lo bLo bHi] by (auto simp: low_bit mod_2_eq_odd)
  have split: "sint a mod 2 ^ Suc n = sint a mod 2 + 2 * (sint a div 2 mod 2 ^ n)"
    using mod_mult2_eq' [of "sint a" 2 "2 ^ n"] by simp
  show ?case
  proof (cases "a AND 1 \<noteq> 0 \<and> a AND 0xfffffffe = 0")
    case True
    then have "a = 1" using last_bit by blast
    moreover have "(1 :: int) < 2 ^ Suc n" by (rule one_less_power) simp_all
    ultimately have "sint a mod 2 ^ Suc n = 1" "sint a mod 2 = 1" using mod_pos_pos_trivial [of 1 "2 ^ Suc n"] by simp_all
    moreover have "Mult_loop (Suc n) a bHi bLo hi lo = (?hi, ?lo)" using True by (simp add: Let_def)
    ultimately show ?thesis using add by simp
  next
    case False
    then have "Mult_loop (Suc n) a bHi bLo hi lo = Mult_loop n (signed_drop_bit 1 a) ?bHi (push_bit 1 bLo) ?hi ?lo"
      by (auto simp: Let_def)
    then have "double (fst (Mult_loop (Suc n) a bHi bLo hi lo)) (snd (Mult_loop (Suc n) a bHi bLo hi lo)) =
        double ?hi ?lo + word_of_int (sint a div 2 mod 2 ^ n) * (2 * double bHi bLo)"
      by (simp only: Suc.IH double_shift sint_shift)
    also have "\<dots> = double hi lo + word_of_int (sint a mod 2 ^ Suc n) * double bHi bLo"
      by (simp only: add split) (simp add: algebra_simps)
    finally show ?thesis .
  qed
qed simp

lemma double_minus:
  "double (if NOT lo + 1 = 0 then NOT hi + 1 else NOT hi) (NOT lo + 1) = - double hi lo"
proof (cases "lo = 0")
  case True
  have "double (- hi) 0 = word_of_int (- uint hi * 2 ^ 32 + uint (0 :: 32 word))" by (rule double_hi) simp
  then show ?thesis using True by (simp add: double_def not_eq_complement)
next
  case False
  then have "uint lo \<noteq> 0" by (simp add: uint_0_iff)
  then have l: "uint (- lo) = 2 ^ 32 - uint lo"
    using uint_bounded [of lo] by (simp add: uint_word_ariths zmod_zminus1_eq_if)
  have "double (- hi - 1) (- lo) = word_of_int ((- uint hi - 1) * 2 ^ 32 + uint (- lo))" by (rule double_hi) simp
  also have "\<dots> = - double hi lo" by (simp only: l double_def flip: wi_hom_neg) (simp add: algebra_simps)
  finally show ?thesis using False by (simp add: not_eq_complement)
qed

lemma uint_sint: "uint a = sint a mod 2 ^ 32" for a :: "32 word"
  by (simp add: uint_sint take_bit_eq_mod)

lemma uint_abs: "uint (if a <s 0 then - a else a) = \<bar>sint a\<bar>" for a :: "32 word"
proof -
  have b: "- (2 ^ 31) \<le> sint a" "sint a < 2 ^ 31"
    using sint_greater_eq [of a] sint_less [of a] by simp_all
  have "uint (- a) = (- sint a) mod 2 ^ 32"
    using uint_word_of_int [where ?'a = 32, of "- sint a"] by simp
  then show ?thesis using b uint_sint [of a] by (auto simp: word_sless_alt)
qed

text \<open>C13. The multiplication instructions are exact: the two words that \<open>Mult\<close> leaves in \<open>Hi\<close> and \<open>Lo\<close>
  are the 64-bit product of the operands, read as signed or as unsigned integers.\<close>

theorem mult_is_product:
  "case Mult a b signedArith of (hi, lo) \<Rightarrow>
     double hi lo = (if signedArith then word_of_int (sint a * sint b) else word_of_int (uint a * uint b))"
proof (cases "a = 0 \<or> b = 0")
  case True
  then show ?thesis by (auto simp: Mult_def double_def)
next
  case False
  have loop: "double (fst (Mult_loop 32 x 0 y 0 0)) (snd (Mult_loop 32 x 0 y 0 0)) = word_of_int (uint x * uint y)" for x y
    using double_Mult_loop [of 32 x 0 y 0 0] by (simp add: uint_sint [of x] double_def)
  let ?a = "if a <s 0 then - a else a" and ?b = "if b <s 0 then - b else b"
  have abs: "word_of_int (uint ?a * uint ?b) =
      (if (a <s 0) \<noteq> (b <s 0) then - word_of_int (sint a * sint b) else word_of_int (sint a * sint b) :: 64 word)"
    unfolding uint_abs by (auto simp: word_sless_alt abs_if)
  show ?thesis
  proof (cases signedArith)
    case True
    let ?p = "Mult_loop 32 ?a 0 ?b 0 0"
    have "Mult a b signedArith = (if (a <s 0) \<noteq> (b <s 0)
        then (if NOT (snd ?p) + 1 = 0 then NOT (fst ?p) + 1 else NOT (fst ?p), NOT (snd ?p) + 1) else ?p)"
      using True False by (auto simp: Mult_def Let_def split: prod.split)
    then show ?thesis using True loop [of ?a ?b] abs double_minus by (auto split: prod.splits if_splits)
  next
    case f: False
    then have "Mult a b signedArith = Mult_loop 32 a 0 b 0 0" using False by (simp add: Mult_def)
    then show ?thesis using f loop [of a b] by (auto split: prod.splits)
  qed
qed

section \<open>Overflow\<close>

definition fits :: "int \<Rightarrow> bool" where
  "fits k \<longleftrightarrow> - (2 ^ 31) \<le> k \<and> k < 2 ^ 31"

lemma fits_sint: "fits (sint a)" for a :: "32 word"
  using sint_greater_eq [of a] sint_less [of a] by (simp add: fits_def)

lemma sint_wrap:
  assumes "- (2 ^ 32) \<le> k" "k < 2 ^ 32"
  shows "sint (word_of_int k :: 32 word) = (if k < - (2 ^ 31) then k + 2 ^ 32 else if 2 ^ 31 \<le> k then k - 2 ^ 32 else k)"
proof -
  have "sint (word_of_int k :: 32 word) = (k + 2 ^ 31) mod 2 ^ 32 - 2 ^ 31"
    using int_word_sint [where ?'a = 32, of k] by simp
  moreover have "(k + 2 ^ 31) mod 2 ^ 32 = (if k < - (2 ^ 31) then k + 2 ^ 31 + 2 ^ 32
      else if 2 ^ 31 \<le> k then k + 2 ^ 31 - 2 ^ 32 else k + 2 ^ 31)"
  proof -
    consider "k < - (2 ^ 31)" | "- (2 ^ 31) \<le> k" "k < 2 ^ 31" | "2 ^ 31 \<le> k" by linarith
    then show ?thesis
    proof cases
      case 1
      then show ?thesis using assms mod_add_self2 [of "k + 2 ^ 31" "2 ^ 32"]
          mod_pos_pos_trivial [of "k + 2 ^ 31 + 2 ^ 32" "2 ^ 32"] by simp
    next
      case 2
      then show ?thesis by (simp add: mod_pos_pos_trivial)
    next
      case 3
      then show ?thesis using assms minus_mod_self2 [of "k + 2 ^ 31" "2 ^ 32"]
          mod_pos_pos_trivial [of "k + 2 ^ 31 - 2 ^ 32" "2 ^ 32"] by simp
    qed
  qed
  ultimately show ?thesis by simp
qed

lemma sign_bit: "w AND SIGN_BIT = 0 \<longleftrightarrow> 0 \<le> sint w" for w :: "32 word"
  using and_exp_eq_0_iff_not_bit [of w 31] bit_last_iff [of w] by (auto simp: SIGN_BIT_def)

lemma sign_bit_xor: "(a XOR b) AND SIGN_BIT = 0 \<longleftrightarrow> (0 \<le> sint a \<longleftrightarrow> 0 \<le> sint b)" for a b :: "32 word"
proof -
  have "w AND SIGN_BIT = 0 \<longleftrightarrow> \<not> bit w 31" for w :: "32 word"
    using and_exp_eq_0_iff_not_bit [of w 31] by (simp add: SIGN_BIT_def)
  then show ?thesis by (simp add: bit_xor_iff sign_bit [symmetric])
qed

lemma overflow_tests:
  fixes a b :: "32 word"
  shows "(a XOR b) AND SIGN_BIT = 0 \<and> (a XOR (a + b)) AND SIGN_BIT \<noteq> 0 \<longleftrightarrow> \<not> fits (sint a + sint b)"
    and "(a XOR b) AND SIGN_BIT = 0 \<and> (b XOR (a + b)) AND SIGN_BIT \<noteq> 0 \<longleftrightarrow> \<not> fits (sint a + sint b)"
    and "(a XOR b) AND SIGN_BIT \<noteq> 0 \<and> (a XOR (a - b)) AND SIGN_BIT \<noteq> 0 \<longleftrightarrow> \<not> fits (sint a - sint b)"
proof -
  have r: "fits (sint a)" "fits (sint b)" by (rule fits_sint)+
  have "sint (a + b) = (let k = sint a + sint b in if k < - (2 ^ 31) then k + 2 ^ 32 else if 2 ^ 31 \<le> k then k - 2 ^ 32 else k)"
    using sint_wrap [of "sint a + sint b"] r by (simp add: fits_def Let_def)
  then show "(a XOR b) AND SIGN_BIT = 0 \<and> (a XOR (a + b)) AND SIGN_BIT \<noteq> 0 \<longleftrightarrow> \<not> fits (sint a + sint b)"
    and "(a XOR b) AND SIGN_BIT = 0 \<and> (b XOR (a + b)) AND SIGN_BIT \<noteq> 0 \<longleftrightarrow> \<not> fits (sint a + sint b)"
    using r unfolding sign_bit_xor fits_def Let_def by (auto split: if_splits)
  have "sint (a - b) = (let k = sint a - sint b in if k < - (2 ^ 31) then k + 2 ^ 32 else if 2 ^ 31 \<le> k then k - 2 ^ 32 else k)"
    using sint_wrap [of "sint a - sint b"] r by (simp add: fits_def Let_def)
  then show "(a XOR b) AND SIGN_BIT \<noteq> 0 \<and> (a XOR (a - b)) AND SIGN_BIT \<noteq> 0 \<longleftrightarrow> \<not> fits (sint a - sint b)"
    using r unfolding sign_bit_xor fits_def Let_def by (auto split: if_splits)
qed

text \<open>What an instruction with an overflow check should do with its exact result.\<close>

definition checked :: "'a Machine_scheme handler \<Rightarrow> nat \<Rightarrow> int \<Rightarrow> 32 word \<Rightarrow> 'a Machine_scheme \<Rightarrow> 'a Machine_scheme flow res" where
  "checked eh n k pc s = (if fits k then fall pc (set_reg n (word_of_int k) s) else trap eh OverflowException 0 s)"

text \<open>C14. Overflow is detected exactly: \<open>ADD\<close>, \<open>ADDI\<close> and \<open>SUB\<close> trap when the integer result does not fit
  into 32 bits, and store that result otherwise; the sign-bit tests of the code never miss and never
  report a false overflow.\<close>

theorem overflow_exact:
  "(opCode i = OP_ADD \<longrightarrow>
     execute eh i pc s = checked eh (i_rd i) (sint (reg s (i_rs i)) + sint (reg s (i_rt i))) pc s) \<and>
   (opCode i = OP_ADDI \<longrightarrow> execute eh i pc s = checked eh (i_rt i) (sint (reg s (i_rs i)) + sint (extra i)) pc s) \<and>
   (opCode i = OP_SUB \<longrightarrow>
     execute eh i pc s = checked eh (i_rd i) (sint (reg s (i_rs i)) - sint (reg s (i_rt i))) pc s)"
proof (intro conjI impI)
  assume "opCode i = OP_ADD"
  then show "execute eh i pc s = checked eh (i_rd i) (sint (reg s (i_rs i)) + sint (reg s (i_rt i))) pc s"
    by (simp add: execute_def exec_add_and_def checked_def Let_def overflow_tests)
next
  assume "opCode i = OP_ADDI"
  then show "execute eh i pc s = checked eh (i_rt i) (sint (reg s (i_rs i)) + sint (extra i)) pc s"
    by (simp add: execute_def exec_add_and_def checked_def Let_def overflow_tests)
next
  assume "opCode i = OP_SUB"
  then show "execute eh i pc s = checked eh (i_rd i) (sint (reg s (i_rs i)) - sint (reg s (i_rt i))) pc s"
    by (simp add: execute_def exec_shift_right_sub_def checked_def Let_def overflow_tests)
qed

theorem overflow_exact_witness:
  "execute (\<lambda>_ _. Inl Halted) \<lparr>ivalue = 0, opCode = OP_ADD, i_rs = 1, i_rt = 2, i_rd = 3, extra = 0\<rparr> 8
     (set_reg 1 0x7fffffff (set_reg 2 1 demo_machine)) =
   trap (\<lambda>_ _. Inl Halted) OverflowException 0 (set_reg 1 0x7fffffff (set_reg 2 1 demo_machine))"
  using overflow_exact [of "\<lparr>ivalue = 0, opCode = OP_ADD, i_rs = 1, i_rt = 2, i_rd = 3, extra = 0\<rparr>"
      "\<lambda>_ _. Inl Halted" 8 "set_reg 1 0x7fffffff (set_reg 2 1 demo_machine)"]
  by (simp add: demo_machine_fields checked_def fits_def numeral_eq_Suc)

section \<open>Unaligned words\<close>

lemma masks: "0xff = (mask 8 :: 32 word)" "0xffff = (mask 16 :: 32 word)" "0xffffff = (mask 24 :: 32 word)"
  "0xffffff00 = (NOT (mask 8) :: 32 word)" "0xffff0000 = (NOT (mask 16) :: 32 word)"
  "0xff000000 = (NOT (mask 24) :: 32 word)"
  by (simp_all add: mask_eq_exp_minus_1)

lemma bits_u32: "bit (bytes_u32 [a, b, c, d]) n \<longleftrightarrow>
    (if n < 8 then bit a n else if n < 16 then bit b (n - 8) else if n < 24 then bit c (n - 16) else bit d (n - 24))"
  by (auto simp: bytes_u32_def bit_simps dest: bit_imp_le_length)

lemma position_cases:
  fixes a :: "32 word"
  obtains "a AND 3 = 0" "(a + 3) AND 3 = 3" | "a AND 3 = 1" "(a + 3) AND 3 = 0"
  | "a AND 3 = 2" "(a + 3) AND 3 = 1" | "a AND 3 = 3" "(a + 3) AND 3 = 2"
proof -
  have u: "uint (x AND 3) = uint x mod 4" for x :: "32 word"
  proof -
    have "x AND 3 = take_bit 2 x" by (simp add: take_bit_eq_mask mask_eq_exp_minus_1)
    then show ?thesis by (simp add: take_bit_eq_mod uint_mod)
  qed
  have "uint (a + 3) mod 4 = (uint a + 3) mod 4" by (simp add: uint_word_ariths mod_mod_cancel)
  then have p: "uint ((a + 3) AND 3) = (uint (a AND 3) + 3) mod 4" by (simp add: u mod_simps)
  have r: "0 \<le> uint (a AND 3)" "uint (a AND 3) < 4" by (simp_all add: u)
  then consider "uint (a AND 3) = 0" | "uint (a AND 3) = 1" | "uint (a AND 3) = 2" | "uint (a AND 3) = 3" by linarith
  then show thesis using p that by cases (simp_all add: word_uint_eq_iff)
qed

lemma load_merges:
  "lwl_merge 0 (lwr_merge 1 old w0) w1 =
     bytes_u32 [ucast (drop_bit 8 w0), ucast (drop_bit 16 w0), ucast (drop_bit 24 w0), ucast w1]"
  "lwl_merge 1 (lwr_merge 2 old w0) w1 =
     bytes_u32 [ucast (drop_bit 16 w0), ucast (drop_bit 24 w0), ucast w1, ucast (drop_bit 8 w1)]"
  "lwl_merge 2 (lwr_merge 3 old w0) w1 =
     bytes_u32 [ucast (drop_bit 24 w0), ucast w1, ucast (drop_bit 8 w1), ucast (drop_bit 16 w1)]"
  by (rule bit_word_eqI, simp add: lwl_merge_def lwr_merge_def, simp only: masks bits_u32, auto simp: bit_simps)+

lemma store_merges:
  "swr_merge 1 w r = (w AND mask 8) OR push_bit 8 r" "swr_merge 2 w r = (w AND mask 16) OR push_bit 16 r"
  "swr_merge 3 w r = (w AND mask 24) OR push_bit 24 r"
  "swl_merge 0 w r = (w AND NOT (mask 8)) OR (signed_drop_bit 24 r AND mask 8)"
  "swl_merge 1 w r = (w AND NOT (mask 16)) OR (signed_drop_bit 16 r AND mask 16)"
  "swl_merge 2 w r = (w AND NOT (mask 24)) OR (signed_drop_bit 8 r AND mask 24)"
  unfolding swr_merge_def swl_merge_def masks by simp_all

lemma store_bytes:
  "u32_bytes (swr_merge 1 w r) = [ucast w, ucast r, ucast (drop_bit 8 r), ucast (drop_bit 16 r)]"
  "u32_bytes (swr_merge 2 w r) = [ucast w, ucast (drop_bit 8 w), ucast r, ucast (drop_bit 8 r)]"
  "u32_bytes (swr_merge 3 w r) = [ucast w, ucast (drop_bit 8 w), ucast (drop_bit 16 w), ucast r]"
  "u32_bytes (swl_merge 0 w r) = [ucast (drop_bit 24 r), ucast (drop_bit 8 w), ucast (drop_bit 16 w), ucast (drop_bit 24 w)]"
  "u32_bytes (swl_merge 1 w r) = [ucast (drop_bit 16 r), ucast (drop_bit 24 r), ucast (drop_bit 16 w), ucast (drop_bit 24 w)]"
  "u32_bytes (swl_merge 2 w r) = [ucast (drop_bit 8 r), ucast (drop_bit 16 r), ucast (drop_bit 24 r), ucast (drop_bit 24 w)]"
  unfolding u32_bytes_def store_merges list.inject
  by (intro conjI refl; rule bit_word_eqI; auto simp: bit_simps simp del: drop_bit_and drop_bit_or)+

text \<open>Unaligned words are handled right: for every address, \<open>LWR\<close> at the address followed by \<open>LWL\<close>
  three bytes further assembles the four bytes at that address, whatever the register held; and
  \<open>SWR\<close> with \<open>SWL\<close> replaces exactly these four bytes of the two words that hold them.\<close>

theorem unaligned_words:
  "let lo = a AND 3; hi = (a + 3) AND 3 in
   lwl_merge hi (lwr_merge lo old w0) (if lo = 0 then w0 else w1) =
     bytes_u32 (slice_of (unat lo) 4 (u32_bytes w0 @ u32_bytes w1)) \<and>
   (if lo = 0 then swl_merge hi (swr_merge lo w0 r) r = r
    else u32_bytes (swr_merge lo w0 r) @ u32_bytes (swl_merge hi w1 r) =
      take (unat lo) (u32_bytes w0) @ u32_bytes r @ drop (unat lo) (u32_bytes w1))"
proof (cases rule: position_cases [of a])
  case 1
  then show ?thesis by (simp add: lwl_merge_def swl_merge_def lwr_merge_def slice_simps)
next
  case 2
  then show ?thesis by (simp add: load_merges store_bytes) (simp add: u32_bytes_def slice_of_def)
next
  case 3
  then show ?thesis by (simp add: load_merges store_bytes) (simp add: u32_bytes_def slice_of_def)
next
  case 4
  then show ?thesis by (simp add: load_merges store_bytes) (simp add: u32_bytes_def slice_of_def)
qed

section \<open>Right shifts\<close>

text \<open>The logical right shifts are arithmetic ones: \<open>SRL\<close> and \<open>SRLV\<close> do the same as \<open>SRA\<close> and \<open>SRAV\<close>,
  and so a negative value shifted right by a positive amount keeps its sign instead of being
  filled with zeros.\<close>

theorem logical_shift_is_arithmetic:
  "execute eh (i\<lparr>opCode := OP_SRL\<rparr>) pc s = execute eh (i\<lparr>opCode := OP_SRA\<rparr>) pc s \<and>
   execute eh (i\<lparr>opCode := OP_SRLV\<rparr>) pc s = execute eh (i\<lparr>opCode := OP_SRAV\<rparr>) pc s \<and>
   (sint (reg s (i_rt i)) < 0 \<and> 0 < n \<and> n < 32 \<longrightarrow>
     execute eh (i\<lparr>opCode := OP_SRL, extra := word_of_nat n\<rparr>) pc s =
       fall pc (set_reg (i_rd i) (signed_drop_bit n (reg s (i_rt i))) s) \<and>
     signed_drop_bit n (reg s (i_rt i)) \<noteq> drop_bit n (reg s (i_rt i)))"
proof (intro conjI impI)
  assume a: "sint (reg s (i_rt i)) < 0 \<and> 0 < n \<and> n < 32"
  have "bit (reg s (i_rt i)) 31" using a bit_last_iff [of "reg s (i_rt i)"] by simp
  then have "bit (signed_drop_bit n (reg s (i_rt i))) 31" "\<not> bit (drop_bit n (reg s (i_rt i))) 31"
    using a by (auto simp: bit_simps dest: bit_imp_le_length)
  then show "signed_drop_bit n (reg s (i_rt i)) \<noteq> drop_bit n (reg s (i_rt i))" by metis
  have "unat (word_of_nat n :: 32 word) = n" using a by (simp add: unat_of_nat)
  then show "execute eh (i\<lparr>opCode := OP_SRL, extra := word_of_nat n\<rparr>) pc s =
      fall pc (set_reg (i_rd i) (signed_drop_bit n (reg s (i_rt i))) s)"
    by (simp add: execute_def exec_shift_right_sub_def Let_def)
qed (simp_all add: execute_def exec_shift_right_sub_def Let_def)

theorem logical_shift_is_arithmetic_witness:
  "sint (reg (set_reg 2 0xffffff00 demo_machine) 2) < 0 \<and>
   execute (\<lambda>_ _. Inl Halted) \<lparr>ivalue = 0, opCode = OP_SRL, i_rs = 1, i_rt = 2, i_rd = 3, extra = 4\<rparr> 8
     (set_reg 2 0xffffff00 demo_machine) = fall 8 (set_reg 3 (- 16) (set_reg 2 0xffffff00 demo_machine))"
proof -
  have n: "sint (reg (set_reg 2 0xffffff00 demo_machine) 2) < 0" by (simp add: demo_machine_fields numeral_eq_Suc)
  show ?thesis using n logical_shift_is_arithmetic [where eh = "\<lambda>_ _. Inl Halted" and
      i = "\<lparr>ivalue = 0, opCode = OP_SRL, i_rs = 1, i_rt = 2, i_rd = 3, extra = 4\<rparr>" and pc = 8 and
      s = "set_reg 2 0xffffff00 demo_machine" and n = 4, THEN conjunct2, THEN conjunct2]
    by (simp add: demo_machine_fields)
qed

section \<open>Division\<close>

lemma sdiv_fits:
  assumes "fits a" "b \<noteq> 0" "\<not> (a = - (2 ^ 31) \<and> b = - 1)"
  shows "fits (a sdiv b)"
proof (cases "a = - (2 ^ 31)")
  case False
  then have "\<bar>a\<bar> < 2 ^ 31" using assms(1) by (auto simp: fits_def)
  then show ?thesis using sdiv_int_range [of a b] by (auto simp: fits_def)
next
  case True
  consider "b = 1" | "2 \<le> \<bar>b\<bar>" using assms(2,3) True by linarith
  then show ?thesis
  proof cases
    case 2
    then have "\<bar>a\<bar> div \<bar>b\<bar> \<le> \<bar>a\<bar> div 2" by (intro zdiv_mono2) auto
    moreover have "\<bar>a\<bar> div 2 = 2 ^ 30" using True by simp
    moreover have "0 \<le> \<bar>a\<bar> div \<bar>b\<bar>" using 2 by (simp add: pos_imp_zdiv_nonneg_iff)
    moreover have "sgn a * sgn b \<in> {- 1, 0, 1}" by (auto simp: sgn_if)
    ultimately show ?thesis by (auto simp: fits_def signed_divide_int_def)
  qed (use assms(1) in simp)
qed

lemma smod_fits: "fits b \<Longrightarrow> b \<noteq> 0 \<Longrightarrow> fits (a smod b)"
  using smod_int_range [of b a] by (auto simp: fits_def)

lemma sint_fits: "fits k \<Longrightarrow> sint (word_of_int k :: 32 word) = k"
  using sint_wrap [of k] by (simp add: fits_def)

lemma sint_eq: "x = y \<longleftrightarrow> sint x = sint y" for x y :: "32 word"
  by (auto intro: signed_word_eqI)

text \<open>C15. Division is C division: a nonzero divisor leaves the truncated quotient in \<open>Lo\<close> and the remainder
  in \<open>Hi\<close>, for signed and for unsigned operands, and a zero divisor leaves zeros.  The exception is
  the smallest integer divided by \<open>- 1\<close>, on which the simulator itself, and with it the whole kernel,
  is stopped by the host's arithmetic trap: the code does not guard the quotient that overflows.\<close>

theorem division_exact:
  assumes "length (registers s) = NumTotalRegs" "opCode i \<in> {OP_DIV, OP_DIVU}"
  defines "a \<equiv> reg s (i_rs i)" and "b \<equiv> reg s (i_rt i)"
  shows "if opCode i = OP_DIV \<and> sint a = - (2 ^ 31) \<and> sint b = - 1 then execute eh i pc s = Inl DivisionTrap
    else \<exists>s'. execute eh i pc s = fall pc s' \<and>
      (if b = 0 then reg s' LoReg = 0 \<and> reg s' HiReg = 0
       else if opCode i = OP_DIV then sint (reg s' LoReg) = sint a sdiv sint b \<and> sint (reg s' HiReg) = sint a smod sint b
       else uint (reg s' LoReg) = uint a div uint b \<and> uint (reg s' HiReg) = uint a mod uint b)"
proof -
  have sgn: "a = SIGN_BIT \<longleftrightarrow> sint a = - (2 ^ 31)" "b = - 1 \<longleftrightarrow> sint b = - 1"
    using sint_eq [of a SIGN_BIT] sint_eq [of b "- 1"] by (simp_all add: SIGN_BIT_def)
  have ex: "execute eh i pc s = exec_div eh i pc s" using assms(2) by (auto simp: execute_def Let_def)
  show ?thesis
  proof (cases "b = 0")
    case True
    then show ?thesis using assms(1) by (simp add: ex exec_div_def b_def [symmetric] a_def [symmetric] fall_def)
  next
    case False
    then have nz: "sint b \<noteq> 0" using sint_eq [of b 0] by simp
    show ?thesis
    proof (cases "opCode i = OP_DIV")
      case div: True
      show ?thesis
      proof (cases "sint a = - (2 ^ 31) \<and> sint b = - 1")
        case True
        then show ?thesis using div False sgn by (simp add: ex exec_div_def b_def [symmetric] a_def [symmetric])
      next
        case ok: False
        then have "execute eh i pc s = fall pc (s\<lparr>registers := (registers s)[LoReg := word_of_int (sint a sdiv sint b),
            HiReg := word_of_int (sint a smod sint b)]\<rparr>)"
          using div False sgn by (auto simp: ex exec_div_def b_def [symmetric] a_def [symmetric] Let_def)
        then show ?thesis using div False ok assms(1) sint_fits [OF sdiv_fits [OF fits_sint nz ok]]
            sint_fits [OF smod_fits [OF fits_sint nz]] by (simp add: fall_def)
      qed
    next
      case divu: False
      then show ?thesis using False assms(1)
        by (simp add: ex exec_div_def b_def [symmetric] a_def [symmetric] uint_div uint_mod fall_def)
    qed
  qed
qed

theorem division_exact_witness:
  "length (registers (set_reg 1 0x80000000 (set_reg 2 (- 1) demo_machine))) = NumTotalRegs \<and>
   execute (\<lambda>_ _. Inl Halted) \<lparr>ivalue = 0, opCode = OP_DIV, i_rs = 1, i_rt = 2, i_rd = 3, extra = 0\<rparr> 8
     (set_reg 1 0x80000000 (set_reg 2 (- 1) demo_machine)) = Inl DivisionTrap"
  using division_exact [of "set_reg 1 0x80000000 (set_reg 2 (- 1) demo_machine)"
      "\<lparr>ivalue = 0, opCode = OP_DIV, i_rs = 1, i_rt = 2, i_rd = 3, extra = 0\<rparr>" "\<lambda>_ _. Inl Halted" 8]
  by (simp add: demo_machine_fields numeral_eq_Suc)

end
