(* ===== verification/Switch.thy ===== *)
theory Switch
  imports Post
begin

text \<open>
  The learning Ethernet switch (\<open>Switch/switch.cpp\<close>): four ports, each a UNIX socket with a fixed name on
  which the machine of the same number sends, and a table from the printed source address of a frame
  to the port it was last seen on.  One turn of the main loop serves the ports that have a frame, in
  the order of their numbers.  The switch reads frames through its own declaration of their layout
  (\<open>Ethernet\<close> in \<^theory_text>\<open>Packets\<close>).
\<close>

section \<open>State and operations\<close>

record Switch =
  switchMap :: "string \<Rightarrow> int option"
  sent :: "(string \<times> byte list) list"

definition getString :: "Ethernet \<Rightarrow> bool \<Rightarrow> string" where
  "getString eth b =
     (let m = (if b then sw_destMAC eth else sw_srcMAC eth) in
      concat (map (\<lambda>i. to_string (uint (m ! i)) @ ''-'') [0..<5]) @ to_string (uint (m ! 5)))"

definition Set_Switch_Addresses :: "string list" where
  "Set_Switch_Addresses = [''/tmp/switch0'', ''/tmp/switch1'', ''/tmp/switch2'', ''/tmp/switch3'']"

definition Set_Machine_Addresses :: "string list" where
  "Set_Machine_Addresses = [''/tmp/machine0'', ''/tmp/machine1'', ''/tmp/machine2'', ''/tmp/machine3'']"

definition send_port :: "byte list \<Rightarrow> int \<Rightarrow> Switch \<Rightarrow> Switch" where
  "send_port buffer j sw = sw\<lparr>sent := sent sw @ [(Set_Machine_Addresses ! nat j, buffer)]\<rparr>"

definition send_others :: "byte list \<Rightarrow> int \<Rightarrow> Switch \<Rightarrow> Switch" where
  "send_others buffer i sw = fold (\<lambda>j sw. if j \<noteq> i then send_port buffer j sw else sw) [0..3] sw"

definition handle_frame :: "int \<Rightarrow> byte list \<Rightarrow> Switch \<Rightarrow> Switch" where
  "handle_frame i buffer sw =
     (let eth = sw_of buffer;
          sw = sw\<lparr>switchMap := (switchMap sw)(getString eth False \<mapsto> i)\<rparr>;
          dest = getString eth True in
      if dest = ''255-255-255-255-255-255'' then send_others buffer i sw
      else case switchMap sw dest of
          Some p \<Rightarrow> send_port buffer p sw
        | None \<Rightarrow> send_others buffer i sw)"

text \<open>One turn: \<open>ready i\<close> is the frame waiting at port \<open>i\<close>, if \<open>select\<close> reports one.\<close>

definition switch_turn :: "(int \<Rightarrow> byte list option) \<Rightarrow> Switch \<Rightarrow> Switch" where
  "switch_turn ready sw =
     fold (\<lambda>i sw. case ready i of None \<Rightarrow> sw | Some buffer \<Rightarrow> handle_frame i buffer sw) [0..3] sw"

definition switch_main :: "(int \<Rightarrow> byte list option) list \<Rightarrow> Switch" where
  "switch_main turns = fold switch_turn turns \<lparr>switchMap = (\<lambda>_. None), sent = []\<rparr>"

section \<open>Printed addresses\<close>

definition mac_string :: "byte list \<Rightarrow> string" where
  "mac_string m = concat (map (\<lambda>i. to_string (uint (m ! i)) @ ''-'') [0..<5]) @ to_string (uint (m ! 5))"

lemma getString_mac: "getString eth True = mac_string (sw_destMAC eth)" "getString eth False = mac_string (sw_srcMAC eth)"
  by (simp_all add: getString_def mac_string_def Let_def)

lemma digits_dash:
  assumes "nat_digits a @ CHR ''-'' # xs = nat_digits b @ CHR ''-'' # ys"
  shows "a = b \<and> xs = ys"
proof -
  have n: "CHR ''-'' \<notin> set (nat_digits k)" for k using nat_digits_are_digits [of "CHR ''-''" k] by (auto simp: is_digit_def)
  have tw: "takeWhile (\<lambda>c. c \<noteq> CHR ''-'') (nat_digits k @ CHR ''-'' # zs) = nat_digits k" for k zs
    using n [of k] by (subst takeWhile_append2) auto
  have "nat_digits a = nat_digits b" using tw assms by metis
  then show ?thesis using assms by auto
qed

lemma mac_string_bytes:
  "mac_string [a, b, c, d, e, f] = nat_digits (unat a) @ CHR ''-'' # nat_digits (unat b) @ CHR ''-'' # nat_digits (unat c) @
     CHR ''-'' # nat_digits (unat d) @ CHR ''-'' # nat_digits (unat e) @ CHR ''-'' # nat_digits (unat f)"
  by (simp add: mac_string_def to_string_def upt_rec)

lemma six_bytes: "length m = 6 \<Longrightarrow> \<exists>a b c d e f. m = [a, b, c, d, e, f]"
  by (auto simp: numeral_eq_Suc length_Suc_conv)

lemma mac_string_inject:
  assumes "length m = 6" "length n = 6" "mac_string m = mac_string n"
  shows "m = n"
proof -
  obtain a b c d e f a' b' c' d' e' f' where m: "m = [a, b, c, d, e, f]" "n = [a', b', c', d', e', f']"
    using six_bytes [OF assms(1)] six_bytes [OF assms(2)] by auto
  note eq = assms(3) [unfolded m mac_string_bytes]
  note d1 = digits_dash [OF eq]
  note d2 = digits_dash [OF d1 [THEN conjunct2]]
  note d3 = digits_dash [OF d2 [THEN conjunct2]]
  note d4 = digits_dash [OF d3 [THEN conjunct2]]
  note d5 = digits_dash [OF d4 [THEN conjunct2]]
  have "unat f = unat f'" using d5 by simp
  then show ?thesis using d1 d2 d3 d4 d5 by (simp add: m word_unat_eq_iff)
qed

section \<open>Forwarding\<close>

text \<open>The frames sent by the switch on one frame: to one port, or to all ports but one.\<close>

definition others :: "int \<Rightarrow> int list" where
  "others i = filter (\<lambda>j. j \<noteq> i) [0..3]"

definition outputs :: "byte list \<Rightarrow> int list \<Rightarrow> (string \<times> byte list) list" where
  "outputs buffer ports = map (\<lambda>j. (Set_Machine_Addresses ! nat j, buffer)) ports"

lemma send_others_eq: "send_others buffer i sw = sw\<lparr>sent := sent sw @ outputs buffer (others i)\<rparr>"
proof -
  have "fold (\<lambda>j sw. if j \<noteq> i then send_port buffer j sw else sw) js sw =
      sw\<lparr>sent := sent sw @ outputs buffer (filter (\<lambda>j. j \<noteq> i) js)\<rparr>" for js
    by (induction js arbitrary: sw) (auto simp: send_port_def outputs_def)
  then show ?thesis by (simp add: send_others_def others_def)
qed

definition chosen :: "int \<Rightarrow> byte list \<Rightarrow> Switch \<Rightarrow> int list" where
  "chosen i buffer sw =
     (let src = sw_srcMAC (sw_of buffer); dest = sw_destMAC (sw_of buffer) in
      if mac_string dest = ''255-255-255-255-255-255'' then others i
      else case ((switchMap sw)(mac_string src \<mapsto> i)) (mac_string dest) of Some p \<Rightarrow> [p] | None \<Rightarrow> others i)"

lemma handle_frame_eq:
  "handle_frame i buffer sw =
     sw\<lparr>switchMap := (switchMap sw)(mac_string (sw_srcMAC (sw_of buffer)) \<mapsto> i),
        sent := sent sw @ outputs buffer (chosen i buffer sw)\<rparr>"
  by (auto simp: handle_frame_def chosen_def getString_mac Let_def send_others_eq send_port_def outputs_def
      split: option.split)

lemma replicate_six: "replicate 6 x = [x, x, x, x, x, x]"
  by (simp add: numeral_eq_Suc)

lemma broadcast_string: "mac_string (replicate 6 255) = ''255-255-255-255-255-255''"
  unfolding replicate_six mac_string_bytes by (simp add: nat_digits.simps char_of_eq_iff)

lemma frame_macs: "length f = 1526 \<Longrightarrow> length (sw_srcMAC (sw_of f)) = 6" "length f = 1526 \<Longrightarrow> length (sw_destMAC (sw_of f)) = 6"
  by (simp_all add: sw_of_def)

lemma chosen_cases:
  assumes "length f = 1526" "sw_srcMAC (sw_of f) \<noteq> sw_destMAC (sw_of f)"
  shows "chosen i f sw = (if sw_destMAC (sw_of f) = replicate 6 255 then others i
    else case switchMap sw (mac_string (sw_destMAC (sw_of f))) of Some p \<Rightarrow> [p] | None \<Rightarrow> others i)"
proof -
  have "mac_string (sw_destMAC (sw_of f)) = ''255-255-255-255-255-255'' \<longleftrightarrow> sw_destMAC (sw_of f) = replicate 6 255"
    using mac_string_inject [OF frame_macs(2) [OF assms(1)], of "replicate 6 255"] broadcast_string by auto
  moreover have "mac_string (sw_srcMAC (sw_of f)) \<noteq> mac_string (sw_destMAC (sw_of f))"
    using mac_string_inject [OF frame_macs(1) [OF assms(1)] frame_macs(2) [OF assms(1)]] assms(2) by blast
  ultimately show ?thesis by (simp add: chosen_def Let_def)
qed

lemma map_kept:
  assumes "\<forall>(p, f)\<in>set fs. length f = 1526 \<and> sw_srcMAC (sw_of f) \<noteq> m" "length m = 6"
  shows "switchMap (fold (\<lambda>(p, f). handle_frame p f) fs sw) (mac_string m) = switchMap sw (mac_string m)"
  using assms(1)
proof (induction fs arbitrary: sw)
  case (Cons x fs)
  obtain p f where x: "x = (p, f)" by (cases x)
  then have "mac_string m \<noteq> mac_string (sw_srcMAC (sw_of f))"
    using Cons.prems mac_string_inject [OF frame_macs(1) assms(2)] by fastforce
  then show ?case using Cons by (simp add: x handle_frame_eq)
qed simp

text \<open>C18. The switch learns: once a machine has sent a frame from a port, a frame addressed to that machine
  is sent to that port and to no other, whatever other machines have sent in between; a frame for
  everyone, or for a machine not seen yet, goes to every port but the one it came from, once.\<close>

theorem switch_learns:
  assumes "length f = 1526" "length g = 1526" "sw_srcMAC (sw_of g) \<noteq> sw_destMAC (sw_of g)"
    and "\<forall>(p, x)\<in>set between. length x = 1526 \<and> sw_srcMAC (sw_of x) \<noteq> sw_srcMAC (sw_of f)"
    and sw1: "sw1 = fold (\<lambda>(p, x). handle_frame p x) between (handle_frame i f sw)"
  shows "(sw_destMAC (sw_of g) = sw_srcMAC (sw_of f) \<and> sw_destMAC (sw_of g) \<noteq> replicate 6 255 \<longrightarrow>
      sent (handle_frame k g sw1) = sent sw1 @ [(Set_Machine_Addresses ! nat i, g)]) \<and>
    (sw_destMAC (sw_of g) = replicate 6 255 \<or> switchMap sw1 (mac_string (sw_destMAC (sw_of g))) = None \<longrightarrow>
      sent (handle_frame k g sw1) = sent sw1 @ map (\<lambda>j. (Set_Machine_Addresses ! nat j, g)) (filter (\<lambda>j. j \<noteq> k) [0..3]))"
proof -
  have "switchMap sw1 (mac_string (sw_srcMAC (sw_of f))) = Some i"
    unfolding sw1 using map_kept [OF assms(4) frame_macs(1) [OF assms(1)]] by (simp add: handle_frame_eq)
  then show ?thesis using chosen_cases [OF assms(2,3), of k sw1]
    by (auto simp: handle_frame_eq outputs_def others_def)
qed

lemma frame_of_bytes:
  assumes "length src = 6" "length dest = 6" "length data = 1500"
  shows "length (frame_of src dest data) = 1526" "sw_srcMAC (sw_of (frame_of src dest data)) = src"
    "sw_destMAC (sw_of (frame_of src dest data)) = dest"
proof -
  have w: "eth_wf \<lparr>preamble = replicate 7 0, SFD = 0, destMAC = dest, srcMAC = src, ethertype = 0x0800, crc = 0, eth_payload = data\<rparr>"
    using assms by (simp add: eth_wf_def)
  show "length (frame_of src dest data) = 1526" "sw_srcMAC (sw_of (frame_of src dest data)) = src"
    "sw_destMAC (sw_of (frame_of src dest data)) = dest"
    using length_eth_bytes [OF w] sw_of_addresses [OF w] by (simp_all add: frame_of_def)
qed

theorem switch_learns_witness:
  "let f = frame_of (mac 0) (mac 1) (replicate 1500 0); g = frame_of (mac 2) (mac 0) (replicate 1500 1);
       sw1 = handle_frame 0 f \<lparr>switchMap = (\<lambda>_. None), sent = []\<rparr> in
   sent (handle_frame 2 g sw1) = sent sw1 @ [(''/tmp/machine0'', g)]"
proof -
  let ?f = "frame_of (mac 0) (mac 1) (replicate 1500 0)" and ?g = "frame_of (mac 2) (mac 0) (replicate 1500 1)"
  have l: "length (mac 0) = 6" "length (mac 1) = 6" "length (mac 2) = 6" by (simp_all add: macpool_def)
  note f = frame_of_bytes [OF l(1,2), of "replicate 1500 0"] and g = frame_of_bytes [OF l(3,1), of "replicate 1500 1"]
  have "mac 0 \<noteq> mac 2" "mac 0 \<noteq> replicate 6 255" unfolding replicate_six by (simp_all add: macpool_def)
  then show ?thesis using switch_learns [of ?f ?g "[]" _ 0 "\<lparr>switchMap = (\<lambda>_. None), sent = []\<rparr>" 2] f g
    by (simp add: Set_Machine_Addresses_def Let_def)
qed

section \<open>A network of machines\<close>

text \<open>The switch and the machines agree: what the switch has learned about the addresses of the machines is
  the port with the machine's number.\<close>

definition consistent :: "Switch \<Rightarrow> bool" where
  "consistent sw \<longleftrightarrow> (\<forall>h\<in>{0..3}. switchMap sw (mac_string (mac h)) \<in> {None, Some h})"

lemma mac_inject:
  assumes "0 \<le> a" "a < 10" "0 \<le> b" "b < 10" "mac a = mac b"
  shows "a = b"
proof -
  have "distinct macpool" "length macpool = 10" by (simp_all add: macpool_def)
  then have "nat a = nat b" using assms nth_eq_iff_index_eq [of macpool "nat a" "nat b"] by simp
  then show ?thesis using assms by simp
qed

lemma mac_not_broadcast: "0 \<le> a \<Longrightarrow> a < 10 \<Longrightarrow> mac a \<noteq> replicate 6 255"
proof -
  assume "0 \<le> a" "a < 10"
  then have "mac a \<in> set macpool" using nth_mem [of "nat a" macpool] by (simp add: macpool_def)
  then show ?thesis unfolding replicate_six by (auto simp: macpool_def)
qed

lemma mac_string_hosts:
  assumes "0 \<le> a" "a < 10" "0 \<le> b" "b < 10"
  shows "mac_string (mac a) = mac_string (mac b) \<longleftrightarrow> a = b"
  using mac_string_inject mac_inject assms pools(3) by metis

lemma handle_host_frame:
  assumes "0 \<le> a" "a < 4" "0 \<le> b" "b < 4" "a \<noteq> b" "length data = 1500" "consistent sw"
  shows "consistent (handle_frame a (frame_of (mac a) (mac b) data) sw)"
    "\<exists>ports. sent (handle_frame a (frame_of (mac a) (mac b) data) sw) =
       sent sw @ outputs (frame_of (mac a) (mac b) data) ports \<and> distinct ports \<and> b \<in> set ports \<and> set ports \<subseteq> {0..3} - {a}"
proof -
  let ?f = "frame_of (mac a) (mac b) data"
  have l: "length (mac a) = 6" "length (mac b) = 6" using pools(3) assms by auto
  note f = frame_of_bytes [OF l assms(6)]
  have ne: "mac a \<noteq> mac b" using mac_inject assms by fastforce
  show "consistent (handle_frame a ?f sw)"
    using assms mac_string_hosts by (auto simp: consistent_def handle_frame_eq f)
  have m: "switchMap sw (mac_string (mac b)) \<in> {None, Some b}" using assms by (auto simp: consistent_def)
  have "chosen a ?f sw \<in> {[b], others a}"
    using chosen_cases [of ?f a sw] f ne m mac_not_broadcast [of b] assms by auto
  moreover have "distinct (others a)" "b \<in> set (others a)" "set (others a) \<subseteq> {0..3} - {a}"
    using assms by (auto simp: others_def)
  ultimately show "\<exists>ports. sent (handle_frame a ?f sw) = sent sw @ outputs ?f ports \<and> distinct ports \<and>
      b \<in> set ports \<and> set ports \<subseteq> {0..3} - {a}"
    using assms by (intro exI [of _ "chosen a ?f sw"]) (auto simp: handle_frame_eq)
qed

text \<open>What the machine with a given number receives of what the switch sends.\<close>

definition received :: "int \<Rightarrow> (string \<times> byte list) list \<Rightarrow> byte list list" where
  "received h out = map snd (filter (\<lambda>(name, _). name = Set_Machine_Addresses ! nat h) out)"

lemma received_append [simp]: "received h (xs @ ys) = received h xs @ received h ys"
  by (simp add: received_def)

lemma machine_names:
  assumes "j \<in> {0..3}" "h \<in> {0..3}"
  shows "Set_Machine_Addresses ! nat j = Set_Machine_Addresses ! nat h \<longleftrightarrow> j = h"
proof -
  have "distinct Set_Machine_Addresses" "length Set_Machine_Addresses = 4" by (simp_all add: Set_Machine_Addresses_def)
  moreover have "nat j < 4" "nat h < 4" "nat j = nat h \<longleftrightarrow> j = h" using assms by auto
  ultimately show ?thesis using nth_eq_iff_index_eq [of Set_Machine_Addresses "nat j" "nat h"] by simp
qed

lemma received_outputs:
  assumes "h \<in> {0..3}" "distinct ports" "set ports \<subseteq> {0..3}"
  shows "received h (outputs f ports) = (if h \<in> set ports then [f] else [])"
  using assms(2,3)
proof (induction ports)
  case (Cons j ports)
  then have j: "Set_Machine_Addresses ! nat j = Set_Machine_Addresses ! nat h \<longleftrightarrow> j = h" using machine_names assms(1) by auto
  have o: "outputs f (j # ports) = (Set_Machine_Addresses ! nat j, f) # outputs f ports" by (simp add: outputs_def)
  show ?case using Cons j by (auto simp: o received_def)
qed (simp add: outputs_def received_def)

lemma serve_frames:
  assumes "0 \<le> a" "a < 4" "0 \<le> b" "b < 4" "a \<noteq> b" "\<forall>d\<in>set ds. length d = 1500" "consistent sw"
  shows "let sw' = fold (handle_frame a) (map (frame_of (mac a) (mac b)) ds) sw in
    consistent sw' \<and> received a (sent sw') = received a (sent sw) \<and>
    received b (sent sw') = received b (sent sw) @ map (frame_of (mac a) (mac b)) ds"
  using assms(6,7)
proof (induction ds arbitrary: sw)
  case (Cons d ds)
  let ?f = "frame_of (mac a) (mac b) d" let ?sw = "handle_frame a ?f sw"
  have l: "length d = 1500" using Cons.prems by simp
  obtain ports where p: "sent ?sw = sent sw @ outputs ?f ports" "distinct ports" "b \<in> set ports" "set ports \<subseteq> {0..3} - {a}"
    using handle_host_frame(2) [OF assms(1-5) l Cons.prems(2)] by blast
  have c: "consistent ?sw" by (rule handle_host_frame(1) [OF assms(1-5) l Cons.prems(2)])
  have s3: "set ports \<subseteq> {0..3}" "a \<notin> set ports" using p(4) by auto
  have "received b (outputs ?f ports) = [?f]" "received a (outputs ?f ports) = []"
    using received_outputs [OF _ p(2) s3(1)] p(3) s3(2) assms(1-4) by simp_all
  then show ?case using Cons.IH [OF _ c] Cons.prems(1) p(1) by (simp add: Let_def)
qed simp

lemma switch_name: "0 \<le> h \<Longrightarrow> h < 4 \<Longrightarrow> port_name h = Set_Switch_Addresses ! nat h"
proof -
  assume "0 \<le> h" "h < 4"
  then consider "h = 0" | "h = 1" | "h = 2" | "h = 3" by linarith
  then show ?thesis
    by cases (simp_all add: port_name_def Set_Switch_Addresses_def to_string_def nat_digits.simps char_of_eq_iff)
qed

text \<open>C19. The whole network works: a datagram sent on one of the four machines leaves on the switch port of
  that machine; the switch, whatever correct knowledge it has so far, hands every frame to the
  destination machine in the order sent, hands none back to the sender, and stays correct; there the
  frames are reassembled and the datagram is queued on its port.\<close>

theorem udp_through_switch:
  assumes s: "ints_ok s" "0 \<le> hostName s" "hostName s < 4"
    and r: "0 \<le> hostName r" "hostName r < 4" "hostName r \<noteq> hostName s" "messageAvailable r = 0" "messages r = []"
    and d: "length data \<le> 65527" "0 \<le> dp" "dp < 65536"
    and free: "fragmentDict r (computeHash (ip (hostName s)) (ip (hostName r))
        (uint (fst (get_Random_Identification s)))) = None"
    and sw: "consistent sw"
  shows "\<exists>s' frames sw' r' zs. UDP_Send junk data (int (length data)) (ip (hostName r)) sp dp s = Inr s' \<and>
    wire s' = wire s @ map (Pair (Set_Switch_Addresses ! nat (hostName s))) frames \<and>
    sw' = fold (handle_frame (hostName s)) frames sw \<and> consistent sw' \<and>
    received (hostName s) (sent sw') = received (hostName s) (sent sw) \<and>
    received (hostName r) (sent sw') = received (hostName r) (sent sw) @ frames \<and>
    for_each deliver frames r = Inr r' \<and>
    datagrams r' = (datagrams r)(dp \<mapsto>
      (case datagrams r dp of None \<Rightarrow> [] | Some q \<Rightarrow> q) @ [(int (length data), data @ zs)])"
proof -
  let ?a = "hostName s" and ?b = "hostName r"
  let ?D = "sent_datagram junk data sp dp" and ?i = "fst (get_Random_Identification s)"
  let ?n = "fragments_needed (length data + 8)"
  let ?p = "\<lambda>j. ip_bytes (sent_fragment ?D (ip ?a) (ip ?b) ?i j)"
  let ?fs = "map (sent_frame ?a ?b ?D ?i) [0..<?n]" and ?z = "replicate (?n * 1480 - (length data + 8)) 0 :: byte list"
  have h: "?a < 10" "?b < 10" using s r by simp_all
  have b4: "length (ip ?a) = 4" "length (ip ?b) = 4" using pools(4) s r by auto
  have fs: "?fs = map (frame_of (mac ?a) (mac ?b)) (map ?p [0..<?n])" by (simp add: sent_frame_def)
  obtain s' where s': "UDP_Send junk data (int (length data)) (ip ?b) sp dp s = Inr s'"
      "wire s' = wire s @ map (\<lambda>j. (port_name ?a, sent_frame ?a ?b ?D ?i j)) [0..<?n]"
    using UDP_Send_ok [OF s(1,2) h(1) r(1) h(2) d(1), of junk sp dp] by auto
  have len: "\<forall>p\<in>set (map ?p [0..<?n]). length p = 1500" by (auto simp: length_ip_bytes sent_fragment_wf [OF b4])
  have net: "let sw' = fold (handle_frame ?a) ?fs sw in consistent sw' \<and>
      received ?a (sent sw') = received ?a (sent sw) \<and> received ?b (sent sw') = received ?b (sent sw) @ ?fs"
    unfolding fs using serve_frames [OF s(2,3) r(1,2) r(3) [symmetric] len sw] .
  obtain x where x: "for_each deliver ?fs r = Inr ((UDP_Receive (?D @ ?z) r)
      \<lparr>fragmentDict := fragmentDict r, current_packet := x\<rparr>)"
    using sent_frames_delivered [OF r(4,5,1) h(2) s(2) h(1), of ?D ?i "[0..<?n]"] d(1) free by auto
  have "datagrams ((UDP_Receive (?D @ ?z) r)\<lparr>fragmentDict := fragmentDict r, current_packet := x\<rparr>) =
      (datagrams r)(dp \<mapsto> (case datagrams r dp of None \<Rightarrow> [] | Some q \<Rightarrow> q) @ [(int (length data), data @ ?z)])"
    by (simp add: UDP_Receive_sent [OF d] datagrams_putData)
  then show ?thesis using s' net x switch_name [OF s(2,3)]
    by (intro exI [of _ s'] exI [of _ ?fs] exI [of _ "fold (handle_frame ?a) ?fs sw"] exI
        [of _ "(UDP_Receive (?D @ ?z) r)\<lparr>fragmentDict := fragmentDict r, current_packet := x\<rparr>"] exI [of _ ?z])
      (simp add: Let_def comp_def)
qed

theorem udp_through_switch_witness:
  "\<exists>s' frames sw' r' zs. UDP_Send 0 [72, 105] (int (length [72, 105 :: byte])) (ip (hostName (net_boot 1))) 5 9 (net_boot 0) =
      Inr s' \<and>
    wire s' = wire (net_boot 0) @ map (Pair (Set_Switch_Addresses ! nat (hostName (net_boot 0)))) frames \<and>
    sw' = fold (handle_frame (hostName (net_boot 0))) frames \<lparr>switchMap = (\<lambda>_. None), sent = []\<rparr> \<and> consistent sw' \<and>
    received (hostName (net_boot 0)) (sent sw') = received (hostName (net_boot 0)) (sent \<lparr>switchMap = (\<lambda>_. None), sent = []\<rparr>) \<and>
    received (hostName (net_boot 1)) (sent sw') =
      received (hostName (net_boot 1)) (sent \<lparr>switchMap = (\<lambda>_. None), sent = []\<rparr>) @ frames \<and>
    for_each deliver frames (net_boot 1) = Inr r' \<and>
    datagrams r' = (datagrams (net_boot 1))(9 \<mapsto>
      (case datagrams (net_boot 1) 9 of None \<Rightarrow> [] | Some q \<Rightarrow> q) @ [(int (length [72, 105 :: byte]), [72, 105] @ zs)])"
  by (rule udp_through_switch) (simp_all add: consistent_def)

end
