(* ===== verification/Threads.thy ===== *)
theory Threads
  imports Interrupt
begin

text \<open>
  Kernel threads: \<open>threads/scheduler.cc\<close>, \<open>threads/thread.cc\<close>, \<open>threads/synch.cc\<close> and
  \<open>threads/synchlist.cc\<close>.  A thread that is not running is suspended inside \<open>SWITCH\<close>; \<open>ctl\<close>
  says which routine called \<open>Run\<close> and so where the thread goes on (the loop of \<open>P\<close>, the end of
  \<open>Yield\<close>, \<open>ThreadRoot\<close>).  \<open>todo\<close> is what the thread has still to execute once it is back in
  its own code: a list of calls, on which a routine that calls others puts its remaining calls.
  A step of the system is a step of the current thread, a device interrupt that signals a
  semaphore, or a timer interrupt that makes the current thread yield; the last two occur only
  while interrupts are enabled or the machine idles.  So the interleavings of the model are those
  of the code at the granularity of its interrupt-disabled sections.  The list operations are the
  specifications of \<open>Linked_List\<close>, with their assertions.  Kernel threads have no address space
  and the stack fence is not modelled.
\<close>

section \<open>Threads, semaphores and the state of the scheduler\<close>

type_synonym tid = nat

datatype lockid = UserLock nat | ListLock nat
datatype condid = UserCond nat | ListCond nat

text \<open>The semaphores a program makes, the one inside each lock, the one each \<open>Wait\<close> allocates.\<close>

datatype semid = Named nat | LockSem lockid | Waiter nat

datatype act =
    P semid
  | V semid
  | Acquire lockid
  | Hold lockid
  | Release lockid
  | Wait condid lockid
  | Signal condid lockid
  | Broadcast condid lockid
  | Delete semid
  | SL_Append nat int
  | SL_put nat int
  | SL_RemoveFront nat
  | SL_while nat
  | Yield_call
  | Fork "act list"
  | Finish

datatype ThreadStatus = JUST_CREATED | RUNNING | READY | BLOCKED

datatype resume = InP semid IntStatus | InYield IntStatus | InFinish | InRoot

datatype ctl = Going | Sleeping resume | Switched resume

record Semaphore =
  sem_value :: int
  queue :: "tid list"

record Threads = Interrupt +
  tstatus :: "tid \<Rightarrow> ThreadStatus"
  ctl :: "tid \<Rightarrow> ctl"
  todo :: "tid \<Rightarrow> act list"
  next_tid :: nat
  currentThread :: tid
  readyList :: "tid list"
  toBeDestroyed :: "tid option"
  deleted :: "tid \<Rightarrow> bool"
  sems :: "semid \<Rightarrow> Semaphore option"
  lockHolder :: "lockid \<Rightarrow> tid option"
  waitQueue :: "condid \<Rightarrow> nat list"
  next_waiter :: nat
  slist :: "nat \<Rightarrow> int list"
  put_log :: "nat \<Rightarrow> int list"
  got_log :: "nat \<Rightarrow> (tid \<times> int) list"

abbreviation calls :: "act list \<Rightarrow> Threads \<Rightarrow> Threads" where
  "calls as k \<equiv> k\<lparr>todo := (todo k)(currentThread k := as @ todo k (currentThread k))\<rparr>"

abbreviation set_ctl :: "tid \<Rightarrow> ctl \<Rightarrow> Threads \<Rightarrow> Threads" where
  "set_ctl t c k \<equiv> k\<lparr>ctl := (ctl k)(t := c)\<rparr>"

abbreviation set_status :: "tid \<Rightarrow> ThreadStatus \<Rightarrow> Threads \<Rightarrow> Threads" where
  "set_status t st k \<equiv> k\<lparr>tstatus := (tstatus k)(t := st)\<rparr>"

definition get_sem :: "Threads \<Rightarrow> semid \<Rightarrow> Semaphore res" where
  "get_sem k s = (case sems k s of None \<Rightarrow> Inl NullPointer | Some sem \<Rightarrow> Inr sem)"

section \<open>The scheduler\<close>

definition ReadyToRun :: "tid \<Rightarrow> Threads \<Rightarrow> Threads res" where
  "ReadyToRun t k =
     rbind (ASSERT (level k = IntOff)) (\<lambda>_.
     let k = set_status t READY k in
     rbind (Append_spec (readyList k) t) (\<lambda>r. Inr (k\<lparr>readyList := r\<rparr>)))"

definition FindNextToRun :: "Threads \<Rightarrow> (tid option \<times> Threads) res" where
  "FindNextToRun k =
     rbind (ASSERT (level k = IntOff)) (\<lambda>_.
     if readyList k = [] then Inr (None, k)
     else rbind (RemoveFront_spec (readyList k)) (\<lambda>(t, r). Inr (Some t, k\<lparr>readyList := r\<rparr>)))"

definition Thread_delete :: "tid \<Rightarrow> Threads \<Rightarrow> Threads res" where
  "Thread_delete t k =
     rbind (ASSERT (t \<noteq> currentThread k)) (\<lambda>_. Inr (k\<lparr>deleted := (deleted k)(t := True)\<rparr>))"

definition CheckToBeDestroyed :: "Threads \<Rightarrow> Threads res" where
  "CheckToBeDestroyed k =
     (case toBeDestroyed k of
        None \<Rightarrow> Inr k
      | Some t \<Rightarrow> rbind (Thread_delete t k) (\<lambda>k. Inr (k\<lparr>toBeDestroyed := None\<rparr>)))"

text \<open>\<open>Run\<close> up to \<open>SWITCH\<close>.  \<open>r\<close> is where the old thread will go on; what follows \<open>SWITCH\<close>
  is \<open>after_switch\<close>, which the thread that is switched to executes.\<close>

definition Run_thread :: "tid \<Rightarrow> bool \<Rightarrow> resume \<Rightarrow> Threads \<Rightarrow> Threads res" where
  "Run_thread nextThread finishing r k =
     (let oldThread = currentThread k in
      rbind (ASSERT (level k = IntOff)) (\<lambda>_.
      rbind (if finishing
             then rbind (ASSERT (toBeDestroyed k = None)) (\<lambda>_. Inr (k\<lparr>toBeDestroyed := Some oldThread\<rparr>))
             else Inr k) (\<lambda>k.
      let k = set_ctl oldThread (Switched r) k;
          k = k\<lparr>currentThread := nextThread\<rparr> in
      Inr (set_status nextThread RUNNING k))))"

definition after_switch :: "Threads \<Rightarrow> Threads res" where
  "after_switch k = rbind (ASSERT (level k = IntOff)) (\<lambda>_. CheckToBeDestroyed k)"

section \<open>Threads\<close>

definition Thread_Fork :: "act list \<Rightarrow> Threads \<Rightarrow> Threads res" where
  "Thread_Fork func k =
     (let t = next_tid k;
          k = k\<lparr>next_tid := Suc t, tstatus := (tstatus k)(t := JUST_CREATED),
                ctl := (ctl k)(t := Switched InRoot), todo := (todo k)(t := func @ [Finish])\<rparr>;
          oldLevel = level k;
          k = ChangeLevel oldLevel IntOff k in
      rbind (ReadyToRun t k) (\<lambda>k. Inr (ChangeLevel IntOff oldLevel k)))"

definition Thread_Begin :: "Threads \<Rightarrow> Threads res" where
  "Thread_Begin k = rbind (CheckToBeDestroyed k) (\<lambda>k. Inr (ChangeLevel IntOff IntOn k))"

definition Thread_Yield :: "Threads \<Rightarrow> Threads res" where
  "Thread_Yield k =
     (let oldLevel = level k;
          this = currentThread k;
          k = ChangeLevel oldLevel IntOff k in
      rbind (FindNextToRun k) (\<lambda>(nextThread, k).
      case nextThread of
        None \<Rightarrow> Inr (ChangeLevel IntOff oldLevel k)
      | Some n \<Rightarrow> rbind (ReadyToRun this k) (\<lambda>k. Run_thread n False (InYield oldLevel) k)))"

text \<open>\<open>Sleep\<close> up to its loop, and one round of the loop: with no thread to run the machine
  idles, and the next interrupt is a step of its own.\<close>

definition Thread_Sleep :: "resume \<Rightarrow> Threads \<Rightarrow> Threads res" where
  "Thread_Sleep r k =
     rbind (ASSERT (level k = IntOff)) (\<lambda>_.
     Inr (set_ctl (currentThread k) (Sleeping r) (set_status (currentThread k) BLOCKED k)))"

definition Sleep_loop :: "resume \<Rightarrow> Threads \<Rightarrow> Threads res" where
  "Sleep_loop r k =
     rbind (FindNextToRun k) (\<lambda>(nextThread, k).
     case nextThread of None \<Rightarrow> Inr k | Some n \<Rightarrow> Run_thread n (r = InFinish) r k)"

definition Thread_Finish :: "Threads \<Rightarrow> Threads res" where
  "Thread_Finish k = Thread_Sleep InFinish (ChangeLevel (level k) IntOff k)"

section \<open>Semaphores\<close>

definition Semaphore_new :: "int \<Rightarrow> Semaphore" where
  "Semaphore_new initialValue = \<lparr>sem_value = initialValue, queue = []\<rparr>"

abbreviation set_sem :: "semid \<Rightarrow> Semaphore \<Rightarrow> Threads \<Rightarrow> Threads" where
  "set_sem s sem k \<equiv> k\<lparr>sems := (sems k)(s \<mapsto> sem)\<rparr>"

text \<open>The loop of \<open>P\<close>, entered with interrupts off: from the start of \<open>P\<close> and again when
  \<open>Sleep\<close> returns.\<close>

definition P_loop :: "semid \<Rightarrow> IntStatus \<Rightarrow> Threads \<Rightarrow> Threads res" where
  "P_loop s oldLevel k =
     rbind (get_sem k s) (\<lambda>sem.
     if sem_value sem = 0
     then rbind (Append_spec (queue sem) (currentThread k)) (\<lambda>q.
          Thread_Sleep (InP s oldLevel) (set_sem s (sem\<lparr>queue := q\<rparr>) k))
     else Inr (ChangeLevel IntOff oldLevel
                (set_sem s (sem\<lparr>sem_value := sem_value sem - 1\<rparr>)
                  (set_ctl (currentThread k) Going k))))"

definition Semaphore_P :: "semid \<Rightarrow> Threads \<Rightarrow> Threads res" where
  "Semaphore_P s k = P_loop s (level k) (ChangeLevel (level k) IntOff k)"

definition Semaphore_V :: "semid \<Rightarrow> Threads \<Rightarrow> Threads res" where
  "Semaphore_V s k =
     (let oldLevel = level k;
          k = ChangeLevel oldLevel IntOff k in
      rbind (get_sem k s) (\<lambda>sem.
      rbind (if queue sem \<noteq> []
             then rbind (RemoveFront_spec (queue sem)) (\<lambda>(t, q).
                  rbind (ReadyToRun t k) (\<lambda>k. Inr (sem\<lparr>queue := q\<rparr>, k)))
             else Inr (sem, k)) (\<lambda>(sem, k).
      Inr (ChangeLevel IntOff oldLevel (set_sem s (sem\<lparr>sem_value := sem_value sem + 1\<rparr>) k)))))"

section \<open>Locks and condition variables\<close>

definition IsHeldByCurrentThread :: "lockid \<Rightarrow> Threads \<Rightarrow> bool" where
  "IsHeldByCurrentThread l k \<longleftrightarrow> lockHolder k l = Some (currentThread k)"

definition Lock_Acquire :: "lockid \<Rightarrow> Threads \<Rightarrow> Threads res" where
  "Lock_Acquire l k = Inr (calls [P (LockSem l), Hold l] k)"

definition Lock_Release :: "lockid \<Rightarrow> Threads \<Rightarrow> Threads res" where
  "Lock_Release l k =
     rbind (ASSERT (IsHeldByCurrentThread l k)) (\<lambda>_.
     Inr (calls [V (LockSem l)] (k\<lparr>lockHolder := (lockHolder k)(l := None)\<rparr>)))"

definition Condition_Wait :: "condid \<Rightarrow> lockid \<Rightarrow> Threads \<Rightarrow> Threads res" where
  "Condition_Wait c l k =
     rbind (ASSERT (IsHeldByCurrentThread l k)) (\<lambda>_.
     let w = next_waiter k;
         k = set_sem (Waiter w) (Semaphore_new 0) (k\<lparr>next_waiter := Suc w\<rparr>) in
     rbind (Append_spec (waitQueue k c) w) (\<lambda>q.
     Inr (calls [Release l, P (Waiter w), Acquire l, Delete (Waiter w)]
           (k\<lparr>waitQueue := (waitQueue k)(c := q)\<rparr>))))"

definition Condition_Signal :: "condid \<Rightarrow> lockid \<Rightarrow> Threads \<Rightarrow> Threads res" where
  "Condition_Signal c l k =
     rbind (ASSERT (IsHeldByCurrentThread l k)) (\<lambda>_.
     if waitQueue k c \<noteq> []
     then rbind (RemoveFront_spec (waitQueue k c)) (\<lambda>(w, q).
          Inr (calls [V (Waiter w)] (k\<lparr>waitQueue := (waitQueue k)(c := q)\<rparr>)))
     else Inr k)"

definition Condition_Broadcast :: "condid \<Rightarrow> lockid \<Rightarrow> Threads \<Rightarrow> Threads res" where
  "Condition_Broadcast c l k =
     Inr (if waitQueue k c \<noteq> [] then calls [Signal c l, Broadcast c l] k else k)"

section \<open>Synchronized lists\<close>

definition SynchList_Append :: "nat \<Rightarrow> int \<Rightarrow> Threads \<Rightarrow> Threads res" where
  "SynchList_Append n x k =
     Inr (calls [Acquire (ListLock n), SL_put n x, Signal (ListCond n) (ListLock n), Release (ListLock n)] k)"

definition SynchList_put :: "nat \<Rightarrow> int \<Rightarrow> Threads \<Rightarrow> Threads res" where
  "SynchList_put n x k =
     rbind (Append_spec (slist k n) x) (\<lambda>xs.
     Inr (k\<lparr>slist := (slist k)(n := xs), put_log := (put_log k)(n := put_log k n @ [x])\<rparr>))"

definition SynchList_RemoveFront :: "nat \<Rightarrow> Threads \<Rightarrow> Threads res" where
  "SynchList_RemoveFront n k =
     Inr (calls [Acquire (ListLock n), SL_while n, Release (ListLock n)] k)"

definition SynchList_while :: "nat \<Rightarrow> Threads \<Rightarrow> Threads res" where
  "SynchList_while n k =
     (if slist k n = [] then Inr (calls [Wait (ListCond n) (ListLock n), SL_while n] k)
      else rbind (RemoveFront_spec (slist k n)) (\<lambda>(x, xs).
           Inr (k\<lparr>slist := (slist k)(n := xs),
                  got_log := (got_log k)(n := got_log k n @ [(currentThread k, x)])\<rparr>)))"

section \<open>Steps of the system\<close>

fun exec :: "act \<Rightarrow> Threads \<Rightarrow> Threads res" where
  "exec (P s) k = Semaphore_P s k"
| "exec (V s) k = Semaphore_V s k"
| "exec (Acquire l) k = Lock_Acquire l k"
| "exec (Hold l) k = Inr (k\<lparr>lockHolder := (lockHolder k)(l := Some (currentThread k))\<rparr>)"
| "exec (Release l) k = Lock_Release l k"
| "exec (Wait c l) k = Condition_Wait c l k"
| "exec (Signal c l) k = Condition_Signal c l k"
| "exec (Broadcast c l) k = Condition_Broadcast c l k"
| "exec (Delete s) k = rbind (get_sem k s) (\<lambda>_. Inr (k\<lparr>sems := (sems k)(s := None)\<rparr>))"
| "exec (SL_Append n x) k = SynchList_Append n x k"
| "exec (SL_put n x) k = SynchList_put n x k"
| "exec (SL_RemoveFront n) k = SynchList_RemoveFront n k"
| "exec (SL_while n) k = SynchList_while n k"
| "exec Yield_call k = Thread_Yield k"
| "exec (Fork func) k = Thread_Fork func k"
| "exec Finish k = Thread_Finish k"

text \<open>Where a thread goes on when \<open>SWITCH\<close> has returned in it.\<close>

fun resumed :: "resume \<Rightarrow> Threads \<Rightarrow> Threads res" where
  "resumed (InP s oldLevel) k = rbind (after_switch k) (P_loop s oldLevel)"
| "resumed (InYield oldLevel) k =
     rbind (after_switch k) (\<lambda>k. Inr (ChangeLevel IntOff oldLevel (set_ctl (currentThread k) Going k)))"
| "resumed InRoot k = rbind (Thread_Begin k) (\<lambda>k. Inr (set_ctl (currentThread k) Going k))"
| "resumed InFinish k = Inl AssertionFailed"

definition thread_step :: "Threads \<Rightarrow> Threads res" where
  "thread_step k =
     (let t = currentThread k in
      case ctl k t of
        Going \<Rightarrow> (case todo k t of [] \<Rightarrow> Inl AssertionFailed
                 | a # as \<Rightarrow> exec a (k\<lparr>todo := (todo k)(t := as)\<rparr>))
      | Sleeping r \<Rightarrow> Sleep_loop r k
      | Switched r \<Rightarrow> resumed r k)"

definition idle :: "Threads \<Rightarrow> bool" where
  "idle k \<longleftrightarrow> (\<exists>r. ctl k (currentThread k) = Sleeping r) \<and> readyList k = []"

inductive kstep :: "Threads \<Rightarrow> Threads \<Rightarrow> bool" where
  run: "thread_step k = Inr k' \<Longrightarrow> kstep k k'"
| timer: "level k = IntOn \<Longrightarrow> kstep k (calls [Yield_call] k)"
| device: "level k = IntOn \<or> idle k \<Longrightarrow> Semaphore_V (Named n) k = Inr k' \<Longrightarrow> kstep k k'"

text \<open>The main thread starts with interrupts on; the semaphores a program makes have the given
  initial values, those of the locks are 1.\<close>

definition boot :: "(nat \<Rightarrow> int) \<Rightarrow> act list \<Rightarrow> Threads" where
  "boot initial func = Interrupt.extend (Interrupt_new\<lparr>level := IntOn\<rparr>)
     \<lparr>tstatus = (\<lambda>_. JUST_CREATED)(0 := RUNNING), ctl = (\<lambda>_. Going), todo = (\<lambda>_. [])(0 := func @ [Finish]),
      next_tid = 1, currentThread = 0, readyList = [], toBeDestroyed = None, deleted = (\<lambda>_. False),
      sems = (\<lambda>s. case s of Named n \<Rightarrow> Some (Semaphore_new (initial n))
                 | LockSem l \<Rightarrow> Some (Semaphore_new 1) | Waiter w \<Rightarrow> None),
      lockHolder = (\<lambda>_. None), waitQueue = (\<lambda>_. []), next_waiter = 0,
      slist = (\<lambda>_. []), put_log = (\<lambda>_. []), got_log = (\<lambda>_. [])\<rparr>"

text \<open>The calls a program makes itself: the public operations, on its own semaphores, locks and
  conditions.\<close>

fun user_act :: "act \<Rightarrow> bool" where
  "user_act (P s) = (\<exists>n. s = Named n)"
| "user_act (V s) = (\<exists>n. s = Named n)"
| "user_act (Acquire l) = (\<exists>m. l = UserLock m)"
| "user_act (Release l) = (\<exists>m. l = UserLock m)"
| "user_act (Wait c l) = ((\<exists>n. c = UserCond n) \<and> (\<exists>m. l = UserLock m))"
| "user_act (Signal c l) = ((\<exists>n. c = UserCond n) \<and> (\<exists>m. l = UserLock m))"
| "user_act (Broadcast c l) = ((\<exists>n. c = UserCond n) \<and> (\<exists>m. l = UserLock m))"
| "user_act (Hold l) = False"
| "user_act (Delete s) = False"
| "user_act (SL_put n x) = False"
| "user_act (SL_while n) = False"
| "user_act Finish = False"
| "user_act (Fork func) = list_all user_act func"
| "user_act _ = True"

section \<open>The invariant of the scheduler\<close>

definition in_P :: "Threads \<Rightarrow> tid \<Rightarrow> semid \<Rightarrow> bool" where
  "in_P k t s \<longleftrightarrow> ctl k t = Sleeping (InP s IntOn) \<or> ctl k t = Switched (InP s IntOn)"

definition queue_of :: "Threads \<Rightarrow> semid \<Rightarrow> tid list" where
  "queue_of k s = (case sems k s of None \<Rightarrow> [] | Some sem \<Rightarrow> queue sem)"

definition value_of :: "Threads \<Rightarrow> semid \<Rightarrow> int option" where
  "value_of k s = map_option sem_value (sems k s)"

fun live_resume :: "resume \<Rightarrow> bool" where
  "live_resume (InP s old) = (old = IntOn)"
| "live_resume (InYield old) = (old = IntOn)"
| "live_resume InRoot = True"
| "live_resume InFinish = False"

text \<open>What the control states of the current thread and of the others can be.\<close>

definition current_ok :: "ThreadStatus \<Rightarrow> ctl \<Rightarrow> IntStatus \<Rightarrow> bool" where
  "current_ok st c lv \<longleftrightarrow>
     (case c of
        Going \<Rightarrow> st = RUNNING \<and> lv = IntOn
      | Switched r \<Rightarrow> st = RUNNING \<and> live_resume r \<and> lv = IntOff
      | Sleeping r \<Rightarrow> lv = IntOff \<and> (st = BLOCKED \<and> r = InFinish \<or> (st = BLOCKED \<or> st = READY) \<and> (\<exists>s. r = InP s IntOn)))"

definition other_ok :: "ThreadStatus \<Rightarrow> ctl \<Rightarrow> bool" where
  "other_ok st c \<longleftrightarrow>
     (case c of Switched r \<Rightarrow> st = READY \<and> live_resume r \<or> st = BLOCKED \<and> (r = InFinish \<or> (\<exists>s. r = InP s IntOn))
      | _ \<Rightarrow> False)"

definition ready_ok :: "Threads \<Rightarrow> bool" where
  "ready_ok k \<longleftrightarrow> distinct (readyList k) \<and>
     (\<forall>t. t \<in> set (readyList k) \<longleftrightarrow> t < next_tid k \<and> tstatus k t = READY)"

definition queues_ok :: "Threads \<Rightarrow> bool" where
  "queues_ok k \<longleftrightarrow>
     (\<forall>s. distinct (queue_of k s) \<and>
          (\<forall>t. t \<in> set (queue_of k s) \<longleftrightarrow> t < next_tid k \<and> tstatus k t = BLOCKED \<and> in_P k t s))"

definition states_ok :: "Threads \<Rightarrow> bool" where
  "states_ok k \<longleftrightarrow> currentThread k < next_tid k \<and>
     current_ok (tstatus k (currentThread k)) (ctl k (currentThread k)) (level k) \<and>
     (\<forall>t < next_tid k. t \<noteq> currentThread k \<longrightarrow> other_ok (tstatus k t) (ctl k t))"

text \<open>The finished threads are those deleted and the one about to be.\<close>

definition finished_ok :: "Threads \<Rightarrow> bool" where
  "finished_ok k \<longleftrightarrow>
     (\<forall>t. deleted k t \<or> toBeDestroyed k = Some t \<longleftrightarrow> t < next_tid k \<and> ctl k t = Switched InFinish) \<and>
     (\<forall>t. toBeDestroyed k = Some t \<longrightarrow> \<not> deleted k t \<and> (\<exists>r. ctl k (currentThread k) = Switched r))"

definition todo_ok :: "Threads \<Rightarrow> bool" where
  "todo_ok k \<longleftrightarrow> (\<forall>t < next_tid k.
     if ctl k t = Switched InFinish \<or> ctl k t = Sleeping InFinish then todo k t = []
     else \<exists>as. todo k t = as @ [Finish] \<and> Finish \<notin> set as)"

text \<open>The threads a \<open>V\<close> has made ready and that have not yet looked at the value again.  While
  threads wait, there are at least as many of them as the value lets through.\<close>

definition woken :: "Threads \<Rightarrow> semid \<Rightarrow> tid set" where
  "woken k s = {t. t < next_tid k \<and> tstatus k t \<noteq> BLOCKED \<and> in_P k t s}"

definition wake_ok :: "Threads \<Rightarrow> bool" where
  "wake_ok k \<longleftrightarrow> (\<forall>s v. value_of k s = Some v \<longrightarrow>
     0 \<le> v \<and> (queue_of k s \<noteq> [] \<longrightarrow> v \<le> int (card (woken k s))))"

definition sched_ok :: "Threads \<Rightarrow> bool" where
  "sched_ok k \<longleftrightarrow> ready_ok k \<and> queues_ok k \<and> states_ok k \<and> finished_ok k \<and> todo_ok k \<and> wake_ok k"

lemmas sched_defs = ready_ok_def queues_ok_def states_ok_def finished_ok_def todo_ok_def wake_ok_def

lemma sched_okI:
  "\<lbrakk>ready_ok k; queues_ok k; states_ok k; finished_ok k; todo_ok k; wake_ok k\<rbrakk> \<Longrightarrow> sched_ok k"
  by (simp add: sched_ok_def)

lemma finite_woken [simp]: "finite (woken k s)"
  by (simp add: woken_def)

lemma current_ok_simps [simp]:
  "current_ok st Going lv \<longleftrightarrow> st = RUNNING \<and> lv = IntOn"
  "current_ok st (Switched r) lv \<longleftrightarrow> st = RUNNING \<and> live_resume r \<and> lv = IntOff"
  "current_ok st (Sleeping r) lv \<longleftrightarrow>
     lv = IntOff \<and> (st = BLOCKED \<and> r = InFinish \<or> (st = BLOCKED \<or> st = READY) \<and> (\<exists>s. r = InP s IntOn))"
  by (auto simp: current_ok_def)

lemma other_ok_simps [simp]:
  "\<not> other_ok st Going" "\<not> other_ok st (Sleeping r)"
  "other_ok st (Switched r) \<longleftrightarrow> st = READY \<and> live_resume r \<or> st = BLOCKED \<and> (r = InFinish \<or> (\<exists>s. r = InP s IntOn))"
  by (auto simp: other_ok_def)

section \<open>What the programs see\<close>

text \<open>The view of the state without the scheduler: the calls each thread has still to make, the
  values of the semaphores, the locks, the waiters and the lists.  A thread inside the loop of
  \<open>P\<close> still has its \<open>P\<close> to do; a \<open>Yield\<close> is invisible.\<close>

record Prog =
  rest :: "tid \<Rightarrow> act list"
  counts :: "semid \<Rightarrow> int option"
  holder :: "lockid \<Rightarrow> tid option"
  waiters :: "condid \<Rightarrow> nat list"
  threads :: nat
  new_waiter :: nat
  lists :: "nat \<Rightarrow> int list"
  puts :: "nat \<Rightarrow> int list"
  gots :: "nat \<Rightarrow> (tid \<times> int) list"

definition strip :: "act list \<Rightarrow> act list" where
  "strip as = filter (\<lambda>a. a \<noteq> Yield_call) as"

fun blocked_call :: "ctl \<Rightarrow> act list" where
  "blocked_call (Sleeping (InP s old)) = [P s]"
| "blocked_call (Switched (InP s old)) = [P s]"
| "blocked_call _ = []"

definition rest_of :: "Threads \<Rightarrow> tid \<Rightarrow> act list" where
  "rest_of k t = (if t < next_tid k then blocked_call (ctl k t) @ strip (todo k t) else [])"

definition view :: "Threads \<Rightarrow> Prog" where
  "view k = \<lparr>rest = rest_of k, counts = value_of k, holder = lockHolder k, waiters = waitQueue k,
     threads = next_tid k, new_waiter = next_waiter k, lists = slist k, puts = put_log k, gots = got_log k\<rparr>"

text \<open>The effect of one call of thread \<open>t\<close> on the view, as if every call were atomic.\<close>

inductive pstep :: "tid \<Rightarrow> Prog \<Rightarrow> Prog \<Rightarrow> bool" for t where
  P: "rest S t = P s # as \<Longrightarrow> counts S s = Some v \<Longrightarrow> 0 < v \<Longrightarrow>
      pstep t S (S\<lparr>rest := (rest S)(t := as), counts := (counts S)(s \<mapsto> v - 1)\<rparr>)"
| V: "rest S t = V s # as \<Longrightarrow> counts S s = Some v \<Longrightarrow>
      pstep t S (S\<lparr>rest := (rest S)(t := as), counts := (counts S)(s \<mapsto> v + 1)\<rparr>)"
| Acquire: "rest S t = Acquire l # as \<Longrightarrow> pstep t S (S\<lparr>rest := (rest S)(t := P (LockSem l) # Hold l # as)\<rparr>)"
| Hold: "rest S t = Hold l # as \<Longrightarrow>
      pstep t S (S\<lparr>rest := (rest S)(t := as), holder := (holder S)(l \<mapsto> t)\<rparr>)"
| Release: "rest S t = Release l # as \<Longrightarrow> holder S l = Some t \<Longrightarrow>
      pstep t S (S\<lparr>rest := (rest S)(t := V (LockSem l) # as), holder := (holder S)(l := None)\<rparr>)"
| Wait: "rest S t = Wait c l # as \<Longrightarrow> holder S l = Some t \<Longrightarrow> w = new_waiter S \<Longrightarrow>
      pstep t S (S\<lparr>rest := (rest S)(t := Release l # P (Waiter w) # Acquire l # Delete (Waiter w) # as),
        counts := (counts S)(Waiter w \<mapsto> 0), waiters := (waiters S)(c := waiters S c @ [w]), new_waiter := Suc w\<rparr>)"
| Signal: "rest S t = Signal c l # as \<Longrightarrow> holder S l = Some t \<Longrightarrow> waiters S c = w # ws \<Longrightarrow>
      pstep t S (S\<lparr>rest := (rest S)(t := V (Waiter w) # as), waiters := (waiters S)(c := ws)\<rparr>)"
| Signal_none: "rest S t = Signal c l # as \<Longrightarrow> holder S l = Some t \<Longrightarrow> waiters S c = [] \<Longrightarrow>
      pstep t S (S\<lparr>rest := (rest S)(t := as)\<rparr>)"
| Broadcast: "rest S t = Broadcast c l # as \<Longrightarrow> waiters S c \<noteq> [] \<Longrightarrow>
      pstep t S (S\<lparr>rest := (rest S)(t := Signal c l # Broadcast c l # as)\<rparr>)"
| Broadcast_none: "rest S t = Broadcast c l # as \<Longrightarrow> waiters S c = [] \<Longrightarrow> pstep t S (S\<lparr>rest := (rest S)(t := as)\<rparr>)"
| Delete: "rest S t = Delete s # as \<Longrightarrow> pstep t S (S\<lparr>rest := (rest S)(t := as), counts := (counts S)(s := None)\<rparr>)"
| SL_Append: "rest S t = SL_Append n x # as \<Longrightarrow>
      pstep t S (S\<lparr>rest := (rest S)(t := [Acquire (ListLock n), SL_put n x, Signal (ListCond n) (ListLock n),
                                       Release (ListLock n)] @ as)\<rparr>)"
| SL_put: "rest S t = SL_put n x # as \<Longrightarrow> x \<notin> set (lists S n) \<Longrightarrow>
      pstep t S (S\<lparr>rest := (rest S)(t := as), lists := (lists S)(n := lists S n @ [x]),
                  puts := (puts S)(n := puts S n @ [x])\<rparr>)"
| SL_RemoveFront: "rest S t = SL_RemoveFront n # as \<Longrightarrow>
      pstep t S (S\<lparr>rest := (rest S)(t := [Acquire (ListLock n), SL_while n, Release (ListLock n)] @ as)\<rparr>)"
| SL_empty: "rest S t = SL_while n # as \<Longrightarrow> lists S n = [] \<Longrightarrow>
      pstep t S (S\<lparr>rest := (rest S)(t := Wait (ListCond n) (ListLock n) # SL_while n # as)\<rparr>)"
| SL_take: "rest S t = SL_while n # as \<Longrightarrow> lists S n = x # xs \<Longrightarrow>
      pstep t S (S\<lparr>rest := (rest S)(t := as), lists := (lists S)(n := xs), gots := (gots S)(n := gots S n @ [(t, x)])\<rparr>)"
| Fork: "rest S t = Fork func # as \<Longrightarrow> u = threads S \<Longrightarrow>
      pstep t S (S\<lparr>rest := (rest S)(t := as, u := strip func @ [Finish]), threads := Suc u\<rparr>)"
| Finish: "rest S t = Finish # as \<Longrightarrow> pstep t S (S\<lparr>rest := (rest S)(t := as)\<rparr>)"

text \<open>What must hold for the next call of thread \<open>t\<close> not to fault.\<close>

fun safe_call :: "tid \<Rightarrow> Prog \<Rightarrow> act \<Rightarrow> bool" where
  "safe_call t S (P s) = (counts S s \<noteq> None)"
| "safe_call t S (V s) = (counts S s \<noteq> None)"
| "safe_call t S (Release l) = (holder S l = Some t)"
| "safe_call t S (Wait c l) = (holder S l = Some t \<and> new_waiter S \<notin> set (waiters S c) \<and> counts S (Waiter (new_waiter S)) = None)"
| "safe_call t S (Signal c l) = (holder S l = Some t)"
| "safe_call t S (Delete s) = (counts S s \<noteq> None \<and> (\<forall>u. P s \<notin> set (rest S u)))"
| "safe_call t S (SL_put n x) = (x \<notin> set (lists S n))"
| "safe_call t S (Fork func) = (Finish \<notin> set func)"
| "safe_call t S _ = True"

section \<open>Every step keeps the invariant and refines the view\<close>

lemma update_other [simp]:
  "in_P (k\<lparr>level := lv\<rparr>) = in_P k" "in_P (k\<lparr>todo := td\<rparr>) = in_P k" "in_P (k\<lparr>sems := ss\<rparr>) = in_P k"
  "in_P (k\<lparr>tstatus := st\<rparr>) = in_P k" "in_P (k\<lparr>readyList := rl\<rparr>) = in_P k"
  "in_P (k\<lparr>currentThread := t\<rparr>) = in_P k" "in_P (k\<lparr>next_tid := n\<rparr>) = in_P k"
  "in_P (k\<lparr>toBeDestroyed := d\<rparr>) = in_P k" "in_P (k\<lparr>deleted := dl\<rparr>) = in_P k"
  by (simp_all add: in_P_def fun_eq_iff)

lemma queue_of_other [simp]:
  "queue_of (k\<lparr>level := lv\<rparr>) = queue_of k" "queue_of (k\<lparr>todo := td\<rparr>) = queue_of k"
  "queue_of (k\<lparr>tstatus := st\<rparr>) = queue_of k" "queue_of (k\<lparr>readyList := rl\<rparr>) = queue_of k"
  "queue_of (k\<lparr>ctl := c\<rparr>) = queue_of k" "queue_of (k\<lparr>currentThread := t\<rparr>) = queue_of k"
  "queue_of (k\<lparr>next_tid := n\<rparr>) = queue_of k" "queue_of (k\<lparr>toBeDestroyed := d\<rparr>) = queue_of k"
  "queue_of (k\<lparr>deleted := dl\<rparr>) = queue_of k"
  "queue_of (k\<lparr>sems := (sems k)(s \<mapsto> sem)\<rparr>) = (queue_of k)(s := queue sem)"
  "queue_of (k\<lparr>sems := (sems k)(s := None)\<rparr>) = (queue_of k)(s := [])"
  by (auto simp: queue_of_def fun_eq_iff)

lemma value_of_other [simp]:
  "value_of (k\<lparr>level := lv\<rparr>) = value_of k" "value_of (k\<lparr>todo := td\<rparr>) = value_of k"
  "value_of (k\<lparr>tstatus := st\<rparr>) = value_of k" "value_of (k\<lparr>readyList := rl\<rparr>) = value_of k"
  "value_of (k\<lparr>ctl := c\<rparr>) = value_of k" "value_of (k\<lparr>currentThread := t\<rparr>) = value_of k"
  "value_of (k\<lparr>next_tid := n\<rparr>) = value_of k" "value_of (k\<lparr>toBeDestroyed := d\<rparr>) = value_of k"
  "value_of (k\<lparr>deleted := dl\<rparr>) = value_of k" "value_of (k\<lparr>lockHolder := h\<rparr>) = value_of k"
  "value_of (k\<lparr>waitQueue := wq\<rparr>) = value_of k" "value_of (k\<lparr>next_waiter := n\<rparr>) = value_of k"
  "value_of (k\<lparr>slist := sl\<rparr>) = value_of k" "value_of (k\<lparr>put_log := pl\<rparr>) = value_of k"
  "value_of (k\<lparr>got_log := gl\<rparr>) = value_of k"
  "value_of (k\<lparr>sems := (sems k)(s \<mapsto> sem)\<rparr>) = (value_of k)(s \<mapsto> sem_value sem)"
  "value_of (k\<lparr>sems := (sems k)(s := None)\<rparr>) = (value_of k)(s := None)"
  by (auto simp: value_of_def fun_eq_iff)

lemma sched_ok_other [simp]:
  "sched_ok (k\<lparr>lockHolder := h\<rparr>) = sched_ok k" "sched_ok (k\<lparr>waitQueue := wq\<rparr>) = sched_ok k"
  "sched_ok (k\<lparr>next_waiter := n\<rparr>) = sched_ok k" "sched_ok (k\<lparr>slist := sl\<rparr>) = sched_ok k"
  "sched_ok (k\<lparr>put_log := pl\<rparr>) = sched_ok k" "sched_ok (k\<lparr>got_log := gl\<rparr>) = sched_ok k"
  by (simp_all add: sched_ok_def sched_defs in_P_def queue_of_def value_of_def woken_def)

text \<open>The fields each part of the invariant does not depend on.\<close>

lemma ready_ok_other [simp]:
  "ready_ok (k\<lparr>level := x_level\<rparr>) = ready_ok k" "ready_ok (k\<lparr>todo := x_todo\<rparr>) = ready_ok k"
  "ready_ok (k\<lparr>sems := x_sems\<rparr>) = ready_ok k" "ready_ok (k\<lparr>ctl := x_ctl\<rparr>) = ready_ok k"
  "ready_ok (k\<lparr>currentThread := x_currentThread\<rparr>) = ready_ok k" "ready_ok (k\<lparr>toBeDestroyed := x_toBeDestroyed\<rparr>) = ready_ok k"
  "ready_ok (k\<lparr>deleted := x_deleted\<rparr>) = ready_ok k"
  by (simp_all add: ready_ok_def)

lemma queues_ok_other [simp]:
  "queues_ok (k\<lparr>level := x_level\<rparr>) = queues_ok k" "queues_ok (k\<lparr>todo := x_todo\<rparr>) = queues_ok k"
  "queues_ok (k\<lparr>readyList := x_readyList\<rparr>) = queues_ok k" "queues_ok (k\<lparr>currentThread := x_currentThread\<rparr>) = queues_ok k"
  "queues_ok (k\<lparr>toBeDestroyed := x_toBeDestroyed\<rparr>) = queues_ok k" "queues_ok (k\<lparr>deleted := x_deleted\<rparr>) = queues_ok k"
  by (simp_all add: queues_ok_def)

lemma states_ok_other [simp]:
  "states_ok (k\<lparr>todo := x_todo\<rparr>) = states_ok k" "states_ok (k\<lparr>sems := x_sems\<rparr>) = states_ok k"
  "states_ok (k\<lparr>readyList := x_readyList\<rparr>) = states_ok k" "states_ok (k\<lparr>toBeDestroyed := x_toBeDestroyed\<rparr>) = states_ok k"
  "states_ok (k\<lparr>deleted := x_deleted\<rparr>) = states_ok k"
  by (simp_all add: states_ok_def)

lemma finished_ok_other [simp]:
  "finished_ok (k\<lparr>level := x_level\<rparr>) = finished_ok k" "finished_ok (k\<lparr>todo := x_todo\<rparr>) = finished_ok k"
  "finished_ok (k\<lparr>sems := x_sems\<rparr>) = finished_ok k" "finished_ok (k\<lparr>readyList := x_readyList\<rparr>) = finished_ok k"
  "finished_ok (k\<lparr>tstatus := x_tstatus\<rparr>) = finished_ok k"
  by (simp_all add: finished_ok_def)

lemma todo_ok_other [simp]:
  "todo_ok (k\<lparr>level := x_level\<rparr>) = todo_ok k" "todo_ok (k\<lparr>sems := x_sems\<rparr>) = todo_ok k"
  "todo_ok (k\<lparr>readyList := x_readyList\<rparr>) = todo_ok k" "todo_ok (k\<lparr>tstatus := x_tstatus\<rparr>) = todo_ok k"
  "todo_ok (k\<lparr>currentThread := x_currentThread\<rparr>) = todo_ok k" "todo_ok (k\<lparr>toBeDestroyed := x_toBeDestroyed\<rparr>) = todo_ok k"
  "todo_ok (k\<lparr>deleted := x_deleted\<rparr>) = todo_ok k"
  by (simp_all add: todo_ok_def)

lemma woken_other [simp]:
  "woken (k\<lparr>level := x_level\<rparr>) = woken k" "woken (k\<lparr>todo := x_todo\<rparr>) = woken k"
  "woken (k\<lparr>sems := x_sems\<rparr>) = woken k" "woken (k\<lparr>readyList := x_readyList\<rparr>) = woken k"
  "woken (k\<lparr>currentThread := x_currentThread\<rparr>) = woken k" "woken (k\<lparr>toBeDestroyed := x_toBeDestroyed\<rparr>) = woken k"
  "woken (k\<lparr>deleted := x_deleted\<rparr>) = woken k"
  by (simp_all add: woken_def fun_eq_iff)

lemma wake_ok_other [simp]:
  "wake_ok (k\<lparr>level := x_level\<rparr>) = wake_ok k" "wake_ok (k\<lparr>todo := x_todo\<rparr>) = wake_ok k"
  "wake_ok (k\<lparr>readyList := x_readyList\<rparr>) = wake_ok k" "wake_ok (k\<lparr>currentThread := x_currentThread\<rparr>) = wake_ok k"
  "wake_ok (k\<lparr>toBeDestroyed := x_toBeDestroyed\<rparr>) = wake_ok k" "wake_ok (k\<lparr>deleted := x_deleted\<rparr>) = wake_ok k"
  by (simp_all add: wake_ok_def)

lemma todo_okD:
  assumes "todo_ok k" "t < next_tid k" "ctl k t \<noteq> Switched InFinish" "ctl k t \<noteq> Sleeping InFinish"
  shows "\<exists>as. todo k t = as @ [Finish] \<and> Finish \<notin> set as"
  using assms unfolding todo_ok_def by metis

lemma sched_ok_todo:
  assumes "sched_ok k" "ctl k (currentThread k) = Going" "todo k (currentThread k) = a # as" "a \<noteq> Finish"
    "Finish \<notin> set bs"
  shows "sched_ok (k\<lparr>todo := (todo k)(currentThread k := bs @ as)\<rparr>)"
proof (rule sched_okI)
  have ne: "as \<noteq> [] \<and> last as = Finish \<and> Finish \<notin> set (butlast as)"
  proof -
    have c: "currentThread k < next_tid k" using assms(1) by (simp add: sched_ok_def states_ok_def)
    obtain xs where "a # as = xs @ [Finish]" "Finish \<notin> set xs"
      using todo_okD [of k "currentThread k"] assms(1,2,3) c by (auto simp: sched_ok_def)
    then show ?thesis using assms(4) by (cases xs) auto
  qed
  then have e: "bs @ as = (bs @ butlast as) @ [Finish]" by (metis append.assoc append_butlast_last_id)
  show "todo_ok (k\<lparr>todo := (todo k)(currentThread k := bs @ as)\<rparr>)"
    using assms ne unfolding e by (auto simp: sched_ok_def todo_ok_def)
qed (use assms in \<open>simp_all add: sched_ok_def\<close>)

lemma sched_ok_new_sem:
  assumes "sched_ok k" "sems k s = None"
  shows "sched_ok (k\<lparr>sems := (sems k)(s \<mapsto> Semaphore_new 0)\<rparr>)"
proof (rule sched_okI)
  have q: "queue_of k s = []" using assms by (simp add: queue_of_def)
  then have e: "(queue_of k)(s := []) = queue_of k" by auto
  show "queues_ok (k\<lparr>sems := (sems k)(s \<mapsto> Semaphore_new 0)\<rparr>)"
    using assms(1) e by (simp add: sched_ok_def queues_ok_def Semaphore_new_def)
  show "wake_ok (k\<lparr>sems := (sems k)(s \<mapsto> Semaphore_new 0)\<rparr>)"
    using assms(1) by (auto simp: sched_ok_def wake_ok_def woken_def Semaphore_new_def)
qed (use assms in \<open>simp_all add: sched_ok_def\<close>)

lemma in_P_rest:
  "in_P k t s \<Longrightarrow> t < next_tid k \<Longrightarrow> P s \<in> set (rest_of k t)"
  by (auto simp: in_P_def rest_of_def)

lemma sched_ok_delete:
  assumes "sched_ok k" "\<forall>u. P s \<notin> set (rest_of k u)"
  shows "sched_ok (k\<lparr>sems := (sems k)(s := None)\<rparr>)"
proof (rule sched_okI)
  have "queue_of k s = []"
    using assms in_P_rest [of k _ s]
    by (metis sched_ok_def queues_ok_def last_in_set)
  then have e: "(queue_of k)(s := []) = queue_of k" by auto
  show "queues_ok (k\<lparr>sems := (sems k)(s := None)\<rparr>)"
    using assms(1) e by (simp add: sched_ok_def queues_ok_def)
  show "wake_ok (k\<lparr>sems := (sems k)(s := None)\<rparr>)"
    using assms(1) by (auto simp: sched_ok_def wake_ok_def woken_def)
qed (use assms in \<open>simp_all add: sched_ok_def\<close>)

lemma queues_okD:
  "queues_ok k \<Longrightarrow> t \<in> set (queue_of k s) \<longleftrightarrow> t < next_tid k \<and> tstatus k t = BLOCKED \<and> in_P k t s"
  by (simp add: queues_ok_def)

lemma ready_okD: "ready_ok k \<Longrightarrow> t \<in> set (readyList k) \<longleftrightarrow> t < next_tid k \<and> tstatus k t = READY"
  by (simp add: ready_ok_def)

lemma in_P_unique: "in_P k t s \<Longrightarrow> in_P k t s' \<Longrightarrow> s = s'"
  by (auto simp: in_P_def)

text \<open>Taking the first waiting thread off a queue and making it ready.\<close>

definition wake :: "semid \<Rightarrow> tid \<Rightarrow> tid list \<Rightarrow> int \<Rightarrow> Threads \<Rightarrow> Threads" where
  "wake s t q v k = k\<lparr>tstatus := (tstatus k)(t := READY), readyList := readyList k @ [t],
     sems := (sems k)(s \<mapsto> \<lparr>sem_value = v, queue = q\<rparr>)\<rparr>"

lemma wake_fields [simp]:
  "level (wake s t q v k) = level k" "next_tid (wake s t q v k) = next_tid k" "ctl (wake s t q v k) = ctl k"
  "currentThread (wake s t q v k) = currentThread k" "todo (wake s t q v k) = todo k"
  "tstatus (wake s t q v k) = (tstatus k)(t := READY)" "readyList (wake s t q v k) = readyList k @ [t]"
  "queue_of (wake s t q v k) = (queue_of k)(s := q)" "value_of (wake s t q v k) = (value_of k)(s \<mapsto> v)"
  "in_P (wake s t q v k) = in_P k"
  by (auto simp: wake_def queue_of_def value_of_def in_P_def fun_eq_iff)

lemma wake_sched_ok:
  assumes ok: "sched_ok k" and q: "queue_of k s = t # q" and v: "value_of k s = Some v"
  shows "sched_ok (wake s t q (v + 1) k)"
proof (rule sched_okI)
  have parts: "ready_ok k" "queues_ok k" "states_ok k" "finished_ok k" "todo_ok k" "wake_ok k"
    using ok by (simp_all add: sched_ok_def)
  have t: "t < next_tid k" "tstatus k t = BLOCKED" "in_P k t s" "t \<notin> set q" "distinct q"
    using queues_okD [OF parts(2), of t s] parts(2) q unfolding queues_ok_def
    by (auto dest: spec [of _ s])
  show "ready_ok (wake s t q (v + 1) k)" using parts(1) t by (auto simp: ready_ok_def)
  show "queues_ok (wake s t q (v + 1) k)"
    unfolding queues_ok_def
  proof (intro allI conjI)
    fix s' u
    show "distinct (queue_of (wake s t q (v + 1) k) s')"
      using parts(2) t(5) by (simp add: queues_ok_def)
    show "u \<in> set (queue_of (wake s t q (v + 1) k) s') \<longleftrightarrow> u < next_tid (wake s t q (v + 1) k) \<and>
        tstatus (wake s t q (v + 1) k) u = BLOCKED \<and> in_P (wake s t q (v + 1) k) u s'"
      using queues_okD [OF parts(2), of u s'] queues_okD [OF parts(2), of u s] q t in_P_unique [of k t s s']
      by (cases "s' = s"; cases "u = t") auto
  qed
  show "states_ok (wake s t q (v + 1) k)"
    using parts(3) t by (auto simp: states_ok_def in_P_def)
  show "finished_ok (wake s t q (v + 1) k)"
    using parts(4) by (simp add: wake_def finished_ok_def)
  show "todo_ok (wake s t q (v + 1) k)" using parts(5) by (simp add: todo_ok_def)
  show "wake_ok (wake s t q (v + 1) k)"
    unfolding wake_ok_def
  proof (intro allI impI conjI)
    fix s' v'
    assume v': "value_of (wake s t q (v + 1) k) s' = Some v'"
    show "0 \<le> v'" using v' parts(6) v by (auto simp: wake_ok_def split: if_splits)
    assume ne: "queue_of (wake s t q (v + 1) k) s' \<noteq> []"
    have w: "woken (wake s t q (v + 1) k) s = insert t (woken k s)" "t \<notin> woken k s"
      using t by (auto simp: woken_def)
    have w': "s' \<noteq> s \<Longrightarrow> woken (wake s t q (v + 1) k) s' = woken k s'"
      using t in_P_unique [OF t(3), of s'] by (auto simp: woken_def)
    show "v' \<le> int (card (woken (wake s t q (v + 1) k) s'))"
    proof (cases "s' = s")
      case True
      have "v \<le> int (card (woken k s))" using parts(6) v q by (simp add: wake_ok_def)
      then show ?thesis using True v' w by simp
    next
      case False
      then show ?thesis using parts(6) v' ne w' by (simp add: wake_ok_def)
    qed
  qed
qed

lemma sem_of_value: "value_of k s = Some v \<longleftrightarrow> sems k s = Some \<lparr>sem_value = v, queue = queue_of k s\<rparr>"
proof (cases "sems k s")
  case (Some a)
  then show ?thesis by (cases a) (simp add: value_of_def queue_of_def)
qed (simp add: value_of_def)

definition bump :: "semid \<Rightarrow> int \<Rightarrow> Threads \<Rightarrow> Threads" where
  "bump s v k = k\<lparr>sems := (sems k)(s \<mapsto> \<lparr>sem_value = v, queue = queue_of k s\<rparr>)\<rparr>"

text \<open>Changing a value while nobody waits.\<close>

lemma bump_sched_ok:
  assumes "sched_ok k" "queue_of k s = []" "0 \<le> v"
  shows "sched_ok (bump s v k)"
proof (rule sched_okI)
  have e: "(queue_of k)(s := []) = queue_of k" using assms by auto
  show "queues_ok (bump s v k)" using assms e by (simp add: bump_def sched_ok_def queues_ok_def)
  show "wake_ok (bump s v k)" using assms by (auto simp: bump_def sched_ok_def wake_ok_def)
qed (use assms in \<open>simp_all add: sched_ok_def bump_def\<close>)

lemma Semaphore_V_eq:
  assumes "sched_ok k" "value_of k s = Some v"
  shows "Semaphore_V s k = Inr (case queue_of k s of [] \<Rightarrow> bump s (v + 1) k | t # q \<Rightarrow> wake s t q (v + 1) k)"
proof (cases "queue_of k s")
  case Nil
  then show ?thesis using assms(2)
    by (simp add: Semaphore_V_def get_sem_def sem_of_value ChangeLevel_def bump_def)
next
  case (Cons t q)
  have "t \<notin> set (readyList k)"
    using assms(1) Cons queues_okD [of k t s] ready_okD [of k t] by (auto simp: sched_ok_def)
  then show ?thesis using assms(2) Cons
    by (simp add: Semaphore_V_def get_sem_def sem_of_value ChangeLevel_def wake_def RemoveFront_spec_def
        ReadyToRun_def Append_spec_def)
qed

lemma Semaphore_V_ok:
  assumes ok: "sched_ok k" and v: "value_of k s = Some v"
  shows "\<exists>k'. Semaphore_V s k = Inr k' \<and> sched_ok k' \<and>
    view k' = (view k)\<lparr>counts := (value_of k)(s \<mapsto> v + 1)\<rparr>"
proof (cases "queue_of k s")
  case Nil
  moreover have "0 \<le> v" using ok v by (auto simp: sched_ok_def wake_ok_def)
  moreover have "view (bump s (v + 1) k) = (view k)\<lparr>counts := (value_of k)(s \<mapsto> v + 1)\<rparr>"
    by (simp add: view_def bump_def rest_of_def fun_eq_iff)
  ultimately show ?thesis using Semaphore_V_eq [OF ok v] bump_sched_ok [OF ok Nil, of "v + 1"] by simp
next
  case (Cons t q)
  moreover have "view (wake s t q (v + 1) k) = (view k)\<lparr>counts := (value_of k)(s \<mapsto> v + 1)\<rparr>"
    by (simp add: view_def wake_def rest_of_def fun_eq_iff value_of_def)
  ultimately show ?thesis using Semaphore_V_eq [OF ok v] wake_sched_ok [OF ok Cons v] by simp
qed

text \<open>The two outcomes of a test of the loop of \<open>P\<close>.\<close>

definition block :: "semid \<Rightarrow> Threads \<Rightarrow> Threads" where
  "block s k = k\<lparr>level := IntOff, sems := (sems k)(s \<mapsto> \<lparr>sem_value = 0, queue = queue_of k s @ [currentThread k]\<rparr>),
     tstatus := (tstatus k)(currentThread k := BLOCKED),
     ctl := (ctl k)(currentThread k := Sleeping (InP s IntOn))\<rparr>"

definition pass :: "semid \<Rightarrow> int \<Rightarrow> Threads \<Rightarrow> Threads" where
  "pass s v k = k\<lparr>level := IntOn, sems := (sems k)(s \<mapsto> \<lparr>sem_value = v - 1, queue = queue_of k s\<rparr>),
     ctl := (ctl k)(currentThread k := Going)\<rparr>"

lemma block_fields [simp]:
  "level (block s k) = IntOff" "next_tid (block s k) = next_tid k" "currentThread (block s k) = currentThread k"
  "todo (block s k) = todo k" "readyList (block s k) = readyList k" "deleted (block s k) = deleted k"
  "toBeDestroyed (block s k) = toBeDestroyed k" "tstatus (block s k) = (tstatus k)(currentThread k := BLOCKED)"
  "ctl (block s k) = (ctl k)(currentThread k := Sleeping (InP s IntOn))"
  "queue_of (block s k) = (queue_of k)(s := queue_of k s @ [currentThread k])"
  "value_of (block s k) = (value_of k)(s \<mapsto> 0)"
  "in_P (block s k) t s' \<longleftrightarrow> (if t = currentThread k then s' = s else in_P k t s')"
  by (auto simp: block_def queue_of_def value_of_def in_P_def fun_eq_iff)

lemma pass_fields [simp]:
  "level (pass s v k) = IntOn" "next_tid (pass s v k) = next_tid k" "currentThread (pass s v k) = currentThread k"
  "todo (pass s v k) = todo k" "readyList (pass s v k) = readyList k" "deleted (pass s v k) = deleted k"
  "toBeDestroyed (pass s v k) = toBeDestroyed k" "tstatus (pass s v k) = tstatus k"
  "ctl (pass s v k) = (ctl k)(currentThread k := Going)"
  "queue_of (pass s v k) = queue_of k" "value_of (pass s v k) = (value_of k)(s \<mapsto> v - 1)"
  "in_P (pass s v k) t s' \<longleftrightarrow> t \<noteq> currentThread k \<and> in_P k t s'"
  by (auto simp: pass_def queue_of_def value_of_def in_P_def fun_eq_iff)

lemma finished_ok_ctl:
  assumes "finished_ok k" "toBeDestroyed k = None" "ctl k (currentThread k) \<noteq> Switched InFinish"
    "ctl k' = (ctl k)(currentThread k := c)" "c \<noteq> Switched InFinish"
    "toBeDestroyed k' = None" "deleted k' = deleted k" "next_tid k' = next_tid k"
  shows "finished_ok k'"
  using assms unfolding finished_ok_def by (metis fun_upd_apply option.distinct(1))

lemma todo_ok_ctl:
  assumes "todo_ok k" "ctl k (currentThread k) \<noteq> Switched InFinish" "ctl k (currentThread k) \<noteq> Sleeping InFinish"
    "ctl k' = (ctl k)(currentThread k := c)" "c \<noteq> Switched InFinish" "c \<noteq> Sleeping InFinish"
    "todo k' = todo k" "next_tid k' = next_tid k"
  shows "todo_ok k'"
  using assms unfolding todo_ok_def by (metis fun_upd_apply)

lemma at_test:
  assumes "sched_ok k" "ctl k (currentThread k) = Going \<or> ctl k (currentThread k) = Switched (InP s IntOn)"
  shows "currentThread k < next_tid k" "tstatus k (currentThread k) = RUNNING"
    "currentThread k \<notin> set (readyList k)" "currentThread k \<notin> set (queue_of k s')"
    "in_P k (currentThread k) s' \<Longrightarrow> s' = s"
proof -
  show r: "tstatus k (currentThread k) = RUNNING" "currentThread k < next_tid k"
    using assms by (auto simp: sched_ok_def states_ok_def)
  show "currentThread k \<notin> set (readyList k)" "currentThread k \<notin> set (queue_of k s')"
    using assms(1) r ready_okD [of k] queues_okD [of k] by (auto simp: sched_ok_def)
  show "in_P k (currentThread k) s' \<Longrightarrow> s' = s" using assms(2) by (auto simp: in_P_def)
qed

lemma block_sched_ok:
  assumes ok: "sched_ok k" and c: "ctl k (currentThread k) = Going \<or> ctl k (currentThread k) = Switched (InP s IntOn)"
    and d: "toBeDestroyed k = None"
  shows "sched_ok (block s k)"
proof (rule sched_okI)
  note a = at_test [OF ok c]
  have parts: "ready_ok k" "queues_ok k" "states_ok k" "finished_ok k" "todo_ok k" "wake_ok k"
    using ok by (simp_all add: sched_ok_def)
  show "ready_ok (block s k)" using parts(1) a by (auto simp: ready_ok_def)
  show "queues_ok (block s k)"
    unfolding queues_ok_def
  proof (intro allI conjI)
    fix s' u
    show "distinct (queue_of (block s k) s')" using parts(2) a by (auto simp: queues_ok_def)
    show "u \<in> set (queue_of (block s k) s') \<longleftrightarrow> u < next_tid (block s k) \<and>
        tstatus (block s k) u = BLOCKED \<and> in_P (block s k) u s'"
      using queues_okD [OF parts(2), of u s'] a by auto
  qed
  show "states_ok (block s k)" using parts(3) by (auto simp: states_ok_def)
  show "finished_ok (block s k)" by (rule finished_ok_ctl [OF parts(4) d]) (use c d in auto)
  show "todo_ok (block s k)" by (rule todo_ok_ctl [OF parts(5)]) (use c in auto)
  show "wake_ok (block s k)"
    unfolding wake_ok_def
  proof (intro allI impI conjI)
    fix s' v'
    assume v': "value_of (block s k) s' = Some v'"
    show "0 \<le> v'" using v' parts(6) by (auto simp: wake_ok_def split: if_splits)
    assume ne: "queue_of (block s k) s' \<noteq> []"
    have "s' \<noteq> s \<Longrightarrow> woken (block s k) s' = woken k s'" using a(5) by (auto simp: woken_def)
    then show "v' \<le> int (card (woken (block s k) s'))"
      using parts(6) v' ne by (cases "s' = s") (auto simp: wake_ok_def)
  qed
qed

lemma pass_sched_ok:
  assumes ok: "sched_ok k" and c: "ctl k (currentThread k) = Going \<or> ctl k (currentThread k) = Switched (InP s IntOn)"
    and d: "toBeDestroyed k = None" and v: "value_of k s = Some v" "0 < v"
  shows "sched_ok (pass s v k)"
proof (rule sched_okI)
  note a = at_test [OF ok c]
  have parts: "ready_ok k" "queues_ok k" "states_ok k" "finished_ok k" "todo_ok k" "wake_ok k"
    using ok by (simp_all add: sched_ok_def)
  show "ready_ok (pass s v k)" using parts(1) by (simp add: ready_ok_def)
  show "queues_ok (pass s v k)" using parts(2) a by (auto simp: queues_ok_def)
  show "states_ok (pass s v k)" using parts(3) a by (auto simp: states_ok_def)
  show "finished_ok (pass s v k)" by (rule finished_ok_ctl [OF parts(4) d]) (use c d in auto)
  show "todo_ok (pass s v k)" by (rule todo_ok_ctl [OF parts(5)]) (use c in auto)
  show "wake_ok (pass s v k)"
    unfolding wake_ok_def
  proof (intro allI impI conjI)
    fix s' v'
    assume v': "value_of (pass s v k) s' = Some v'"
    show "0 \<le> v'" using v' parts(6) v by (auto simp: wake_ok_def split: if_splits)
    assume ne: "queue_of (pass s v k) s' \<noteq> []"
    have w: "woken (pass s v k) s' = woken k s' - {currentThread k}" by (auto simp: woken_def)
    show "v' \<le> int (card (woken (pass s v k) s'))"
    proof (cases "s' = s")
      case True
      have "v \<le> int (card (woken k s))" using parts(6) v ne True by (simp add: wake_ok_def)
      moreover have "card (woken k s) \<le> card (woken k s - {currentThread k}) + 1"
        by (simp add: card_Diff_singleton_if; arith)
      ultimately show ?thesis using True v' w by simp
    next
      case False
      then have "currentThread k \<notin> woken k s'" using a(5) by (auto simp: woken_def)
      then show ?thesis using False parts(6) v' ne w by (simp add: wake_ok_def)
    qed
  qed
qed

text \<open>Dispatching: the old thread is suspended with \<open>r\<close>, the first ready thread runs.\<close>

definition dispatch :: "resume \<Rightarrow> Threads \<Rightarrow> Threads" where
  "dispatch r k = k\<lparr>readyList := tl (readyList k),
     toBeDestroyed := (if r = InFinish then Some (currentThread k) else toBeDestroyed k),
     ctl := (ctl k)(currentThread k := Switched r), currentThread := hd (readyList k),
     tstatus := (tstatus k)(hd (readyList k) := RUNNING)\<rparr>"

lemma dispatch_fields [simp]:
  "level (dispatch r k) = level k" "next_tid (dispatch r k) = next_tid k" "todo (dispatch r k) = todo k"
  "readyList (dispatch r k) = tl (readyList k)" "deleted (dispatch r k) = deleted k"
  "toBeDestroyed (dispatch r k) = (if r = InFinish then Some (currentThread k) else toBeDestroyed k)"
  "ctl (dispatch r k) = (ctl k)(currentThread k := Switched r)" "currentThread (dispatch r k) = hd (readyList k)"
  "tstatus (dispatch r k) = (tstatus k)(hd (readyList k) := RUNNING)"
  "queue_of (dispatch r k) = queue_of k" "value_of (dispatch r k) = value_of k"
  by (auto simp: dispatch_def queue_of_def value_of_def fun_eq_iff)

lemma Sleep_loop_eq:
  assumes "sched_ok k" "ctl k (currentThread k) = Sleeping r"
  shows "Sleep_loop r k = Inr (if readyList k = [] then k else dispatch r k)"
proof -
  have l: "level k = IntOff" using assms by (auto simp: sched_ok_def states_ok_def)
  have d: "toBeDestroyed k = None" using assms by (auto simp: sched_ok_def finished_ok_def)
  show ?thesis
    by (cases "readyList k") (auto simp: Sleep_loop_def FindNextToRun_def l RemoveFront_spec_def Run_thread_def d
        dispatch_def Let_def)
qed

lemma dispatch_in_P:
  assumes "ctl k (currentThread k) = Sleeping r"
  shows "in_P (dispatch r k) t s \<longleftrightarrow> in_P k t s"
  using assms by (auto simp: in_P_def)

lemma dispatch_sched_ok:
  assumes ok: "sched_ok k" and c: "ctl k (currentThread k) = Sleeping r" and ne: "readyList k \<noteq> []"
  shows "sched_ok (dispatch r k)"
proof (rule sched_okI)
  have parts: "ready_ok k" "queues_ok k" "states_ok k" "finished_ok k" "todo_ok k" "wake_ok k"
    using ok by (simp_all add: sched_ok_def)
  obtain n rs where rl: "readyList k = n # rs" using ne by (cases "readyList k") auto
  have n: "n < next_tid k" "tstatus k n = READY" "n \<notin> set rs" "distinct rs"
    using parts(1) rl by (auto simp: ready_ok_def)
  have d: "toBeDestroyed k = None" using parts(4) c by (auto simp: finished_ok_def)
  have r: "currentThread k < next_tid k" "level k = IntOff"
    "tstatus k (currentThread k) = BLOCKED \<and> r = InFinish \<or>
     (tstatus k (currentThread k) = BLOCKED \<or> tstatus k (currentThread k) = READY) \<and> (\<exists>s. r = InP s IntOn)"
    using parts(3) c by (auto simp: states_ok_def)
  show "ready_ok (dispatch r k)" using parts(1) n rl unfolding ready_ok_def by auto
  show "queues_ok (dispatch r k)"
    using parts(2) n rl dispatch_in_P [OF c] unfolding queues_ok_def by auto
  have ot: "other_ok (tstatus k t) (ctl k t)" if "t < next_tid k" "t \<noteq> currentThread k" for t
    using parts(3) that by (simp add: states_ok_def)
  have nc: "current_ok RUNNING (((ctl k)(currentThread k := Switched r)) n) IntOff"
    using ot [of n] n r by (cases "n = currentThread k"; cases "ctl k n") auto
  show "states_ok (dispatch r k)"
    unfolding states_ok_def
  proof (intro conjI allI impI)
    show "current_ok (tstatus (dispatch r k) (currentThread (dispatch r k)))
        (ctl (dispatch r k) (currentThread (dispatch r k))) (level (dispatch r k))"
      using nc rl r(2) by simp
    fix t
    assume "t < next_tid (dispatch r k)" "t \<noteq> currentThread (dispatch r k)"
    then show "other_ok (tstatus (dispatch r k) t) (ctl (dispatch r k) t)"
      using ot [of t] r rl by auto
  qed (use n rl in simp)
  show "finished_ok (dispatch r k)"
    unfolding finished_ok_def
  proof (intro conjI allI impI)
    fix t
    have f: "deleted k t \<longleftrightarrow> t < next_tid k \<and> ctl k t = Switched InFinish"
      using parts(4) d by (simp add: finished_ok_def)
    show "deleted (dispatch r k) t \<or> toBeDestroyed (dispatch r k) = Some t \<longleftrightarrow>
        t < next_tid (dispatch r k) \<and> ctl (dispatch r k) t = Switched InFinish"
      using f d r(1) c by auto
    assume t: "toBeDestroyed (dispatch r k) = Some t"
    then have "t = currentThread k" "r = InFinish" using d by (auto split: if_splits)
    then show "\<not> deleted (dispatch r k) t" using f c by auto
    show "\<exists>r'. ctl (dispatch r k) (currentThread (dispatch r k)) = Switched r'"
      using nc rl by (cases "((ctl k)(currentThread k := Switched r)) n") (use n c ot [of n] in \<open>auto split: if_splits\<close>)
  qed
  show "todo_ok (dispatch r k)"
    using parts(5) c r(1) unfolding todo_ok_def by (auto split: if_splits)
  have "woken (dispatch r k) = woken k"
    using n rl dispatch_in_P [OF c] by (auto simp: woken_def fun_eq_iff)
  then show "wake_ok (dispatch r k)" using parts(6) by (simp add: wake_ok_def)
qed

definition yielded :: "Threads \<Rightarrow> Threads" where
  "yielded k = k\<lparr>level := IntOff, readyList := tl (readyList k) @ [currentThread k],
     ctl := (ctl k)(currentThread k := Switched (InYield IntOn)), currentThread := hd (readyList k),
     tstatus := (tstatus k)(currentThread k := READY, hd (readyList k) := RUNNING)\<rparr>"

lemma yielded_fields [simp]:
  "level (yielded k) = IntOff" "next_tid (yielded k) = next_tid k" "todo (yielded k) = todo k"
  "readyList (yielded k) = tl (readyList k) @ [currentThread k]" "deleted (yielded k) = deleted k"
  "toBeDestroyed (yielded k) = toBeDestroyed k"
  "ctl (yielded k) = (ctl k)(currentThread k := Switched (InYield IntOn))" "currentThread (yielded k) = hd (readyList k)"
  "tstatus (yielded k) = (tstatus k)(currentThread k := READY, hd (readyList k) := RUNNING)"
  "queue_of (yielded k) = queue_of k" "value_of (yielded k) = value_of k"
  by (auto simp: yielded_def queue_of_def value_of_def fun_eq_iff)

lemma Thread_Yield_eq:
  assumes "sched_ok k" "ctl k (currentThread k) = Going"
  shows "Thread_Yield k = Inr (if readyList k = [] then k else yielded k)"
proof -
  have l: "level k = IntOn" using assms by (auto simp: sched_ok_def states_ok_def)
  have "currentThread k \<notin> set (readyList k)" using at_test(3) [OF assms(1)] assms(2) by blast
  then show ?thesis
    by (cases "readyList k") (auto simp: Thread_Yield_def FindNextToRun_def l RemoveFront_spec_def Run_thread_def
        yielded_def Let_def ReadyToRun_def Append_spec_def ChangeLevel_def)
qed

lemma yielded_sched_ok:
  assumes ok: "sched_ok k" and c: "ctl k (currentThread k) = Going" and ne: "readyList k \<noteq> []"
  shows "sched_ok (yielded k)"
proof (rule sched_okI)
  have parts: "ready_ok k" "queues_ok k" "states_ok k" "finished_ok k" "todo_ok k" "wake_ok k"
    using ok by (simp_all add: sched_ok_def)
  obtain n rs where rl: "readyList k = n # rs" using ne by (cases "readyList k") auto
  have n: "n < next_tid k" "tstatus k n = READY" "n \<notin> set rs" "distinct rs"
    using parts(1) rl by (auto simp: ready_ok_def)
  have d: "toBeDestroyed k = None" using parts(4) c by (auto simp: finished_ok_def)
  have r: "currentThread k < next_tid k" "tstatus k (currentThread k) = RUNNING" "n \<noteq> currentThread k"
    using parts(3) c n by (auto simp: states_ok_def)
  have ip: "in_P (yielded k) t s \<longleftrightarrow> in_P k t s" for t s using c by (auto simp: in_P_def)
  have ot: "other_ok (tstatus k t) (ctl k t)" if "t < next_tid k" "t \<noteq> currentThread k" for t
    using parts(3) that by (simp add: states_ok_def)
  have mem: "t \<in> set rs \<longleftrightarrow> t < next_tid k \<and> tstatus k t = READY \<and> t \<noteq> n" for t
    using ready_okD [OF parts(1), of t] n rl by auto
  show "ready_ok (yielded k)" using n r unfolding ready_ok_def by (auto simp: rl mem)
  show "queues_ok (yielded k)" using parts(2) n rl r ip unfolding queues_ok_def by auto
  show "states_ok (yielded k)"
    unfolding states_ok_def
  proof (intro conjI allI impI)
    show "current_ok (tstatus (yielded k) (currentThread (yielded k)))
        (ctl (yielded k) (currentThread (yielded k))) (level (yielded k))"
      using ot [of n] n r rl by (cases "ctl k n") auto
    fix t
    assume "t < next_tid (yielded k)" "t \<noteq> currentThread (yielded k)"
    then show "other_ok (tstatus (yielded k) t) (ctl (yielded k) t)"
      using ot [of t] r rl by auto
  qed (use n rl in simp)
  show "finished_ok (yielded k)"
    by (rule finished_ok_ctl [OF parts(4) d]) (use c d in auto)
  show "todo_ok (yielded k)" by (rule todo_ok_ctl [OF parts(5)]) (use c in auto)
  have "woken (yielded k) = woken k"
    using n rl ip r c by (auto simp: woken_def fun_eq_iff in_P_def)
  then show "wake_ok (yielded k)" using parts(6) by (simp add: wake_ok_def)
qed

text \<open>The thread switched to deletes the finished thread and goes on.\<close>

definition cleaned :: "Threads \<Rightarrow> Threads" where
  "cleaned k = (case toBeDestroyed k of None \<Rightarrow> k
     | Some t \<Rightarrow> k\<lparr>deleted := (deleted k)(t := True), toBeDestroyed := None\<rparr>)"

lemma cleaned_fields [simp]:
  "level (cleaned k) = level k" "next_tid (cleaned k) = next_tid k" "todo (cleaned k) = todo k"
  "readyList (cleaned k) = readyList k" "ctl (cleaned k) = ctl k" "currentThread (cleaned k) = currentThread k"
  "tstatus (cleaned k) = tstatus k" "sems (cleaned k) = sems k" "toBeDestroyed (cleaned k) = None"
  "queue_of (cleaned k) = queue_of k" "value_of (cleaned k) = value_of k" "view (cleaned k) = view k"
  by (auto simp: cleaned_def view_def rest_of_def fun_eq_iff split: option.split)

lemma cleaned_sched_ok: "sched_ok k \<Longrightarrow> sched_ok (cleaned k)"
  by (cases "toBeDestroyed k")
    (auto simp: cleaned_def sched_ok_def finished_ok_def split: if_splits)

lemma CheckToBeDestroyed_eq:
  assumes "sched_ok k" "ctl k (currentThread k) = Switched r"
  shows "CheckToBeDestroyed k = Inr (cleaned k)"
proof (cases "toBeDestroyed k")
  case (Some t)
  have "ctl k t = Switched InFinish" using assms Some by (auto simp: sched_ok_def finished_ok_def)
  moreover have "ctl k (currentThread k) \<noteq> Switched InFinish"
    using assms by (auto simp: sched_ok_def states_ok_def)
  ultimately have "t \<noteq> currentThread k" by auto
  then show ?thesis using Some by (simp add: CheckToBeDestroyed_def cleaned_def Thread_delete_def)
qed (simp add: CheckToBeDestroyed_def cleaned_def)

lemma going_sched_ok:
  assumes ok: "sched_ok k" and c: "ctl k (currentThread k) = Switched r" "r = InYield IntOn \<or> r = InRoot"
    and d: "toBeDestroyed k = None"
  shows "sched_ok (k\<lparr>level := IntOn, ctl := (ctl k)(currentThread k := Going)\<rparr>)" (is "sched_ok ?k")
proof (rule sched_okI)
  have parts: "ready_ok k" "queues_ok k" "states_ok k" "finished_ok k" "todo_ok k" "wake_ok k"
    using ok by (simp_all add: sched_ok_def)
  have ip: "in_P ?k t s \<longleftrightarrow> in_P k t s" for t s using c by (auto simp: in_P_def)
  show "queues_ok ?k" using parts(2) ip by (simp add: queues_ok_def)
  show "states_ok ?k" using parts(3) c by (auto simp: states_ok_def)
  show "finished_ok ?k" by (rule finished_ok_ctl [OF parts(4) d]) (use c d in auto)
  show "todo_ok ?k" by (rule todo_ok_ctl [OF parts(5)]) (use c in auto)
  have "woken ?k = woken k" using ip by (auto simp: woken_def fun_eq_iff)
  then show "wake_ok ?k" using parts(6) by (simp add: wake_ok_def)
qed (use ok in \<open>simp add: sched_ok_def\<close>)

definition forked :: "act list \<Rightarrow> Threads \<Rightarrow> Threads" where
  "forked func k = k\<lparr>next_tid := Suc (next_tid k), tstatus := (tstatus k)(next_tid k := READY),
     ctl := (ctl k)(next_tid k := Switched InRoot), todo := (todo k)(next_tid k := func @ [Finish]),
     readyList := readyList k @ [next_tid k]\<rparr>"

lemma forked_fields [simp]:
  "level (forked func k) = level k" "next_tid (forked func k) = Suc (next_tid k)"
  "todo (forked func k) = (todo k)(next_tid k := func @ [Finish])" "deleted (forked func k) = deleted k"
  "readyList (forked func k) = readyList k @ [next_tid k]" "ctl (forked func k) = (ctl k)(next_tid k := Switched InRoot)"
  "currentThread (forked func k) = currentThread k" "tstatus (forked func k) = (tstatus k)(next_tid k := READY)"
  "toBeDestroyed (forked func k) = toBeDestroyed k"
  "queue_of (forked func k) = queue_of k" "value_of (forked func k) = value_of k"
  "in_P (forked func k) t s \<longleftrightarrow> t \<noteq> next_tid k \<and> in_P k t s"
  by (auto simp: forked_def queue_of_def value_of_def in_P_def fun_eq_iff)

lemma Thread_Fork_eq:
  assumes "sched_ok k"
  shows "Thread_Fork func k = Inr (forked func k)"
proof -
  have "next_tid k \<notin> set (readyList k)" using assms ready_okD [of k "next_tid k"] by (simp add: sched_ok_def)
  then show ?thesis
    by (simp add: Thread_Fork_def Let_def ReadyToRun_def Append_spec_def ChangeLevel_def forked_def)
qed

lemma forked_sched_ok:
  assumes ok: "sched_ok k" and f: "Finish \<notin> set func"
  shows "sched_ok (forked func k)"
proof (rule sched_okI)
  have parts: "ready_ok k" "queues_ok k" "states_ok k" "finished_ok k" "todo_ok k" "wake_ok k"
    using ok by (simp_all add: sched_ok_def)
  show "ready_ok (forked func k)" using parts(1) unfolding ready_ok_def by (auto simp: less_Suc_eq)
  show "queues_ok (forked func k)" using parts(2) unfolding queues_ok_def by (auto simp: less_Suc_eq)
  show "states_ok (forked func k)" using parts(3) by (auto simp: states_ok_def less_Suc_eq)
  show "finished_ok (forked func k)"
    unfolding finished_ok_def
  proof (intro conjI allI impI)
    fix t
    have f: "deleted k t \<or> toBeDestroyed k = Some t \<longleftrightarrow> t < next_tid k \<and> ctl k t = Switched InFinish"
      and g: "toBeDestroyed k = Some t \<Longrightarrow> \<not> deleted k t \<and> (\<exists>r. ctl k (currentThread k) = Switched r)"
      using parts(4) by (simp_all add: finished_ok_def)
    show "deleted (forked func k) t \<or> toBeDestroyed (forked func k) = Some t \<longleftrightarrow>
        t < next_tid (forked func k) \<and> ctl (forked func k) t = Switched InFinish"
      using f by (cases "t = next_tid k") (simp_all add: less_Suc_eq)
    assume "toBeDestroyed (forked func k) = Some t"
    then show "\<not> deleted (forked func k) t" "\<exists>r. ctl (forked func k) (currentThread (forked func k)) = Switched r"
      using g by auto
  qed
  show "todo_ok (forked func k)" using parts(5) f unfolding todo_ok_def by (auto simp: less_Suc_eq)
  have "woken (forked func k) = woken k" by (auto simp: woken_def fun_eq_iff less_Suc_eq)
  then show "wake_ok (forked func k)" using parts(6) by (simp add: wake_ok_def)
qed

lemma finish_sched_ok:
  assumes ok: "sched_ok k" and c: "ctl k (currentThread k) = Going" "todo k (currentThread k) = Finish # as"
  shows "as = [] \<and> sched_ok (k\<lparr>todo := (todo k)(currentThread k := []), level := IntOff,
    tstatus := (tstatus k)(currentThread k := BLOCKED), ctl := (ctl k)(currentThread k := Sleeping InFinish)\<rparr>)"
    (is "_ \<and> sched_ok ?k")
proof (intro conjI sched_okI)
  have parts: "ready_ok k" "queues_ok k" "states_ok k" "finished_ok k" "todo_ok k" "wake_ok k"
    using ok by (simp_all add: sched_ok_def)
  note a = at_test [OF ok disjI1 [OF c(1)]]
  obtain xs where "Finish # as = xs @ [Finish]" "Finish \<notin> set xs"
    using todo_okD [OF parts(5) a(1)] c by auto
  then show "as = []" by (cases xs) auto
  have ip: "in_P ?k t s \<longleftrightarrow> in_P k t s" for t s using c by (auto simp: in_P_def)
  have nip: "\<not> in_P k (currentThread k) s" for s using c by (auto simp: in_P_def)
  have d: "toBeDestroyed k = None" using parts(4) c by (auto simp: finished_ok_def)
  show "ready_ok ?k" using parts(1) a by (auto simp: ready_ok_def)
  show "queues_ok ?k" using parts(2) ip nip unfolding queues_ok_def by auto
  show "states_ok ?k" using parts(3) by (auto simp: states_ok_def)
  show "finished_ok ?k" by (rule finished_ok_ctl [OF parts(4) d]) (use c d in auto)
  show "todo_ok ?k" using parts(5) unfolding todo_ok_def by auto
  have "woken ?k = woken k" using ip nip by (auto simp: woken_def fun_eq_iff)
  then show "wake_ok ?k" using parts(6) by (simp add: wake_ok_def)
qed

end
