(* ===== verification/Synch.thy ===== *)
theory Synch
  imports Threads
begin

text \<open>
  The synchronization primitives on top of the scheduler.  First, every step of the system
  refines the view of \<open>Threads\<close>: it either leaves the view unchanged (a context switch, a
  sleep, a wake-up) or is one atomic call of the running thread.  Then the properties of the
  primitives, proved on the view: the semaphore of a lock is a token that one thread has, the
  waiter of a \<open>Wait\<close> is signalled once and freed after its last use.
\<close>

section \<open>The steps of a thread refine the view\<close>

definition refines :: "Threads \<Rightarrow> Threads \<Rightarrow> bool" where
  "refines k k' \<longleftrightarrow> view k' = view k \<or> pstep (currentThread k) (view k) (view k')"

lemma strip_simps [simp]:
  "strip [] = []" "strip (Yield_call # as) = strip as" "a \<noteq> Yield_call \<Longrightarrow> strip (a # as) = a # strip as"
  "strip (as @ bs) = strip as @ strip bs"
  by (simp_all add: strip_def)

lemma view_sel [simp]:
  "rest (view k) = rest_of k" "counts (view k) = value_of k" "holder (view k) = lockHolder k"
  "waiters (view k) = waitQueue k" "threads (view k) = next_tid k" "new_waiter (view k) = next_waiter k"
  "lists (view k) = slist k" "puts (view k) = put_log k" "gots (view k) = got_log k"
  by (simp_all add: view_def)

lemma rest_of_going:
  assumes "sched_ok k" "ctl k (currentThread k) = Going"
  shows "rest_of k (currentThread k) = strip (todo k (currentThread k))"
  using assms by (simp add: rest_of_def sched_ok_def states_ok_def)

lemma rest_of_todo:
  assumes "sched_ok k" "ctl k (currentThread k) = Going"
  shows "rest_of (k\<lparr>todo := (todo k)(currentThread k := bs)\<rparr>) = (rest_of k)(currentThread k := strip bs)"
  using assms by (auto simp: rest_of_def sched_ok_def states_ok_def fun_eq_iff)

lemma rest_of_other [simp]:
  "rest_of (k\<lparr>lockHolder := h\<rparr>) = rest_of k" "rest_of (k\<lparr>waitQueue := wq\<rparr>) = rest_of k"
  "rest_of (k\<lparr>next_waiter := n\<rparr>) = rest_of k" "rest_of (k\<lparr>slist := sl\<rparr>) = rest_of k"
  "rest_of (k\<lparr>put_log := pl\<rparr>) = rest_of k" "rest_of (k\<lparr>got_log := gl\<rparr>) = rest_of k"
  "rest_of (k\<lparr>sems := ss\<rparr>) = rest_of k" "rest_of (k\<lparr>level := lv\<rparr>) = rest_of k"
  by (auto simp: rest_of_def fun_eq_iff)

lemma level_same: "level k = lv \<Longrightarrow> k\<lparr>level := lv\<rparr> = (k :: Threads)"
  by (cases k) simp

lemma P_loop_eq:
  assumes "value_of k s = Some v" "currentThread k \<notin> set (queue_of k s)"
  shows "P_loop s IntOn (k\<lparr>level := IntOff\<rparr>) = Inr (if v = 0 then block s k else pass s v k)"
  using assms
  by (simp add: P_loop_def get_sem_def sem_of_value Append_spec_def Thread_Sleep_def block_def pass_def ChangeLevel_def)

lemma block_view:
  assumes "sched_ok k" "ctl k (currentThread k) = Going" "todo k (currentThread k) = P s # as"
    "value_of k s = Some 0"
  shows "view (block s (k\<lparr>todo := (todo k)(currentThread k := as)\<rparr>)) = view k"
  using assms by (auto simp: view_def block_def rest_of_def fun_eq_iff value_of_def strip_def)

lemma block_view_again:
  assumes "ctl k (currentThread k) = Switched (InP s IntOn)" "value_of k s = Some 0"
  shows "view (block s k) = view k"
  using assms by (auto simp: view_def block_def rest_of_def fun_eq_iff value_of_def)

lemma pass_view:
  assumes "currentThread k < next_tid k" "ctl k (currentThread k) = Going \<or> ctl k (currentThread k) = Switched (InP s IntOn)"
  shows "view (pass s v k) = (view k)\<lparr>rest := (rest_of k)(currentThread k := strip (todo k (currentThread k))),
     counts := (value_of k)(s \<mapsto> v - 1)\<rparr>"
  using assms by (auto simp: view_def pass_def rest_of_def fun_eq_iff value_of_def)

lemma P_refines:
  assumes ok: "sched_ok k" and c: "ctl k (currentThread k) = Going" "todo k (currentThread k) = P s # as"
    and v: "value_of k s = Some v"
  shows "\<exists>k'. Semaphore_P s (k\<lparr>todo := (todo k)(currentThread k := as)\<rparr>) = Inr k' \<and> sched_ok k' \<and> refines k k'"
proof -
  let ?p = "k\<lparr>todo := (todo k)(currentThread k := as)\<rparr>"
  have p: "sched_ok ?p" using sched_ok_todo [OF ok c, of "[]"] by simp
  have on: "level k = IntOn" using ok c by (auto simp: sched_ok_def states_ok_def)
  have d: "toBeDestroyed k = None" using ok c by (auto simp: sched_ok_def finished_ok_def)
  have cur: "currentThread k < next_tid k" using ok by (simp add: sched_ok_def states_ok_def)
  have nq: "currentThread k \<notin> set (queue_of k s)" using at_test(4) [OF ok disjI1 [OF c(1)]] .
  have e: "Semaphore_P s ?p = Inr (if v = 0 then block s ?p else pass s v ?p)"
    using P_loop_eq [of ?p s v] v nq on by (simp add: Semaphore_P_def ChangeLevel_def)
  show ?thesis
  proof (cases "v = 0")
    case True
    then show ?thesis using e block_sched_ok [OF p, of s] c d block_view [OF ok c] v by (simp add: refines_def)
  next
    case False
    then have pos: "0 < v" using ok v by (auto simp: sched_ok_def wake_ok_def order_less_le)
    have "rest_of k (currentThread k) = P s # strip as" using rest_of_going [OF ok c(1)] c(2) by simp
    from pstep.P [of "view k" "currentThread k" s "strip as" v] this v pos
    have "pstep (currentThread k) (view k) (view (pass s v ?p))"
      using pass_view [of ?p s v] cur c rest_of_todo [OF ok c(1), of as] by (simp add: view_def)
    then show ?thesis using e False pass_sched_ok [OF p, of s v] c d v pos by (simp add: refines_def)
  qed
qed

lemma P_resume_refines:
  assumes ok: "sched_ok k" and c: "ctl k (currentThread k) = Switched (InP s IntOn)"
    and v: "value_of k s = Some v"
  shows "\<exists>k'. resumed (InP s IntOn) k = Inr k' \<and> sched_ok k' \<and> refines k k'"
proof -
  let ?p = "cleaned k"
  have p: "sched_ok ?p" using cleaned_sched_ok [OF ok] .
  have off: "level k = IntOff" using ok c by (auto simp: sched_ok_def states_ok_def)
  have cur: "currentThread k < next_tid k" using ok by (simp add: sched_ok_def states_ok_def)
  have nq: "currentThread k \<notin> set (queue_of k s)" using at_test(4) [OF ok disjI2 [OF c(1)]] .
  have lv: "?p\<lparr>level := IntOff\<rparr> = ?p" by (rule level_same) (simp add: off)
  have e: "resumed (InP s IntOn) k = Inr (if v = 0 then block s ?p else pass s v ?p)"
    using P_loop_eq [of ?p s v] v nq off CheckToBeDestroyed_eq [OF ok c] unfolding lv by (simp add: after_switch_def)
  show ?thesis
  proof (cases "v = 0")
    case True
    then show ?thesis using e block_sched_ok [OF p, of s] c block_view_again [of ?p s] v by (simp add: refines_def)
  next
    case False
    then have pos: "0 < v" using ok v by (auto simp: sched_ok_def wake_ok_def order_less_le)
    have "rest_of k (currentThread k) = P s # strip (todo k (currentThread k))"
      using c cur by (simp add: rest_of_def)
    from pstep.P [of "view k" "currentThread k" s "strip (todo k (currentThread k))" v] this v pos
    have "pstep (currentThread k) (view k) (view (pass s v ?p))"
      using pass_view [of ?p s v] cur c view_sel(1) [of ?p] view_sel(1) [of k] cleaned_fields(12) [of k]
      by (simp add: view_def)
    then show ?thesis using e False pass_sched_ok [OF p, of s v] c v pos by (simp add: refines_def)
  qed
qed

lemma exec_refines:
  assumes ok: "sched_ok k" and c: "ctl k (currentThread k) = Going" "todo k (currentThread k) = a # as"
    and safe: "a \<noteq> Yield_call \<Longrightarrow> safe_call (currentThread k) (view k) a"
  shows "\<exists>k'. exec a (k\<lparr>todo := (todo k)(currentThread k := as)\<rparr>) = Inr k' \<and> sched_ok k' \<and> refines k k'"
proof -
  let ?t = "currentThread k"
  let ?p = "k\<lparr>todo := (todo k)(?t := as)\<rparr>"
  note r = rest_of_going [OF ok c(1), unfolded c(2)] and rt = rest_of_todo [OF ok c(1)]
  have p: "a \<noteq> Finish \<Longrightarrow> sched_ok ?p" using sched_ok_todo [OF ok c, of "[]"] by simp
  note td = sched_ok_todo [OF ok c]
  have pv: "view (k\<lparr>todo := (todo k)(?t := bs)\<rparr>) = (view k)\<lparr>rest := (rest_of k)(?t := strip bs)\<rparr>" for bs
    using rt [of bs] by (simp add: view_def)
  note ps = pstep.intros [of "view k" ?t, unfolded view_sel r]
  show ?thesis
  proof (cases a)
    case (P s)
    then show ?thesis using P_refines [OF ok c(1)] c(2) safe by auto
  next
    case (V s)
    then obtain v where v: "value_of k s = Some v" using safe by auto
    obtain k' where k': "Semaphore_V s ?p = Inr k'" "sched_ok k'"
      "view k' = (view ?p)\<lparr>counts := (value_of k)(s \<mapsto> v + 1)\<rparr>"
      using Semaphore_V_ok [OF p, of s v] V v by auto
    then show ?thesis using ps(2) [of s "strip as" v] V v pv [of as] by (simp add: refines_def)
  next
    case (Acquire l)
    then show ?thesis using td [of "[P (LockSem l), Hold l]"] ps(3) [of l "strip as"]
      pv [of "P (LockSem l) # Hold l # as"] by (simp add: Lock_Acquire_def refines_def)
  next
    case (Hold l)
    then show ?thesis using p ps(4) [of l "strip as"] rt [of as] by (simp add: refines_def view_def)
  next
    case (Release l)
    let ?b = "k\<lparr>lockHolder := (lockHolder k)(l := None)\<rparr>"
    show ?thesis using sched_ok_todo [of ?b a as "[V (LockSem l)]"] ok c Release ps(5) [of l "strip as"] safe
        rest_of_todo [of ?b "V (LockSem l) # as"]
      by (simp add: Lock_Release_def IsHeldByCurrentThread_def refines_def view_def)
  next
    case (Wait c l)
    let ?w = "next_waiter k"
    let ?bs = "[Release l, P (Waiter ?w), Acquire l, Delete (Waiter ?w)]"
    let ?b = "k\<lparr>next_waiter := Suc ?w, sems := (sems k)(Waiter ?w \<mapsto> Semaphore_new 0),
      waitQueue := (waitQueue k)(c := waitQueue k c @ [?w])\<rparr>"
    let ?k = "?b\<lparr>todo := (todo k)(?t := ?bs @ as)\<rparr>"
    have h: "lockHolder k l = Some ?t" "?w \<notin> set (waitQueue k c)" "sems k (Waiter ?w) = None"
      using safe Wait by (auto simp: value_of_def)
    have "exec a ?p = Inr ?k"
      using h Wait by (simp add: Condition_Wait_def IsHeldByCurrentThread_def Append_spec_def Let_def)
    moreover have b: "sched_ok ?b"
      using sched_ok_new_sem [of "k\<lparr>next_waiter := Suc ?w\<rparr>" "Waiter ?w"] ok h by simp
    then have "sched_ok ?k" using sched_ok_todo [of ?b a as ?bs] \<open>ctl k ?t = Going\<close> \<open>todo k ?t = a # as\<close> Wait by simp
    moreover have vk: "value_of ?k = (value_of k)(Waiter ?w \<mapsto> 0)"
      by (auto simp: value_of_def Semaphore_new_def fun_eq_iff)
    have rk: "rest_of ?k = (rest_of k)(?t := strip (?bs @ as))"
      using rest_of_todo [OF b, of "?bs @ as"] \<open>ctl k ?t = Going\<close> by simp
    have "pstep ?t (view k) (view ?k)"
      unfolding view_def [of ?k] vk rk using ps(6) [of c l "strip as" ?w] h Wait by (simp add: view_def)
    ultimately show ?thesis by (auto simp: refines_def)
  next
    case (Signal c l)
    then have h: "lockHolder k l = Some ?t" using safe by simp
    show ?thesis
    proof (cases "waitQueue k c")
      case Nil
      then show ?thesis using h Signal p ps(8) [of c l "strip as"] pv [of as]
        by (simp add: Condition_Signal_def IsHeldByCurrentThread_def refines_def)
    next
      case (Cons w ws)
      let ?b = "k\<lparr>waitQueue := (waitQueue k)(c := ws)\<rparr>"
      show ?thesis using Cons h Signal sched_ok_todo [of ?b a as "[V (Waiter w)]"] ok
        ps(7) [of c l "strip as" w ws] rest_of_todo [of ?b "V (Waiter w) # as"]
        \<open>ctl k ?t = Going\<close> \<open>todo k ?t = a # as\<close>
        by (simp add: Condition_Signal_def IsHeldByCurrentThread_def refines_def RemoveFront_spec_def view_def)
    qed
  next
    case (Broadcast c l)
    show ?thesis
    proof (cases "waitQueue k c = []")
      case True
      then show ?thesis using Broadcast p ps(10) [of c l "strip as"] pv [of as]
        by (simp add: Condition_Broadcast_def refines_def)
    next
      case False
      then show ?thesis using Broadcast td [of "[Signal c l, Broadcast c l]"] ps(9) [of c l "strip as"]
        pv [of "Signal c l # Broadcast c l # as"] by (simp add: Condition_Broadcast_def refines_def)
    qed
  next
    case (Delete s)
    have np: "P s \<notin> set (rest_of k u)" for u using safe Delete by simp
    then have "P s \<notin> set (strip as)" using np [of ?t] r Delete by simp
    then have "\<forall>u. P s \<notin> set (rest_of ?p u)" using np rt [of as] by simp
    then have "sched_ok (?p\<lparr>sems := (sems k)(s := None)\<rparr>)"
      using sched_ok_delete [OF p, of s] Delete by simp
    moreover have "exec a ?p = Inr (?p\<lparr>sems := (sems k)(s := None)\<rparr>)"
      using safe Delete by (auto simp: get_sem_def value_of_def)
    moreover have "pstep ?t (view k) (view (?p\<lparr>sems := (sems k)(s := None)\<rparr>))"
      using ps(11) [of s "strip as"] Delete rt [of as] value_of_other(17) [of ?p s] by (simp add: view_def)
    ultimately show ?thesis by (auto simp: refines_def)
  next
    case (SL_Append n x)
    let ?bs = "[Acquire (ListLock n), SL_put n x, Signal (ListCond n) (ListLock n), Release (ListLock n)]"
    show ?thesis using SL_Append td [of ?bs] ps(12) [of n x "strip as"] pv [of "?bs @ as"]
      by (simp add: SynchList_Append_def refines_def)
  next
    case (SL_put n x)
    then show ?thesis using safe p ps(13) [of n x "strip as"] rt [of as]
      by (simp add: SynchList_put_def refines_def Append_spec_def view_def)
  next
    case (SL_RemoveFront n)
    let ?bs = "[Acquire (ListLock n), SL_while n, Release (ListLock n)]"
    show ?thesis using SL_RemoveFront td [of ?bs] ps(14) [of n "strip as"] pv [of "?bs @ as"]
      by (simp add: SynchList_RemoveFront_def refines_def)
  next
    case (SL_while n)
    show ?thesis
    proof (cases "slist k n")
      case Nil
      let ?bs = "[Wait (ListCond n) (ListLock n), SL_while n]"
      show ?thesis using SL_while Nil td [of ?bs] ps(15) [of n "strip as"] pv [of "?bs @ as"]
        by (simp add: SynchList_while_def refines_def)
    next
      case (Cons x xs)
      then show ?thesis using SL_while p ps(16) [of n "strip as" x xs] rt [of as]
        by (simp add: SynchList_while_def refines_def RemoveFront_spec_def view_def)
    qed
  next
    case Yield_call
    then have pg: "sched_ok ?p" "ctl ?p (currentThread ?p) = Going" using p c by simp_all
    have same: "view ?p = view k" using pv [of as] r Yield_call by (simp add: view_def fun_upd_idem)
    have "view (yielded ?p) = view ?p"
      using c by (auto simp: view_def rest_of_def yielded_def fun_eq_iff value_of_def)
    then show ?thesis using Yield_call Thread_Yield_eq [OF pg] yielded_sched_ok [OF pg] pg(1) same
      by (auto simp: refines_def)
  next
    case (Fork func)
    then have f: "Finish \<notin> set func" using safe by simp
    have "rest_of (forked func ?p) = (rest_of k)(?t := strip as, next_tid k := strip func @ [Finish])"
      using ok c rt [of as] by (auto simp: rest_of_def fun_eq_iff sched_ok_def states_ok_def less_Suc_eq)
    then have "pstep ?t (view k) (view (forked func ?p))"
      using ps(17) [of func "strip as" "next_tid k"] Fork by (simp add: view_def) (simp add: forked_def)
    then show ?thesis using Fork Thread_Fork_eq [OF p] forked_sched_ok [OF p f] by (simp add: refines_def)
  next
    case Finish
    let ?k = "k\<lparr>todo := (todo k)(?t := []), level := IntOff, tstatus := (tstatus k)(?t := BLOCKED),
      ctl := (ctl k)(?t := Sleeping InFinish)\<rparr>"
    have f: "as = []" "sched_ok ?k" using finish_sched_ok [OF ok c(1)] c(2) Finish by simp_all
    have "rest_of ?k = (rest_of k)(?t := [])" using c by (auto simp: rest_of_def fun_eq_iff)
    then have "pstep ?t (view k) (view ?k)"
      using ps(18) [of "[]"] Finish f(1) by (simp add: view_def)
    moreover have "exec a ?p = Inr ?k"
      using Finish f(1) by (simp add: Thread_Finish_def Thread_Sleep_def ChangeLevel_def)
    ultimately show ?thesis using f(2) by (auto simp: refines_def)
  qed
qed

lemma dispatch_view:
  assumes "ctl k (currentThread k) = Sleeping r"
  shows "view (dispatch r k) = view k"
  using assms by (cases r) (auto simp: view_def rest_of_def dispatch_def fun_eq_iff value_of_def)

lemma going_view:
  assumes "ctl k (currentThread k) = Switched r" "r = InYield IntOn \<or> r = InRoot"
  shows "view (k\<lparr>level := IntOn, ctl := (ctl k)(currentThread k := Going)\<rparr>) = view k"
  using assms by (auto simp: view_def rest_of_def fun_eq_iff value_of_def)

lemma resume_refines:
  assumes ok: "sched_ok k" and c: "ctl k (currentThread k) = Switched r" "r = InYield IntOn \<or> r = InRoot"
  shows "\<exists>k'. resumed r k = Inr k' \<and> sched_ok k' \<and> refines k k'"
proof -
  let ?k = "(cleaned k)\<lparr>level := IntOn, ctl := (ctl k)(currentThread k := Going)\<rparr>"
  have cl: "ctl (cleaned k) (currentThread (cleaned k)) = Switched r" using c by simp
  have "sched_ok ?k" using going_sched_ok [OF cleaned_sched_ok [OF ok] cl c(2)] by simp
  moreover have "view ?k = view k" using going_view [OF cl c(2)] by simp
  moreover have "level k = IntOff" using ok c by (auto simp: sched_ok_def states_ok_def)
  then have "resumed r k = Inr ?k"
    using c(2) CheckToBeDestroyed_eq [OF ok c(1)] by (auto simp: after_switch_def Thread_Begin_def ChangeLevel_def)
  ultimately show ?thesis by (auto simp: refines_def)
qed

text \<open>The call the current thread makes or is inside of.\<close>

definition next_call :: "Threads \<Rightarrow> act option" where
  "next_call k =
     (case ctl k (currentThread k) of
        Going \<Rightarrow> (case todo k (currentThread k) of [] \<Rightarrow> None | a # as \<Rightarrow> Some a)
      | Sleeping r \<Rightarrow> None
      | Switched r \<Rightarrow> (case r of InP s old \<Rightarrow> Some (P s) | _ \<Rightarrow> None))"

lemma next_call_rest:
  assumes "sched_ok k" "next_call k = Some a" "a \<noteq> Yield_call"
  shows "\<exists>as. rest_of k (currentThread k) = a # as"
proof -
  have "currentThread k < next_tid k" using assms(1) by (simp add: sched_ok_def states_ok_def)
  then show ?thesis
    using assms(2,3) by (auto simp: next_call_def rest_of_def split: ctl.splits list.splits resume.splits)
qed

lemma thread_step_refines:
  assumes ok: "sched_ok k"
    and safe: "\<And>a. next_call k = Some a \<Longrightarrow> safe_call (currentThread k) (view k) a"
  shows "\<exists>k'. thread_step k = Inr k' \<and> sched_ok k' \<and> refines k k'"
proof (cases "ctl k (currentThread k)")
  case Going
  have cur: "currentThread k < next_tid k" using ok by (simp add: sched_ok_def states_ok_def)
  obtain a as where t: "todo k (currentThread k) = a # as"
    using todo_okD [of k "currentThread k"] ok cur Going by (auto simp: sched_ok_def) (metis append_is_Nil_conv list.exhaust)
  have "safe_call (currentThread k) (view k) a" using safe t Going by (simp add: next_call_def)
  from exec_refines [OF ok Going t this] show ?thesis by (simp add: thread_step_def Going t)
next
  case (Sleeping r)
  then show ?thesis
    using Sleep_loop_eq [OF ok Sleeping] dispatch_sched_ok [OF ok Sleeping] dispatch_view [OF Sleeping] ok
    by (auto simp: thread_step_def refines_def)
next
  case (Switched r)
  have "live_resume r" and cur: "currentThread k < next_tid k"
    using ok Switched by (auto simp: sched_ok_def states_ok_def)
  then consider s where "r = InP s IntOn" | "r = InYield IntOn \<or> r = InRoot" by (cases r) auto
  then show ?thesis
  proof cases
    case 1
    then obtain v where "value_of k s = Some v" using safe [of "P s"] Switched by (auto simp: next_call_def)
    then show ?thesis using P_resume_refines [OF ok] Switched 1 by (simp add: thread_step_def)
  next
    case 2
    then show ?thesis using resume_refines [OF ok Switched] Switched by (simp add: thread_step_def)
  qed
qed

text \<open>A step of the view: a call of one thread, or a device that signals a semaphore.\<close>

inductive sstep :: "Prog \<Rightarrow> Prog \<Rightarrow> bool" where
  call: "t < threads S \<Longrightarrow> pstep t S S' \<Longrightarrow> sstep S S'"
| signal: "counts S (Named n) = Some v \<Longrightarrow> sstep S (S\<lparr>counts := (counts S)(Named n \<mapsto> v + 1)\<rparr>)"

lemma timer_step:
  assumes "sched_ok k" "level k = IntOn"
  shows "sched_ok (calls [Yield_call] k) \<and> view (calls [Yield_call] k) = view k"
proof -
  have g: "ctl k (currentThread k) = Going" and cur: "currentThread k < next_tid k"
    using assms by (auto simp: sched_ok_def states_ok_def current_ok_def split: ctl.splits)
  obtain as where as: "todo k (currentThread k) = as @ [Finish]" "Finish \<notin> set as"
    using todo_okD [of k "currentThread k"] assms(1) g cur by (auto simp: sched_ok_def)
  let ?k = "calls [Yield_call] k"
  have "todo_ok ?k"
    using assms(1) as by (auto simp: sched_ok_def todo_ok_def)
  then have "sched_ok ?k" using assms(1) by (simp add: sched_ok_def)
  moreover have "view ?k = view k" using rest_of_todo [OF assms(1) g, of "Yield_call # todo k (currentThread k)"]
      rest_of_going [OF assms(1) g] by (simp add: view_def fun_upd_idem)
  ultimately show ?thesis by simp
qed

section \<open>Locks\<close>

text \<open>Where a thread is with respect to a lock, as its remaining calls tell: outside, with the
  lock's semaphore but not yet its holder, holding it, and no longer its holder but with the
  semaphore still to signal.\<close>

datatype phase = Outside | Got | Inside | Leaving

fun lock_use :: "lockid \<Rightarrow> act \<Rightarrow> (phase \<times> phase) option" where
  "lock_use l (P s) = (if s = LockSem l then Some (Outside, Got) else None)"
| "lock_use l (V s) = (if s = LockSem l then Some (Leaving, Outside) else None)"
| "lock_use l (Acquire m) = (if m = l then Some (Outside, Inside) else None)"
| "lock_use l (Hold m) = (if m = l then Some (Got, Inside) else None)"
| "lock_use l (Release m) = (if m = l then Some (Inside, Outside) else None)"
| "lock_use l (Wait c m) = (if m = l then Some (Inside, Inside) else None)"
| "lock_use l (Signal c m) = (if m = l then Some (Inside, Inside) else None)"
| "lock_use l (Broadcast c m) = (if m = l then Some (Inside, Inside) else None)"
| "lock_use l (SL_Append n x) = (if ListLock n = l then Some (Outside, Outside) else None)"
| "lock_use l (SL_RemoveFront n) = (if ListLock n = l then Some (Outside, Outside) else None)"
| "lock_use l (SL_put n x) = (if ListLock n = l then Some (Inside, Inside) else None)"
| "lock_use l (SL_while n) = (if ListLock n = l then Some (Inside, Inside) else None)"
| "lock_use l _ = None"

fun phase_of :: "lockid \<Rightarrow> act list \<Rightarrow> phase" where
  "phase_of l [] = Outside"
| "phase_of l (a # as) = (case lock_use l a of Some (src, dst) \<Rightarrow> src | None \<Rightarrow> phase_of l as)"

text \<open>The calls respect a lock: each finds the thread where it must be, and the thread ends
  outside.\<close>

fun disciplined :: "lockid \<Rightarrow> phase \<Rightarrow> act list \<Rightarrow> bool" where
  "disciplined l ph [] = (ph = Outside)"
| "disciplined l ph (a # as) =
     (case lock_use l a of Some (src, dst) \<Rightarrow> ph = src \<and> disciplined l dst as | None \<Rightarrow> disciplined l ph as)"

fun forks_ok :: "act \<Rightarrow> bool" where
  "forks_ok (Fork func) = (list_all user_act func \<and> (\<forall>l. disciplined l Outside func) \<and> list_all forks_ok func)"
| "forks_ok _ = True"

text \<open>A program: calls of the public operations, releasing every lock it acquires; and the same
  for the bodies of the threads it forks.\<close>

definition body_ok :: "act list \<Rightarrow> bool" where
  "body_ok func \<longleftrightarrow> list_all user_act func \<and> (\<forall>l. disciplined l Outside func) \<and> list_all forks_ok func"

lemma disciplined_phase: "disciplined l ph as \<Longrightarrow> phase_of l as = ph"
  by (induction as arbitrary: ph) (auto split: option.splits)

lemma disciplined_strip [simp]: "disciplined l ph (strip as) \<longleftrightarrow> disciplined l ph as"
proof (induction as arbitrary: ph)
  case (Cons a as)
  then show ?case by (cases "a = Yield_call") (auto split: option.splits)
qed simp

lemma disciplined_Finish [simp]: "disciplined l ph (as @ [Finish]) \<longleftrightarrow> disciplined l ph as"
  by (induction as arbitrary: ph) (auto split: option.splits)

definition token :: "Prog \<Rightarrow> lockid \<Rightarrow> tid set" where
  "token S l = {t. t < threads S \<and> phase_of l (rest S t) \<noteq> Outside}"

definition lock_ok :: "Prog \<Rightarrow> bool" where
  "lock_ok S \<longleftrightarrow>
     (\<forall>t < threads S. \<forall>l. disciplined l (phase_of l (rest S t)) (rest S t)) \<and>
     (\<forall>l t. holder S l = Some t \<longleftrightarrow> t < threads S \<and> phase_of l (rest S t) = Inside) \<and>
     (\<forall>l. \<exists>v. counts S (LockSem l) = Some v \<and> 0 \<le> v \<and> v + int (card (token S l)) = 1)"

lemma finite_token [simp]: "finite (token S l)"
  by (simp add: token_def)

lemma lock_okD:
  assumes "lock_ok S" "t < threads S"
  shows "disciplined l (phase_of l (rest S t)) (rest S t)"
  using assms by (simp add: lock_ok_def)

lemma lock_ok_count:
  "lock_ok S \<Longrightarrow> \<exists>v. counts S (LockSem l) = Some v \<and> 0 \<le> v \<and> v + int (card (token S l)) = 1"
  by (simp add: lock_ok_def)

lemma lock_ok_holder: "lock_ok S \<Longrightarrow> holder S l = Some t \<longleftrightarrow> t < threads S \<and> phase_of l (rest S t) = Inside"
  by (simp add: lock_ok_def)

text \<open>A thread that has the token has it alone.\<close>

lemma token_unique:
  assumes "lock_ok S" "t \<in> token S l"
  shows "token S l = {t}" "counts S (LockSem l) = Some 0"
proof -
  obtain v where v: "counts S (LockSem l) = Some v" "0 \<le> v" "v + int (card (token S l)) = 1"
    using lock_ok_count [OF assms(1)] by blast
  moreover have "card (token S l) \<noteq> 0" using assms(2) by auto
  ultimately have "card (token S l) = 1" "v = 0" by linarith+
  then show "token S l = {t}" using assms(2) by (auto simp: card_1_singleton_iff)
  show "counts S (LockSem l) = Some 0" using v \<open>v = 0\<close> by simp
qed

text \<open>Calls after which the thread is where it was, for every lock.\<close>

lemma lock_ok_same:
  assumes ok: "lock_ok S" and t: "t < threads S"
    and d: "\<And>l ph. disciplined l ph (rest S t) \<Longrightarrow> disciplined l ph bs"
    and S': "rest S' = (rest S)(t := bs)" "threads S' = threads S" "holder S' = holder S"
      "\<And>l. counts S' (LockSem l) = counts S (LockSem l)"
  shows "lock_ok S'"
proof -
  have ds: "disciplined l (phase_of l (rest S t)) bs" for l using d [OF lock_okD [OF ok t]] .
  have p: "phase_of l (rest S' u) = phase_of l (rest S u)" for l u
    using disciplined_phase [OF ds, of l] S'(1) by simp
  have "token S' l = token S l" for l unfolding token_def p S'(2) ..
  then show ?thesis using ok ds S' unfolding lock_ok_def p by simp
qed

text \<open>Calls after which the thread is in another phase of one lock.\<close>

lemma lock_ok_move:
  assumes ok: "lock_ok S" and t: "t < threads S" and ph: "phase_of l (rest S t) = ph"
    and d: "disciplined l ph' bs" "\<And>m ph. m \<noteq> l \<Longrightarrow> disciplined m ph (rest S t) \<Longrightarrow> disciplined m ph bs"
    and S': "rest S' = (rest S)(t := bs)" "threads S' = threads S"
      "\<And>m. m \<noteq> l \<Longrightarrow> holder S' m = holder S m"
      "\<And>m. m \<noteq> l \<Longrightarrow> counts S' (LockSem m) = counts S (LockSem m)"
    and h: "ph' = Inside \<Longrightarrow> ph \<noteq> Outside"
      "holder S' l = (if ph' = Inside then Some t else if ph = Inside then None else holder S l)"
    and v: "counts S (LockSem l) = Some v" "counts S' (LockSem l) = Some v'" "0 \<le> v'"
      "v' + (if ph' = Outside then 0 else 1) = v + (if ph = Outside then 0 else 1)"
  shows "lock_ok S'"
proof -
  have dm: "m \<noteq> l \<Longrightarrow> disciplined m (phase_of m (rest S t)) bs" for m using d(2) lock_okD [OF ok t] by blast
  have p: "phase_of m (rest S' u) = (if u = t \<and> m = l then ph' else phase_of m (rest S u))" for m u
    using disciplined_phase [OF d(1)] disciplined_phase [OF dm, of m] by (auto simp: S')
  have tok: "token S' m = (if m \<noteq> l then token S m else if ph' = Outside then token S l - {t} else insert t (token S l))" for m
    using t by (auto simp: token_def p S'(2))
  have tS: "t \<in> token S l \<longleftrightarrow> ph \<noteq> Outside" using t ph by (simp add: token_def)
  obtain w where w: "counts S (LockSem l) = Some w" "0 \<le> w" "w + int (card (token S l)) = 1"
    using lock_ok_count [OF ok] by blast
  have lone: "phase_of l (rest S u) = Outside" if "u \<noteq> t" "u < threads S" "ph \<noteq> Outside" for u
    using token_unique(1) [OF ok, of t l] tS that by (auto simp: token_def)
  have "Suc 0 \<le> card (token S l)" if "ph \<noteq> Outside"
    using that tS by (auto simp: Suc_le_eq card_gt_0_iff)
  then have card: "int (card (token S' l)) = int (card (token S l)) + (if ph' = Outside then 0 else 1) - (if ph = Outside then 0 else 1)"
    using tS unfolding tok by (cases "ph = Outside"; cases "ph' = Outside") (simp_all add: card_insert_if of_nat_diff)
  show ?thesis
    unfolding lock_ok_def
  proof (intro conjI allI impI)
    fix u m
    assume "u < threads S'"
    then show "disciplined m (phase_of m (rest S' u)) (rest S' u)"
      using d(1) dm lock_okD [OF ok] S' unfolding p by auto
  next
    fix m u
    show "holder S' m = Some u \<longleftrightarrow> u < threads S' \<and> phase_of m (rest S' u) = Inside"
      using lock_ok_holder [OF ok, of m u] lone [of u] h S'(2,3) t ph unfolding p
      by (cases "m = l"; cases "u = t") auto
  next
    fix m
    show "\<exists>v. counts S' (LockSem m) = Some v \<and> 0 \<le> v \<and> v + int (card (token S' m)) = 1"
    proof (cases "m = l")
      case True
      then show ?thesis using v w card by auto
    next
      case False
      then show ?thesis using lock_ok_count [OF ok, of m] S'(4) by (simp add: tok)
    qed
  qed
qed

lemma lock_ok_fork:
  assumes ok: "lock_ok S" and d: "\<And>l. disciplined l Outside bs"
    and S': "rest S' = (rest S)(threads S := bs)" "threads S' = Suc (threads S)" "holder S' = holder S"
      "counts S' = counts S"
  shows "lock_ok S'"
proof -
  have p: "phase_of m (rest S' (threads S)) = Outside" for m using disciplined_phase [OF d] by (simp add: S')
  have q: "u \<noteq> threads S \<Longrightarrow> rest S' u = rest S u" for u by (simp add: S')
  have "token S' l = token S l" for l
    using p q by (auto simp: token_def S'(2) less_Suc_eq)
  moreover have "holder S' m = Some u \<longleftrightarrow> u < threads S' \<and> phase_of m (rest S' u) = Inside" for m u
    using lock_ok_holder [OF ok, of m u] p q by (cases "u = threads S") (auto simp: S'(2,3) less_Suc_eq)
  moreover have "disciplined m (phase_of m (rest S' u)) (rest S' u)" if "u < threads S'" for m u
    using that p q lock_okD [OF ok, of u m] d by (cases "u = threads S") (auto simp: S' less_Suc_eq)
  ultimately show ?thesis using lock_ok_count [OF ok] by (simp add: lock_ok_def S'(4))
qed

text \<open>What the bodies of forked threads must be, of every call still to be made.\<close>

fun act_ok :: "act \<Rightarrow> bool" where
  "act_ok (Fork func) = body_ok func"
| "act_ok (Delete s) = (\<exists>w. s = Waiter w)"
| "act_ok _ = True"

definition acts_ok :: "Prog \<Rightarrow> bool" where
  "acts_ok S \<longleftrightarrow> (\<forall>t < threads S. \<forall>a \<in> set (rest S t). act_ok a)"

lemma user_act_ok: "user_act a \<Longrightarrow> forks_ok a \<Longrightarrow> act_ok a"
  by (cases a) (auto simp: body_ok_def)

lemma body_acts_ok: "body_ok func \<Longrightarrow> a \<in> set (strip func) \<Longrightarrow> act_ok a"
  using user_act_ok [of a] by (auto simp: body_ok_def list_all_iff strip_def)

lemma body_Finish: "body_ok func \<Longrightarrow> Finish \<notin> set func"
  by (auto simp: body_ok_def list_all_iff)

lemma acts_ok_step:
  assumes "acts_ok S" "t < threads S" "pstep t S S'"
  shows "acts_ok S'"
  using assms(3,1,2)
proof cases
  case (Fork func as u)
  have "act_ok a" if "a \<in> set (strip func @ [Finish])" for a
    using assms(1,2) Fork(2) body_acts_ok [of func a] that by (force simp: acts_ok_def)
  then show ?thesis using assms(1,2) Fork unfolding acts_ok_def by (auto simp: less_Suc_eq)
qed (auto simp: acts_ok_def split: if_splits)

lemma lock_ok_P:
  assumes ok: "lock_ok S" and t: "t < threads S" and r: "rest S t = P s # as" "counts S s = Some v" "0 < v"
  shows "lock_ok (S\<lparr>rest := (rest S)(t := as), counts := (counts S)(s \<mapsto> v - 1)\<rparr>)"
proof (cases "\<exists>l. s = LockSem l")
  case False
  then show ?thesis by (intro lock_ok_same [OF ok t, of as]) (use r in auto)
next
  case True
  then obtain l where s: "s = LockSem l" by blast
  have "phase_of l (rest S t) = Outside" using r s by simp
  moreover have "disciplined l Got as" using lock_okD [OF ok t, of l] r s by simp
  ultimately show ?thesis
    by (rule lock_ok_move [OF ok t, of l _ _ as, where v = v and v' = "v - 1"]) (use r s in auto)
qed

lemma lock_ok_V:
  assumes ok: "lock_ok S" and t: "t < threads S" and r: "rest S t = V s # as" "counts S s = Some v"
  shows "lock_ok (S\<lparr>rest := (rest S)(t := as), counts := (counts S)(s \<mapsto> v + 1)\<rparr>)"
proof (cases "\<exists>l. s = LockSem l")
  case False
  then show ?thesis by (intro lock_ok_same [OF ok t, of as]) (use r in auto)
next
  case True
  then obtain l where s: "s = LockSem l" by blast
  have ph: "phase_of l (rest S t) = Leaving" using r s by simp
  moreover have "disciplined l Outside as" using lock_okD [OF ok t, of l] r s by simp
  moreover have "v = 0" using token_unique(2) [OF ok, of t l] ph t r s by (simp add: token_def)
  ultimately show ?thesis
    by (intro lock_ok_move [OF ok t, of l Leaving Outside as, where v = 0 and v' = 1]) (use r s in auto)
qed

lemma lock_ok_Hold:
  assumes ok: "lock_ok S" and t: "t < threads S" and r: "rest S t = Hold l # as"
  shows "lock_ok (S\<lparr>rest := (rest S)(t := as), holder := (holder S)(l \<mapsto> t)\<rparr>)"
proof -
  have ph: "phase_of l (rest S t) = Got" using r by simp
  moreover have "disciplined l Inside as" using lock_okD [OF ok t, of l] r by simp
  moreover have "counts S (LockSem l) = Some 0" using token_unique(2) [OF ok, of t l] ph t by (simp add: token_def)
  ultimately show ?thesis
    by (intro lock_ok_move [OF ok t, of l Got Inside as, where v = 0 and v' = 0]) (use r in auto)
qed

lemma lock_ok_Release:
  assumes ok: "lock_ok S" and t: "t < threads S" and r: "rest S t = Release l # as"
  shows "lock_ok (S\<lparr>rest := (rest S)(t := V (LockSem l) # as), holder := (holder S)(l := None)\<rparr>)"
proof -
  have ph: "phase_of l (rest S t) = Inside" using r by simp
  moreover have "disciplined l Leaving (V (LockSem l) # as)" using lock_okD [OF ok t, of l] r by simp
  moreover have "counts S (LockSem l) = Some 0" using token_unique(2) [OF ok, of t l] ph t by (simp add: token_def)
  ultimately show ?thesis
    by (intro lock_ok_move [OF ok t, of l Inside Leaving "V (LockSem l) # as", where v = 0 and v' = 0])
      (use r in auto)
qed

lemma lock_ok_step:
  assumes ok: "lock_ok S" and acts: "acts_ok S" and t: "t < threads S" and st: "pstep t S S'"
  shows "lock_ok S'"
  using st
proof cases
  case (P s as v)
  then show ?thesis using lock_ok_P [OF ok t] by simp
next
  case (V s as v)
  then show ?thesis using lock_ok_V [OF ok t] by simp
next
  case (Hold l as)
  then show ?thesis using lock_ok_Hold [OF ok t] by simp
next
  case (Release l as)
  then show ?thesis using lock_ok_Release [OF ok t] by simp
next
  case (Delete s as)
  have "act_ok (Delete s)" using acts t Delete(2) unfolding acts_ok_def by force
  then obtain w where "s = Waiter w" by auto
  then show ?thesis by (intro lock_ok_same [OF ok t, of as]) (use Delete in auto)
next
  case (Fork func as u)
  have "act_ok (Fork func)" using acts t Fork(2) unfolding acts_ok_def by force
  then have b: "disciplined l Outside (strip func @ [Finish])" for l by (simp add: body_ok_def)
  have "lock_ok (S\<lparr>rest := (rest S)(t := as)\<rparr>)"
    by (rule lock_ok_same [OF ok t, of as]) (use Fork in auto)
  then show ?thesis by (rule lock_ok_fork [OF _ b]) (use Fork t in auto)
qed (rule lock_ok_same [OF ok t]; use t in \<open>force split: if_splits\<close>)+

section \<open>The waiters of condition variables\<close>

text \<open>How often a call occurs among those still to be made, and on how many conditions a waiter
  is queued.\<close>

definition pend :: "Prog \<Rightarrow> act \<Rightarrow> nat" where
  "pend S a = (\<Sum>t<threads S. count_list (rest S t) a)"

definition queued :: "Prog \<Rightarrow> nat \<Rightarrow> nat" where
  "queued S w = card {c. w \<in> set (waiters S c)}"

definition signals :: "Prog \<Rightarrow> nat \<Rightarrow> int" where
  "signals S w = (case counts S (Waiter w) of None \<Rightarrow> 0 | Some v \<Rightarrow> v)"

text \<open>The thread that waits deletes its waiter after its \<open>P\<close>.\<close>

fun delete_after :: "nat \<Rightarrow> act list \<Rightarrow> bool" where
  "delete_after w [] = True"
| "delete_after w (a # as) = ((a = P (Waiter w) \<longrightarrow> Delete (Waiter w) \<in> set as) \<and> delete_after w as)"

text \<open>A waiter is queued, or about to be signalled, or signalled, exactly while its thread has
  still to do its \<open>P\<close>; it is allocated exactly until its thread deletes it.\<close>

definition waiter_inv :: "Prog \<Rightarrow> nat \<Rightarrow> bool" where
  "waiter_inv S w \<longleftrightarrow>
     finite {c. w \<in> set (waiters S c)} \<and> 0 \<le> signals S w \<and>
     signals S w + int (queued S w) + int (pend S (V (Waiter w))) = int (pend S (P (Waiter w))) \<and>
     pend S (P (Waiter w)) \<le> pend S (Delete (Waiter w)) \<and> pend S (Delete (Waiter w)) \<le> 1 \<and>
     (counts S (Waiter w) = None \<longleftrightarrow> pend S (Delete (Waiter w)) = 0) \<and>
     (new_waiter S \<le> w \<longrightarrow> pend S (Delete (Waiter w)) = 0)"

definition waiter_ok :: "Prog \<Rightarrow> bool" where
  "waiter_ok S \<longleftrightarrow> (\<forall>c. distinct (waiters S c)) \<and>
     (\<forall>t < threads S. \<forall>w. delete_after w (rest S t)) \<and> (\<forall>w. waiter_inv S w)"

lemma delete_after_append:
  "delete_after w as \<Longrightarrow> delete_after w bs \<Longrightarrow> delete_after w (as @ bs)"
  by (induction as) auto

lemma delete_after_none: "P (Waiter w) \<notin> set as \<Longrightarrow> delete_after w as"
  by (induction as) auto

lemma delete_after_mem: "delete_after w as \<Longrightarrow> P (Waiter w) \<in> set as \<Longrightarrow> Delete (Waiter w) \<in> set as"
  by (induction as) auto

lemma pend_upd:
  assumes "t < threads S" "rest S' = (rest S)(t := bs)" "threads S' = threads S"
  shows "pend S' a + count_list (rest S t) a = pend S a + count_list bs a"
proof -
  have f: "finite {..<threads S}" "t \<in> {..<threads S}" using assms(1) by auto
  have "(\<Sum>u\<in>{..<threads S} - {t}. count_list (rest S' u) a) = (\<Sum>u\<in>{..<threads S} - {t}. count_list (rest S u) a)"
    by (rule sum.cong) (auto simp: assms(2))
  then show ?thesis
    unfolding pend_def assms(3) sum.remove [OF f] by (simp add: assms(2))
qed

lemma pend_call:
  assumes "t < threads S" "rest S t = a # as" "rest S' = (rest S)(t := bs @ as)" "threads S' = threads S"
  shows "pend S' x + (if x = a then 1 else 0) = pend S x + count_list bs x"
  using pend_upd [OF assms(1,3,4), of x] assms(2) by (auto simp: count_list_append split: if_splits)

lemma pend_pos:
  assumes "t < threads S" "a \<in> set (rest S t)"
  shows "0 < pend S a"
proof -
  have "count_list (rest S t) a \<le> pend S a" unfolding pend_def
    by (rule member_le_sum) (use assms in auto)
  moreover have "0 < count_list (rest S t) a" using assms(2) by (simp add: count_list_0_iff neq0_conv [symmetric])
  ultimately show ?thesis by simp
qed

text \<open>Calls that have nothing to do with waiters.\<close>

definition same_counts :: "act list \<Rightarrow> act list \<Rightarrow> bool" where
  "same_counts as bs \<longleftrightarrow> (\<forall>w. count_list as (P (Waiter w)) = count_list bs (P (Waiter w)) \<and>
     count_list as (V (Waiter w)) = count_list bs (V (Waiter w)) \<and>
     count_list as (Delete (Waiter w)) = count_list bs (Delete (Waiter w)))"

lemma waiter_ok_same:
  assumes ok: "waiter_ok S" and t: "t < threads S"
    and c: "same_counts (rest S t) bs" "\<And>w. delete_after w (rest S t) \<Longrightarrow> delete_after w bs"
    and S': "rest S' = (rest S)(t := bs)" "threads S' = threads S" "waiters S' = waiters S"
      "\<And>w. counts S' (Waiter w) = counts S (Waiter w)" "new_waiter S' = new_waiter S"
  shows "waiter_ok S'"
proof -
  have p: "pend S' a = pend S a" if "a = P (Waiter w) \<or> a = V (Waiter w) \<or> a = Delete (Waiter w)" for a w
    using pend_upd [OF t S'(1,2), of a] c(1) that by (auto simp: same_counts_def)
  have "waiter_inv S' w = waiter_inv S w" for w
    using p [of _ w] by (simp add: waiter_inv_def queued_def signals_def S')
  then show ?thesis using ok c(2) by (simp add: waiter_ok_def S')
qed

lemma waiter_ok_fork:
  assumes ok: "waiter_ok S" and b: "\<And>w. P (Waiter w) \<notin> set bs" "\<And>w. V (Waiter w) \<notin> set bs" "\<And>w. Delete (Waiter w) \<notin> set bs"
    and S': "rest S' = (rest S)(threads S := bs)" "threads S' = Suc (threads S)" "waiters S' = waiters S"
      "counts S' = counts S" "new_waiter S' = new_waiter S"
  shows "waiter_ok S'"
proof -
  have p: "pend S' a = pend S a" if "a = P (Waiter w) \<or> a = V (Waiter w) \<or> a = Delete (Waiter w)" for a w
  proof -
    have "count_list bs a = 0" using b that by (auto simp: count_list_0_iff)
    moreover have "(\<Sum>u<threads S. count_list (rest S' u) a) = (\<Sum>u<threads S. count_list (rest S u) a)"
      by (rule sum.cong) (auto simp: S'(1))
    ultimately show ?thesis by (simp add: pend_def S'(1,2))
  qed
  have "waiter_inv S' w = waiter_inv S w" for w
    using p [of _ w] by (simp add: waiter_inv_def queued_def signals_def S')
  moreover have "delete_after w bs" for w by (rule delete_after_none [OF b(1)])
  ultimately show ?thesis using ok by (auto simp: waiter_ok_def S' less_Suc_eq)
qed

text \<open>Calls that concern one waiter.\<close>

lemma waiter_ok_one:
  assumes ok: "waiter_ok S" and t: "t < threads S"
    and c: "\<And>u. u \<noteq> w \<Longrightarrow> count_list (rest S t) (P (Waiter u)) = count_list bs (P (Waiter u)) \<and>
      count_list (rest S t) (V (Waiter u)) = count_list bs (V (Waiter u)) \<and>
      count_list (rest S t) (Delete (Waiter u)) = count_list bs (Delete (Waiter u))"
    and d: "\<And>u. delete_after u bs"
    and S': "rest S' = (rest S)(t := bs)" "threads S' = threads S" "new_waiter S \<le> new_waiter S'"
      "\<And>u. u \<noteq> w \<Longrightarrow> counts S' (Waiter u) = counts S (Waiter u)"
      "\<And>c. distinct (waiters S' c)" "\<And>u c. u \<noteq> w \<Longrightarrow> u \<in> set (waiters S' c) \<longleftrightarrow> u \<in> set (waiters S c)"
    and inv: "waiter_inv S' w"
  shows "waiter_ok S'"
proof -
  have p: "pend S' a = pend S a" if "u \<noteq> w" "a = P (Waiter u) \<or> a = V (Waiter u) \<or> a = Delete (Waiter u)" for a u
    using pend_upd [OF t S'(1,2), of a] c that by auto
  have "waiter_inv S' u" for u
  proof (cases "u = w")
    case False
    have "waiter_inv S u" using ok by (simp add: waiter_ok_def)
    then show ?thesis using p [OF False] S'(3,4,6) False by (auto simp: waiter_inv_def queued_def signals_def)
  qed (simp add: inv)
  then show ?thesis using ok d by (simp add: waiter_ok_def S'(1,2,5))
qed

lemma waiter_okD:
  assumes "waiter_ok S" "t < threads S"
  shows "delete_after w (rest S t)" "waiter_inv S w"
  using assms by (simp_all add: waiter_ok_def)

lemma waiter_ok_P:
  assumes ok: "waiter_ok S" and t: "t < threads S" and r: "rest S t = P s # as" "counts S s = Some v" "0 < v"
  shows "waiter_ok (S\<lparr>rest := (rest S)(t := as), counts := (counts S)(s \<mapsto> v - 1)\<rparr>)" (is "waiter_ok ?S")
proof (cases s)
  case (Waiter w)
  have d: "delete_after u as" for u using waiter_okD(1) [OF ok t, of u] r by simp
  have p: "pend ?S x + (if x = P (Waiter w) then 1 else 0) = pend S x" for x
    using pend_call [OF t r(1), of ?S "[]" x] Waiter by simp
  have "waiter_inv ?S w"
    using waiter_okD(2) [OF ok t, of w] r(2,3) Waiter p [of "P (Waiter w)"] p [of "V (Waiter w)"] p [of "Delete (Waiter w)"]
    by (auto simp: waiter_inv_def queued_def signals_def)
  then show ?thesis
    by (intro waiter_ok_one [OF ok t, of w as]) (use r Waiter d ok in \<open>auto simp: waiter_ok_def\<close>)
qed (rule waiter_ok_same [OF ok t, of as]; use r in \<open>auto simp: same_counts_def\<close>)+

lemma waiter_ok_V:
  assumes ok: "waiter_ok S" and t: "t < threads S" and r: "rest S t = V s # as" "counts S s = Some v"
  shows "waiter_ok (S\<lparr>rest := (rest S)(t := as), counts := (counts S)(s \<mapsto> v + 1)\<rparr>)" (is "waiter_ok ?S")
proof (cases s)
  case (Waiter w)
  have d: "delete_after u as" for u using waiter_okD(1) [OF ok t, of u] r by simp
  have p: "pend ?S x + (if x = V (Waiter w) then 1 else 0) = pend S x" for x
    using pend_call [OF t r(1), of ?S "[]" x] Waiter by simp
  have "waiter_inv ?S w"
    using waiter_okD(2) [OF ok t, of w] r(2) Waiter p [of "P (Waiter w)"] p [of "V (Waiter w)"] p [of "Delete (Waiter w)"]
    by (auto simp: waiter_inv_def queued_def signals_def)
  then show ?thesis
    by (intro waiter_ok_one [OF ok t, of w as]) (use r Waiter d ok in \<open>auto simp: waiter_ok_def\<close>)
qed (rule waiter_ok_same [OF ok t, of as]; use r in \<open>auto simp: same_counts_def\<close>)+

lemma fresh_waiter:
  assumes "waiter_inv S (new_waiter S)"
  shows "counts S (Waiter (new_waiter S)) = None" "new_waiter S \<notin> set (waiters S c)"
    "pend S (P (Waiter (new_waiter S))) = 0" "pend S (V (Waiter (new_waiter S))) = 0"
    "pend S (Delete (Waiter (new_waiter S))) = 0"
proof -
  show p: "pend S (Delete (Waiter (new_waiter S))) = 0" "pend S (P (Waiter (new_waiter S))) = 0"
    "counts S (Waiter (new_waiter S)) = None"
    using assms by (auto simp: waiter_inv_def)
  have q: "queued S (new_waiter S) = 0" and "pend S (V (Waiter (new_waiter S))) = 0"
    using assms p by (auto simp: waiter_inv_def)
  then show "pend S (V (Waiter (new_waiter S))) = 0" by simp
  show "new_waiter S \<notin> set (waiters S c)" using q assms by (auto simp: waiter_inv_def queued_def)
qed

lemma waiter_ok_Wait:
  assumes ok: "waiter_ok S" and t: "t < threads S" and r: "rest S t = Wait c l # as" and w: "w = new_waiter S"
  shows "waiter_ok (S\<lparr>rest := (rest S)(t := Release l # P (Waiter w) # Acquire l # Delete (Waiter w) # as),
    counts := (counts S)(Waiter w \<mapsto> 0), waiters := (waiters S)(c := waiters S c @ [w]), new_waiter := Suc w\<rparr>)"
    (is "waiter_ok ?S")
proof -
  let ?bs = "[Release l, P (Waiter w), Acquire l, Delete (Waiter w)]"
  have d: "delete_after u as" for u using waiter_okD(1) [OF ok t, of u] r by simp
  note f = fresh_waiter [OF waiter_okD(2) [OF ok t], folded w]
  have p: "pend ?S x = pend S x + count_list ?bs x" if "x \<noteq> Wait c l" for x
    using pend_call [OF t r, of ?S ?bs x] that by simp
  have "{c'. w \<in> set (waiters ?S c')} = {c}" using f(2) by auto
  then have "waiter_inv ?S w"
    using f p [of "P (Waiter w)"] p [of "V (Waiter w)"] p [of "Delete (Waiter w)"]
    by (auto simp: waiter_inv_def queued_def signals_def)
  then show ?thesis
    by (intro waiter_ok_one [OF ok t, of w "?bs @ as"]) (use r d ok f w in \<open>auto simp: waiter_ok_def\<close>)
qed

lemma waiter_ok_Signal:
  assumes ok: "waiter_ok S" and t: "t < threads S" and r: "rest S t = Signal c l # as" "waiters S c = w # ws"
  shows "waiter_ok (S\<lparr>rest := (rest S)(t := V (Waiter w) # as), waiters := (waiters S)(c := ws)\<rparr>)" (is "waiter_ok ?S")
proof -
  have d: "delete_after u as" for u using waiter_okD(1) [OF ok t, of u] r by simp
  have p: "pend ?S x = pend S x + count_list [V (Waiter w)] x" if "x \<noteq> Signal c l" for x
    using pend_call [OF t r(1), of ?S "[V (Waiter w)]" x] that by simp
  have dist: "distinct (waiters S c)" "distinct ws" "w \<notin> set ws" using ok r(2) by (auto simp: waiter_ok_def dest: spec [of _ c])
  have q: "{c'. w \<in> set (waiters ?S c')} = {c'. w \<in> set (waiters S c')} - {c}" "c \<in> {c'. w \<in> set (waiters S c')}"
    using r(2) dist by auto
  have i: "waiter_inv S w" using waiter_okD(2) [OF ok t] .
  then have fin: "finite {c'. w \<in> set (waiters S c')}" by (simp add: waiter_inv_def)
  have "queued S w = Suc (queued ?S w)"
    unfolding queued_def q(1) using fin q(2) by (metis card.remove)
  then have "waiter_inv ?S w"
    using i fin q p [of "P (Waiter w)"] p [of "V (Waiter w)"] p [of "Delete (Waiter w)"]
    by (auto simp: waiter_inv_def signals_def)
  then show ?thesis
    by (intro waiter_ok_one [OF ok t, of w "V (Waiter w) # as"])
      (use r d ok dist in \<open>auto simp: waiter_ok_def split: if_splits\<close>)
qed

lemma delete_safe:
  assumes ok: "waiter_ok S" and t: "t < threads S" and r: "rest S t = Delete (Waiter w) # as"
  shows "pend S (P (Waiter w)) = 0"
proof (rule ccontr)
  assume "pend S (P (Waiter w)) \<noteq> 0"
  then obtain u where u: "u < threads S" "P (Waiter w) \<in> set (rest S u)"
    unfolding pend_def by (metis count_notin lessThan_iff sum.neutral)
  then have du: "Delete (Waiter w) \<in> set (rest S u)" using delete_after_mem waiter_okD(1) [OF ok u(1)] by blast
  let ?S = "S\<lparr>rest := (rest S)(t := as)\<rparr>"
  have le: "pend S (Delete (Waiter w)) \<le> 1" using waiter_okD(2) [OF ok t] by (simp add: waiter_inv_def)
  have "Delete (Waiter w) \<in> set (rest ?S u)"
    using du u(2) delete_after_mem [of w as] waiter_okD(1) [OF ok t, of w] r by (cases "u = t") auto
  then have "0 < pend ?S (Delete (Waiter w))" using pend_pos [of u ?S] u(1) by simp
  moreover have "pend ?S (Delete (Waiter w)) + 1 = pend S (Delete (Waiter w))"
    using pend_call [OF t r, of ?S "[]" "Delete (Waiter w)"] by simp
  ultimately show False using le by simp
qed

lemma waiter_ok_Delete:
  assumes ok: "waiter_ok S" and t: "t < threads S" and r: "rest S t = Delete (Waiter w) # as"
  shows "waiter_ok (S\<lparr>rest := (rest S)(t := as), counts := (counts S)(Waiter w := None)\<rparr>)" (is "waiter_ok ?S")
proof -
  have d: "delete_after u as" for u using waiter_okD(1) [OF ok t, of u] r by simp
  have p: "pend ?S x + (if x = Delete (Waiter w) then 1 else 0) = pend S x" for x
    using pend_call [OF t r(1), of ?S "[]" x] by simp
  have "waiter_inv ?S w"
    using waiter_okD(2) [OF ok t, of w] delete_safe [OF ok t r] p [of "P (Waiter w)"] p [of "V (Waiter w)"] p [of "Delete (Waiter w)"]
    by (auto simp: waiter_inv_def queued_def signals_def split: option.splits)
  then show ?thesis
    by (intro waiter_ok_one [OF ok t, of w as]) (use r d ok in \<open>auto simp: waiter_ok_def\<close>)
qed

lemma body_no_waiter:
  assumes "body_ok func"
  shows "P (Waiter w) \<notin> set (strip func @ [Finish])" "V (Waiter w) \<notin> set (strip func @ [Finish])"
    "Delete (Waiter w) \<notin> set (strip func @ [Finish])"
  using assms by (auto simp: body_ok_def list_all_iff strip_def)

lemma waiter_ok_step:
  assumes ok: "waiter_ok S" and acts: "acts_ok S" and t: "t < threads S" and st: "pstep t S S'"
  shows "waiter_ok S'"
  using st
proof cases
  case (P s as v)
  then show ?thesis using waiter_ok_P [OF ok t] by simp
next
  case (V s as v)
  then show ?thesis using waiter_ok_V [OF ok t] by simp
next
  case (Wait c l as w)
  then show ?thesis using waiter_ok_Wait [OF ok t] by simp
next
  case (Signal c l as w ws)
  then show ?thesis using waiter_ok_Signal [OF ok t] by simp
next
  case (Delete s as)
  have "act_ok (Delete s)" using acts t Delete(2) unfolding acts_ok_def by force
  then show ?thesis using waiter_ok_Delete [OF ok t] Delete by auto
next
  case (Fork func as u)
  have "act_ok (Fork func)" using acts t Fork(2) unfolding acts_ok_def by force
  then have b: "body_ok func" by simp
  have "waiter_ok (S\<lparr>rest := (rest S)(t := as)\<rparr>)"
    by (rule waiter_ok_same [OF ok t, of as]) (use Fork in \<open>auto simp: same_counts_def\<close>)
  then show ?thesis by (rule waiter_ok_fork [OF _ body_no_waiter [OF b]]) (use Fork t in auto)
qed (rule waiter_ok_same [OF ok t]; use t in \<open>force simp: same_counts_def\<close>)+

section \<open>Reachable states\<close>

definition lists_ok :: "Prog \<Rightarrow> bool" where
  "lists_ok S \<longleftrightarrow> (\<forall>n. counts S (Named n) \<noteq> None) \<and> (\<forall>n. puts S n = map snd (gots S n) @ lists S n)"

definition prog_ok :: "Prog \<Rightarrow> bool" where
  "prog_ok S \<longleftrightarrow> acts_ok S \<and> lock_ok S \<and> waiter_ok S \<and> lists_ok S \<and> (\<forall>t \<ge> threads S. rest S t = [])"

lemma lists_ok_step:
  assumes "lists_ok S" "acts_ok S" "t < threads S" "pstep t S S'"
  shows "lists_ok S'"
  using assms(4)
proof cases
  case (Delete s as)
  have "act_ok (Delete s)" using assms(2,3) Delete(2) unfolding acts_ok_def by force
  then show ?thesis using assms(1) Delete by (auto simp: lists_ok_def)
qed (use assms(1) in \<open>auto simp: lists_ok_def\<close>)

lemma pstep_domain:
  assumes "\<forall>t \<ge> threads S. rest S t = []" "t < threads S" "pstep t S S'"
  shows "\<forall>t \<ge> threads S'. rest S' t = []"
  using assms(3,1,2) by cases auto

lemma prog_ok_step:
  assumes "prog_ok S" "sstep S S'"
  shows "prog_ok S'"
  using assms(2)
proof cases
  case (call t)
  then show ?thesis
    using assms(1) acts_ok_step lock_ok_step waiter_ok_step lists_ok_step pstep_domain
    unfolding prog_ok_def by blast
next
  case (signal n v)
  have "lock_ok S'" using assms(1) by (simp add: prog_ok_def lock_ok_def token_def signal)
  moreover have "waiter_ok S'"
    using assms(1) by (simp add: prog_ok_def waiter_ok_def waiter_inv_def queued_def pend_def signals_def signal)
  ultimately show ?thesis using assms(1) by (simp add: prog_ok_def acts_ok_def lists_ok_def signal)
qed

lemma prog_ok_safe:
  assumes ok: "prog_ok S" and r: "rest S t = a # as"
  shows "safe_call t S a \<or> (\<exists>n x. a = SL_put n x \<and> x \<in> set (lists S n))"
proof -
  have t: "t < threads S" using ok r unfolding prog_ok_def by (metis leI list.distinct(1))
  have ok': "acts_ok S" "lock_ok S" "waiter_ok S" "lists_ok S" "\<forall>t \<ge> threads S. rest S t = []"
    using ok by (simp_all add: prog_ok_def)
  have aok: "act_ok a" using ok'(1) t r unfolding acts_ok_def by force
  have pos: "0 < pend S a" using pend_pos [OF t, of a] r by simp
  have inv: "waiter_inv S w" for w using waiter_okD(2) [OF ok'(3) t] .
  have held: "holder S l = Some t" if "lock_use l a = Some (Inside, ph)" for l ph
    using lock_ok_holder [OF ok'(2), of l t] t r that by simp
  have sem: "counts S s \<noteq> None" if "a = P s \<or> a = V s" for s
  proof (cases s)
    case (Named n)
    then show ?thesis using ok'(4) by (simp add: lists_ok_def)
  next
    case (LockSem l)
    then show ?thesis using lock_ok_count [OF ok'(2), of l] by auto
  next
    case (Waiter w)
    then show ?thesis using inv [of w] pos that by (auto simp: waiter_inv_def)
  qed
  show ?thesis
  proof (cases a)
    case (Delete s)
    then obtain w where w: "s = Waiter w" using aok by auto
    have "pend S (P s) = 0" using delete_safe [OF ok'(3) t] r Delete w by simp
    then have "P s \<notin> set (rest S u)" for u
      using pend_pos [of u S "P s"] ok'(5) by (cases "u < threads S") auto
    then show ?thesis using inv [of w] pos Delete w by (auto simp: waiter_inv_def)
  next
    case (Wait c l)
    then show ?thesis using held [of l Inside] fresh_waiter(1,2) [OF inv] by simp
  next
    case (Fork func)
    then show ?thesis using aok body_Finish by simp
  qed (use sem held in auto)
qed

definition reachable :: "(nat \<Rightarrow> int) \<Rightarrow> act list \<Rightarrow> Threads \<Rightarrow> bool" where
  "reachable initial func k \<longleftrightarrow> rtranclp kstep (boot initial func) k"

lemma boot_sel [simp]:
  "level (boot i f) = IntOn" "tstatus (boot i f) = (\<lambda>_. JUST_CREATED)(0 := RUNNING)" "ctl (boot i f) = (\<lambda>_. Going)"
  "todo (boot i f) = (\<lambda>_. [])(0 := f @ [Finish])" "next_tid (boot i f) = 1" "currentThread (boot i f) = 0"
  "readyList (boot i f) = []" "toBeDestroyed (boot i f) = None" "deleted (boot i f) = (\<lambda>_. False)"
  "sems (boot i f) = (\<lambda>s. case s of Named n \<Rightarrow> Some (Semaphore_new (i n)) | LockSem l \<Rightarrow> Some (Semaphore_new 1) | Waiter w \<Rightarrow> None)"
  "lockHolder (boot i f) = (\<lambda>_. None)" "waitQueue (boot i f) = (\<lambda>_. [])" "next_waiter (boot i f) = 0"
  "slist (boot i f) = (\<lambda>_. [])" "put_log (boot i f) = (\<lambda>_. [])" "got_log (boot i f) = (\<lambda>_. [])"
  by (simp_all add: boot_def Interrupt.extend_def Interrupt_new_def)

lemma boot_ok:
  assumes "body_ok func" "\<forall>n. 0 \<le> initial n"
  shows "sched_ok (boot initial func)" "prog_ok (view (boot initial func))"
proof -
  let ?k = "boot initial func"
  have q: "queue_of ?k s = []" for s by (auto simp: queue_of_def Semaphore_new_def split: semid.split)
  have v: "value_of ?k = (\<lambda>s. case s of Named n \<Rightarrow> Some (initial n) | LockSem l \<Rightarrow> Some 1 | Waiter w \<Rightarrow> None)"
    by (auto simp: value_of_def Semaphore_new_def fun_eq_iff split: semid.split)
  have r: "rest_of ?k t = (if t = 0 then strip func @ [Finish] else [])" for t by (auto simp: rest_of_def)
  show "sched_ok ?k"
  proof (rule sched_okI)
    show "todo_ok ?k" using body_Finish [OF assms(1)] by (simp add: todo_ok_def)
    show "wake_ok ?k" using assms(2) by (auto simp: wake_ok_def q v split: semid.splits)
  qed (auto simp: sched_defs q in_P_def)
  have d: "disciplined l Outside (strip func @ [Finish])" for l using assms(1) by (simp add: body_ok_def)
  have ph: "phase_of l (strip func @ [Finish]) = Outside" for l using disciplined_phase [OF d] .
  have "lock_ok (view ?k)" using d ph by (simp add: lock_ok_def token_def v r)
  moreover have "pend (view ?k) a = count_list (strip func @ [Finish]) a" for a by (simp add: pend_def r)
  then have "waiter_inv (view ?k) w" for w
    using body_no_waiter [OF assms(1), of w] by (auto simp: waiter_inv_def v queued_def signals_def count_list_0_iff [symmetric])
  then have "waiter_ok (view ?k)"
    using delete_after_none [OF body_no_waiter(1) [OF assms(1)]] by (simp add: waiter_ok_def r)
  ultimately show "prog_ok (view ?k)"
    using body_acts_ok [OF assms(1)] by (auto simp: prog_ok_def acts_ok_def lists_ok_def r v)
qed

lemma next_call_safe:
  assumes ok: "sched_ok k" "prog_ok (view k)" and a: "next_call k = Some a"
  shows "safe_call (currentThread k) (view k) a \<or> (\<exists>n x. a = SL_put n x \<and> x \<in> set (slist k n))"
proof (cases "a = Yield_call")
  case False
  then obtain as where "rest_of k (currentThread k) = a # as" using next_call_rest [OF ok(1) a] by blast
  then show ?thesis using prog_ok_safe [OF ok(2), of "currentThread k" a as] by simp
qed simp

lemma reachable_step:
  assumes ok: "sched_ok k" "prog_ok (view k)" and st: "kstep k k'"
  shows "sched_ok k' \<and> (view k' = view k \<or> sstep (view k) (view k'))"
  using st
proof cases
  case run
  have c: "currentThread k < next_tid k" using ok(1) by (simp add: sched_ok_def states_ok_def)
  consider "\<forall>a. next_call k = Some a \<longrightarrow> safe_call (currentThread k) (view k) a"
    | n x where "next_call k = Some (SL_put n x)" "x \<in> set (slist k n)"
    using next_call_safe [OF ok] by blast
  then show ?thesis
  proof cases
    case 1
    then show ?thesis using thread_step_refines [OF ok(1)] run c by (auto simp: refines_def intro: sstep.call)
  next
    case 2
    then show ?thesis using run by (auto simp: next_call_def thread_step_def SynchList_put_def Append_spec_def
        split: ctl.splits list.splits resume.splits)
  qed
next
  case timer
  then show ?thesis using timer_step [OF ok(1)] by simp
next
  case (device n)
  obtain v where v: "value_of k (Named n) = Some v" using ok(2) by (auto simp: prog_ok_def lists_ok_def) blast
  then show ?thesis using Semaphore_V_ok [OF ok(1) v] device sstep.signal [of "view k" n v] by auto
qed

lemma wake_okD:
  "wake_ok k \<Longrightarrow> value_of k s = Some v \<Longrightarrow> 0 \<le> v \<and> (queue_of k s \<noteq> [] \<longrightarrow> v \<le> int (card (woken k s)))"
  by (simp add: wake_ok_def)

lemma reachable_ok:
  assumes "body_ok func" "\<forall>n. 0 \<le> initial n" "reachable initial func k"
  shows "sched_ok k \<and> prog_ok (view k)"
  using assms(3) unfolding reachable_def
proof (induction rule: rtranclp_induct)
  case base
  then show ?case using boot_ok [OF assms(1,2)] by simp
next
  case (step k k')
  then show ?case using reachable_step [of k k'] prog_ok_step [of "view k" "view k'"] by auto
qed

text \<open>The run of the system without interrupts.\<close>

fun steps :: "nat \<Rightarrow> Threads \<Rightarrow> Threads res" where
  "steps 0 k = Inr k"
| "steps (Suc n) k = rbind (thread_step k) (steps n)"

lemma steps_reach: "steps n k = Inr k' \<Longrightarrow> rtranclp kstep k k'"
proof (induction n arbitrary: k)
  case (Suc n)
  then obtain k1 where "thread_step k = Inr k1" "steps n k1 = Inr k'" by (auto simp: rbind_Inr_iff)
  then show ?case using Suc.IH [of k1] kstep.run [of k k1] by (meson converse_rtranclp_into_rtranclp)
qed simp

section \<open>Properties\<close>

text \<open>C20. The scheduler implements atomic calls: in every interleaving of a program that releases the
  locks it acquires, with device interrupts and time slices at every point the code allows, a
  step of the kernel either changes nothing the programs can see (a switch, a sleep, a wake-up)
  or is one atomic call of one thread, or the signal of a device; in particular a \<open>P\<close> that
  returns found the value positive and took one.\<close>

theorem kernel_refines_atomic_calls:
  assumes "body_ok func" "\<forall>n. 0 \<le> initial n" "reachable initial func k" "kstep k k'"
  shows "view k' = view k \<or> sstep (view k) (view k')"
  using reachable_ok [OF assms(1-3)] reachable_step assms(4) by blast

text \<open>A program with two threads that wait for a semaphore the main thread then signals.\<close>

definition two_waiters :: "act list" where
  "two_waiters = [Fork [P (Named 0)], Fork [P (Named 0)], Yield_call, V (Named 0)]"

lemma two_waiters_ok: "body_ok two_waiters"
  by (simp add: two_waiters_def body_ok_def)

theorem kernel_refines_atomic_calls_witness:
  "\<exists>k'. kstep (boot (\<lambda>_. 0) two_waiters) k' \<and>
     (view k' = view (boot (\<lambda>_. 0) two_waiters) \<or> sstep (view (boot (\<lambda>_. 0) two_waiters)) (view k'))"
proof -
  let ?b = "boot (\<lambda>_. 0) two_waiters"
  have "kstep ?b (calls [Yield_call] ?b)" by (rule kstep.timer) simp
  moreover have "reachable (\<lambda>_. 0) two_waiters ?b" by (simp add: reachable_def)
  ultimately show ?thesis using kernel_refines_atomic_calls [OF two_waiters_ok, of "\<lambda>_. 0"] by auto
qed

text \<open>C21. No assertion of the thread package fails in any interleaving of such a program: no
  thread is put twice on a list, no lock is released by a thread that does not hold it, no
  semaphore is used after it was freed, no thread deletes itself or runs after it was deleted,
  and interrupts are off where the scheduler wants them off.  The one exception is a
  \<open>SynchList::Append\<close> of an item that is on the list already, which the list rejects.\<close>

theorem threads_never_fault:
  assumes "body_ok func" "\<forall>n. 0 \<le> initial n" "reachable initial func k"
  shows "(\<exists>k'. thread_step k = Inr k') \<or> (\<exists>n x. next_call k = Some (SL_put n x) \<and> x \<in> set (slist k n))"
proof -
  have ok: "sched_ok k" "prog_ok (view k)" using reachable_ok [OF assms] by simp_all
  show ?thesis
  proof (cases "\<forall>a. next_call k = Some a \<longrightarrow> safe_call (currentThread k) (view k) a")
    case True
    then show ?thesis using thread_step_refines [OF ok(1)] by blast
  next
    case False
    then show ?thesis using next_call_safe [OF ok] by blast
  qed
qed

theorem threads_never_fault_witness: "\<exists>k'. thread_step (boot (\<lambda>_. 0) two_waiters) = Inr k'"
proof -
  have "reachable (\<lambda>_. 0) two_waiters (boot (\<lambda>_. 0) two_waiters)" by (simp add: reachable_def)
  then show ?thesis using threads_never_fault [OF two_waiters_ok, of "\<lambda>_. 0" "boot (\<lambda>_. 0) two_waiters"]
    by (simp add: next_call_def two_waiters_def)
qed

text \<open>C22. Mutual exclusion: at any time at most one thread is between the \<open>P\<close> of an \<open>Acquire\<close> and
  the \<open>V\<close> of the \<open>Release\<close> of a lock, waits on a condition included, and the thread whose next
  use of the lock needs it is the recorded holder.\<close>

theorem mutual_exclusion:
  assumes "body_ok func" "\<forall>n. 0 \<le> initial n" "reachable initial func k"
    and "t < next_tid k" "u < next_tid k" "phase_of l (rest_of k t) \<noteq> Outside"
  shows "(phase_of l (rest_of k u) \<noteq> Outside \<longrightarrow> u = t) \<and>
    (lockHolder k l = Some t \<longleftrightarrow> phase_of l (rest_of k t) = Inside)"
proof -
  have ok: "lock_ok (view k)" using reachable_ok [OF assms(1-3)] by (simp add: prog_ok_def)
  then show ?thesis
    using token_unique(1) [OF ok, of t l] lock_ok_holder [OF ok, of l t] assms(4-6) by (auto simp: token_def)
qed

definition in_section :: "act list" where
  "in_section = [Acquire (UserLock 0), Yield_call, Release (UserLock 0)]"

lemma in_section_ok: "body_ok in_section"
  by (simp add: in_section_def body_ok_def)

definition section_state :: Threads where
  "section_state = (case steps 3 (boot (\<lambda>_. 0) in_section) of Inl e \<Rightarrow> boot (\<lambda>_. 0) in_section | Inr k \<Rightarrow> k)"

lemma section_reachable: "reachable (\<lambda>_. 0) in_section section_state"
  using steps_reach [of 3 "boot (\<lambda>_. 0) in_section"]
  by (auto simp: section_state_def reachable_def split: sum.split)

lemma section_phase: "phase_of (UserLock 0) (rest_of section_state 0) = Inside" "next_tid section_state = 1"
  by code_simp+

theorem mutual_exclusion_witness:
  "phase_of (UserLock 0) (rest_of section_state 0) = Inside \<and> lockHolder section_state (UserLock 0) = Some 0"
  using mutual_exclusion [OF in_section_ok, of "\<lambda>_. 0" section_state 0 0 "UserLock 0"] section_reachable section_phase
  by simp

text \<open>C23. No wake-up is lost and no thread: while threads wait for a semaphore, the threads that a \<open>V\<close>
  has made runnable and that have yet to look at the value again are at least as many as the
  value, each of them running or on the ready list; and every thread is running, ready, waiting
  in the queue of a semaphore, or finished.\<close>

theorem no_lost_wakeup:
  assumes "body_ok func" "\<forall>n. 0 \<le> initial n" "reachable initial func k"
    and "queue_of k s \<noteq> []" "value_of k s = Some v"
  shows "v \<le> int (card (woken k s)) \<and> (\<forall>t \<in> woken k s. t = currentThread k \<or> t \<in> set (readyList k)) \<and>
    (\<forall>t < next_tid k. t = currentThread k \<or> t \<in> set (readyList k) \<or> (\<exists>s. t \<in> set (queue_of k s)) \<or>
       deleted k t \<or> toBeDestroyed k = Some t)"
proof -
  have ok: "sched_ok k" using reachable_ok [OF assms(1-3)] by simp
  then have parts: "ready_ok k" "queues_ok k" "states_ok k" "finished_ok k" "wake_ok k"
    by (simp_all add: sched_ok_def)
  have ot: "other_ok (tstatus k t) (ctl k t)" if "t < next_tid k" "t \<noteq> currentThread k" for t
    using parts(3) that by (simp add: states_ok_def)
  have w: "t = currentThread k \<or> t \<in> set (readyList k)" if "t \<in> woken k s" for t
    using that ot [of t] ready_okD [OF parts(1), of t] by (cases "ctl k t") (auto simp: woken_def)
  have pl: "t = currentThread k \<or> t \<in> set (readyList k) \<or> (\<exists>s. t \<in> set (queue_of k s)) \<or> deleted k t \<or> toBeDestroyed k = Some t"
    if t: "t < next_tid k" for t
  proof (cases "t = currentThread k")
    case False
    then obtain r where r: "ctl k t = Switched r"
      "tstatus k t = READY \<or> tstatus k t = BLOCKED \<and> (r = InFinish \<or> (\<exists>s. r = InP s IntOn))"
      using ot [OF t] by (cases "ctl k t") auto
    then consider "tstatus k t = READY" | "r = InFinish" | s where "tstatus k t = BLOCKED" "r = InP s IntOn" by blast
    then show ?thesis
    proof cases
      case 1
      then show ?thesis using ready_okD [OF parts(1), of t] t by simp
    next
      case 2
      then show ?thesis using parts(4) r(1) t by (auto simp: finished_ok_def)
    next
      case 3
      then have "t \<in> set (queue_of k s)" using queues_okD [OF parts(2), of t s] r(1) t by (simp add: in_P_def)
      then show ?thesis by blast
    qed
  qed simp
  show ?thesis using parts(5) assms(4,5) w pl by (simp add: wake_ok_def)
qed

definition wakeup_state :: Threads where
  "wakeup_state = (case steps 11 (boot (\<lambda>_. 0) two_waiters) of Inl e \<Rightarrow> boot (\<lambda>_. 0) two_waiters | Inr k \<Rightarrow> k)"

lemma wakeup_reachable: "reachable (\<lambda>_. 0) two_waiters wakeup_state"
  using steps_reach [of 11 "boot (\<lambda>_. 0) two_waiters"]
  by (auto simp: wakeup_state_def reachable_def split: sum.split)

lemma wakeup_values: "queue_of wakeup_state (Named 0) = [2]" "value_of wakeup_state (Named 0) = Some 1"
  by code_simp+

theorem no_lost_wakeup_witness:
  "queue_of wakeup_state (Named 0) = [2] \<and> 1 \<le> int (card (woken wakeup_state (Named 0)))"
  using no_lost_wakeup [OF two_waiters_ok, of "\<lambda>_. 0" wakeup_state "Named 0" 1] wakeup_reachable wakeup_values
  by simp

text \<open>C24. A signal is not missed, although \<open>Wait\<close> releases the lock before it sleeps: as long as a
  thread is blocked on its waiter, the waiter is still queued on a condition variable or the
  thread that took it off the queue has still to signal it; and the waiter has not been freed.\<close>

theorem signal_not_missed:
  assumes "body_ok func" "\<forall>n. 0 \<le> initial n" "reachable initial func k"
    and "t \<in> set (queue_of k (Waiter w))"
  shows "value_of k (Waiter w) = Some 0 \<and>
    ((\<exists>c. w \<in> set (waitQueue k c)) \<or> (\<exists>u < next_tid k. V (Waiter w) \<in> set (rest_of k u)))"
proof -
  let ?S = "view k"
  have ok: "sched_ok k" "prog_ok ?S" using reachable_ok [OF assms(1-3)] by simp_all
  have c: "currentThread k < next_tid k" using ok(1) by (simp add: sched_ok_def states_ok_def)
  then have inv: "waiter_inv ?S w" using ok(2) waiter_okD(2) [of ?S "currentThread k"] by (simp add: prog_ok_def)
  have t: "t < next_tid k" "tstatus k t = BLOCKED" "in_P k t (Waiter w)"
    using ok(1) assms(4) queues_okD [of k t "Waiter w"] by (auto simp: sched_ok_def)
  have mem: "P (Waiter w) \<in> set (rest_of k t)" using in_P_rest [OF t(3,1)] .
  have one: "pend ?S (P (Waiter w)) = 1"
    using pend_pos [of t ?S "P (Waiter w)"] mem t(1) inv by (simp add: waiter_inv_def)
  then obtain v where v: "value_of k (Waiter w) = Some v"
    using inv by (cases "value_of k (Waiter w)") (auto simp: waiter_inv_def)
  have "woken k (Waiter w) = {}"
  proof (rule equals0I)
    fix u
    assume u: "u \<in> woken k (Waiter w)"
    then have "u \<noteq> t" "u < next_tid k" "P (Waiter w) \<in> set (rest_of k u)"
      using t in_P_rest [of k u] by (auto simp: woken_def)
    moreover have "(\<Sum>x\<in>{t, u}. count_list (rest ?S x) (P (Waiter w))) \<le> pend ?S (P (Waiter w))"
      unfolding pend_def by (rule sum_mono2) (use t calculation in auto)
    moreover have "0 < count_list (rest_of k t) (P (Waiter w))" "0 < count_list (rest_of k u) (P (Waiter w))"
      using mem calculation(3) by (simp_all add: count_list_0_iff neq0_conv [symmetric])
    ultimately show False using one by simp
  qed
  moreover have "0 \<le> v \<and> v \<le> int (card (woken k (Waiter w)))"
    using wake_okD [of k "Waiter w" v] ok(1) v assms(4) by (cases "queue_of k (Waiter w)") (auto simp: sched_ok_def)
  ultimately have "v = 0" by simp
  then have s: "queued ?S w \<noteq> 0 \<or> pend ?S (V (Waiter w)) \<noteq> 0"
    using inv one v by (auto simp: waiter_inv_def signals_def)
  have "\<exists>u < next_tid k. V (Waiter w) \<in> set (rest_of k u)" if "pend ?S (V (Waiter w)) \<noteq> 0"
    using that unfolding pend_def by (auto simp: count_list_0_iff)
  moreover have "\<exists>c. w \<in> set (waitQueue k c)" if "queued ?S w \<noteq> 0"
    using that by (auto simp: queued_def card_gt_0_iff intro: ccontr)
  ultimately show ?thesis using s v \<open>v = 0\<close> by auto
qed

definition waiting :: "act list" where
  "waiting = [Acquire (UserLock 0), Wait (UserCond 0) (UserLock 0), Release (UserLock 0)]"

lemma waiting_ok: "body_ok waiting"
  by (simp add: waiting_def body_ok_def)

definition waiting_state :: Threads where
  "waiting_state = (case steps 7 (boot (\<lambda>_. 0) waiting) of Inl e \<Rightarrow> boot (\<lambda>_. 0) waiting | Inr k \<Rightarrow> k)"

lemma waiting_reachable: "reachable (\<lambda>_. 0) waiting waiting_state"
  using steps_reach [of 7 "boot (\<lambda>_. 0) waiting"]
  by (auto simp: waiting_state_def reachable_def split: sum.split)

lemma waiting_queue: "queue_of waiting_state (Waiter 0) = [0]"
  by code_simp

theorem signal_not_missed_witness: "value_of waiting_state (Waiter 0) = Some 0"
  using signal_not_missed [OF waiting_ok, of "\<lambda>_. 0" waiting_state 0 0] waiting_reachable waiting_queue by simp

text \<open>C25. A synchronized list is a queue shared safely: the items removed so far, in order, followed
  by the items on the list are the items appended so far, in order; a thread touches the list
  only while it holds the list's lock, and no two threads at a time do.\<close>

theorem synchlist_fifo:
  assumes "body_ok func" "\<forall>n. 0 \<le> initial n" "reachable initial func k"
  shows "put_log k n = map snd (got_log k n) @ slist k n \<and>
    (\<forall>t a as. rest_of k t = a # as \<and> (a = SL_while n \<or> (\<exists>x. a = SL_put n x)) \<longrightarrow> lockHolder k (ListLock n) = Some t)"
proof -
  have ok: "prog_ok (view k)" using reachable_ok [OF assms] by simp
  then have "put_log k n = map snd (got_log k n) @ slist k n" by (simp add: prog_ok_def lists_ok_def)
  moreover have "lockHolder k (ListLock n) = Some t"
    if r: "rest_of k t = a # as" "a = SL_while n \<or> (\<exists>x. a = SL_put n x)" for t a as
  proof -
    have "t < next_tid k" using r(1) by (auto simp: rest_of_def split: if_splits)
    moreover have "phase_of (ListLock n) (rest_of k t) = Inside" using r by auto
    ultimately show ?thesis using lock_ok_holder [of "view k" "ListLock n" t] ok by (simp add: prog_ok_def)
  qed
  ultimately show ?thesis by blast
qed

definition producer_consumer :: "act list" where
  "producer_consumer = [Fork [SL_RemoveFront 0], SL_Append 0 7, SL_Append 0 8]"

lemma producer_consumer_ok: "body_ok producer_consumer"
  by (simp add: producer_consumer_def body_ok_def)

definition produced :: Threads where
  "produced = (case steps 9 (boot (\<lambda>_. 0) producer_consumer) of Inl e \<Rightarrow> boot (\<lambda>_. 0) producer_consumer | Inr k \<Rightarrow> k)"

lemma produced_reachable: "reachable (\<lambda>_. 0) producer_consumer produced"
  using steps_reach [of 9 "boot (\<lambda>_. 0) producer_consumer"]
  by (auto simp: produced_def reachable_def split: sum.split)

lemma produced_list: "slist produced 0 = [7]"
  by code_simp

theorem synchlist_fifo_witness: "put_log produced 0 = map snd (got_log produced 0) @ [7]"
  using synchlist_fifo [OF producer_consumer_ok, of "\<lambda>_. 0" produced 0] produced_reachable produced_list by simp

end
