(* ===== verification/Sockets.thy ===== *)
theory Sockets
  imports Post
begin

text \<open>
  The sockets of the kernel (\<open>threads/kernel.cc\<close>): numbers handed out by \<open>get_socket\<close>, connections by
  address and ports, ports bound to sockets, and the queues of received datagrams.  The map from ports
  to sockets is kept as the list of its pairs in the order of the ports, which is the order in which
  the code searches it.  A string of the kernel is the list of its bytes with the terminating zero.
  \<open>None\<close> as the result of \<open>getData\<close> means that the thread waits for a datagram.
\<close>

section \<open>Operations\<close>

definition get_socket :: "'a NetKernel_scheme \<Rightarrow> int \<times> 'a NetKernel_scheme" where
  "get_socket s = (current_socket s, s\<lparr>current_socket := current_socket s + 1\<rparr>)"

text \<open>\<open>std::stoi\<close>: white space, an optional sign, then at least one digit; anything after the digits is
  ignored.  A string without a number, or a number outside \<open>int\<close>, throws, and nothing catches it.\<close>

definition stoi :: "string \<Rightarrow> int res" where
  "stoi str =
     (let t = dropWhile (\<lambda>c. c \<in> {CHR '' '', CHR 0x09, CHR 0x0A, CHR 0x0B, CHR 0x0C, CHR 0x0D}) str;
          (neg, t) = (case t of [] \<Rightarrow> (False, t) | c # cs \<Rightarrow>
             if c = CHR ''-'' then (True, cs) else if c = CHR ''+'' then (False, cs) else (False, t));
          ds = takeWhile is_digit t;
          v = (if neg then - int (digits_val ds) else int (digits_val ds)) in
      if ds = [] \<or> v < - (2 ^ 31) \<or> 2 ^ 31 \<le> v then Inl Uncaught else Inr v)"

text \<open>The loop of \<open>get_ip_strToChar\<close>: \<open>addr\<close> holds the bytes already stored.  The result is \<open>- 1\<close> with what
  was stored, or the address.\<close>

fun ip_loop :: "string \<Rightarrow> string \<Rightarrow> byte list \<Rightarrow> (int \<times> byte list) res" where
  "ip_loop [] intermediate addr =
     (if length addr \<ge> 4 then Inr (- 1, addr)
      else rbind (stoi intermediate) (\<lambda>v.
        let addr = addr @ [word_of_int v] in
        if length addr \<noteq> 4 then Inr (- 1, addr) else Inr (1, addr)))"
| "ip_loop (c # cs) intermediate addr =
     (if c = CHR ''.'' then
        if length addr \<ge> 4 then Inr (- 1, addr)
        else rbind (stoi intermediate) (\<lambda>v. ip_loop cs [] (addr @ [word_of_int v]))
      else ip_loop cs (intermediate @ [c]) addr)"

definition get_ip_strToChar :: "string \<Rightarrow> (int \<times> byte list) res" where
  "get_ip_strToChar str = ip_loop str [] []"

definition insert_connect_socket ::
  "int \<Rightarrow> string \<Rightarrow> int \<Rightarrow> int \<Rightarrow> 'a NetKernel_scheme \<Rightarrow> (int \<times> 'a NetKernel_scheme) res" where
  "insert_connect_socket sockID str sport dport s =
     rbind (get_ip_strToChar str) (\<lambda>(r, addr).
     if r = - 1 then Inr (- 1, s)
     else Inr (1, s\<lparr>connected_sockets :=
       (connected_sockets s)(sockID \<mapsto> \<lparr>sock_ip = addr, srcPort = sport, destPort = dport\<rparr>)\<rparr>))"

definition strlen :: "byte list \<Rightarrow> int res" where
  "strlen str = (if 0 \<in> set str then Inr (int (length (takeWhile (\<lambda>c. c \<noteq> 0) str))) else Inl OutOfRange)"

definition send_message ::
  "16 word \<Rightarrow> int \<Rightarrow> byte list \<Rightarrow> 'a NetKernel_scheme \<Rightarrow> (int \<times> 'a NetKernel_scheme) res" where
  "send_message junk sockID msg s = (case connected_sockets s sockID of
       None \<Rightarrow> Inr (0, s)
     | Some ss \<Rightarrow>
         rbind (strlen msg) (\<lambda>n.
         rbind (UDP_Send junk msg n (sock_ip ss) (srcPort ss) (destPort ss) s) (\<lambda>s. Inr (1, s))))"

text \<open>\<open>std::map<int, int>\<close>: insertion of a key that is not there yet, and the search for a value.\<close>

fun map_insert :: "int \<Rightarrow> int \<Rightarrow> (int \<times> int) list \<Rightarrow> (int \<times> int) list" where
  "map_insert k v [] = [(k, v)]"
| "map_insert k v ((k', v') # m) = (if k < k' then (k, v) # (k', v') # m else (k', v') # map_insert k v m)"

fun port_of :: "(int \<times> int) list \<Rightarrow> int \<Rightarrow> int" where
  "port_of [] sockID = - 1"
| "port_of ((port, sock) # m) sockID = (if sock = sockID then port else port_of m sockID)"

definition insert_bind_socket :: "int \<Rightarrow> int \<Rightarrow> 'a NetKernel_scheme \<Rightarrow> int \<times> 'a NetKernel_scheme" where
  "insert_bind_socket sockID port s =
     (if port \<in> fst ` set (bind_sockets s) then (- 1, s)
      else
        let s = s\<lparr>bind_sockets := map_insert port sockID (bind_sockets s)\<rparr>;
            s = (if datagrams s port = None then s\<lparr>datagrams := (datagrams s)(port \<mapsto> [])\<rparr> else s) in
        (1, s))"

definition getData :: "int \<Rightarrow> int \<Rightarrow> 'a NetKernel_scheme \<Rightarrow> (int \<times> byte list \<times> 'a NetKernel_scheme) res option" where
  "getData sz sockID s =
     (let port = port_of (bind_sockets s) sockID in
      if port = - 1 then Some (Inr (- 1, [], s))
      else case datagrams s port of
          None \<Rightarrow> Some (Inl NullPointer)
        | Some [] \<Rightarrow> None
        | Some ((n, data) # rest) \<Rightarrow>
            let s = s\<lparr>datagrams := (datagrams s)(port \<mapsto> rest)\<rparr> in
            Some (rbind (memcpy data 0 (min sz n)) (\<lambda>msg. Inr (1, msg, s))))"

definition deleteSocket :: "int \<Rightarrow> 'a NetKernel_scheme \<Rightarrow> 'a NetKernel_scheme" where
  "deleteSocket sockID s =
     (let s = (if connected_sockets s sockID \<noteq> None
               then s\<lparr>connected_sockets := (connected_sockets s)(sockID := None)\<rparr> else s);
          port = port_of (bind_sockets s) sockID in
      if port \<noteq> - 1 then s\<lparr>bind_sockets := filter (\<lambda>(p, _). p \<noteq> port) (bind_sockets s)\<rparr> else s)"

section \<open>Addresses\<close>

definition dotted :: "byte list \<Rightarrow> string" where
  "dotted bs = concat (map (\<lambda>b. nat_digits (unat b) @ ''.'') (butlast bs)) @ nat_digits (unat (last bs))"

lemma digit_not_special: "is_digit c \<Longrightarrow> c \<notin> {CHR '' '', CHR 0x09, CHR 0x0A, CHR 0x0B, CHR 0x0C, CHR 0x0D, CHR ''-'', CHR ''+'', CHR ''.''}"
  by (auto simp: is_digit_def)

lemma stoi_digits:
  assumes "n < 2 ^ 31"
  shows "stoi (nat_digits n) = Inr (int n)"
proof -
  obtain c cs where c: "nat_digits n = c # cs" by (cases "nat_digits n") auto
  have d: "\<forall>x\<in>set (nat_digits n). is_digit x" using nat_digits_are_digits by blast
  then have "is_digit c" using c by simp
  then have n: "c \<notin> {CHR '' '', CHR 0x09, CHR 0x0A, CHR 0x0B, CHR 0x0C, CHR 0x0D, CHR ''-'', CHR ''+'', CHR ''.''}"
    by (rule digit_not_special)
  have tw: "takeWhile is_digit cs = cs" using d c by (simp add: takeWhile_eq_all_conv)
  have v: "digits_val (c # cs) = n" using digits_val_digits [of n] by (simp only: c)
  show ?thesis unfolding c using n assms \<open>is_digit c\<close> by (simp add: stoi_def tw v)
qed

lemma ip_loop_octet:
  "CHR ''.'' \<notin> set ds \<Longrightarrow> length addr < 4 \<Longrightarrow>
   ip_loop (ds @ CHR ''.'' # rest) pre addr = rbind (stoi (pre @ ds)) (\<lambda>v. ip_loop rest [] (addr @ [word_of_int v]))"
  by (induction ds arbitrary: pre) auto

lemma ip_loop_last:
  "CHR ''.'' \<notin> set ds \<Longrightarrow> length addr < 4 \<Longrightarrow>
   ip_loop ds pre addr = rbind (stoi (pre @ ds)) (\<lambda>v. Inr (if length addr = 3 then 1 else - 1, addr @ [word_of_int v]))"
  by (induction ds arbitrary: pre) auto

lemma octet_digits: "CHR ''.'' \<notin> set (nat_digits n)"
  using nat_digits_are_digits digit_not_special by blast

lemma stoi_octet [simp]: "stoi (nat_digits (unat b)) = Inr (uint b)" for b :: byte
proof -
  have "unat b < 2 ^ LENGTH(8)" by (rule unsigned_less)
  then have "unat b < 2 ^ 31" by simp
  then show ?thesis using stoi_digits by simp
qed

lemma get_ip_dotted:
  assumes "length bs = 4"
  shows "get_ip_strToChar (dotted bs) = Inr (1, bs)"
proof -
  obtain a b c d where bs: "bs = [a, b, c, d]" using assms by (auto simp: numeral_eq_Suc length_Suc_conv)
  show ?thesis unfolding bs get_ip_strToChar_def dotted_def
    by (simp add: ip_loop_octet ip_loop_last octet_digits)
qed

section \<open>Bound ports\<close>

definition sockets_ok :: "'a NetKernel_scheme \<Rightarrow> bool" where
  "sockets_ok s \<longleftrightarrow> sorted_wrt (\<lambda>a b. fst a < fst b) (bind_sockets s) \<and>
     (\<forall>(port, sock)\<in>set (bind_sockets s). datagrams s port \<noteq> None)"

lemma set_map_insert [simp]: "set (map_insert k v m) = insert (k, v) (set m)"
  by (induction k v m rule: map_insert.induct) auto

lemma map_insert_sorted:
  "sorted_wrt (\<lambda>a b. fst a < fst b) m \<Longrightarrow> k \<notin> fst ` set m \<Longrightarrow> sorted_wrt (\<lambda>a b. fst a < fst b) (map_insert k v m)"
  by (induction k v m rule: map_insert.induct) (force simp: not_less order_le_less)+

lemma port_of_member: "port_of m sock \<noteq> - 1 \<Longrightarrow> (port_of m sock, sock) \<in> set m"
  by (induction m sock rule: port_of.induct) (auto split: if_splits)

lemma port_of_insert:
  assumes "sock \<notin> snd ` set m"
  shows "port_of (map_insert port sock m) sock = port"
  using assms by (induction port sock m rule: map_insert.induct) auto

lemma port_of_insert_other: "sock' \<noteq> sock \<Longrightarrow> port_of (map_insert port sock m) sock' = port_of m sock'"
  by (induction port sock m rule: map_insert.induct) auto

lemma sockets_ok_bind: "sockets_ok s \<Longrightarrow> sockets_ok (snd (insert_bind_socket sock port s))"
  by (auto simp: sockets_ok_def insert_bind_socket_def Let_def map_insert_sorted)

lemma sockets_ok_delete: "sockets_ok s \<Longrightarrow> sockets_ok (deleteSocket sock s)"
  by (auto simp: sockets_ok_def deleteSocket_def Let_def sorted_wrt_filter)

lemma sockets_ok_putData: "sockets_ok s \<Longrightarrow> sockets_ok (putData data n port s)"
  by (auto simp: sockets_ok_def putData_def Let_def)

lemma getData_cases:
  assumes "sockets_ok s" "port_of (bind_sockets s) sock \<noteq> - 1"
  obtains "datagrams s (port_of (bind_sockets s) sock) = Some []" "getData sz sock s = None"
  | n data rest where "datagrams s (port_of (bind_sockets s) sock) = Some ((n, data) # rest)"
      "getData sz sock s = Some (rbind (memcpy data 0 (min sz n)) (\<lambda>msg.
         Inr (1, msg, s\<lparr>datagrams := (datagrams s)(port_of (bind_sockets s) sock \<mapsto> rest)\<rparr>)))"
proof -
  have "datagrams s (port_of (bind_sockets s) sock) \<noteq> None"
    using assms port_of_member [OF assms(2)] by (auto simp: sockets_ok_def)
  then obtain q where q: "datagrams s (port_of (bind_sockets s) sock) = Some q" by auto
  show thesis
  proof (cases q)
    case Nil
    then show ?thesis using that(1) q assms(2) by (simp add: getData_def)
  next
    case (Cons x rest)
    then show ?thesis using that(2) [of "fst x" "snd x" rest] q assms(2) by (cases x) (simp add: getData_def Let_def)
  qed
qed

section \<open>Messages\<close>

lemma strlen_string: "0 \<notin> set data \<Longrightarrow> strlen (data @ 0 # rest) = Inr (int (length data))"
  by (induction data) (auto simp: strlen_def)

lemma UDP_Send_prefix:
  "UDP_Send junk (data @ rest) (int (length data)) dest sp dp s = UDP_Send junk data (int (length data)) dest sp dp s"
  by (simp add: UDP_Send_def memcpy_def slice_of_def)

lemma get_Random_Identification_connected [simp]:
  "fst (get_Random_Identification (s\<lparr>connected_sockets := c\<rparr>)) = fst (get_Random_Identification s)"
  by (simp add: get_Random_Identification_def RandomNumber_def Let_def split: list.split)

lemma connect_dotted:
  assumes "length addr = 4"
  shows "insert_connect_socket sock (dotted addr) sp dp s =
    Inr (1, s\<lparr>connected_sockets := (connected_sockets s)(sock \<mapsto> \<lparr>sock_ip = addr, srcPort = sp, destPort = dp\<rparr>)\<rparr>)"
  by (simp add: insert_connect_socket_def get_ip_dotted [OF assms])

text \<open>C16. A message travels from socket to socket: a program on one machine connects a socket to the dotted
  address and the port of another machine and sends a string; on the other machine a program has
  bound a socket to that port.  Delivered in any order, the frames on the wire make \<open>getData\<close> on the
  bound socket return the string, cut off at the size asked for, and leave its queue empty.\<close>

theorem socket_message:
  assumes s: "ints_ok s" "0 \<le> hostName s" "hostName s < 10"
    and r: "0 \<le> hostName r" "hostName r < 10" "messageAvailable r = 0" "messages r = []" "sockets_ok r"
    and free: "fragmentDict r (computeHash (ip (hostName s)) (ip (hostName r))
        (uint (fst (get_Random_Identification s)))) = None"
    and port: "0 \<le> dp" "dp < 65536" "datagrams r dp = None" "rsock \<notin> snd ` set (bind_sockets r)"
    and msg: "0 \<notin> set data" "length data \<le> 65527" "0 \<le> sz"
  shows "\<exists>r1 s1 s2 frames. insert_bind_socket rsock dp r = (1, r1) \<and>
    insert_connect_socket ssock (dotted (ip (hostName r))) sp dp s = Inr (1, s1) \<and>
    send_message junk ssock (data @ 0 # rest) s1 = Inr (1, s2) \<and> map snd (wire s2) = map snd (wire s) @ frames \<and>
    (\<forall>js. distinct js \<and> set js = {0..<length frames} \<longrightarrow>
      (\<exists>r2 r3. for_each deliver (map ((!) frames) js) r1 = Inr r2 \<and>
        getData sz rsock r2 = Some (Inr (1, take (nat sz) data, r3)) \<and> datagrams r3 dp = Some []))"
proof -
  let ?ss = "\<lparr>sock_ip = ip (hostName r), srcPort = sp, destPort = dp\<rparr>"
  let ?s1 = "s\<lparr>connected_sockets := (connected_sockets s)(ssock \<mapsto> ?ss)\<rparr>"
  let ?r1 = "r\<lparr>bind_sockets := map_insert dp rsock (bind_sockets r), datagrams := (datagrams r)(dp \<mapsto> [])\<rparr>"
  have "dp \<notin> fst ` set (bind_sockets r)" using r(5) port(3) by (auto simp: sockets_ok_def)
  then have b: "insert_bind_socket rsock dp r = (1, ?r1)" using port(3) by (simp add: insert_bind_socket_def Let_def)
  have p: "port_of (bind_sockets ?r1) rsock = dp" using port_of_insert [OF port(4)] by simp
  have c: "insert_connect_socket ssock (dotted (ip (hostName r))) sp dp s = Inr (1, ?s1)"
    by (rule connect_dotted [OF pools(4) [OF r(1,2)]])
  have "ints_ok ?s1" using s(1) by (simp add: ints_ok_def)
  then obtain s2 frames where s2: "UDP_Send junk data (int (length data)) (ip (hostName r)) sp dp ?s1 = Inr s2"
      "map snd (wire s2) = map snd (wire s) @ frames" and
    f: "\<forall>js. distinct js \<and> set js = {0..<length frames} \<longrightarrow>
      (\<exists>r' zs. for_each deliver (map ((!) frames) js) ?r1 = Inr r' \<and> fragmentDict r' = fragmentDict ?r1 \<and>
        bind_sockets r' = bind_sockets ?r1 \<and> datagrams r' = (datagrams ?r1)(dp \<mapsto>
          (case datagrams ?r1 dp of None \<Rightarrow> [] | Some q \<Rightarrow> q) @ [(int (length data), data @ zs)]))"
    using udp_delivery [of ?s1 ?r1 data dp junk sp] s r port msg free by auto
  have sent: "send_message junk ssock (data @ 0 # rest) ?s1 = Inr (1, s2)"
    using s2(1) by (simp add: send_message_def strlen_string [OF msg(1)] UDP_Send_prefix)
  have "\<exists>r2 r3. for_each deliver (map ((!) frames) js) ?r1 = Inr r2 \<and>
      getData sz rsock r2 = Some (Inr (1, take (nat sz) data, r3)) \<and> datagrams r3 dp = Some []"
    if js: "distinct js" "set js = {0..<length frames}" for js
  proof -
    obtain r2 zs where r2: "for_each deliver (map ((!) frames) js) ?r1 = Inr r2" "bind_sockets r2 = bind_sockets ?r1"
        "datagrams r2 dp = Some [(int (length data), data @ zs)]"
      using f [rule_format, OF conjI [OF js]] by auto
    have "memcpy (data @ zs) 0 (min sz (int (length data))) = Inr (take (nat sz) data)"
      using msg(3) by (cases "sz \<le> int (length data)") (auto simp: memcpy_def slice_of_def)
    then have "getData sz rsock r2 = Some (Inr (1, take (nat sz) data, r2\<lparr>datagrams := (datagrams r2)(dp \<mapsto> [])\<rparr>))"
      using p r2(2,3) port(1) by (simp add: getData_def Let_def)
    then show ?thesis using r2(1) by (intro exI [of _ r2] exI [of _ "r2\<lparr>datagrams := (datagrams r2)(dp \<mapsto> [])\<rparr>"]) simp
  qed
  then show ?thesis using b c sent s2(2) by blast
qed

lemma net_boot_sockets: "sockets_ok (net_boot h)" "bind_sockets (net_boot h) = []"
  by (simp_all add: sockets_ok_def net_boot_defs)

theorem socket_message_witness:
  "\<exists>r1 s1 s2 frames. insert_bind_socket 4 80 (net_boot 1) = (1, r1) \<and>
    insert_connect_socket 7 (dotted (ip (hostName (net_boot 1)))) 9 80 (net_boot 0) = Inr (1, s1) \<and>
    send_message 0 7 ([72, 105] @ 0 # []) s1 = Inr (1, s2) \<and> map snd (wire s2) = map snd (wire (net_boot 0)) @ frames \<and>
    (\<forall>js. distinct js \<and> set js = {0..<length frames} \<longrightarrow>
      (\<exists>r2 r3. for_each deliver (map ((!) frames) js) r1 = Inr r2 \<and>
        getData 16 4 r2 = Some (Inr (1, take (nat 16) [72, 105], r3)) \<and> datagrams r3 80 = Some []))"
  by (rule socket_message) (simp_all add: net_boot_sockets)

text \<open>C17. The tables stay consistent: binding a port, deleting a socket and receiving data keep the ports in
  order with one socket each and a queue for every bound port, so that \<open>getData\<close> on a bound socket
  never follows a missing queue: it waits, or takes the first datagram.\<close>

theorem sockets_consistent:
  assumes "sockets_ok s"
  shows "sockets_ok (snd (insert_bind_socket sock port s)) \<and> sockets_ok (deleteSocket sock s) \<and>
    sockets_ok (putData data n port s) \<and> getData sz sock s \<noteq> Some (Inl NullPointer) \<and>
    (\<forall>m s'. getData sz sock s = Some (Inr (1, m, s')) \<longrightarrow> sockets_ok s')"
proof (intro conjI allI impI)
  show "sockets_ok (snd (insert_bind_socket sock port s))" "sockets_ok (deleteSocket sock s)"
    "sockets_ok (putData data n port s)"
    using assms sockets_ok_bind sockets_ok_delete sockets_ok_putData by blast+
  show "getData sz sock s \<noteq> Some (Inl NullPointer)"
  proof (cases "port_of (bind_sockets s) sock = - 1")
    case False
    then show ?thesis by (cases rule: getData_cases [OF assms False, of sz]) (auto simp: memcpy_def)
  qed (simp add: getData_def)
  fix m s' assume g: "getData sz sock s = Some (Inr (1, m, s'))"
  then have "port_of (bind_sockets s) sock \<noteq> - 1" by (auto simp: getData_def)
  then show "sockets_ok s'"
    by (cases rule: getData_cases [OF assms, of sock sz]) (use g assms in \<open>auto simp: memcpy_def sockets_ok_def split: if_splits\<close>)
qed

theorem sockets_consistent_witness:
  "sockets_ok (net_boot 1) \<and> sockets_ok (snd (insert_bind_socket 4 80 (net_boot 1))) \<and>
   sockets_ok (deleteSocket 4 (net_boot 1)) \<and> getData 10 4 (net_boot 1) \<noteq> Some (Inl NullPointer)"
proof -
  have "sockets_ok (net_boot 1)" by (simp add: sockets_ok_def net_boot_defs)
  then show ?thesis using sockets_consistent [of "net_boot 1" 4 80 "[]" 0 10] by blast
qed

text \<open>A string in which \<open>std::stoi\<close> finds no number.\<close>

definition no_number :: "string \<Rightarrow> bool" where
  "no_number str \<longleftrightarrow> (case str of [] \<Rightarrow> True | c # _ \<Rightarrow> \<not> is_digit c \<and>
     c \<notin> {CHR '' '', CHR 0x09, CHR 0x0A, CHR 0x0B, CHR 0x0C, CHR 0x0D, CHR ''-'', CHR ''+''})"

lemma stoi_no_number: "no_number str \<Longrightarrow> stoi str = Inl Uncaught"
  by (cases str) (auto simp: no_number_def stoi_def)

lemma ip_loop_no_number: "no_number ds \<Longrightarrow> ds \<noteq> [] \<Longrightarrow> ip_loop cs ds [] = Inl Uncaught"
proof (induction cs arbitrary: ds)
  case (Cons c cs)
  have "no_number (ds @ [c])" using Cons.prems by (cases ds) (auto simp: no_number_def)
  then show ?case using Cons by (simp add: stoi_no_number)
qed (simp add: stoi_no_number)

text \<open>A malformed address stops the kernel: \<open>Connect\<close> with a string that has no number where the first
  octet is expected ends in an exception that nothing catches, whichever program makes the call.\<close>

theorem malformed_address_uncaught:
  assumes "no_number str"
  shows "insert_connect_socket sock str sp dp s = Inl Uncaught"
proof -
  have "ip_loop str [] [] = Inl Uncaught"
  proof (cases str)
    case (Cons c cs)
    then have "no_number [c]" using assms by (simp add: no_number_def)
    then show ?thesis using Cons ip_loop_no_number [of "[c]" cs] stoi_no_number [of "[]"] by (simp add: no_number_def)
  qed (simp add: stoi_no_number no_number_def)
  then show ?thesis by (simp add: insert_connect_socket_def get_ip_strToChar_def)
qed

theorem malformed_address_uncaught_witness:
  "no_number ''localhost'' \<and> insert_connect_socket 3 ''localhost'' 1 2 (net_boot 0) = Inl Uncaught"
proof -
  have "no_number ''localhost''" by (simp add: no_number_def is_digit_def)
  then show ?thesis using malformed_address_uncaught by blast
qed

end
