(* ===== verification/Bitmap.thy ===== *)
theory Bitmap
  imports Nachos_Prelude
begin

text \<open>
  The bitmap of \<open>lib/bitmap.h\<close> and \<open>lib/bitmap.cc\<close>: an array of 32-bit words in which
  bit \<open>which % 32\<close> of word \<open>which / 32\<close> says whether slot \<open>which\<close> is in use.
  The abstraction \<open>marked\<close> is the set of slots in use.  The locale \<open>slot_allocator\<close>
  is the contract the clients of the class rely on (disk sectors, physical pages,
  semaphore slots); the bitmap is its interpretation.
\<close>

section \<open>The class and its operations\<close>

record Bitmap =
  numBits :: int
  numWords :: int
  bmap :: "32 word list"

definition BitsInByte :: int where
  "BitsInByte = 8"

definition BitsInWord :: int where
  "BitsInWord = 4 * BitsInByte"

definition bit_mask :: "int \<Rightarrow> 32 word" where
  "bit_mask which = push_bit (nat (which smod BitsInWord)) 1"

definition Bitmap_Test :: "Bitmap \<Rightarrow> int \<Rightarrow> bool res" where
  "Bitmap_Test b which =
     rbind (ASSERT (which \<ge> 0 \<and> which < numBits b)) (\<lambda>_.
     rbind (arr_get (bmap b) (which sdiv BitsInWord)) (\<lambda>w.
     Inr (w AND bit_mask which \<noteq> 0)))"

definition Bitmap_Mark :: "Bitmap \<Rightarrow> int \<Rightarrow> Bitmap res" where
  "Bitmap_Mark b which =
     rbind (ASSERT (which \<ge> 0 \<and> which < numBits b)) (\<lambda>_.
     rbind (arr_get (bmap b) (which sdiv BitsInWord)) (\<lambda>w.
     rbind (arr_set (bmap b) (which sdiv BitsInWord) (w OR bit_mask which)) (\<lambda>m.
     let b' = b\<lparr>bmap := m\<rparr> in
     rbind (Bitmap_Test b' which) (\<lambda>t.
     rbind (ASSERT t) (\<lambda>_. Inr b')))))"

definition Bitmap_Clear :: "Bitmap \<Rightarrow> int \<Rightarrow> Bitmap res" where
  "Bitmap_Clear b which =
     rbind (ASSERT (which \<ge> 0 \<and> which < numBits b)) (\<lambda>_.
     rbind (arr_get (bmap b) (which sdiv BitsInWord)) (\<lambda>w.
     rbind (arr_set (bmap b) (which sdiv BitsInWord) (w AND NOT (bit_mask which))) (\<lambda>m.
     let b' = b\<lparr>bmap := m\<rparr> in
     rbind (Bitmap_Test b' which) (\<lambda>t.
     rbind (ASSERT (\<not> t)) (\<lambda>_. Inr b')))))"

definition Bitmap_new :: "int \<Rightarrow> Bitmap res" where
  "Bitmap_new numItems =
     rbind (ASSERT (numItems > 0)) (\<lambda>_.
     let nw = divRoundUp numItems BitsInWord;
         b = \<lparr>numBits = numItems, numWords = nw, bmap = replicate (nat nw) 0\<rparr>
     in for_each (\<lambda>i b. Bitmap_Clear b i) [0..numItems - 1] b)"

text \<open>The search loop of \<open>FindAndSet\<close>, over the indices still to be inspected.\<close>

fun FindAndSet_loop :: "int list \<Rightarrow> Bitmap \<Rightarrow> (int \<times> Bitmap) res" where
  "FindAndSet_loop [] b = Inr (-1, b)"
| "FindAndSet_loop (i # ix) b =
     rbind (Bitmap_Test b i) (\<lambda>t.
     if \<not> t then rbind (Bitmap_Mark b i) (\<lambda>b'. Inr (i, b'))
     else FindAndSet_loop ix b)"

definition Bitmap_FindAndSet :: "Bitmap \<Rightarrow> (int \<times> Bitmap) res" where
  "Bitmap_FindAndSet b = FindAndSet_loop [0..numBits b - 1] b"

definition Bitmap_NumClear :: "Bitmap \<Rightarrow> int res" where
  "Bitmap_NumClear b =
     for_each (\<lambda>i count. rbind (Bitmap_Test b i) (\<lambda>t. Inr (if \<not> t then count + 1 else count)))
       [0..numBits b - 1] 0"

definition Bitmap_Print :: "Bitmap \<Rightarrow> int list res" where
  "Bitmap_Print b =
     for_each (\<lambda>i out. rbind (Bitmap_Test b i) (\<lambda>t. Inr (if t then out @ [i] else out)))
       [0..numBits b - 1] []"

definition Bitmap_SelfTest :: "Bitmap \<Rightarrow> Bitmap res" where
  "Bitmap_SelfTest b =
     rbind (ASSERT (numBits b \<ge> BitsInWord)) (\<lambda>_.
     rbind (Bitmap_NumClear b) (\<lambda>n. rbind (ASSERT (n = numBits b)) (\<lambda>_.
     rbind (Bitmap_FindAndSet b) (\<lambda>(i, b). rbind (ASSERT (i = 0)) (\<lambda>_.
     rbind (Bitmap_Mark b 31) (\<lambda>b.
     rbind (Bitmap_Test b 0) (\<lambda>t0. rbind (Bitmap_Test b 31) (\<lambda>t31. rbind (ASSERT (t0 \<and> t31)) (\<lambda>_.
     rbind (Bitmap_FindAndSet b) (\<lambda>(i, b). rbind (ASSERT (i = 1)) (\<lambda>_.
     rbind (Bitmap_Clear b 0) (\<lambda>b. rbind (Bitmap_Clear b 1) (\<lambda>b. rbind (Bitmap_Clear b 31) (\<lambda>b.
     rbind (for_each (\<lambda>i b. Bitmap_Mark b i) [0..numBits b - 1] b) (\<lambda>b.
     rbind (Bitmap_FindAndSet b) (\<lambda>(i, b). rbind (ASSERT (i = -1)) (\<lambda>_.
     for_each (\<lambda>i b. Bitmap_Clear b i) [0..numBits b - 1] b)))))))))))))))))"

section \<open>Invariant and abstraction\<close>

definition bitmap_ok :: "Bitmap \<Rightarrow> bool" where
  "bitmap_ok b \<longleftrightarrow> numBits b > 0 \<and> numWords b = divRoundUp (numBits b) BitsInWord \<and>
     length (bmap b) = nat (numWords b)"

definition marked :: "Bitmap \<Rightarrow> int set" where
  "marked b = {i. 0 \<le> i \<and> i < numBits b \<and> bit (bmap b ! nat (i div 32)) (nat (i mod 32))}"

lemmas bitmap_consts = BitsInWord_def BitsInByte_def

lemma word_index_ok:
  assumes "bitmap_ok b" "0 \<le> i" "i < numBits b"
  shows "0 \<le> i div 32" and "i div 32 < int (length (bmap b))"
proof -
  have "numBits b \<le> numWords b * 32"
    using divRoundUp_bounds(1) [of "numBits b" 32] assms
    by (simp add: bitmap_ok_def bitmap_consts)
  then show "0 \<le> i div 32" and "i div 32 < int (length (bmap b))"
    using assms by (auto simp: bitmap_ok_def)
qed

lemma and_bit_mask: "0 \<le> i \<Longrightarrow> (w AND bit_mask i \<noteq> 0) = bit w (nat (i mod 32))"
proof -
  assume "0 \<le> i"
  then have "bit_mask i = push_bit (nat (i mod 32)) 1" by (simp add: bit_mask_def bitmap_consts)
  moreover have "nat (i mod 32) < 32" by simp
  ultimately show ?thesis
    by (metis (no_types) and_exp_eq_0_iff_not_bit push_bit_of_1)
qed

lemma bit_or_mask:
  assumes "0 \<le> i" "0 \<le> j"
  shows "bit (w OR bit_mask i) (nat (j mod 32)) \<longleftrightarrow> bit w (nat (j mod 32)) \<or> i mod 32 = j mod 32"
  using assms by (auto simp: bit_mask_def bitmap_consts bit_simps)

lemma bit_and_not_mask:
  assumes "0 \<le> i" "0 \<le> j"
  shows "bit (w AND NOT (bit_mask i)) (nat (j mod 32)) \<longleftrightarrow> bit w (nat (j mod 32)) \<and> i mod 32 \<noteq> j mod 32"
  using assms by (auto simp: bit_mask_def bitmap_consts bit_simps)


section \<open>Functional behaviour\<close>

lemma Bitmap_Test_ok:
  assumes "bitmap_ok b" "0 \<le> i" "i < numBits b"
  shows "Bitmap_Test b i = Inr (i \<in> marked b)"
  using assms word_index_ok [OF assms]
  by (simp add: Bitmap_Test_def arr_get_ok and_bit_mask marked_def bitmap_consts)

lemma Bitmap_Test_fault: "i < 0 \<or> numBits b \<le> i \<Longrightarrow> Bitmap_Test b i = Inl AssertionFailed"
  by (auto simp: Bitmap_Test_def)

lemma same_slot: "0 \<le> i \<Longrightarrow> 0 \<le> (j::int) \<Longrightarrow> i div 32 = j div 32 \<Longrightarrow> i mod 32 = j mod 32 \<Longrightarrow> i = j"
  by (metis div_mult_mod_eq)

lemma update_word_ok:
  assumes "bitmap_ok b"
  shows "bitmap_ok (b\<lparr>bmap := (bmap b)[k := w]\<rparr>)"
  using assms by (simp add: bitmap_ok_def)

lemma marked_or:
  assumes ok: "bitmap_ok b" and i: "0 \<le> i" "i < numBits b"
  shows "marked (b\<lparr>bmap := (bmap b)[nat (i div 32) := bmap b ! nat (i div 32) OR bit_mask i]\<rparr>)
           = insert i (marked b)" (is "marked ?b' = _")
proof (intro set_eqI)
  fix j
  note w = word_index_ok [OF ok i]
  show "j \<in> marked ?b' \<longleftrightarrow> j \<in> insert i (marked b)"
  proof (cases "0 \<le> j \<and> j < numBits b \<and> j div 32 = i div 32")
    case True
    then show ?thesis
      using i w same_slot [of i j] by (auto simp: marked_def bit_or_mask)
  next
    case False
    then show ?thesis
      using i w by (auto simp: marked_def nth_list_update eq_nat_nat_iff)
  qed
qed

lemma marked_and_not:
  assumes ok: "bitmap_ok b" and i: "0 \<le> i" "i < numBits b"
  shows "marked (b\<lparr>bmap := (bmap b)[nat (i div 32) := bmap b ! nat (i div 32) AND NOT (bit_mask i)]\<rparr>)
           = marked b - {i}" (is "marked ?b' = _")
proof (intro set_eqI)
  fix j
  note w = word_index_ok [OF ok i]
  show "j \<in> marked ?b' \<longleftrightarrow> j \<in> marked b - {i}"
  proof (cases "0 \<le> j \<and> j < numBits b \<and> j div 32 = i div 32")
    case True
    then show ?thesis
      using i w same_slot [of i j] by (auto simp: marked_def bit_and_not_mask)
  next
    case False
    then show ?thesis
      using i w by (auto simp: marked_def nth_list_update eq_nat_nat_iff)
  qed
qed

lemma Bitmap_Mark_ok:
  assumes "bitmap_ok b" "0 \<le> i" "i < numBits b"
  shows "\<exists>b'. Bitmap_Mark b i = Inr b' \<and> bitmap_ok b' \<and> numBits b' = numBits b \<and>
           marked b' = insert i (marked b)"
proof -
  note w = word_index_ok [OF assms]
  let ?b' = "b\<lparr>bmap := (bmap b)[nat (i div 32) := bmap b ! nat (i div 32) OR bit_mask i]\<rparr>"
  have ok: "bitmap_ok ?b'" by (rule update_word_ok [OF assms(1)])
  have "Bitmap_Test ?b' i = Inr True"
    using Bitmap_Test_ok [OF ok] assms marked_or [OF assms] by simp
  then have "Bitmap_Mark b i = Inr ?b'"
    using assms w by (simp add: Bitmap_Mark_def arr_get_ok arr_set_ok bitmap_consts)
  with ok marked_or [OF assms] show ?thesis by auto
qed

lemma Bitmap_Clear_ok:
  assumes "bitmap_ok b" "0 \<le> i" "i < numBits b"
  shows "\<exists>b'. Bitmap_Clear b i = Inr b' \<and> bitmap_ok b' \<and> numBits b' = numBits b \<and>
           marked b' = marked b - {i}"
proof -
  note w = word_index_ok [OF assms]
  let ?b' = "b\<lparr>bmap := (bmap b)[nat (i div 32) := bmap b ! nat (i div 32) AND NOT (bit_mask i)]\<rparr>"
  have ok: "bitmap_ok ?b'" by (rule update_word_ok [OF assms(1)])
  have "Bitmap_Test ?b' i = Inr False"
    using Bitmap_Test_ok [OF ok] assms marked_and_not [OF assms] by simp
  then have "Bitmap_Clear b i = Inr ?b'"
    using assms w by (simp add: Bitmap_Clear_def arr_get_ok arr_set_ok bitmap_consts)
  with ok marked_and_not [OF assms] show ?thesis by auto
qed

lemma Bitmap_Mark_fault: "i < 0 \<or> numBits b \<le> i \<Longrightarrow> Bitmap_Mark b i = Inl AssertionFailed"
  and Bitmap_Clear_fault: "i < 0 \<or> numBits b \<le> i \<Longrightarrow> Bitmap_Clear b i = Inl AssertionFailed"
  by (auto simp: Bitmap_Mark_def Bitmap_Clear_def)

lemma marked_range: "i \<in> marked b \<Longrightarrow> 0 \<le> i \<and> i < numBits b"
  by (simp add: marked_def)

lemma finite_marked [simp]: "finite (marked b)"
  by (rule finite_subset [of _ "{0..<numBits b}"]) (auto simp: marked_def)

text \<open>Clearing every slot of a range, as the constructor and the self test do.\<close>

lemma clear_all_ok:
  assumes "bitmap_ok b" "set ix \<subseteq> {0..<numBits b}"
  shows "\<exists>b'. for_each (\<lambda>i b. Bitmap_Clear b i) ix b = Inr b' \<and> bitmap_ok b' \<and>
           numBits b' = numBits b \<and> marked b' = marked b - set ix"
  using assms
proof (induction ix arbitrary: b)
  case (Cons i ix)
  obtain b1 where b1: "Bitmap_Clear b i = Inr b1" "bitmap_ok b1" "numBits b1 = numBits b"
      "marked b1 = marked b - {i}"
    using Bitmap_Clear_ok [of b i] Cons.prems by auto
  from Cons.IH [of b1] Cons.prems b1 show ?case by auto
qed simp

lemma mark_all_ok:
  assumes "bitmap_ok b" "set ix \<subseteq> {0..<numBits b}"
  shows "\<exists>b'. for_each (\<lambda>i b. Bitmap_Mark b i) ix b = Inr b' \<and> bitmap_ok b' \<and>
           numBits b' = numBits b \<and> marked b' = marked b \<union> set ix"
  using assms
proof (induction ix arbitrary: b)
  case (Cons i ix)
  obtain b1 where b1: "Bitmap_Mark b i = Inr b1" "bitmap_ok b1" "numBits b1 = numBits b"
      "marked b1 = insert i (marked b)"
    using Bitmap_Mark_ok [of b i] Cons.prems by auto
  from Cons.IH [of b1] Cons.prems b1 show ?case by auto
qed simp

lemma Bitmap_new_ok:
  assumes "n > 0"
  shows "\<exists>b. Bitmap_new n = Inr b \<and> bitmap_ok b \<and> numBits b = n \<and> marked b = {}"
proof -
  let ?nw = "divRoundUp n BitsInWord"
  let ?b = "\<lparr>numBits = n, numWords = ?nw, bmap = replicate (nat ?nw) 0\<rparr>"
  have ok: "bitmap_ok ?b" using assms by (simp add: bitmap_ok_def)
  have e: "marked ?b = {}"
  proof -
    have "bmap ?b ! nat (i div 32) = 0" if "0 \<le> i" "i < n" for i
      using word_index_ok [OF ok, of i] that by (auto simp: nat_less_iff split: if_splits)
    then show ?thesis by (auto simp: marked_def simp del: nth_replicate)
  qed
  have "set [0..n - 1] \<subseteq> {0..<numBits ?b}" by auto
  from clear_all_ok [OF ok this] e assms show ?thesis
    by (simp add: Bitmap_new_def Let_def)
qed

text \<open>The search finds the least free slot of the range it inspects.\<close>

lemma FindAndSet_loop_ok:
  assumes "bitmap_ok b" "set ix \<subseteq> {0..<numBits b}"
  shows "(\<exists>pre i post b'. ix = pre @ i # post \<and> set pre \<subseteq> marked b \<and> i \<notin> marked b \<and>
            FindAndSet_loop ix b = Inr (i, b') \<and> bitmap_ok b' \<and> numBits b' = numBits b \<and>
            marked b' = insert i (marked b))
         \<or> set ix \<subseteq> marked b \<and> FindAndSet_loop ix b = Inr (-1, b)"
  using assms(2)
proof (induction ix)
  case (Cons i ix)
  show ?case
  proof (cases "i \<in> marked b")
    case True
    then have t: "FindAndSet_loop (i # ix) b = FindAndSet_loop ix b"
      using Bitmap_Test_ok [OF assms(1), of i] Cons.prems by simp
    from Cons.IH Cons.prems consider
      (hit) pre j post b' where "ix = pre @ j # post" "set pre \<subseteq> marked b" "j \<notin> marked b"
        "FindAndSet_loop ix b = Inr (j, b')" "bitmap_ok b'" "numBits b' = numBits b"
        "marked b' = insert j (marked b)"
      | (miss) "set ix \<subseteq> marked b" "FindAndSet_loop ix b = Inr (-1, b)"
      by auto
    then show ?thesis
    proof cases
      case hit
      then have "i # ix = (i # pre) @ j # post" "set (i # pre) \<subseteq> marked b" using True by auto
      with hit t show ?thesis
        by (intro disjI1 exI [of _ "i # pre"] exI [of _ j] exI [of _ post] exI [of _ b']) simp
    next
      case miss
      with True t show ?thesis by simp
    qed
  next
    case False
    obtain b' where "Bitmap_Mark b i = Inr b'" "bitmap_ok b'" "numBits b' = numBits b"
        "marked b' = insert i (marked b)"
      using Bitmap_Mark_ok [OF assms(1), of i] Cons.prems by auto
    moreover from False have "Bitmap_Test b i = Inr False"
      using Bitmap_Test_ok [OF assms(1), of i] Cons.prems by simp
    ultimately show ?thesis using False
      by (intro disjI1 exI [of _ "[]"] exI [of _ i] exI [of _ ix] exI [of _ b']) simp
  qed
qed simp

lemma upto_split: "[0..n] = pre @ i # post \<Longrightarrow> set pre = {0..<i}"
proof -
  assume e: "[0..n] = pre @ i # post"
  have "sorted_wrt (<) (pre @ i # post)" using sorted_wrt_upto [of 0 n] e by simp
  then have lt: "\<And>x. x \<in> set pre \<Longrightarrow> x < i" and gt: "\<And>y. y \<in> set post \<Longrightarrow> i < y"
    by (auto simp: sorted_wrt_append)
  have "set [0..n] = set pre \<union> insert i (set post)" unfolding e by simp
  then have mem: "0 \<le> x \<and> x \<le> n \<longleftrightarrow> x \<in> set pre \<or> x = i \<or> x \<in> set post" for x
    by (simp add: set_eq_iff) blast
  show ?thesis
  proof (intro set_eqI iffI)
    fix x assume "x \<in> set pre"
    with lt mem [of x] show "x \<in> {0..<i}" by simp
  next
    fix x assume "x \<in> {0..<i}"
    with mem [of i] mem [of x] gt [of x] show "x \<in> set pre" by auto
  qed
qed

lemma Bitmap_FindAndSet_ok:
  assumes "bitmap_ok b"
  shows "(\<exists>i b'. Bitmap_FindAndSet b = Inr (i, b') \<and> 0 \<le> i \<and> i < numBits b \<and>
            {0..<i} \<subseteq> marked b \<and> i \<notin> marked b \<and> bitmap_ok b' \<and> numBits b' = numBits b \<and>
            marked b' = insert i (marked b))
         \<or> marked b = {0..<numBits b} \<and> Bitmap_FindAndSet b = Inr (-1, b)"
proof -
  have sub: "set [0..numBits b - 1] \<subseteq> {0..<numBits b}" by auto
  from FindAndSet_loop_ok [OF assms sub] show ?thesis
  proof (elim disjE exE conjE)
    fix pre i post b'
    assume e: "[0..numBits b - 1] = pre @ i # post" and h: "set pre \<subseteq> marked b" "i \<notin> marked b"
      "FindAndSet_loop [0..numBits b - 1] b = Inr (i, b')" "bitmap_ok b'" "numBits b' = numBits b"
      "marked b' = insert i (marked b)"
    have "i \<in> set [0..numBits b - 1]" unfolding e by simp
    then have "0 \<le> i" "i < numBits b" by auto
    with h upto_split [OF e] show ?thesis by (auto simp: Bitmap_FindAndSet_def)
  next
    assume "set [0..numBits b - 1] \<subseteq> marked b" "FindAndSet_loop [0..numBits b - 1] b = Inr (-1, b)"
    then show ?thesis by (auto simp: Bitmap_FindAndSet_def dest: marked_range)
  qed
qed

lemma test_count:
  assumes "bitmap_ok b" "set ix \<subseteq> {0..<numBits b}" "distinct ix"
  shows "for_each (\<lambda>i count. rbind (Bitmap_Test b i) (\<lambda>t. Inr (if \<not> t then count + 1 else count))) ix c
           = Inr (c + int (card (set ix - marked b)))"
  using assms(2,3)
proof (induction ix arbitrary: c)
  case (Cons i ix)
  have t: "Bitmap_Test b i = Inr (i \<in> marked b)"
    using Bitmap_Test_ok [OF assms(1), of i] Cons.prems by simp
  have "card (set (i # ix) - marked b) = card (set ix - marked b) + (if i \<in> marked b then 0 else 1)"
    using Cons.prems by (simp add: insert_Diff_if)
  with Cons t show ?case by simp
qed simp

lemma Bitmap_NumClear_ok:
  assumes "bitmap_ok b"
  shows "Bitmap_NumClear b = Inr (numBits b - int (card (marked b)))"
proof -
  have s: "set [0..numBits b - 1] = {0..<numBits b}" by auto
  have m: "marked b \<subseteq> {0..<numBits b}" by (auto dest: marked_range)
  have "int (card ({0..<numBits b} - marked b)) = numBits b - int (card (marked b))"
    using card_mono [OF _ m] assms by (simp add: card_Diff_subset m of_nat_diff bitmap_ok_def)
  then show ?thesis
    using test_count [OF assms, of "[0..numBits b - 1]" 0] unfolding s
    by (simp add: Bitmap_NumClear_def)
qed

lemma Bitmap_Print_ok:
  assumes "bitmap_ok b"
  shows "Bitmap_Print b = Inr (sorted_list_of_set (marked b))"
proof -
  have f: "for_each (\<lambda>i out. rbind (Bitmap_Test b i) (\<lambda>t. Inr (if t then out @ [i] else out))) ix out
             = Inr (out @ filter (\<lambda>i. i \<in> marked b) ix)"
    if "set ix \<subseteq> {0..<numBits b}" for ix out
    using that by (induction ix arbitrary: out) (auto simp: Bitmap_Test_ok [OF assms])
  have "sorted (filter (\<lambda>i. i \<in> marked b) [0..numBits b - 1])" "distinct (filter (\<lambda>i. i \<in> marked b) [0..numBits b - 1])"
    by (auto intro: sorted_wrt_filter)
  moreover have "set (filter (\<lambda>i. i \<in> marked b) [0..numBits b - 1]) = marked b"
    by (auto dest: marked_range)
  ultimately have "filter (\<lambda>i. i \<in> marked b) [0..numBits b - 1] = sorted_list_of_set (marked b)"
    by (metis sorted_list_of_set.idem_if_sorted_distinct)
  then show ?thesis using f [of "[0..numBits b - 1]" "[]"] by (simp add: Bitmap_Print_def)
qed

section \<open>The allocator contract and its clients' loop\<close>

text \<open>
  A client that needs \<open>n\<close> slots calls \<open>FindAndSet\<close> in a loop
  (\<open>FileHeader::Allocate\<close>, \<open>AddrSpace::AddrSpace\<close>).
\<close>

fun alloc_loop :: "('s \<Rightarrow> 'e + int \<times> 's) \<Rightarrow> nat \<Rightarrow> 's \<Rightarrow> 'e + int list \<times> 's" where
  "alloc_loop take_slot 0 s = Inr ([], s)"
| "alloc_loop take_slot (Suc n) s =
     rbind (take_slot s) (\<lambda>(i, s'). rbind (alloc_loop take_slot n s') (\<lambda>(ix, s''). Inr (i # ix, s'')))"

locale slot_allocator =
  fixes ok :: "'s \<Rightarrow> bool"
    and cap :: "'s \<Rightarrow> int"
    and inuse :: "'s \<Rightarrow> int set"
    and take_slot :: "'s \<Rightarrow> fault + int \<times> 's"
    and release :: "'s \<Rightarrow> int \<Rightarrow> fault + 's"
    and num_free :: "'s \<Rightarrow> fault + int"
  assumes inuse_range: "inuse s \<subseteq> {0..<cap s}"
    and cap_pos: "ok s \<Longrightarrow> 0 < cap s"
    and find_free: "ok s \<Longrightarrow> inuse s \<noteq> {0..<cap s} \<Longrightarrow>
          \<exists>i s'. take_slot s = Inr (i, s') \<and> 0 \<le> i \<and> i < cap s \<and> i \<notin> inuse s \<and>
                 ok s' \<and> cap s' = cap s \<and> inuse s' = insert i (inuse s)"
    and find_full: "ok s \<Longrightarrow> inuse s = {0..<cap s} \<Longrightarrow> take_slot s = Inr (-1, s)"
    and release_ok: "ok s \<Longrightarrow> 0 \<le> i \<Longrightarrow> i < cap s \<Longrightarrow>
          \<exists>s'. release s i = Inr s' \<and> ok s' \<and> cap s' = cap s \<and> inuse s' = inuse s - {i}"
    and num_free_ok: "ok s \<Longrightarrow> num_free s = Inr (cap s - int (card (inuse s)))"
begin

lemma finite_inuse: "finite (inuse s)"
  by (rule finite_subset [OF inuse_range]) simp

lemma room_not_full: "ok s \<Longrightarrow> int (card (inuse s)) < cap s \<Longrightarrow> inuse s \<noteq> {0..<cap s}"
  by (auto dest: cap_pos split: if_splits)

text \<open>With room for \<open>n\<close> slots the loop returns \<open>n\<close> distinct slots that were free.\<close>

lemma alloc_loop_ok:
  assumes "ok s" "int (card (inuse s)) + int n \<le> cap s"
  shows "\<exists>ix s'. alloc_loop take_slot n s = Inr (ix, s') \<and> length ix = n \<and> distinct ix \<and>
           set ix \<inter> inuse s = {} \<and> set ix \<subseteq> {0..<cap s} \<and>
           ok s' \<and> cap s' = cap s \<and> inuse s' = inuse s \<union> set ix"
  using assms
proof (induction n arbitrary: s)
  case (Suc n)
  obtain i s1 where h: "take_slot s = Inr (i, s1)" "0 \<le> i" "i < cap s" "i \<notin> inuse s" "ok s1"
      "cap s1 = cap s" "inuse s1 = insert i (inuse s)"
    using find_free [OF Suc.prems(1) room_not_full] Suc.prems by auto
  have "int (card (inuse s1)) + int n \<le> cap s1"
    using Suc.prems h by (simp add: finite_inuse)
  from Suc.IH [OF h(5) this] obtain ix s2 where
    "alloc_loop take_slot n s1 = Inr (ix, s2)" "length ix = n" "distinct ix" "set ix \<inter> inuse s1 = {}"
    "set ix \<subseteq> {0..<cap s1}" "ok s2" "cap s2 = cap s1" "inuse s2 = inuse s1 \<union> set ix"
    by blast
  with h show ?case by (intro exI [of _ "i # ix"] exI [of _ s2]) auto
qed auto

text \<open>Releasing a set of slots one by one.\<close>

lemma release_all_ok:
  assumes "ok s" "set ix \<subseteq> {0..<cap s}"
  shows "\<exists>s'. for_each (\<lambda>i s. release s i) ix s = Inr s' \<and> ok s' \<and> cap s' = cap s \<and>
           inuse s' = inuse s - set ix"
  using assms
proof (induction ix arbitrary: s)
  case (Cons i ix)
  obtain s1 where h: "release s i = Inr s1" "ok s1" "cap s1 = cap s" "inuse s1 = inuse s - {i}"
    using release_ok [of s i] Cons.prems by auto
  from Cons.IH [of s1] Cons.prems h show ?case by auto
qed simp

text \<open>Allocation followed by release gives back the slots in use before.\<close>

lemma alloc_release_roundtrip:
  assumes "ok s" "int (card (inuse s)) + int n \<le> cap s"
  shows "\<exists>ix s1 s2. alloc_loop take_slot n s = Inr (ix, s1) \<and>
           for_each (\<lambda>i s. release s i) ix s1 = Inr s2 \<and> inuse s2 = inuse s"
proof -
  obtain ix s1 where a: "alloc_loop take_slot n s = Inr (ix, s1)" "set ix \<inter> inuse s = {}"
      "set ix \<subseteq> {0..<cap s}" "ok s1" "cap s1 = cap s" "inuse s1 = inuse s \<union> set ix"
    using alloc_loop_ok [OF assms] by blast
  from release_all_ok [OF a(4), of ix] a obtain s2 where
    "for_each (\<lambda>i s. release s i) ix s1 = Inr s2" "inuse s2 = inuse s1 - set ix" by auto
  with a show ?thesis by (intro exI [of _ ix] exI [of _ s1] exI [of _ s2]) auto
qed

end

interpretation bm: slot_allocator bitmap_ok numBits marked Bitmap_FindAndSet Bitmap_Clear
  Bitmap_NumClear
proof unfold_locales
  fix s :: Bitmap and i
  show "marked s \<subseteq> {0..<numBits s}" by (auto dest: marked_range)
  show "bitmap_ok s \<Longrightarrow> 0 < numBits s" by (simp add: bitmap_ok_def)
  show "bitmap_ok s \<Longrightarrow> marked s \<noteq> {0..<numBits s} \<Longrightarrow>
    \<exists>i s'. Bitmap_FindAndSet s = Inr (i, s') \<and> 0 \<le> i \<and> i < numBits s \<and> i \<notin> marked s \<and>
      bitmap_ok s' \<and> numBits s' = numBits s \<and> marked s' = insert i (marked s)"
    using Bitmap_FindAndSet_ok [of s] by blast
  show "bitmap_ok s \<Longrightarrow> marked s = {0..<numBits s} \<Longrightarrow> Bitmap_FindAndSet s = Inr (-1, s)"
    using Bitmap_FindAndSet_ok [of s] by auto
  show "bitmap_ok s \<Longrightarrow> 0 \<le> i \<Longrightarrow> i < numBits s \<Longrightarrow>
    \<exists>s'. Bitmap_Clear s i = Inr s' \<and> bitmap_ok s' \<and> numBits s' = numBits s \<and>
      marked s' = marked s - {i}"
    by (rule Bitmap_Clear_ok)
  show "bitmap_ok s \<Longrightarrow> Bitmap_NumClear s = Inr (numBits s - int (card (marked s)))"
    by (rule Bitmap_NumClear_ok)
qed

section \<open>The self test passes\<close>

lemma Bitmap_FindAndSet_first:
  assumes ok: "bitmap_ok b" and k: "0 \<le> k" "k < numBits b" "{0..<k} \<subseteq> marked b" "k \<notin> marked b"
  shows "\<exists>b'. Bitmap_FindAndSet b = Inr (k, b') \<and> bitmap_ok b' \<and> numBits b' = numBits b \<and>
    marked b' = insert k (marked b)"
proof -
  have "marked b \<noteq> {0..<numBits b}" using k by auto
  with Bitmap_FindAndSet_ok [OF ok] obtain i b' where i: "Bitmap_FindAndSet b = Inr (i, b')" "0 \<le> i"
    "{0..<i} \<subseteq> marked b" "i \<notin> marked b" "bitmap_ok b'" "numBits b' = numBits b"
    "marked b' = insert i (marked b)" by blast
  have "\<not> i < k" "\<not> k < i" using i(2-4) k by auto
  then have "i = k" by simp
  then show ?thesis using i by auto
qed

lemma Bitmap_SelfTest_ok:
  assumes ok: "bitmap_ok b" and e: "marked b = {}" and n: "32 \<le> numBits b"
  shows "\<exists>b'. Bitmap_SelfTest b = Inr b' \<and> bitmap_ok b' \<and> numBits b' = numBits b \<and> marked b' = {}"
proof -
  obtain b1 where b1: "Bitmap_FindAndSet b = Inr (0, b1)" "bitmap_ok b1" "numBits b1 = numBits b"
      "marked b1 = {0}"
    using Bitmap_FindAndSet_first [OF ok, of 0] e n by auto
  obtain b2 where b2: "Bitmap_Mark b1 31 = Inr b2" "bitmap_ok b2" "numBits b2 = numBits b"
      "marked b2 = {31, 0}"
    using Bitmap_Mark_ok [of b1 31] b1 n by auto
  have low: "{0..<1} \<subseteq> {31, 0 :: int}" by auto
  obtain b3 where b3: "Bitmap_FindAndSet b2 = Inr (1, b3)" "bitmap_ok b3" "numBits b3 = numBits b"
      "marked b3 = {1, 31, 0}"
    using Bitmap_FindAndSet_first [OF b2(2), of 1] b2 n low by auto
  have diff: "{1, 31, 0} - {0} = {1, 31 :: int}" "{1, 31} - {1} = {31 :: int}" by auto
  obtain b4 where b4: "Bitmap_Clear b3 0 = Inr b4" "bitmap_ok b4" "numBits b4 = numBits b"
      "marked b4 = {1, 31}" using Bitmap_Clear_ok [of b3 0] b3 n diff(1) by auto
  obtain b5 where b5: "Bitmap_Clear b4 1 = Inr b5" "bitmap_ok b5" "numBits b5 = numBits b"
      "marked b5 = {31}" using Bitmap_Clear_ok [of b4 1] b4 n diff(2) by auto
  obtain b6 where b6: "Bitmap_Clear b5 31 = Inr b6" "bitmap_ok b6" "numBits b6 = numBits b"
      "marked b6 = {}" using Bitmap_Clear_ok [of b5 31] b5 n by auto
  obtain b7 where b7: "for_each (\<lambda>i b. Bitmap_Mark b i) [0..numBits b6 - 1] b6 = Inr b7" "bitmap_ok b7"
      "numBits b7 = numBits b" "marked b7 = {0..<numBits b}"
    using mark_all_ok [OF b6(2), of "[0..numBits b6 - 1]"] b6 by auto
  obtain b8 where b8: "for_each (\<lambda>i b. Bitmap_Clear b i) [0..numBits b7 - 1] b7 = Inr b8" "bitmap_ok b8"
      "numBits b8 = numBits b" "marked b8 = {}"
    using clear_all_ok [OF b7(2), of "[0..numBits b7 - 1]"] b7 by auto
  have full: "Bitmap_FindAndSet b7 = Inr (-1, b7)" using bm.find_full [OF b7(2)] b7 by simp
  have clear: "Bitmap_NumClear b = Inr (numBits b)" using Bitmap_NumClear_ok [OF ok] e by simp
  have t: "Bitmap_Test b2 0 = Inr True" "Bitmap_Test b2 31 = Inr True"
    using Bitmap_Test_ok [OF b2(2)] b2 n by auto
  show ?thesis using b8 n
    by (simp add: Bitmap_SelfTest_def bitmap_consts clear b1(1) b2(1) t b3(1) b4(1) b5(1) b6(1)
        b7(1) b8(1) full)
qed

section \<open>Properties\<close>

text \<open>On a fresh bitmap of \<open>n\<close> slots, any \<open>k \<le> n\<close> calls of \<open>FindAndSet\<close> return \<open>k\<close>
  distinct slots within range and leave \<open>NumClear\<close> at \<open>n - k\<close>; clearing them again leaves every
  slot free.\<close>

theorem bitmap_allocates_distinct_slots:
  assumes "0 < n" "int k \<le> n"
  shows "\<exists>b ix b1 b2. Bitmap_new n = Inr b \<and> alloc_loop Bitmap_FindAndSet k b = Inr (ix, b1) \<and>
    length ix = k \<and> distinct ix \<and> set ix \<subseteq> {0..<n} \<and> Bitmap_NumClear b1 = Inr (n - int k) \<and>
    for_each (\<lambda>i b. Bitmap_Clear b i) ix b1 = Inr b2 \<and> Bitmap_NumClear b2 = Inr n"
proof -
  obtain b where b: "Bitmap_new n = Inr b" "bitmap_ok b" "numBits b = n" "marked b = {}"
    using Bitmap_new_ok assms(1) by blast
  obtain ix b1 where a: "alloc_loop Bitmap_FindAndSet k b = Inr (ix, b1)" "length ix = k" "distinct ix"
      "set ix \<subseteq> {0..<n}" "bitmap_ok b1" "numBits b1 = n" "marked b1 = set ix"
    using bm.alloc_loop_ok [OF b(2), of k] b assms(2) by auto
  obtain b2 where "for_each (\<lambda>i b. Bitmap_Clear b i) ix b1 = Inr b2" "bitmap_ok b2" "numBits b2 = n"
      "marked b2 = {}"
    using bm.release_all_ok [OF a(5), of ix] a by auto
  then show ?thesis using a b
    by (auto simp: bm.num_free_ok distinct_card)
qed

theorem bitmap_allocates_distinct_slots_witness:
  "\<exists>b ix b1 b2. Bitmap_new 40 = Inr b \<and> alloc_loop Bitmap_FindAndSet 33 b = Inr (ix, b1) \<and>
    length ix = 33 \<and> distinct ix \<and> set ix \<subseteq> {0..<40} \<and> Bitmap_NumClear b1 = Inr (40 - int 33) \<and>
    for_each (\<lambda>i b. Bitmap_Clear b i) ix b1 = Inr b2 \<and> Bitmap_NumClear b2 = Inr 40"
  by (rule bitmap_allocates_distinct_slots) simp_all

text \<open>The self test of \<open>Bitmap\<close> passes on every fresh bitmap of at least 32 bits (it checks
  first fit, marking, testing and exhaustion) and leaves the bitmap empty.\<close>

theorem bitmap_self_test_passes:
  assumes "32 \<le> n"
  shows "\<exists>b b'. Bitmap_new n = Inr b \<and> Bitmap_SelfTest b = Inr b' \<and> marked b' = {}"
  using Bitmap_new_ok [of n] Bitmap_SelfTest_ok assms by fastforce

theorem bitmap_self_test_passes_witness:
  "\<exists>b b'. Bitmap_new 200 = Inr b \<and> Bitmap_SelfTest b = Inr b' \<and> marked b' = {}"
  by (rule bitmap_self_test_passes) simp

end
