(* ===== verification/Files.thy ===== *)
theory Files
  imports Nachos_Prelude
begin

text \<open>
  User files in the configuration the repository builds (\<open>FILESYS_STUB\<close>): files of the host,
  reached through \<open>lib/sysdep.cc\<close>, the \<open>OpenFile\<close> of \<open>filesys/openfile.h\<close>, the table of open
  files of each process in \<open>filesys/filetable.h\<close> and the \<open>FileSystem\<close> of \<open>filesys/filesys.h\<close>.
  The record \<open>Host\<close> is what these use of UNIX: named files, a table of descriptors with an
  offset each, the lowest free descriptor handed out by \<open>open\<close>.  Which names may be created is
  the host's choice (\<open>can_create\<close>), and so is the length of the descriptor table.
\<close>

section \<open>The host's files\<close>

record Descriptor =
  inode :: nat
  offset :: int
  writable :: bool

record Host =
  names :: "string \<rightharpoonup> nat"
  contents :: "nat \<Rightarrow> byte list"
  descriptors :: "Descriptor option list"
  next_inode :: nat
  can_create :: "string \<Rightarrow> bool"

fun first_free :: "'a option list \<Rightarrow> nat option" where
  "first_free [] = None"
| "first_free (None # ds) = Some 0"
| "first_free (Some d # ds) = map_option Suc (first_free ds)"

definition descriptor :: "Host \<Rightarrow> int \<Rightarrow> Descriptor option" where
  "descriptor h fd = (if 0 \<le> fd \<and> fd < int (length (descriptors h)) then descriptors h ! nat fd else None)"

definition set_descriptor :: "int \<Rightarrow> Descriptor option \<Rightarrow> Host \<Rightarrow> Host" where
  "set_descriptor fd d h = h\<lparr>descriptors := (descriptors h)[nat fd := d]\<rparr>"

definition unix_open :: "nat \<Rightarrow> bool \<Rightarrow> Host \<Rightarrow> int \<times> Host" where
  "unix_open i rw h =
     (case first_free (descriptors h) of
        None \<Rightarrow> (- 1, h)
      | Some fd \<Rightarrow> (int fd, set_descriptor (int fd) (Some \<lparr>inode = i, offset = 0, writable = rw\<rparr>) h))"

definition unix_open_existing :: "string \<Rightarrow> bool \<Rightarrow> Host \<Rightarrow> int \<times> Host" where
  "unix_open_existing name rw h = (case names h name of None \<Rightarrow> (- 1, h) | Some i \<Rightarrow> unix_open i rw h)"

definition unix_open_create :: "string \<Rightarrow> Host \<Rightarrow> int \<times> Host" where
  "unix_open_create name h =
     (if first_free (descriptors h) = None then (- 1, h)
      else case names h name of
        Some i \<Rightarrow> unix_open i True (h\<lparr>contents := (contents h)(i := [])\<rparr>)
      | None \<Rightarrow>
          if can_create h name
          then let i = next_inode h in
               unix_open i True (h\<lparr>names := (names h)(name \<mapsto> i), contents := (contents h)(i := []),
                                  next_inode := Suc i\<rparr>)
          else (- 1, h))"

definition unix_close :: "int \<Rightarrow> Host \<Rightarrow> int \<times> Host" where
  "unix_close fd h = (if descriptor h fd = None then (- 1, h) else (0, set_descriptor fd None h))"

text \<open>A count below 0 is a huge \<open>size_t\<close>, which the host refuses.\<close>

definition unix_read :: "int \<Rightarrow> int \<Rightarrow> Host \<Rightarrow> int \<times> byte list \<times> Host" where
  "unix_read fd n h =
     (case descriptor h fd of
        None \<Rightarrow> (- 1, [], h)
      | Some d \<Rightarrow>
          if n < 0 then (- 1, [], h)
          else let bs = take (nat n) (drop (nat (offset d)) (contents h (inode d))) in
               (int (length bs), bs, set_descriptor fd (Some (d\<lparr>offset := offset d + int (length bs)\<rparr>)) h))"

definition overwrite :: "byte list \<Rightarrow> nat \<Rightarrow> byte list \<Rightarrow> byte list" where
  "overwrite c off bs = take off (c @ replicate (off - length c) 0) @ bs @ drop (off + length bs) c"

definition unix_write :: "int \<Rightarrow> int \<Rightarrow> byte list \<Rightarrow> Host \<Rightarrow> int \<times> Host" where
  "unix_write fd n bs h =
     (case descriptor h fd of
        None \<Rightarrow> (- 1, h)
      | Some d \<Rightarrow>
          if n < 0 \<or> \<not> writable d then (- 1, h)
          else (n, set_descriptor fd (Some (d\<lparr>offset := offset d + n\<rparr>))
                     (h\<lparr>contents := (contents h)(inode d := overwrite (contents h (inode d)) (nat (offset d)) (take (nat n) bs))\<rparr>)))"

definition unix_lseek :: "int \<Rightarrow> int \<Rightarrow> int \<Rightarrow> Host \<Rightarrow> int \<times> Host" where
  "unix_lseek fd off whence h =
     (case descriptor h fd of
        None \<Rightarrow> (- 1, h)
      | Some d \<Rightarrow>
          let new = (if whence = 0 then 0 else if whence = 1 then offset d else int (length (contents h (inode d)))) + off in
          if new < 0 then (- 1, h) else (new, set_descriptor fd (Some (d\<lparr>offset := new\<rparr>)) h))"

definition unix_unlink :: "string \<Rightarrow> Host \<Rightarrow> int \<times> Host" where
  "unix_unlink name h = (if names h name = None then (- 1, h) else (0, h\<lparr>names := (names h)(name := None)\<rparr>))"

section \<open>lib/sysdep.cc\<close>

definition OpenForWrite :: "string \<Rightarrow> Host \<Rightarrow> (int \<times> Host) res" where
  "OpenForWrite name h =
     (let (fd, h) = unix_open_create name h in rbind (ASSERT (fd \<ge> 0)) (\<lambda>_. Inr (fd, h)))"

definition OpenForRead :: "string \<Rightarrow> bool \<Rightarrow> Host \<Rightarrow> (int \<times> Host) res" where
  "OpenForRead name crashOnError h =
     (let (fd, h) = unix_open_existing name False h in
      rbind (ASSERT (\<not> crashOnError \<or> fd \<ge> 0)) (\<lambda>_. Inr (fd, h)))"

definition OpenForReadWrite :: "string \<Rightarrow> bool \<Rightarrow> Host \<Rightarrow> (int \<times> Host) res" where
  "OpenForReadWrite name crashOnError h =
     (let (fd, h) = unix_open_existing name True h in
      rbind (ASSERT (\<not> crashOnError \<or> fd \<ge> 0)) (\<lambda>_. Inr (fd, h)))"

definition ReadPartial :: "int \<Rightarrow> int \<Rightarrow> Host \<Rightarrow> int \<times> byte list \<times> Host" where
  "ReadPartial fd nBytes h = unix_read fd nBytes h"

definition WriteFile :: "int \<Rightarrow> byte list \<Rightarrow> int \<Rightarrow> Host \<Rightarrow> Host res" where
  "WriteFile fd buffer nBytes h =
     (let (retVal, h) = unix_write fd nBytes buffer h in rbind (ASSERT (retVal = nBytes)) (\<lambda>_. Inr h))"

definition Lseek :: "int \<Rightarrow> int \<Rightarrow> int \<Rightarrow> Host \<Rightarrow> Host res" where
  "Lseek fd off whence h =
     (let (retVal, h) = unix_lseek fd off whence h in rbind (ASSERT (retVal \<ge> 0)) (\<lambda>_. Inr h))"

definition Tell :: "int \<Rightarrow> Host \<Rightarrow> int \<times> Host" where
  "Tell fd h = unix_lseek fd 0 1 h"

definition Close :: "int \<Rightarrow> Host \<Rightarrow> (int \<times> Host) res" where
  "Close fd h =
     (let (retVal, h) = unix_close fd h in rbind (ASSERT (retVal \<ge> 0)) (\<lambda>_. Inr (retVal, h)))"

text \<open>\<open>Unlink\<close> returns the result of \<open>unlink\<close> as a \<open>bool\<close>: true when it failed.\<close>

definition Unlink :: "string \<Rightarrow> Host \<Rightarrow> bool \<times> Host" where
  "Unlink name h = (let (retVal, h) = unix_unlink name h in (retVal \<noteq> 0, h))"

section \<open>OpenFile\<close>

record OpenFile =
  host_fd :: int
  currentOffset :: int

definition OpenFile_new :: "int \<Rightarrow> OpenFile" where
  "OpenFile_new f = \<lparr>host_fd = f, currentOffset = 0\<rparr>"

definition OpenFile_delete :: "OpenFile \<Rightarrow> Host \<Rightarrow> Host res" where
  "OpenFile_delete f h = rbind (Close (host_fd f) h) (\<lambda>(r, h). Inr h)"

text \<open>A buffer of the caller is the list of its bytes; what is read replaces its first bytes.\<close>

definition fill :: "byte list \<Rightarrow> byte list \<Rightarrow> byte list" where
  "fill into bs = bs @ drop (length bs) into"

definition OpenFile_ReadAt :: "OpenFile \<Rightarrow> byte list \<Rightarrow> int \<Rightarrow> int \<Rightarrow> Host \<Rightarrow> (int \<times> byte list \<times> Host) res" where
  "OpenFile_ReadAt f into numBytes position h =
     rbind (Lseek (host_fd f) position 0 h) (\<lambda>h.
     let (n, bs, h) = ReadPartial (host_fd f) numBytes h in Inr (n, fill into bs, h))"

definition OpenFile_WriteAt :: "OpenFile \<Rightarrow> byte list \<Rightarrow> int \<Rightarrow> int \<Rightarrow> Host \<Rightarrow> (int \<times> Host) res" where
  "OpenFile_WriteAt f from numBytes position h =
     rbind (Lseek (host_fd f) position 0 h) (\<lambda>h.
     rbind (WriteFile (host_fd f) from numBytes h) (\<lambda>h. Inr (numBytes, h)))"

definition OpenFile_Read :: "OpenFile \<Rightarrow> byte list \<Rightarrow> int \<Rightarrow> Host \<Rightarrow> (int \<times> byte list \<times> OpenFile \<times> Host) res" where
  "OpenFile_Read f into numBytes h =
     rbind (OpenFile_ReadAt f into numBytes (currentOffset f) h) (\<lambda>(numRead, into, h).
     Inr (numRead, into, f\<lparr>currentOffset := currentOffset f + numRead\<rparr>, h))"

definition OpenFile_Write :: "OpenFile \<Rightarrow> byte list \<Rightarrow> int \<Rightarrow> Host \<Rightarrow> (int \<times> OpenFile \<times> Host) res" where
  "OpenFile_Write f from numBytes h =
     rbind (OpenFile_WriteAt f from numBytes (currentOffset f) h) (\<lambda>(numWritten, h).
     Inr (numWritten, f\<lparr>currentOffset := currentOffset f + numWritten\<rparr>, h))"

definition OpenFile_Length :: "OpenFile \<Rightarrow> Host \<Rightarrow> (int \<times> Host) res" where
  "OpenFile_Length f h = rbind (Lseek (host_fd f) 0 2 h) (\<lambda>h. Inr (Tell (host_fd f) h))"

definition OpenFile_Seek :: "OpenFile \<Rightarrow> int \<Rightarrow> int \<times> OpenFile" where
  "OpenFile_Seek f position = (position, f\<lparr>currentOffset := position\<rparr>)"

section \<open>FileTable\<close>

definition FILE_MAX :: nat where "FILE_MAX = 10"
definition MODE_READWRITE :: int where "MODE_READWRITE = 0"
definition MODE_READ :: int where "MODE_READ = 1"
definition MODE_WRITE :: int where "MODE_WRITE = 2"

record FileTable =
  openFile :: "OpenFile option list"
  fileOpenMode :: "int list"

text \<open>The constructor allocates both arrays and sets the modes of the console entries only:
  \<open>junk\<close> and \<open>modes\<close> are what the memory held.\<close>

definition FileTable_new :: "OpenFile option list \<Rightarrow> int list \<Rightarrow> FileTable" where
  "FileTable_new junk modes = \<lparr>openFile = junk, fileOpenMode = modes[0 := MODE_READ, 1 := MODE_WRITE]\<rparr>"

fun free_index :: "int list \<Rightarrow> FileTable \<Rightarrow> int res" where
  "free_index [] t = Inr (- 1)"
| "free_index (i # is) t =
     rbind (arr_get (openFile t) i) (\<lambda>f. if f = None then Inr i else free_index is t)"

definition FileTable_Insert :: "string \<Rightarrow> int \<Rightarrow> FileTable \<Rightarrow> Host \<Rightarrow> (int \<times> FileTable \<times> Host) res" where
  "FileTable_Insert fileName openMode t h =
     rbind (free_index [2..int FILE_MAX - 1] t) (\<lambda>freeIndex.
     if freeIndex = - 1 then Inr (- 1, t, h)
     else
       rbind (if openMode = MODE_READWRITE then OpenForReadWrite fileName False h else Inr (- 1, h)) (\<lambda>(fd, h).
       rbind (if openMode = MODE_READ then OpenForRead fileName False h else Inr (fd, h)) (\<lambda>(fd, h).
       if fd = - 1 then Inr (- 1, t, h)
       else
         rbind (arr_set (openFile t) freeIndex (Some (OpenFile_new fd))) (\<lambda>fs.
         rbind (arr_set (fileOpenMode t) freeIndex openMode) (\<lambda>ms.
         Inr (freeIndex, t\<lparr>openFile := fs, fileOpenMode := ms\<rparr>, h))))))"

definition FileTable_Remove :: "int \<Rightarrow> FileTable \<Rightarrow> Host \<Rightarrow> (int \<times> FileTable \<times> Host) res" where
  "FileTable_Remove index t h =
     (if index < 2 \<or> index \<ge> int FILE_MAX then Inr (- 1, t, h)
      else
        rbind (arr_get (openFile t) index) (\<lambda>f.
        case f of
          None \<Rightarrow> Inr (- 1, t, h)
        | Some f \<Rightarrow>
            rbind (OpenFile_delete f h) (\<lambda>h.
            rbind (arr_set (openFile t) index None) (\<lambda>fs. Inr (0, t\<lparr>openFile := fs\<rparr>, h)))))"

definition FileTable_Read :: "byte list \<Rightarrow> int \<Rightarrow> int \<Rightarrow> FileTable \<Rightarrow> Host \<Rightarrow> (int \<times> byte list \<times> FileTable \<times> Host) res" where
  "FileTable_Read buffer charCount index t h =
     (if index \<ge> int FILE_MAX then Inr (- 1, buffer, t, h)
      else
        rbind (arr_get (openFile t) index) (\<lambda>f.
        case f of
          None \<Rightarrow> Inr (- 1, buffer, t, h)
        | Some f \<Rightarrow>
            rbind (OpenFile_Read f buffer charCount h) (\<lambda>(result, buffer, f, h).
            rbind (arr_set (openFile t) index (Some f)) (\<lambda>fs.
            Inr (if result \<noteq> charCount then - 2 else result, buffer, t\<lparr>openFile := fs\<rparr>, h)))))"

definition FileTable_Write :: "byte list \<Rightarrow> int \<Rightarrow> int \<Rightarrow> FileTable \<Rightarrow> Host \<Rightarrow> (int \<times> FileTable \<times> Host) res" where
  "FileTable_Write buffer charCount index t h =
     (if index \<ge> int FILE_MAX then Inr (- 1, t, h)
      else
        rbind (arr_get (openFile t) index) (\<lambda>f.
        case f of
          None \<Rightarrow> Inr (- 1, t, h)
        | Some f \<Rightarrow>
            rbind (arr_get (fileOpenMode t) index) (\<lambda>m.
            if m = MODE_READ then Inr (- 1, t, h)
            else
              rbind (OpenFile_Write f buffer charCount h) (\<lambda>(n, f, h).
              rbind (arr_set (openFile t) index (Some f)) (\<lambda>fs. Inr (n, t\<lparr>openFile := fs\<rparr>, h))))))"

definition FileTable_Seek :: "int \<Rightarrow> int \<Rightarrow> FileTable \<Rightarrow> Host \<Rightarrow> (int \<times> FileTable \<times> Host) res" where
  "FileTable_Seek pos index t h =
     (if index \<le> 1 \<or> index \<ge> int FILE_MAX then Inr (- 1, t, h)
      else
        rbind (arr_get (openFile t) index) (\<lambda>f.
        case f of
          None \<Rightarrow> Inr (- 1, t, h)
        | Some f \<Rightarrow>
            rbind (if pos = - 1 then OpenFile_Length f h else Inr (pos, h)) (\<lambda>(pos, h).
            rbind (if pos < 0 then Inr (0, h) else OpenFile_Length f h) (\<lambda>(len, h).
            if pos < 0 \<or> pos > len then Inr (- 1, t, h)
            else
              let (r, f) = OpenFile_Seek f pos in
              rbind (arr_set (openFile t) index (Some f)) (\<lambda>fs. Inr (r, t\<lparr>openFile := fs\<rparr>, h))))))"

definition FileTable_delete :: "FileTable \<Rightarrow> Host \<Rightarrow> Host res" where
  "FileTable_delete t =
     for_each (\<lambda>i h. rbind (arr_get (openFile t) i) (\<lambda>f. case f of None \<Rightarrow> Inr h | Some f \<Rightarrow> OpenFile_delete f h))
       [0..int FILE_MAX - 1]"

section \<open>FileSystem\<close>

text \<open>\<open>pid\<close> is \<open>FileTableIndex ()\<close>, the process id of the current thread.\<close>

record FileSystem =
  host :: Host
  fileTable :: "FileTable list"

definition MAX_PROCESS :: nat where "MAX_PROCESS = 10"

definition FileSystem_new :: "OpenFile option list \<Rightarrow> int list \<Rightarrow> Host \<Rightarrow> FileSystem" where
  "FileSystem_new junk modes h = \<lparr>host = h, fileTable = replicate MAX_PROCESS (FileTable_new junk modes)\<rparr>"

definition FileSystem_delete :: "FileSystem \<Rightarrow> Host res" where
  "FileSystem_delete fs =
     for_each (\<lambda>i h. rbind (arr_get (fileTable fs) i) (\<lambda>t. FileTable_delete t h)) [0..int MAX_PROCESS - 1] (host fs)"

definition on_table ::
  "int \<Rightarrow> (FileTable \<Rightarrow> Host \<Rightarrow> ('r \<times> FileTable \<times> Host) res) \<Rightarrow> FileSystem \<Rightarrow> ('r \<times> FileSystem) res" where
  "on_table pid op fs =
     rbind (arr_get (fileTable fs) pid) (\<lambda>t.
     rbind (op t (host fs)) (\<lambda>(r, t, h).
     rbind (arr_set (fileTable fs) pid t) (\<lambda>ts. Inr (r, fs\<lparr>host := h, fileTable := ts\<rparr>))))"

definition FileSystem_Open :: "int \<Rightarrow> string \<Rightarrow> int \<Rightarrow> FileSystem \<Rightarrow> (int \<times> FileSystem) res" where
  "FileSystem_Open pid name openMode = on_table pid (FileTable_Insert name openMode)"

definition FileSystem_Close :: "int \<Rightarrow> int \<Rightarrow> FileSystem \<Rightarrow> (int \<times> FileSystem) res" where
  "FileSystem_Close pid fid = on_table pid (FileTable_Remove fid)"

definition FileSystem_Read :: "int \<Rightarrow> byte list \<Rightarrow> int \<Rightarrow> int \<Rightarrow> FileSystem \<Rightarrow> ((int \<times> byte list) \<times> FileSystem) res" where
  "FileSystem_Read pid buffer charCount fid =
     on_table pid (\<lambda>t h. rbind (FileTable_Read buffer charCount fid t h) (\<lambda>(r, b, t, h). Inr ((r, b), t, h)))"

definition FileSystem_Write :: "int \<Rightarrow> byte list \<Rightarrow> int \<Rightarrow> int \<Rightarrow> FileSystem \<Rightarrow> (int \<times> FileSystem) res" where
  "FileSystem_Write pid buffer charCount fid = on_table pid (FileTable_Write buffer charCount fid)"

definition FileSystem_Seek :: "int \<Rightarrow> int \<Rightarrow> int \<Rightarrow> FileSystem \<Rightarrow> (int \<times> FileSystem) res" where
  "FileSystem_Seek pid position fid = on_table pid (FileTable_Seek position fid)"

text \<open>Inside the class the name \<open>Close\<close> is the member function, so \<open>Create\<close> calls the one above
  with the host's descriptor.\<close>

definition FileSystem_Create :: "int \<Rightarrow> string \<Rightarrow> FileSystem \<Rightarrow> (bool \<times> FileSystem) res" where
  "FileSystem_Create pid name fs =
     rbind (OpenForWrite name (host fs)) (\<lambda>(fileDescriptor, h).
     let fs = fs\<lparr>host := h\<rparr> in
     if fileDescriptor = - 1 then Inr (False, fs)
     else rbind (FileSystem_Close pid fileDescriptor fs) (\<lambda>(r, fs). Inr (True, fs)))"

text \<open>The overloaded \<open>Open\<close> that the loader and \<open>Exec\<close> use.\<close>

definition FileSystem_OpenFile :: "string \<Rightarrow> FileSystem \<Rightarrow> (OpenFile option \<times> FileSystem) res" where
  "FileSystem_OpenFile name fs =
     rbind (OpenForReadWrite name False (host fs)) (\<lambda>(fd, h).
     Inr (if fd = - 1 then None else Some (OpenFile_new fd), fs\<lparr>host := h\<rparr>))"

definition FileSystem_Renew :: "int \<Rightarrow> FileSystem \<Rightarrow> FileSystem res" where
  "FileSystem_Renew fid = for_each (\<lambda>i fs. rbind (on_table fid (FileTable_Remove i) fs) (\<lambda>(r, fs). Inr fs)) [0..int FILE_MAX - 1]"

definition FileSystem_Remove :: "string \<Rightarrow> FileSystem \<Rightarrow> bool \<times> FileSystem" where
  "FileSystem_Remove name fs = (let (failed, h) = Unlink name (host fs) in (\<not> failed, fs\<lparr>host := h\<rparr>))"

section \<open>Lemmas on the host\<close>

lemma first_free_Some:
  "first_free ds = Some n \<Longrightarrow> n < length ds \<and> ds ! n = None"
  by (induction ds arbitrary: n rule: first_free.induct) auto

lemma descriptor_set [simp]:
  "0 \<le> fd \<Longrightarrow> fd < int (length (descriptors h)) \<Longrightarrow>
   descriptor (set_descriptor fd d h) fd' = (if fd' = fd then d else descriptor h fd')"
  by (auto simp: descriptor_def set_descriptor_def nth_list_update nat_eq_iff)

lemma descriptor_valid: "descriptor h fd = Some d \<Longrightarrow> 0 \<le> fd \<and> fd < int (length (descriptors h))"
  by (auto simp: descriptor_def split: if_splits)

lemma descriptor_other [simp]:
  "descriptor (h\<lparr>names := n\<rparr>) = descriptor h" "descriptor (h\<lparr>contents := c\<rparr>) = descriptor h"
  "descriptor (h\<lparr>next_inode := i\<rparr>) = descriptor h"
  by (simp_all add: descriptor_def fun_eq_iff)

lemma set_descriptor_sel [simp]:
  "contents (set_descriptor fd d h) = contents h" "names (set_descriptor fd d h) = names h"
  "length (descriptors (set_descriptor fd d h)) = length (descriptors h)"
  "next_inode (set_descriptor fd d h) = next_inode h"
  by (simp_all add: set_descriptor_def)

lemma set_descriptor_twice [simp]:
  "set_descriptor fd d (set_descriptor fd e h) = set_descriptor fd d h"
  "set_descriptor fd d (h\<lparr>contents := c\<rparr>) = (set_descriptor fd d h)\<lparr>contents := c\<rparr>"
  by (simp_all add: set_descriptor_def)

text \<open>\<open>open\<close> gives a descriptor that was not in use, and changes no other.\<close>

lemma unix_open_cases:
  obtains "unix_open i rw h = (- 1, h)"
  | fd h' where "unix_open i rw h = (fd, h')" "0 \<le> fd" "descriptor h fd = None"
      "\<And>fd'. descriptor h' fd' = (if fd' = fd then Some \<lparr>inode = i, offset = 0, writable = rw\<rparr> else descriptor h fd')"
proof (cases "first_free (descriptors h)")
  case None
  then show ?thesis using that(1) by (simp add: unix_open_def)
next
  case (Some n)
  then have "n < length (descriptors h)" "descriptors h ! n = None" using first_free_Some by auto
  then show ?thesis using that(2) [of "int n"] Some descriptor_def [of h "int n"] by (simp add: unix_open_def)
qed

lemma unix_existing_cases:
  obtains "unix_open_existing name rw h = (- 1, h)"
  | i fd h' where "unix_open_existing name rw h = (fd, h')" "0 \<le> fd" "descriptor h fd = None" "names h name = Some i"
      "\<And>fd'. descriptor h' fd' = (if fd' = fd then Some \<lparr>inode = i, offset = 0, writable = rw\<rparr> else descriptor h fd')"
proof (cases "names h name")
  case None
  then show ?thesis using that(1) by (simp add: unix_open_existing_def)
next
  case (Some i)
  show ?thesis by (rule unix_open_cases [of i rw h]) (use Some that in \<open>auto simp: unix_open_existing_def\<close>)
qed

lemma Lseek_set:
  assumes "descriptor h fd = Some d" "0 \<le> off"
  shows "Lseek fd off 0 h = Inr (set_descriptor fd (Some (d\<lparr>offset := off\<rparr>)) h)"
  using assms by (simp add: Lseek_def unix_lseek_def)

lemma OpenFile_Length_eq:
  assumes "descriptor h (host_fd f) = Some d"
  shows "OpenFile_Length f h =
    Inr (int (length (contents h (inode d))),
         set_descriptor (host_fd f) (Some (d\<lparr>offset := int (length (contents h (inode d)))\<rparr>)) h)"
  using assms descriptor_valid [OF assms]
  by (simp add: OpenFile_Length_def Lseek_def unix_lseek_def Tell_def Let_def)

lemma OpenFile_Read_eq:
  assumes "descriptor h (host_fd f) = Some d" "0 \<le> currentOffset f" "0 \<le> n"
  shows "OpenFile_Read f into n h =
    (let bs = take (nat n) (drop (nat (currentOffset f)) (contents h (inode d))) in
     Inr (int (length bs), fill into bs, f\<lparr>currentOffset := currentOffset f + int (length bs)\<rparr>,
          set_descriptor (host_fd f) (Some (d\<lparr>offset := currentOffset f + int (length bs)\<rparr>)) h))"
  using assms descriptor_valid [OF assms(1)]
  by (simp add: OpenFile_Read_def OpenFile_ReadAt_def Lseek_set ReadPartial_def unix_read_def Let_def)

lemma OpenFile_Write_eq:
  assumes "descriptor h (host_fd f) = Some d" "0 \<le> currentOffset f" "0 \<le> n" "writable d"
  shows "OpenFile_Write f from n h =
     Inr (n, f\<lparr>currentOffset := currentOffset f + n\<rparr>,
          (set_descriptor (host_fd f) (Some (d\<lparr>offset := currentOffset f + n\<rparr>)) h)
            \<lparr>contents := (contents h)(inode d := overwrite (contents h (inode d)) (nat (currentOffset f)) (take (nat n) from))\<rparr>)"
  using assms descriptor_valid [OF assms(1)]
  by (simp add: OpenFile_Write_def OpenFile_WriteAt_def Lseek_set WriteFile_def unix_write_def Let_def)

lemma take_drop_overwrite: "take (length bs) (drop off (overwrite c off bs)) = bs"
  by (simp add: overwrite_def)

section \<open>The invariant of the open files\<close>

definition fds :: "FileTable \<Rightarrow> int set" where
  "fds t = {host_fd f |f. Some f \<in> set (openFile t)}"

definition entry_ok :: "Host \<Rightarrow> OpenFile \<Rightarrow> int \<Rightarrow> bool" where
  "entry_ok h f m \<longleftrightarrow> 0 \<le> currentOffset f \<and> (m = MODE_READWRITE \<or> m = MODE_READ) \<and>
     (case descriptor h (host_fd f) of None \<Rightarrow> False | Some d \<Rightarrow> m = MODE_READWRITE \<longrightarrow> writable d)"

definition table_ok :: "Host \<Rightarrow> FileTable \<Rightarrow> bool" where
  "table_ok h t \<longleftrightarrow> length (openFile t) = FILE_MAX \<and> length (fileOpenMode t) = FILE_MAX \<and>
     openFile t ! 0 = None \<and> openFile t ! 1 = None \<and>
     (\<forall>i < FILE_MAX. \<forall>f. openFile t ! i = Some f \<longrightarrow> entry_ok h f (fileOpenMode t ! i)) \<and>
     (\<forall>i < FILE_MAX. \<forall>j < FILE_MAX. \<forall>f g. openFile t ! i = Some f \<longrightarrow> openFile t ! j = Some g \<longrightarrow>
        host_fd f = host_fd g \<longrightarrow> i = j)"

text \<open>Every open file of a process has a descriptor of its own, open on the host.\<close>

definition fs_ok :: "FileSystem \<Rightarrow> bool" where
  "fs_ok fs \<longleftrightarrow> length (fileTable fs) = MAX_PROCESS \<and>
     (\<forall>p < MAX_PROCESS. table_ok (host fs) (fileTable fs ! p)) \<and>
     (\<forall>p < MAX_PROCESS. \<forall>q < MAX_PROCESS. p \<noteq> q \<longrightarrow> fds (fileTable fs ! p) \<inter> fds (fileTable fs ! q) = {})"

text \<open>What every operation on one table keeps: the table itself, and the descriptors of others.\<close>

definition keeps :: "FileTable \<Rightarrow> Host \<Rightarrow> FileTable \<Rightarrow> Host \<Rightarrow> bool" where
  "keeps t h t' h' \<longleftrightarrow> table_ok h' t' \<and>
     (\<forall>fd. fd \<notin> fds t \<longrightarrow> descriptor h fd \<noteq> None \<longrightarrow> descriptor h' fd = descriptor h fd) \<and>
     (\<forall>fd \<in> fds t'. fd \<in> fds t \<or> descriptor h fd = None)"

lemma mem_fds: "fd \<in> fds t \<longleftrightarrow> (\<exists>i < length (openFile t). \<exists>f. openFile t ! i = Some f \<and> host_fd f = fd)"
  by (auto simp: fds_def in_set_conv_nth)

lemma fds_open: "table_ok h t \<Longrightarrow> fd \<in> fds t \<Longrightarrow> descriptor h fd \<noteq> None"
  unfolding mem_fds table_ok_def entry_ok_def by (auto split: option.splits)

lemma table_ok_cong:
  assumes "table_ok h t" "\<forall>fd \<in> fds t. descriptor h' fd = descriptor h fd"
  shows "table_ok h' t"
proof -
  have "entry_ok h' f m = entry_ok h f m" if "i < FILE_MAX" "openFile t ! i = Some f" for i f m
  proof -
    have "host_fd f \<in> fds t" using that assms(1) by (auto simp: mem_fds table_ok_def)
    then show ?thesis using assms(2) by (simp add: entry_ok_def)
  qed
  then show ?thesis using assms(1) by (simp add: table_ok_def)
qed

lemma keeps_refl: "table_ok h t \<Longrightarrow> keeps t h t h"
  by (simp add: keeps_def)

lemma table_okD:
  assumes "table_ok h t" "i < FILE_MAX" "openFile t ! i = Some f"
  shows "2 \<le> i" "host_fd f \<in> fds t" "0 \<le> currentOffset f"
    "fileOpenMode t ! i = MODE_READWRITE \<or> fileOpenMode t ! i = MODE_READ"
    "\<exists>d. descriptor h (host_fd f) = Some d \<and> (fileOpenMode t ! i = MODE_READWRITE \<longrightarrow> writable d)"
proof -
  have e: "entry_ok h f (fileOpenMode t ! i)" using assms by (simp add: table_ok_def)
  show "0 \<le> currentOffset f" "fileOpenMode t ! i = MODE_READWRITE \<or> fileOpenMode t ! i = MODE_READ"
    "\<exists>d. descriptor h (host_fd f) = Some d \<and> (fileOpenMode t ! i = MODE_READWRITE \<longrightarrow> writable d)"
    using e by (auto simp: entry_ok_def split: option.splits)
  show "host_fd f \<in> fds t" using assms by (auto simp: mem_fds table_ok_def)
  show "2 \<le> i"
  proof (rule ccontr)
    assume "\<not> 2 \<le> i"
    then have "i = 0 \<or> i = 1" by auto
    then show False using assms by (auto simp: table_ok_def)
  qed
qed

lemma table_ok_fd:
  assumes "table_ok h t" "i < FILE_MAX" "j < FILE_MAX" "openFile t ! i = Some f" "openFile t ! j = Some g"
    "host_fd f = host_fd g"
  shows "i = j"
  using assms unfolding table_ok_def by blast

lemma table_ok_len: "table_ok h t \<Longrightarrow> length (openFile t) = FILE_MAX \<and> length (fileOpenMode t) = FILE_MAX"
  by (simp add: table_ok_def)

text \<open>Using an open file changes its offset and its descriptor.\<close>

lemma keeps_use:
  assumes ok: "table_ok h t" and i: "i < FILE_MAX" "openFile t ! i = Some f"
    and f': "host_fd f' = host_fd f" "0 \<le> currentOffset f'"
    and d: "descriptor h (host_fd f) = Some d" "writable d' = writable d"
      "\<And>fd. descriptor h' fd = (if fd = host_fd f then Some d' else descriptor h fd)"
  shows "keeps t h (t\<lparr>openFile := (openFile t)[i := Some f']\<rparr>) h'"
proof -
  let ?t = "t\<lparr>openFile := (openFile t)[i := Some f']\<rparr>"
  note len = table_ok_len [OF ok] and e = table_okD [OF ok]
  have at: "openFile ?t ! j = (if j = i then Some f' else openFile t ! j)" for j
    using i len by (simp add: nth_list_update)
  have old: "\<exists>g0. openFile t ! j = Some g0 \<and> host_fd g0 = host_fd g" if "openFile ?t ! j = Some g" for j g
    using that i(2) f'(1) unfolding at by (cases "j = i") auto
  have fd: "fds ?t = fds t"
  proof (intro set_eqI iffI)
    fix fd
    assume "fd \<in> fds ?t"
    then obtain j g where "j < FILE_MAX" "openFile ?t ! j = Some g" "host_fd g = fd"
      using len by (auto simp: mem_fds)
    then show "fd \<in> fds t" using i f'(1) e(2) unfolding at by (cases "j = i") auto
  next
    fix fd
    assume "fd \<in> fds t"
    then obtain j g where j: "j < FILE_MAX" "openFile t ! j = Some g" "host_fd g = fd"
      using len by (auto simp: mem_fds)
    have "openFile ?t ! j = Some (if j = i then f' else g)" using j unfolding at by simp
    moreover have "host_fd (if j = i then f' else g) = fd" using i f'(1) j by auto
    ultimately show "fd \<in> fds ?t" using j(1) len unfolding mem_fds by auto
  qed
  have "table_ok h' ?t"
    unfolding table_ok_def
  proof (intro conjI allI impI)
    fix j g
    assume "j < FILE_MAX" "openFile ?t ! j = Some g"
    then have j: "j < FILE_MAX" "j = i \<and> g = f' \<or> j \<noteq> i \<and> openFile t ! j = Some g"
      using i len by (auto simp: nth_list_update split: if_splits)
    show "entry_ok h' g (fileOpenMode ?t ! j)"
    proof (cases "j = i")
      case True
      then show ?thesis using j e(4,5) [OF i] f' d by (auto simp: entry_ok_def)
    next
      case False
      then have "host_fd g \<noteq> host_fd f" using j table_ok_fd [OF ok j(1) i(1) _ i(2)] by auto
      then show ?thesis using False j e [of j g] d(3) ok by (auto simp: entry_ok_def table_ok_def)
    qed
  next
    fix j j' g g'
    assume "j < FILE_MAX" "j' < FILE_MAX" "openFile ?t ! j = Some g" "openFile ?t ! j' = Some g'" "host_fd g = host_fd g'"
    then show "j = j'" using old [of j g] old [of j' g'] table_ok_fd [OF ok, of j j'] by metis
  qed (use ok e(1) [OF i] i len in \<open>auto simp: table_ok_def\<close>)
  moreover have "descriptor h' fd = descriptor h fd" if "fd \<notin> fds t" for fd
    using that d(3) e(2) [OF i] by auto
  ultimately show ?thesis using fd by (auto simp: keeps_def)
qed

text \<open>The three cases of an access by index.\<close>

lemma slot_cases:
  assumes ok: "table_ok h t" and a: "0 \<le> index"
  obtains (beyond) "index \<ge> int FILE_MAX"
  | (free) "index < int FILE_MAX" "arr_get (openFile t) index = Inr None"
  | (used) f d where "2 \<le> index" "index < int FILE_MAX" "arr_get (openFile t) index = Inr (Some f)"
      "arr_get (fileOpenMode t) index = Inr (fileOpenMode t ! nat index)"
      "\<And>f'. arr_set (openFile t) index f' = Inr ((openFile t)[nat index := f'])"
      "nat index < FILE_MAX" "openFile t ! nat index = Some f" "0 \<le> currentOffset f"
      "descriptor h (host_fd f) = Some d" "fileOpenMode t ! nat index \<noteq> MODE_READ \<Longrightarrow> writable d"
proof (cases "index \<ge> int FILE_MAX")
  case True
  then show ?thesis by (rule beyond)
next
  case False
  then have i: "nat index < FILE_MAX" using a by simp
  have len: "arr_get (openFile t) index = Inr (openFile t ! nat index)"
    "arr_get (fileOpenMode t) index = Inr (fileOpenMode t ! nat index)"
    "\<And>f'. arr_set (openFile t) index f' = Inr ((openFile t)[nat index := f'])"
    using a False table_ok_len [OF ok] by (simp_all add: arr_get_ok arr_set_ok)
  show ?thesis
  proof (cases "openFile t ! nat index")
    case None
    then show ?thesis using free False len by simp
  next
    case (Some f)
    note e = table_okD [OF ok i Some]
    then obtain d where "descriptor h (host_fd f) = Some d" "fileOpenMode t ! nat index \<noteq> MODE_READ \<Longrightarrow> writable d"
      by auto
    then show ?thesis using used [of f d] e(1,3) False len Some i by simp
  qed
qed

lemma FileTable_Read_eq:
  assumes "index < int FILE_MAX" "arr_get (openFile t) index = Inr (Some f)" "descriptor h (host_fd f) = Some d"
    "0 \<le> currentOffset f" "0 \<le> n" "\<And>f'. arr_set (openFile t) index f' = Inr ((openFile t)[nat index := f'])"
  shows "FileTable_Read buffer n index t h =
    (let bs = take (nat n) (drop (nat (currentOffset f)) (contents h (inode d))); m = int (length bs) in
     Inr (if m \<noteq> n then - 2 else m, fill buffer bs,
          t\<lparr>openFile := (openFile t)[nat index := Some (f\<lparr>currentOffset := currentOffset f + m\<rparr>)]\<rparr>,
          set_descriptor (host_fd f) (Some (d\<lparr>offset := currentOffset f + m\<rparr>)) h))"
  using assms OpenFile_Read_eq [OF assms(3-5)] by (simp add: FileTable_Read_def Let_def)

lemma FileTable_Read_keeps:
  assumes ok: "table_ok h t" and a: "0 \<le> index" "0 \<le> n"
  shows "\<exists>r b t' h'. FileTable_Read buffer n index t h = Inr (r, b, t', h') \<and> keeps t h t' h'"
  using ok a(1)
proof (cases rule: slot_cases)
  case beyond
  then show ?thesis using keeps_refl [OF ok] by (simp add: FileTable_Read_def)
next
  case free
  then show ?thesis using keeps_refl [OF ok] by (simp add: FileTable_Read_def)
next
  case (used f d)
  let ?m = "int (length (take (nat n) (drop (nat (currentOffset f)) (contents h (inode d)))))"
  have "keeps t h (t\<lparr>openFile := (openFile t)[nat index := Some (f\<lparr>currentOffset := currentOffset f + ?m\<rparr>)]\<rparr>)
     (set_descriptor (host_fd f) (Some (d\<lparr>offset := currentOffset f + ?m\<rparr>)) h)"
    by (rule keeps_use [OF ok used(6,7) _ _ used(9)]) (use used(8) descriptor_valid [OF used(9)] in auto)
  then show ?thesis using FileTable_Read_eq [OF used(2,3,9,8) a(2) used(5)] by (simp add: Let_def)
qed

lemma FileTable_Write_eq:
  assumes "index < int FILE_MAX" "arr_get (openFile t) index = Inr (Some f)" "descriptor h (host_fd f) = Some d"
    "0 \<le> currentOffset f" "0 \<le> n" "\<And>f'. arr_set (openFile t) index f' = Inr ((openFile t)[nat index := f'])"
    "arr_get (fileOpenMode t) index = Inr m" "m \<noteq> MODE_READ" "writable d"
  shows "FileTable_Write buffer n index t h =
     Inr (n, t\<lparr>openFile := (openFile t)[nat index := Some (f\<lparr>currentOffset := currentOffset f + n\<rparr>)]\<rparr>,
          (set_descriptor (host_fd f) (Some (d\<lparr>offset := currentOffset f + n\<rparr>)) h)
            \<lparr>contents := (contents h)(inode d := overwrite (contents h (inode d)) (nat (currentOffset f)) (take (nat n) buffer))\<rparr>)"
  using assms OpenFile_Write_eq [OF assms(3-5,9)] by (simp add: FileTable_Write_def)

lemma FileTable_Write_keeps:
  assumes ok: "table_ok h t" and a: "0 \<le> index" "0 \<le> n"
  shows "\<exists>r t' h'. FileTable_Write buffer n index t h = Inr (r, t', h') \<and> keeps t h t' h'"
  using ok a(1)
proof (cases rule: slot_cases)
  case beyond
  then show ?thesis using keeps_refl [OF ok] by (simp add: FileTable_Write_def)
next
  case free
  then show ?thesis using keeps_refl [OF ok] by (simp add: FileTable_Write_def)
next
  case (used f d)
  show ?thesis
  proof (cases "fileOpenMode t ! nat index = MODE_READ")
    case True
    then show ?thesis using keeps_refl [OF ok] used by (simp add: FileTable_Write_def)
  next
    case False
    have "keeps t h (t\<lparr>openFile := (openFile t)[nat index := Some (f\<lparr>currentOffset := currentOffset f + n\<rparr>)]\<rparr>)
       ((set_descriptor (host_fd f) (Some (d\<lparr>offset := currentOffset f + n\<rparr>)) h)\<lparr>contents := c\<rparr>)" for c
      by (rule keeps_use [OF ok used(6,7) _ _ used(9)]) (use used(8) a descriptor_valid [OF used(9)] in auto)
    then show ?thesis using FileTable_Write_eq [OF used(2,3,9,8) a(2) used(5,4) False used(10) [OF False]] by simp
  qed
qed

lemma FileTable_Seek_eq:
  assumes "2 \<le> index" "index < int FILE_MAX" "arr_get (openFile t) index = Inr (Some f)"
    "descriptor h (host_fd f) = Some d" "\<And>f'. arr_set (openFile t) index f' = Inr ((openFile t)[nat index := f'])"
  shows "FileTable_Seek pos index t h =
    (let len = int (length (contents h (inode d)));
         p = (if pos = - 1 then len else pos);
         h' = set_descriptor (host_fd f) (Some (d\<lparr>offset := len\<rparr>)) h in
     if p < 0 then Inr (- 1, t, h)
     else if p > len then Inr (- 1, t, h')
     else Inr (p, t\<lparr>openFile := (openFile t)[nat index := Some (f\<lparr>currentOffset := p\<rparr>)]\<rparr>, h'))"
proof -
  let ?len = "int (length (contents h (inode d)))"
  let ?h = "set_descriptor (host_fd f) (Some (d\<lparr>offset := ?len\<rparr>)) h"
  have d': "descriptor ?h (host_fd f) = Some (d\<lparr>offset := ?len\<rparr>)" using descriptor_valid [OF assms(4)] by simp
  show ?thesis
    using assms OpenFile_Length_eq [OF assms(4)] OpenFile_Length_eq [OF d']
    by (cases "pos = - 1") (simp_all add: FileTable_Seek_def OpenFile_Seek_def Let_def)
qed

lemma FileTable_Seek_keeps:
  assumes ok: "table_ok h t" and a: "0 \<le> index"
  shows "\<exists>r t' h'. FileTable_Seek pos index t h = Inr (r, t', h') \<and> keeps t h t' h'"
  using ok a
proof (cases rule: slot_cases)
  case beyond
  then show ?thesis using keeps_refl [OF ok] by (simp add: FileTable_Seek_def)
next
  case free
  then show ?thesis using keeps_refl [OF ok] by (simp add: FileTable_Seek_def)
next
  case (used f d)
  let ?len = "int (length (contents h (inode d)))"
  let ?h = "set_descriptor (host_fd f) (Some (d\<lparr>offset := ?len\<rparr>)) h"
  have k: "keeps t h (t\<lparr>openFile := (openFile t)[nat index := Some (f\<lparr>currentOffset := p\<rparr>)]\<rparr>) ?h" if "0 \<le> p" for p
    by (rule keeps_use [OF ok used(6,7) _ _ used(9)]) (use that descriptor_valid [OF used(9)] in auto)
  have "(openFile t)[nat index := Some (f\<lparr>currentOffset := currentOffset f\<rparr>)] = openFile t"
    using used(7) by (metis OpenFile.surjective OpenFile.update_convs(2) list_update_id)
  then have k0: "keeps t h t ?h" using k [OF used(8)] by simp
  show ?thesis
    using FileTable_Seek_eq [OF used(1,2,3,9,5), of pos] k k0 keeps_refl [OF ok] by (auto simp: Let_def)
qed

lemma keeps_remove:
  assumes ok: "table_ok h t" and i: "i < FILE_MAX" "openFile t ! i = Some f"
    and d: "\<And>fd. descriptor h' fd = (if fd = host_fd f then None else descriptor h fd)"
  shows "keeps t h (t\<lparr>openFile := (openFile t)[i := None]\<rparr>) h'"
proof -
  let ?t = "t\<lparr>openFile := (openFile t)[i := None]\<rparr>"
  note len = table_ok_len [OF ok] and e = table_okD [OF ok]
  have at: "(openFile t)[i := None] ! j = (if j = i then None else openFile t ! j)" for j
    using i len by (simp add: nth_list_update)
  have sub: "fds ?t \<subseteq> fds t"
    unfolding subset_iff mem_fds using len by (auto simp: at split: if_splits)
  have "table_ok h' ?t"
    unfolding table_ok_def
  proof (intro conjI allI impI)
    fix j g
    assume j: "j < FILE_MAX" "openFile ?t ! j = Some g"
    then have g: "j \<noteq> i" "openFile t ! j = Some g" by (auto simp: at split: if_splits)
    then have "host_fd g \<noteq> host_fd f" using table_ok_fd [OF ok j(1) i(1) g(2) i(2)] by auto
    then show "entry_ok h' g (fileOpenMode ?t ! j)"
      using ok j(1) g(2) d by (simp add: entry_ok_def table_ok_def)
  next
    fix j j' g g'
    assume "j < FILE_MAX" "j' < FILE_MAX" "openFile ?t ! j = Some g" "openFile ?t ! j' = Some g'" "host_fd g = host_fd g'"
    then show "j = j'" using table_ok_fd [OF ok, of j j' g g'] by (auto simp: at split: if_splits)
  qed (use ok e(1) [OF i] i len in \<open>auto simp: table_ok_def\<close>)
  then show ?thesis using sub d e(2) [OF i] by (auto simp: keeps_def)
qed

lemma FileTable_Remove_keeps:
  assumes ok: "table_ok h t"
  shows "\<exists>r t' h'. FileTable_Remove index t h = Inr (r, t', h') \<and> keeps t h t' h'"
proof (cases "index < 2 \<or> index \<ge> int FILE_MAX")
  case True
  then show ?thesis using keeps_refl [OF ok] by (simp add: FileTable_Remove_def)
next
  case False
  then have a: "0 \<le> index" by simp
  show ?thesis
    using ok a
  proof (cases rule: slot_cases)
    case beyond
    then show ?thesis using False by simp
  next
    case free
    then show ?thesis using keeps_refl [OF ok] by (simp add: FileTable_Remove_def)
  next
    case (used f d)
    have "keeps t h (t\<lparr>openFile := (openFile t)[nat index := None]\<rparr>) (set_descriptor (host_fd f) None h)"
      by (rule keeps_remove [OF ok used(6,7)]) (use descriptor_valid [OF used(9)] in simp)
    then show ?thesis using used
      by (simp add: FileTable_Remove_def OpenFile_delete_def Close_def unix_close_def)
  qed
qed

lemma OpenFile_new_sel [simp]: "host_fd (OpenFile_new fd) = fd" "currentOffset (OpenFile_new fd) = 0"
  by (simp_all add: OpenFile_new_def)

lemma keeps_insert:
  assumes ok: "table_ok h t" and i: "2 \<le> i" "i < FILE_MAX" "openFile t ! i = None"
    and m: "m = MODE_READWRITE \<or> m = MODE_READ"
    and d: "descriptor h fd = None" "m = MODE_READWRITE \<Longrightarrow> writable d"
      "\<And>fd'. descriptor h' fd' = (if fd' = fd then Some d else descriptor h fd')"
  shows "keeps t h (t\<lparr>openFile := (openFile t)[i := Some (OpenFile_new fd)], fileOpenMode := (fileOpenMode t)[i := m]\<rparr>) h'"
    (is "keeps t h ?t h'")
proof -
  note len = table_ok_len [OF ok] and e = table_okD [OF ok]
  have at: "(openFile t)[i := Some (OpenFile_new fd)] ! j = (if j = i then Some (OpenFile_new fd) else openFile t ! j)"
    "(fileOpenMode t)[i := m] ! j = (if j = i then m else fileOpenMode t ! j)" for j
    using i len by (simp_all add: nth_list_update)
  have new: "host_fd g \<noteq> fd" if "j < FILE_MAX" "openFile t ! j = Some g" for j g
    using e(5) [OF that] d(1) by auto
  have "table_ok h' ?t"
    unfolding table_ok_def
  proof (intro conjI allI impI)
    fix j g
    assume j: "j < FILE_MAX" "openFile ?t ! j = Some g"
    show "entry_ok h' g (fileOpenMode ?t ! j)"
    proof (cases "j = i")
      case True
      then show ?thesis using j m d by (auto simp: at entry_ok_def)
    next
      case False
      then have g: "openFile t ! j = Some g" using j by (simp add: at)
      then show ?thesis using ok j(1) new [OF j(1) g] d(3) False by (simp add: at entry_ok_def table_ok_def)
    qed
  next
    fix j j' g g'
    assume a: "j < FILE_MAX" "j' < FILE_MAX" "openFile ?t ! j = Some g" "openFile ?t ! j' = Some g'" "host_fd g = host_fd g'"
    then show "j = j'"
      using table_ok_fd [OF ok a(1,2)] new [OF a(1)] new [OF a(2)]
      by (auto simp: at split: if_splits)
  qed (use ok i len in \<open>auto simp: table_ok_def\<close>)
  moreover have "\<forall>fd' \<in> fds ?t. fd' \<in> fds t \<or> descriptor h fd' = None"
  proof
    fix fd'
    assume "fd' \<in> fds ?t"
    then obtain j g where "j < FILE_MAX" "openFile ?t ! j = Some g" "host_fd g = fd'"
      using len by (auto simp: mem_fds)
    then show "fd' \<in> fds t \<or> descriptor h fd' = None"
      using d(1) e(2) [of j g] by (auto simp: at split: if_splits)
  qed
  ultimately show ?thesis using d(1,3) by (auto simp: keeps_def)
qed

lemma free_index_ok:
  assumes "\<forall>i \<in> set is. 0 \<le> i \<and> i < int (length (openFile t))"
  shows "free_index is t = Inr (- 1) \<or> (\<exists>i \<in> set is. free_index is t = Inr i \<and> openFile t ! nat i = None)"
  using assms by (induction "is") (auto simp: arr_get_ok)

lemma Insert_open:
  assumes "openMode = MODE_READWRITE \<or> openMode = MODE_READ"
  shows "rbind (if openMode = MODE_READWRITE then OpenForReadWrite name False h else Inr (- 1, h)) (\<lambda>(fd, h).
       rbind (if openMode = MODE_READ then OpenForRead name False h else Inr (fd, h)) f) =
     f (unix_open_existing name (openMode = MODE_READWRITE) h)"
  using assms by (cases "unix_open_existing name (openMode = MODE_READWRITE) h")
    (auto simp: OpenForReadWrite_def OpenForRead_def MODE_READ_def MODE_READWRITE_def)

lemma FileTable_Insert_eq:
  assumes "free_index [2..int FILE_MAX - 1] t = Inr i" "2 \<le> i" "openMode = MODE_READWRITE \<or> openMode = MODE_READ"
  shows "FileTable_Insert name openMode t h =
    (case unix_open_existing name (openMode = MODE_READWRITE) h of (fd, h) \<Rightarrow>
       if fd = - 1 then Inr (- 1, t, h)
       else rbind (arr_set (openFile t) i (Some (OpenFile_new fd))) (\<lambda>fs.
            rbind (arr_set (fileOpenMode t) i openMode) (\<lambda>ms.
            Inr (i, t\<lparr>openFile := fs, fileOpenMode := ms\<rparr>, h))))"
proof -
  have i: "(i = - 1) = False" using assms(2) by simp
  show ?thesis by (simp only: FileTable_Insert_def assms(1) rbind.simps i if_False Insert_open [OF assms(3)])
qed

lemma FileTable_Insert_keeps:
  assumes ok: "table_ok h t"
  shows "\<exists>r t' h'. FileTable_Insert name openMode t h = Inr (r, t', h') \<and> keeps t h t' h'"
proof -
  note len = table_ok_len [OF ok]
  consider "free_index [2..int FILE_MAX - 1] t = Inr (- 1)"
    | i where "2 \<le> i" "i < int FILE_MAX" "free_index [2..int FILE_MAX - 1] t = Inr i" "openFile t ! nat i = None"
    using free_index_ok [of "[2..int FILE_MAX - 1]" t] len by (auto simp: FILE_MAX_def)
  then show ?thesis
  proof cases
    case 1
    then show ?thesis using keeps_refl [OF ok] by (simp add: FileTable_Insert_def)
  next
    case (2 i)
    show ?thesis
    proof (cases "openMode = MODE_READWRITE \<or> openMode = MODE_READ")
      case False
      then show ?thesis using 2 keeps_refl [OF ok] by (simp add: FileTable_Insert_def)
    next
      case True
      note op = FileTable_Insert_eq [OF 2(3,1) True, of name h]
      let ?rw = "openMode = MODE_READWRITE"
      show ?thesis
      proof (rule unix_existing_cases [of name ?rw h])
        assume "unix_open_existing name ?rw h = (- 1, h)"
        then show ?thesis using 2 op keeps_refl [OF ok] by simp
      next
        fix n fd h'
        assume o: "unix_open_existing name ?rw h = (fd, h')" "0 \<le> fd" "descriptor h fd = None"
          "\<And>fd'. descriptor h' fd' = (if fd' = fd then Some \<lparr>inode = n, offset = 0, writable = ?rw\<rparr> else descriptor h fd')"
        have "keeps t h (t\<lparr>openFile := (openFile t)[nat i := Some (OpenFile_new fd)], fileOpenMode := (fileOpenMode t)[nat i := openMode]\<rparr>) h'"
          by (rule keeps_insert [OF ok _ _ 2(4) True o(3) _ o(4)]) (use 2 in auto)
        then show ?thesis using 2 op o(1,2) len by (simp add: arr_set_ok)
      qed
    qed
  qed
qed

section \<open>The calls of a process\<close>

text \<open>An operation on the table of one process: it always returns, and keeps the table and the
  descriptors of the other processes.\<close>

locale table_op =
  fixes op :: "FileTable \<Rightarrow> Host \<Rightarrow> ('r \<times> FileTable \<times> Host) res"
  assumes op_keeps: "table_ok h t \<Longrightarrow> \<exists>r t' h'. op t h = Inr (r, t', h') \<and> keeps t h t' h'"
begin

lemma on_table_ok:
  assumes ok: "fs_ok fs" and p: "p < MAX_PROCESS"
  shows "\<exists>r fs'. on_table (int p) op fs = Inr (r, fs') \<and> fs_ok fs' \<and>
    (\<forall>q < MAX_PROCESS. q \<noteq> p \<longrightarrow> fileTable fs' ! q = fileTable fs ! q)"
proof -
  let ?ts = "fileTable fs"
  have len: "length ?ts = MAX_PROCESS" and tok: "\<And>q. q < MAX_PROCESS \<Longrightarrow> table_ok (host fs) (?ts ! q)"
    and dis: "\<And>q r. q < MAX_PROCESS \<Longrightarrow> r < MAX_PROCESS \<Longrightarrow> q \<noteq> r \<Longrightarrow> fds (?ts ! q) \<inter> fds (?ts ! r) = {}"
    using ok by (auto simp: fs_ok_def)
  obtain r t' h' where o: "op (?ts ! p) (host fs) = Inr (r, t', h')" and k: "keeps (?ts ! p) (host fs) t' h'"
    using op_keeps [OF tok [OF p]] by blast
  let ?fs = "fs\<lparr>host := h', fileTable := ?ts[p := t']\<rparr>"
  have same: "\<forall>fd \<in> fds (?ts ! q). descriptor h' fd = descriptor (host fs) fd" if "q < MAX_PROCESS" "q \<noteq> p" for q
    using k dis [OF that(1) p that(2)] fds_open [OF tok [OF that(1)]] by (auto simp: keeps_def)
  have t: "table_ok h' (?ts[p := t'] ! q)" if "q < MAX_PROCESS" for q
  proof (cases "q = p")
    case True
    then show ?thesis using k len p by (simp add: keeps_def)
  next
    case False
    then show ?thesis using table_ok_cong [OF tok [OF that] same [OF that False]] by simp
  qed
  have away: "fds t' \<inter> fds (?ts ! q) = {}" if "q < MAX_PROCESS" "q \<noteq> p" for q
    using k dis [OF that(1) p that(2)] fds_open [OF tok [OF that(1)]] unfolding keeps_def by blast
  have "fds (?ts[p := t'] ! q) \<inter> fds (?ts[p := t'] ! r) = {}" if "q < MAX_PROCESS" "r < MAX_PROCESS" "q \<noteq> r" for q r
    using dis [OF that] away [of q] away [of r] that len p by (cases "q = p"; cases "r = p") auto
  then have "fs_ok ?fs" using t len by (simp add: fs_ok_def)
  moreover have "on_table (int p) op fs = Inr (r, ?fs)"
    using o len p by (simp add: on_table_def arr_set_ok)
  ultimately show ?thesis by auto
qed

end

interpretation file_open: table_op "FileTable_Insert name openMode" for name openMode
  by unfold_locales (rule FileTable_Insert_keeps)

interpretation file_close: table_op "FileTable_Remove index" for index
  by unfold_locales (rule FileTable_Remove_keeps)

interpretation file_write: table_op "FileTable_Write buffer (int n) (int i)" for buffer n i
  by unfold_locales (simp add: FileTable_Write_keeps)

interpretation file_seek: table_op "FileTable_Seek pos (int i)" for pos i
  by unfold_locales (simp add: FileTable_Seek_keeps)

interpretation file_read: table_op
  "\<lambda>t h. rbind (FileTable_Read buffer (int n) (int i) t h) (\<lambda>(r, b, t, h). Inr ((r, b), t, h))" for buffer n i
proof unfold_locales
  fix h t
  assume "table_ok h t"
  then obtain r b t' h' where "FileTable_Read buffer (int n) (int i) t h = Inr (r, b, t', h')" "keeps t h t' h'"
    using FileTable_Read_keeps [of h t "int i" "int n" buffer] by auto
  then show "\<exists>r t' h'. rbind (FileTable_Read buffer (int n) (int i) t h) (\<lambda>(r, b, t, h). Inr ((r, b), t, h)) =
      Inr (r, t', h') \<and> keeps t h t' h'" by auto
qed

lemma unix_create_cases:
  assumes "unix_open_create name h = (fd, h')" "0 \<le> fd"
  obtains i where "descriptor h fd = None"
    "\<And>fd'. descriptor h' fd' = (if fd' = fd then Some \<lparr>inode = i, offset = 0, writable = True\<rparr> else descriptor h fd')"
proof -
  obtain i g where g: "unix_open i True g = (fd, h')" "descriptor g = descriptor h"
    using assms by (auto simp: unix_open_create_def Let_def split: if_splits option.splits)
  show ?thesis
    by (rule unix_open_cases [of i True g]) (use g assms(2) that [of i] in \<open>auto simp: g(2)\<close>)
qed

lemma fs_ok_new_descriptor:
  assumes "fs_ok fs" "descriptor (host fs) fd = None"
    "\<And>fd'. descriptor h fd' = (if fd' = fd then Some d else descriptor (host fs) fd')"
  shows "fs_ok (fs\<lparr>host := h\<rparr>)"
proof -
  have "table_ok h (fileTable fs ! p)" if "p < MAX_PROCESS" for p
  proof -
    have t: "table_ok (host fs) (fileTable fs ! p)" using assms(1) that by (simp add: fs_ok_def)
    show ?thesis by (rule table_ok_cong [OF t]) (use fds_open [OF t, of fd] assms(2,3) in auto)
  qed
  then show ?thesis using assms(1) by (simp add: fs_ok_def)
qed

datatype file_call =
    Call_Open string int
  | Call_Close int
  | Call_Read "byte list" nat nat
  | Call_Write "byte list" nat nat
  | Call_Seek int nat
  | Call_Create string

fun run_file_call :: "int \<Rightarrow> file_call \<Rightarrow> FileSystem \<Rightarrow> FileSystem res" where
  "run_file_call pid (Call_Open name mode) fs = rbind (FileSystem_Open pid name mode fs) (\<lambda>(r, fs). Inr fs)"
| "run_file_call pid (Call_Close i) fs = rbind (FileSystem_Close pid i fs) (\<lambda>(r, fs). Inr fs)"
| "run_file_call pid (Call_Read buffer n i) fs = rbind (FileSystem_Read pid buffer (int n) (int i) fs) (\<lambda>(r, fs). Inr fs)"
| "run_file_call pid (Call_Write buffer n i) fs = rbind (FileSystem_Write pid buffer (int n) (int i) fs) (\<lambda>(r, fs). Inr fs)"
| "run_file_call pid (Call_Seek pos i) fs = rbind (FileSystem_Seek pid pos (int i) fs) (\<lambda>(r, fs). Inr fs)"
| "run_file_call pid (Call_Create name) fs = rbind (FileSystem_Create pid name fs) (\<lambda>(r, fs). Inr fs)"


text \<open>A host with the three standard descriptors and two files; a process that has opened both.\<close>

definition demo_host :: Host where
  "demo_host = \<lparr>names = [''a'' \<mapsto> 0, ''b'' \<mapsto> 1], contents = (\<lambda>_. [])(0 := [1, 2, 3], 1 := [9]),
     descriptors = replicate 3 (Some \<lparr>inode = 7, offset = 0, writable = True\<rparr>) @ replicate 13 None,
     next_inode = 2, can_create = (\<lambda>_. True)\<rparr>"

definition demo_fs :: FileSystem where
  "demo_fs = FileSystem_new (replicate FILE_MAX None) (replicate FILE_MAX 0) demo_host"

lemma demo_fs_ok: "fs_ok demo_fs"
  by (auto simp: fs_ok_def demo_fs_def FileSystem_new_def table_ok_def FileTable_new_def FILE_MAX_def fds_def nth_list_update)

fun file_calls :: "int \<Rightarrow> file_call list \<Rightarrow> FileSystem \<Rightarrow> FileSystem res" where
  "file_calls pid [] fs = Inr fs"
| "file_calls pid (c # cs) fs = rbind (run_file_call pid c fs) (file_calls pid cs)"



definition demo_open :: FileSystem where
  "demo_open = (case file_calls 3 [Call_Open ''a'' 0, Call_Open ''b'' 0] demo_fs of Inl e \<Rightarrow> demo_fs | Inr fs \<Rightarrow> fs)"

lemma demo_open_ok: "fs_ok demo_open"
proof -
  obtain fs1 where 1: "run_file_call (int 3) (Call_Open ''a'' 0) demo_fs = Inr fs1" "fs_ok fs1"
    using file_open.on_table_ok [OF demo_fs_ok, of 3 "''a''" 0] by (fastforce simp: FileSystem_Open_def MAX_PROCESS_def)
  obtain fs2 where 2: "run_file_call (int 3) (Call_Open ''b'' 0) fs1 = Inr fs2" "fs_ok fs2"
    using file_open.on_table_ok [OF 1(2), of 3 "''b''" 0] by (fastforce simp: FileSystem_Open_def MAX_PROCESS_def)
  show ?thesis using 1 2 by (simp add: demo_open_def del: run_file_call.simps)
qed

lemma demo_open_entry:
  "openFile (fileTable demo_open ! 3) ! 3 = Some \<lparr>host_fd = 4, currentOffset = 0\<rparr>"
  "fileOpenMode (fileTable demo_open ! 3) ! 3 = MODE_READWRITE"
  by code_simp+


text \<open>\<open>Create\<close> closes the wrong file: the name \<open>Close\<close> in it is the member function, so the host's
  descriptor is taken as an index into the table of the process.  When the process has a file
  open under that index, that file is closed behind its back; the new file's descriptor stays
  open on the host for good.\<close>

theorem create_closes_open_file:
  assumes ok: "fs_ok fs" and p: "p < MAX_PROCESS" and o: "OpenForWrite name (host fs) = Inr (int fd, h)"
    and i: "fd < FILE_MAX" "openFile (fileTable fs ! p) ! fd = Some f"
  shows "\<exists>fs'. FileSystem_Create (int p) name fs = Inr (True, fs') \<and> openFile (fileTable fs' ! p) ! fd = None \<and>
    descriptor (host fs') (host_fd f) = None \<and> descriptor (host fs') (int fd) \<noteq> None"
proof -
  let ?t = "fileTable fs ! p"
  have len: "length (fileTable fs) = MAX_PROCESS" and t: "table_ok (host fs) ?t" using ok p by (auto simp: fs_ok_def)
  note tl = table_ok_len [OF t] and e = table_okD [OF t i]
  obtain d where d: "descriptor (host fs) (host_fd f) = Some d" using e(5) by auto
  have c: "unix_open_create name (host fs) = (int fd, h)"
    using o by (auto simp: OpenForWrite_def Let_def split: prod.splits)
  obtain n where n: "descriptor (host fs) (int fd) = None"
    "\<And>fd'. descriptor h fd' = (if fd' = int fd then Some \<lparr>inode = n, offset = 0, writable = True\<rparr> else descriptor (host fs) fd')"
    using unix_create_cases [OF c] by auto
  have dh: "descriptor h (host_fd f) = Some d" "host_fd f \<noteq> int fd" using n d by auto
  have r: "FileTable_Remove (int fd) ?t h = Inr (0, ?t\<lparr>openFile := (openFile ?t)[fd := None]\<rparr>, set_descriptor (host_fd f) None h)"
    using i tl e(1) dh by (simp add: FileTable_Remove_def OpenFile_delete_def Close_def unix_close_def arr_set_ok)
  show ?thesis
    using r o p len i tl descriptor_valid [OF dh(1)] n dh(2)
    by (simp add: FileSystem_Create_def FileSystem_Close_def on_table_def arr_set_ok)
qed

text \<open>Files in entries 2 and 3 (descriptors 3 and 4), the first closed again: the next descriptor is 3.\<close>

definition demo_closed :: FileSystem where
  "demo_closed = (case file_calls 3 [Call_Close 2] demo_open of Inl e \<Rightarrow> demo_open | Inr fs \<Rightarrow> fs)"

lemma demo_closed_ok: "fs_ok demo_closed"
proof -
  obtain fs1 where 1: "run_file_call (int 3) (Call_Close 2) demo_open = Inr fs1" "fs_ok fs1"
    using file_close.on_table_ok [OF demo_open_ok, of 3 2] by (fastforce simp: FileSystem_Close_def MAX_PROCESS_def)
  then show ?thesis by (simp add: demo_closed_def del: run_file_call.simps)
qed

lemma demo_closed_entry:
  "openFile (fileTable demo_closed ! 3) ! 3 = Some \<lparr>host_fd = 4, currentOffset = 0\<rparr>"
  "fst (unix_open_create ''c'' (host demo_closed)) = 3"
  by code_simp+

theorem create_closes_open_file_witness:
  "\<exists>fs'. FileSystem_Create 3 ''c'' demo_closed = Inr (True, fs') \<and> openFile (fileTable fs' ! 3) ! 3 = None"
proof -
  obtain h where "unix_open_create ''c'' (host demo_closed) = (3, h)" using demo_closed_entry(2) by (metis prod.collapse)
  then have "OpenForWrite ''c'' (host demo_closed) = Inr (int 3, h)" by (simp add: OpenForWrite_def)
  from create_closes_open_file [OF demo_closed_ok _ this _ demo_closed_entry(1)] show ?thesis
    using demo_closed_entry by (auto simp: MAX_PROCESS_def FILE_MAX_def)
qed

end
