(* ===== verification/Kernel_State.thy ===== *)
theory Kernel_State
  imports Mips Sockets Bitmap Files
begin

text \<open>
  What the kernel of \<open>threads/kernel.h\<close> keeps for user programs, on top of the machine: threads with
  their saved registers (\<open>threads/thread.h\<close>), address spaces (\<open>userprog/addrspace.h\<close>), the process
  table (\<open>threads/ptable.h\<close>, \<open>threads/pcb.h\<close>), the named semaphores (\<open>threads/stable.h\<close>,
  \<open>threads/sem.h\<close>), the frames in use and the open files.  Objects made by \<open>new\<close> and reached by several
  pointers (semaphores, threads, address spaces) are entries of lists, a pointer is an index, and a
  deleted semaphore or address space is \<open>None\<close>.

  A kernel routine that may give up the processor is a function from the state to a \<open>run\<close>: it returns,
  stops the simulator with a fault, ends its thread, or waits.  A waiting run says for which condition
  it waits, what the state was when it gave up the processor, and how it goes on from the state in
  which it gets it back.  \<open>P\<close> and \<open>V\<close> are single actions between such points; that the code of
  \<open>threads/synch.cc\<close> gives this behaviour under every interleaving is the subject of the theories
  \<open>Threads\<close> and \<open>Synch\<close>.
\<close>

section \<open>Runs\<close>

datatype (plugins only: code) ('s, 'a) run =
    Ret 'a 's
  | Fault fault
  | Await "'s \<Rightarrow> bool" 's "'s \<Rightarrow> ('s, 'a) run"
  | Finished 's

type_synonym ('s, 'a) call = "'s \<Rightarrow> ('s, 'a) run"

primrec run_bind :: "('s, 'a) run \<Rightarrow> ('a \<Rightarrow> ('s, 'b) call) \<Rightarrow> ('s, 'b) run" where
  "run_bind (Ret a s) f = f a s"
| "run_bind (Fault e) f = Fault e"
| "run_bind (Await c s k) f = Await c s (\<lambda>s. run_bind (k s) f)"
| "run_bind (Finished s) f = Finished s"

definition cbind :: "('s, 'a) call \<Rightarrow> ('a \<Rightarrow> ('s, 'b) call) \<Rightarrow> ('s, 'b) call" where
  "cbind c f = (\<lambda>s. run_bind (c s) f)"

definition cthen :: "('s, unit) call \<Rightarrow> ('s, 'b) call \<Rightarrow> ('s, 'b) call" where
  "cthen c d = cbind c (\<lambda>_. d)"

definition creturn :: "'a \<Rightarrow> ('s, 'a) call" where
  "creturn a = Ret a"

text \<open>Routines that do not wait.\<close>

definition compute :: "('s \<Rightarrow> ('a \<times> 's) res) \<Rightarrow> ('s, 'a) call" where
  "compute f = (\<lambda>s. case f s of Inl e \<Rightarrow> Fault e | Inr (a, s') \<Rightarrow> Ret a s')"

definition change :: "('s \<Rightarrow> 's res) \<Rightarrow> ('s, unit) call" where
  "change f = (\<lambda>s. case f s of Inl e \<Rightarrow> Fault e | Inr s' \<Rightarrow> Ret () s')"

definition ask :: "('s \<Rightarrow> 'a) \<Rightarrow> ('s, 'a) call" where
  "ask f = (\<lambda>s. Ret (f s) s)"

definition inspect :: "('s \<Rightarrow> 'a res) \<Rightarrow> ('s, 'a) call" where
  "inspect f = (\<lambda>s. case f s of Inl e \<Rightarrow> Fault e | Inr a \<Rightarrow> Ret a s)"

definition wait_until :: "('s \<Rightarrow> bool) \<Rightarrow> ('s, unit) call" where
  "wait_until c = (\<lambda>s. Await c s (Ret ()))"

text \<open>A point where the scheduler may run other threads first.\<close>

definition preempt :: "('s, unit) call" where
  "preempt = wait_until (\<lambda>_. True)"

fun for_each_call :: "('i \<Rightarrow> ('s, unit) call) \<Rightarrow> 'i list \<Rightarrow> ('s, unit) call" where
  "for_each_call f [] = creturn ()"
| "for_each_call f (i # is) = cthen (f i) (for_each_call f is)"

lemma run_bind_assoc: "run_bind (run_bind r f) g = run_bind r (\<lambda>a. cbind (f a) g)"
  by (induction r) (auto simp: cbind_def)

lemma run_bind_Ret [simp]: "run_bind r Ret = r"
  by (induction r) auto

lemma cbind_assoc: "cbind (cbind c f) g = cbind c (\<lambda>a. cbind (f a) g)"
  by (simp add: cbind_def run_bind_assoc)

lemma sint_small:
  assumes "uint w < 2 ^ 31"
  shows "sint (w :: 32 word) = uint w"
proof -
  have "- (2 ^ 31) \<le> uint w" by (rule order_trans [of _ 0]) simp_all
  then show ?thesis using assms signed_take_bit_int_eq_self [of 31 "uint w"] by (simp add: sint_uint)
qed

lemma cthen_assoc: "cthen (cthen c d) e = cthen c (cthen d e)"
  by (simp add: cthen_def cbind_assoc)

lemma cthen_cbind: "cthen (cbind c f) d = cbind c (\<lambda>a. cthen (f a) d)"
  by (simp add: cthen_def cbind_assoc)

lemma cbind_cthen: "cbind (cthen c d) f = cthen c (cbind d f)"
  by (simp add: cthen_def cbind_assoc)

lemmas call_assoc = cthen_assoc cthen_cbind cbind_cthen cbind_assoc

lemma call_apply [simp]:
  "cbind (ask f) g k = g (f k) k"
  "cbind (inspect h) g k = (case h k of Inl e \<Rightarrow> Fault e | Inr a \<Rightarrow> g a k)"
  "cbind (compute q) g k = (case q k of Inl e \<Rightarrow> Fault e | Inr (a, k') \<Rightarrow> g a k')"
  "cthen (change u) d k = (case u k of Inl e \<Rightarrow> Fault e | Inr k' \<Rightarrow> d k')"
  "cthen (creturn ()) d k = d k" "cbind (creturn a) g k = g a k" "cbind (\<lambda>k. Fault e) g k = Fault e"
  "cthen (wait_until b) d k = Await b k d" "cthen preempt d k = Await (\<lambda>_. True) k d"
  by (auto simp: cbind_def cthen_def ask_def inspect_def compute_def change_def creturn_def wait_until_def preempt_def split: sum.split)

section \<open>Data\<close>

text \<open>Entries of the page table are bytes of the program's space: \<open>space_table\<close> and \<open>numPages\<close> are the
  members \<open>pageTable\<close> and \<open>numPages\<close>.\<close>

record AddrSpace =
  space_table :: "TranslationEntry list"
  numPages :: "32 word"

record UserThread =
  thread_name :: string
  processID :: int
  userRegisters :: "32 word list"
  space :: "nat option"

record PCB =
  joinsem :: nat
  exitsem :: nat
  multex :: nat
  exitcode :: int
  numwait :: int
  pcb_thread :: "nat option"
  filename :: string
  parentID :: int
  pcb_processID :: int

record PTable =
  pcb :: "PCB option list"
  psize :: int
  bmsem :: nat

record Sem =
  sem :: nat
  sem_name :: string

record STable =
  bm :: Bitmap
  slots :: "Sem option list"

text \<open>\<open>readyList\<close> holds the threads forked and not yet started, with the argument of their first
  procedure.  \<open>junk_PCB\<close> and \<open>junk_space\<close> are what members hold that a constructor does not set.\<close>

record Kernel = Machine +
  semaphores :: "int option list"
  threads :: "UserThread list"
  currentThread :: nat
  readyList :: "(nat \<times> int) list"
  spaces :: "AddrSpace option list"
  fileSystem :: FileSystem
  addrLock :: nat
  gPhysPageBitMap :: Bitmap
  semTab :: STable
  pTab :: PTable
  numberBuffer :: "byte list"
  junk_PCB :: PCB
  junk_space :: AddrSpace

abbreviation this_thread :: "'a Kernel_scheme \<Rightarrow> UserThread" where
  "this_thread k \<equiv> threads k ! currentThread k"

abbreviation my_pid :: "'a Kernel_scheme \<Rightarrow> int" where
  "my_pid k \<equiv> processID (this_thread k)"

section \<open>Semaphores of the kernel\<close>

definition sem_value :: "nat \<Rightarrow> 'a Kernel_scheme \<Rightarrow> int res" where
  "sem_value p k = rbind (arr_get (semaphores k) (int p)) (\<lambda>v. case v of None \<Rightarrow> Inl Dangling | Some v \<Rightarrow> Inr v)"

definition new_Semaphore :: "int \<Rightarrow> ('a Kernel_scheme, nat) call" where
  "new_Semaphore initialValue k =
     Ret (length (semaphores k)) (k\<lparr>semaphores := semaphores k @ [Some initialValue]\<rparr>)"

definition delete_Semaphore :: "nat \<Rightarrow> ('a Kernel_scheme, unit) call" where
  "delete_Semaphore p = change (\<lambda>k. rbind (sem_value p k) (\<lambda>_. Inr (k\<lparr>semaphores := (semaphores k)[p := None]\<rparr>)))"

text \<open>\<open>P\<close> waits while the value is zero, takes one, and may be preempted when it turns interrupts on
  again; so may \<open>V\<close>.\<close>

definition sem_P :: "nat \<Rightarrow> ('a Kernel_scheme, unit) call" where
  "sem_P p =
     cbind (inspect (sem_value p)) (\<lambda>_.
     cthen (wait_until (\<lambda>k. case sem_value p k of Inl _ \<Rightarrow> False | Inr v \<Rightarrow> v \<noteq> 0))
     (cthen (change (\<lambda>k. rbind (sem_value p k) (\<lambda>v. Inr (k\<lparr>semaphores := (semaphores k)[p := Some (v - 1)]\<rparr>))))
     preempt))"

definition sem_V :: "nat \<Rightarrow> ('a Kernel_scheme, unit) call" where
  "sem_V p =
     cthen (change (\<lambda>k. rbind (sem_value p k) (\<lambda>v. Inr (k\<lparr>semaphores := (semaphores k)[p := Some (v + 1)]\<rparr>))))
     preempt"

lemma new_Semaphore_then [simp]:
  "cbind (new_Semaphore v) f k = f (length (semaphores k)) (k\<lparr>semaphores := semaphores k @ [Some v]\<rparr>)"
  by (simp add: cbind_def new_Semaphore_def)

text \<open>Both as the points where they give up the processor.\<close>

definition nonzero :: "nat \<Rightarrow> 'a Kernel_scheme \<Rightarrow> bool" where
  "nonzero p k = (case sem_value p k of Inl _ \<Rightarrow> False | Inr v \<Rightarrow> v \<noteq> 0)"

definition set_sem :: "nat \<Rightarrow> int option \<Rightarrow> 'a Kernel_scheme \<Rightarrow> 'a Kernel_scheme" where
  "set_sem p v k = k\<lparr>semaphores := (semaphores k)[p := v]\<rparr>"

definition took :: "nat \<Rightarrow> ('a Kernel_scheme, 'b) call \<Rightarrow> ('a Kernel_scheme, 'b) call" where
  "took p c k = (case sem_value p k of Inl e \<Rightarrow> Fault e | Inr v \<Rightarrow> Await (\<lambda>_. True) (set_sem p (Some (v - 1)) k) c)"

lemma sem_P_then: "cthen (sem_P p) c k = (case sem_value p k of Inl e \<Rightarrow> Fault e | Inr v \<Rightarrow> Await (nonzero p) k (took p c))"
proof -
  have n: "(\<lambda>k. case sem_value p k of Inl _ \<Rightarrow> False | Inr v \<Rightarrow> v \<noteq> 0) = nonzero p" by (simp add: fun_eq_iff nonzero_def)
  have t: "cthen (change (\<lambda>k. rbind (sem_value p k) (\<lambda>v. Inr (k\<lparr>semaphores := (semaphores k)[p := Some (v - 1)]\<rparr>)))) (cthen preempt c) = took p c"
    by (auto simp: fun_eq_iff took_def set_sem_def split: sum.split)
  show ?thesis
    unfolding sem_P_def call_assoc n t by (simp split: sum.split)
qed

lemma sem_V_then: "cthen (sem_V p) c k = (case sem_value p k of Inl e \<Rightarrow> Fault e | Inr v \<Rightarrow> Await (\<lambda>_. True) (set_sem p (Some (v + 1)) k) c)"
  unfolding sem_V_def call_assoc
  by (auto simp: set_sem_def split: sum.split)

end
