(* ===== verification/Address_Space.thy ===== *)
theory Address_Space
  imports Kernel_State
begin

text \<open>
  Address spaces of user programs (\<open>userprog/addrspace.cc\<close>): loading a program from a file in NOFF
  format (\<open>userprog/noff.h\<close>), the initial registers, the translation of addresses, and releasing the
  frames.  The machine holds the page table of the running program by reference; the model copies it
  into the machine and back at the points where the code sets or leaves the reference.
\<close>

section \<open>The header of an object file\<close>

record Segment =
  virtualAddr :: "32 word"
  inFileAddr :: "32 word"
  seg_size :: "32 word"

record NoffHeader =
  noffMagic :: "32 word"
  code_seg :: Segment
  initData :: Segment
  readonlyData :: Segment
  uninitData :: Segment

definition NOFFMAGIC :: "32 word" where "NOFFMAGIC = 0xbadfad"

definition UserStackSize :: "32 word" where "UserStackSize = 1024"

text \<open>The structure is 13 words of four bytes, in the byte order of the host.\<close>

definition noff_word :: "byte list \<Rightarrow> nat \<Rightarrow> 32 word" where
  "noff_word bs i = bytes_u32 (take 4 (drop (4 * i) bs))"

definition noff_segment :: "byte list \<Rightarrow> nat \<Rightarrow> Segment" where
  "noff_segment bs i = \<lparr>virtualAddr = noff_word bs i, inFileAddr = noff_word bs (i + 1), seg_size = noff_word bs (i + 2)\<rparr>"

definition NoffHeader_of :: "byte list \<Rightarrow> NoffHeader" where
  "NoffHeader_of bs = \<lparr>noffMagic = noff_word bs 0, code_seg = noff_segment bs 1, initData = noff_segment bs 4,
     readonlyData = noff_segment bs 7, uninitData = noff_segment bs 10\<rparr>"

definition SwapSegment :: "Segment \<Rightarrow> Segment" where
  "SwapSegment g = \<lparr>virtualAddr = WordToHost (virtualAddr g), inFileAddr = WordToHost (inFileAddr g), seg_size = WordToHost (seg_size g)\<rparr>"

definition SwapHeader :: "NoffHeader \<Rightarrow> NoffHeader" where
  "SwapHeader h = \<lparr>noffMagic = WordToHost (noffMagic h), code_seg = SwapSegment (code_seg h),
     initData = SwapSegment (initData h), readonlyData = SwapSegment (readonlyData h),
     uninitData = SwapSegment (uninitData h)\<rparr>"

section \<open>Loading a program\<close>

text \<open>An access to the open executable, which is not in a table of open files.\<close>

definition with_host :: "(Host \<Rightarrow> ('r \<times> Host) res) \<Rightarrow> 'a Kernel_scheme \<Rightarrow> ('r \<times> 'a Kernel_scheme) res" where
  "with_host f k = rbind (f (host (fileSystem k))) (\<lambda>(r, h). Inr (r, k\<lparr>fileSystem := (fileSystem k)\<lparr>host := h\<rparr>\<rparr>))"

text \<open>Bytes stored at a physical address; outside the array of \<open>MemorySize\<close> bytes this is a fault.\<close>

definition store_bytes :: "int \<Rightarrow> byte list \<Rightarrow> 'a Kernel_scheme \<Rightarrow> 'a Kernel_scheme res" where
  "store_bytes a bs k =
     (if bs = [] then Inr k
      else if 0 \<le> a \<and> a + int (length bs) \<le> MemorySize then Inr (k\<lparr>mainMemory := file_write (mainMemory k) (nat a) bs\<rparr>)
      else Inl OutOfRange)"

definition new_page :: "nat \<Rightarrow> TranslationEntry list \<times> 'a Kernel_scheme \<Rightarrow> (TranslationEntry list \<times> 'a Kernel_scheme) res" where
  "new_page i = (\<lambda>(pt, k).
     rbind (Bitmap_FindAndSet (gPhysPageBitMap k)) (\<lambda>(f, b).
     rbind (store_bytes (f * PageSize) (replicate (nat PageSize) 0) (k\<lparr>gPhysPageBitMap := b\<rparr>)) (\<lambda>k.
     Inr (pt @ [\<lparr>virtualPage = int i, physicalPage = f, valid = True, readOnly = False, used = False, dirty = False\<rparr>], k))))"

text \<open>One page of a segment: a page of the file is read to the segment's address \<^emph>\<open>plus\<close> the start of the
  frame.\<close>

definition load_page :: "OpenFile \<Rightarrow> TranslationEntry list \<Rightarrow> Segment \<Rightarrow> nat \<Rightarrow> 'a Kernel_scheme \<Rightarrow> 'a Kernel_scheme res" where
  "load_page executable pt g i k =
     rbind (arr_get pt (int i)) (\<lambda>e.
     rbind (with_host (\<lambda>h. rbind (OpenFile_ReadAt executable [] PageSize
              (sint (inFileAddr g + of_nat i * of_int PageSize)) h) (\<lambda>(n, bs, h). Inr (bs, h))) k) (\<lambda>(bs, k).
     store_bytes (sint (virtualAddr g) + physicalPage e * PageSize) bs k))"

definition load_segment :: "OpenFile \<Rightarrow> TranslationEntry list \<Rightarrow> Segment \<Rightarrow> 'a Kernel_scheme \<Rightarrow> 'a Kernel_scheme res" where
  "load_segment executable pt g k =
     (if sint (seg_size g) > 0 then for_each (load_page executable pt g) [0..<length pt] k else Inr k)"

definition new_space :: "AddrSpace \<Rightarrow> ('a Kernel_scheme, nat) call" where
  "new_space a k = Ret (length (spaces k)) (k\<lparr>spaces := spaces k @ [Some a]\<rparr>)"

definition delete_executable :: "OpenFile \<Rightarrow> 'a Kernel_scheme \<Rightarrow> 'a Kernel_scheme res" where
  "delete_executable f k = rbind (with_host (\<lambda>h. rbind (OpenFile_delete f h) (\<lambda>h. Inr ((), h))) k) (\<lambda>(_, k). Inr k)"

text \<open>The pages the header asks for, in unsigned arithmetic.\<close>

definition pages_needed :: "NoffHeader \<Rightarrow> 32 word" where
  "pages_needed h =
     (let size = seg_size (code_seg h) + seg_size (initData h) + seg_size (uninitData h) + UserStackSize;
          p = word_of_int PageSize in
      size div p + (if size mod p > 0 then 1 else 0))"

definition read_header :: "byte list \<Rightarrow> OpenFile \<Rightarrow> 'a Kernel_scheme \<Rightarrow> (NoffHeader \<times> 'a Kernel_scheme) res" where
  "read_header junk executable k =
     rbind (with_host (\<lambda>h. rbind (OpenFile_ReadAt executable junk 52 0 h) (\<lambda>(n, bs, h). Inr (bs, h))) k) (\<lambda>(bs, k).
     let h = NoffHeader_of bs;
         h = (if noffMagic h \<noteq> NOFFMAGIC \<and> WordToHost (noffMagic h) = NOFFMAGIC then SwapHeader h else h) in
     rbind (ASSERT (noffMagic h = NOFFMAGIC)) (\<lambda>_. Inr (h, k)))"

definition load_program :: "OpenFile \<Rightarrow> NoffHeader \<Rightarrow> 'a Kernel_scheme \<Rightarrow> (AddrSpace option \<times> 'a Kernel_scheme) res" where
  "load_program executable h k =
     (let n = pages_needed h in
      rbind (ASSERT (uint n \<le> NumPhysPages)) (\<lambda>_.
      rbind (Bitmap_NumClear (gPhysPageBitMap k)) (\<lambda>free.
      if n > word_of_int free then Inr (None, k)
      else
        rbind (for_each new_page [0..<unat n] ([], k)) (\<lambda>(pt, k).
        rbind (load_segment executable pt (code_seg h) k) (\<lambda>k.
        rbind (load_segment executable pt (initData h) k) (\<lambda>k.
        Inr (Some \<lparr>space_table = pt, numPages = n\<rparr>, k)))))))"

definition AddrSpace_new :: "byte list \<Rightarrow> string \<Rightarrow> ('a Kernel_scheme, nat) call" where
  "AddrSpace_new junk fileName =
     cbind (compute (\<lambda>k. rbind (FileSystem_OpenFile fileName (fileSystem k)) (\<lambda>(f, fs). Inr (f, k\<lparr>fileSystem := fs\<rparr>)))) (\<lambda>f.
     case f of
       None \<Rightarrow> cbind (ask junk_space) new_space
     | Some executable \<Rightarrow>
         cbind (compute (read_header junk executable)) (\<lambda>h.
         cbind (ask addrLock) (\<lambda>lock.
         cthen (sem_P lock)
         (cbind (compute (load_program executable h)) (\<lambda>a.
         case a of
           None \<Rightarrow>
             cthen (change (delete_executable executable))
             (cthen (sem_V lock) (cbind (ask junk_space) (\<lambda>junk. new_space (junk\<lparr>numPages := 0\<rparr>))))
         | Some a \<Rightarrow>
             cthen (sem_V lock) (cthen (change (delete_executable executable)) (new_space a)))))))"

section \<open>Running and leaving a program\<close>

definition AddrSpace_delete :: "nat \<Rightarrow> 'a Kernel_scheme \<Rightarrow> 'a Kernel_scheme res" where
  "AddrSpace_delete a k =
     rbind (arr_get (spaces k) (int a)) (\<lambda>sp. case sp of
         None \<Rightarrow> Inl Dangling
       | Some sp \<Rightarrow>
           rbind (for_each (\<lambda>i b. rbind (arr_get (space_table sp) i) (\<lambda>e. Bitmap_Clear b (physicalPage e)))
                    [0..uint (numPages sp) - 1] (gPhysPageBitMap k)) (\<lambda>b.
           Inr (k\<lparr>gPhysPageBitMap := b, spaces := (spaces k)[a := None]\<rparr>)))"

definition InitRegisters :: "32 word \<Rightarrow> 'a Machine_scheme \<Rightarrow> 'a Machine_scheme res" where
  "InitRegisters n s =
     rbind (for_each (\<lambda>i. WriteRegister i 0) [0..int NumTotalRegs - 1] s) (\<lambda>s.
     rbind (WriteRegister (int PCReg) 0 s) (\<lambda>s.
     rbind (WriteRegister (int NextPCReg) 4 s) (\<lambda>s.
     WriteRegister (int StackReg) (n * word_of_int PageSize - 16) s)))"

definition RestoreState :: "AddrSpace \<Rightarrow> 'a Machine_scheme \<Rightarrow> 'a Machine_scheme" where
  "RestoreState a s = s\<lparr>pageTable := Some (space_table a), pageTableSize := uint (numPages a)\<rparr>"

text \<open>\<open>Execute\<close> up to the point where the processor loop takes over.\<close>

definition Execute :: "nat \<Rightarrow> 'a Kernel_scheme \<Rightarrow> 'a Kernel_scheme res" where
  "Execute a k =
     rbind (arr_get (spaces k) (int a)) (\<lambda>sp. case sp of
         None \<Rightarrow> Inl Dangling
       | Some sp \<Rightarrow>
           rbind (arr_get (threads k) (int (currentThread k))) (\<lambda>t.
           let k = k\<lparr>threads := (threads k)[currentThread k := t\<lparr>space := Some a\<rparr>]\<rparr> in
           rbind (InitRegisters (numPages sp) k) (\<lambda>k.
           Inr ((RestoreState sp k)\<lparr>status := UserMode\<rparr>))))"

definition AddrSpace_Translate :: "AddrSpace \<Rightarrow> 32 word \<Rightarrow> bool \<Rightarrow> (ExceptionType \<times> int \<times> AddrSpace) res" where
  "AddrSpace_Translate a vaddr isReadWrite =
     (let vpn = vaddr div word_of_int PageSize; off = uint (vaddr mod word_of_int PageSize) in
      if vpn \<ge> numPages a then Inr (AddressErrorException, 0, a)
      else
        rbind (arr_get (space_table a) (uint vpn)) (\<lambda>pte.
        if isReadWrite \<and> readOnly pte then Inr (ReadOnlyException, 0, a)
        else
          let pfn = physicalPage pte in
          if pfn \<ge> NumPhysPages then Inr (BusErrorException, 0, a)
          else
            let pte = pte\<lparr>used := True, dirty := (dirty pte \<or> isReadWrite)\<rparr>;
                paddr = uint (word_of_int (pfn * PageSize + off) :: 32 word) in
            rbind (arr_set (space_table a) (uint vpn) pte) (\<lambda>pt.
            rbind (ASSERT (paddr < MemorySize)) (\<lambda>_.
            Inr (NoException, paddr, a\<lparr>space_table := pt\<rparr>)))))"

section \<open>Frames of the address spaces\<close>

definition frames :: "AddrSpace \<Rightarrow> int list" where
  "frames a = map physicalPage (take (unat (numPages a)) (space_table a))"

text \<open>A space that has been set up: every page is valid and has a frame of its own.\<close>

definition space_ok :: "Bitmap \<Rightarrow> AddrSpace \<Rightarrow> bool" where
  "space_ok b a \<longleftrightarrow> length (space_table a) = unat (numPages a) \<and> distinct (frames a) \<and> set (frames a) \<subseteq> marked b"

definition bitmap_128 :: "Bitmap \<Rightarrow> bool" where
  "bitmap_128 b \<longleftrightarrow> bitmap_ok b \<and> numBits b = NumPhysPages"

text \<open>Distinct spaces have no frame in common.\<close>

definition frames_ok :: "'a Kernel_scheme \<Rightarrow> bool" where
  "frames_ok k \<longleftrightarrow> bitmap_128 (gPhysPageBitMap k) \<and>
     (\<forall>a \<in> set (spaces k). \<forall>sp. a = Some sp \<longrightarrow> space_ok (gPhysPageBitMap k) sp) \<and>
     (\<forall>i < length (spaces k). \<forall>j < length (spaces k). \<forall>s t. i \<noteq> j \<longrightarrow> spaces k ! i = Some s \<longrightarrow> spaces k ! j = Some t \<longrightarrow>
        set (frames s) \<inter> set (frames t) = {})"

text \<open>Setting up the pages is a loop over the allocator, with the frames cleared on the way.\<close>

definition fresh_entry :: "nat \<Rightarrow> int \<Rightarrow> TranslationEntry" where
  "fresh_entry i f = \<lparr>virtualPage = int i, physicalPage = f, valid = True, readOnly = False, used = False, dirty = False\<rparr>"

definition clear_frames :: "int list \<Rightarrow> (nat \<Rightarrow> byte) \<Rightarrow> nat \<Rightarrow> byte" where
  "clear_frames fs m = (\<lambda>a. if int a div PageSize \<in> set fs then 0 else m a)"

lemma frame_bytes:
  assumes "0 \<le> f"
  shows "nat (f * 128) \<le> a \<and> a < nat (f * 128) + 128 \<longleftrightarrow> int a div 128 = f"
proof -
  obtain n where "f = int n" using assms nonneg_eq_int by blast
  then show ?thesis by auto
qed

lemma new_page_ok:
  assumes "bitmap_128 (gPhysPageBitMap k)" "marked (gPhysPageBitMap k) \<noteq> {0..<NumPhysPages}"
  shows "\<exists>f b. Bitmap_FindAndSet (gPhysPageBitMap k) = Inr (f, b) \<and> bitmap_128 b \<and> f \<notin> marked (gPhysPageBitMap k) \<and>
    0 \<le> f \<and> f < NumPhysPages \<and> marked b = insert f (marked (gPhysPageBitMap k)) \<and>
    new_page i (pt, k) = Inr (pt @ [fresh_entry i f], k\<lparr>gPhysPageBitMap := b, mainMemory := clear_frames [f] (mainMemory k)\<rparr>)"
proof -
  obtain f b where f: "Bitmap_FindAndSet (gPhysPageBitMap k) = Inr (f, b)" "0 \<le> f" "f < NumPhysPages"
      "f \<notin> marked (gPhysPageBitMap k)" "bitmap_128 b" "marked b = insert f (marked (gPhysPageBitMap k))"
    using bm.find_free [of "gPhysPageBitMap k"] assms by (auto simp: bitmap_128_def)
  have "file_write m (nat (f * 128)) (replicate 128 0) = clear_frames [f] m" for m
    using frame_bytes [OF f(2)] by (auto simp: file_write_def clear_frames_def memory_consts fun_eq_iff)
  then show ?thesis using f by (simp add: new_page_def store_bytes_def memory_consts fresh_entry_def)
qed

lemma new_pages_ok:
  assumes "bitmap_128 (gPhysPageBitMap k)" "int (card (marked (gPhysPageBitMap k))) + int n \<le> NumPhysPages"
  shows "\<exists>fs b. for_each new_page [i..<i + n] (pt, k) =
      Inr (pt @ map2 fresh_entry [i..<i + n] fs, k\<lparr>gPhysPageBitMap := b, mainMemory := clear_frames fs (mainMemory k)\<rparr>) \<and>
    alloc_loop Bitmap_FindAndSet n (gPhysPageBitMap k) = Inr (fs, b)"
  using assms
proof (induction n arbitrary: i pt k)
  case 0
  have "clear_frames [] m = m" for m by (simp add: clear_frames_def)
  then show ?case by simp
next
  case (Suc n)
  have "marked (gPhysPageBitMap k) \<noteq> {0..<NumPhysPages}"
    using bm.room_not_full [of "gPhysPageBitMap k"] Suc.prems by (simp add: bitmap_128_def)
  from new_page_ok [OF Suc.prems(1) this, of i pt] obtain f b where f:
    "Bitmap_FindAndSet (gPhysPageBitMap k) = Inr (f, b)" "bitmap_128 b" "f \<notin> marked (gPhysPageBitMap k)"
    "marked b = insert f (marked (gPhysPageBitMap k))"
    "new_page i (pt, k) = Inr (pt @ [fresh_entry i f], k\<lparr>gPhysPageBitMap := b, mainMemory := clear_frames [f] (mainMemory k)\<rparr>)"
    by blast
  let ?k = "k\<lparr>gPhysPageBitMap := b, mainMemory := clear_frames [f] (mainMemory k)\<rparr>"
  have "int (card (marked (gPhysPageBitMap ?k))) + int n \<le> NumPhysPages"
    using Suc.prems(2) f(3,4) bm.finite_inuse by simp
  from Suc.IH [of ?k "Suc i" "pt @ [fresh_entry i f]"] this f(2) obtain fs b' where r:
    "for_each new_page [Suc i..<Suc i + n] (pt @ [fresh_entry i f], ?k) =
       Inr ((pt @ [fresh_entry i f]) @ map2 fresh_entry [Suc i..<Suc i + n] fs,
         ?k\<lparr>gPhysPageBitMap := b', mainMemory := clear_frames fs (mainMemory ?k)\<rparr>)"
    "alloc_loop Bitmap_FindAndSet n b = Inr (fs, b')"
    by auto
  have u: "[i..<i + Suc n] = i # [Suc i..<Suc i + n]" by (simp add: upt_rec)
  have "clear_frames fs (clear_frames [f] (mainMemory k)) = clear_frames (f # fs) (mainMemory k)"
    by (auto simp: clear_frames_def)
  then have "for_each new_page [i..<i + Suc n] (pt, k) =
      Inr (pt @ map2 fresh_entry [i..<i + Suc n] (f # fs), k\<lparr>gPhysPageBitMap := b', mainMemory := clear_frames (f # fs) (mainMemory k)\<rparr>)"
    unfolding u using f(5) r(1) by simp
  then show ?case using f(1) r(2) by (intro exI [of _ "f # fs"] exI [of _ b']) simp
qed

section \<open>Loading into contiguous frames\<close>

lemma file_write_Nil [simp]: "file_write m a [] = m"
  by (rule ext) (auto simp: file_write_def)

lemma file_write_append: "file_write (file_write m a xs) (a + length xs) ys = file_write m a (xs @ ys)"
  by (auto simp: file_write_def fun_eq_iff nth_append)

lemma file_write_next:
  "file_write (file_write m a (take n xs)) (a + n) (take j (drop n xs)) = file_write m a (take (n + j) xs)"
proof (cases "n \<le> length xs")
  case True
  then show ?thesis using file_write_append [of m a "take n xs" "take j (drop n xs)"] by (simp add: take_add)
qed simp

text \<open>An open executable: the descriptor it holds, and what the file contains.\<close>

definition executable_of :: "OpenFile \<Rightarrow> byte list \<Rightarrow> 'a Kernel_scheme \<Rightarrow> bool" where
  "executable_of f c k \<longleftrightarrow>
     (case descriptor (host (fileSystem k)) (host_fd f) of
        None \<Rightarrow> False | Some d \<Rightarrow> contents (host (fileSystem k)) (inode d) = c)"

lemma executable_of_memory [simp]: "executable_of f c (k\<lparr>mainMemory := m\<rparr>) = executable_of f c k"
  "executable_of f c (k\<lparr>gPhysPageBitMap := b\<rparr>) = executable_of f c k"
  "executable_of f c (k\<lparr>spaces := sp\<rparr>) = executable_of f c k"
  by (auto simp: executable_of_def split: option.splits)

text \<open>A read moves the offset of the descriptor and nothing else.\<close>

definition moved :: "OpenFile \<Rightarrow> 'a Kernel_scheme \<Rightarrow> 'a Kernel_scheme \<Rightarrow> bool" where
  "moved f k k' \<longleftrightarrow> (\<exists>d off. descriptor (host (fileSystem k)) (host_fd f) = Some d \<and>
     k' = k\<lparr>fileSystem := (fileSystem k)\<lparr>host := set_descriptor (host_fd f) (Some (d\<lparr>offset := off\<rparr>)) (host (fileSystem k))\<rparr>\<rparr>)"

lemma executable_read:
  assumes "executable_of f c k" "0 \<le> pos" "0 \<le> n"
  shows "\<exists>k'. with_host (\<lambda>h. rbind (OpenFile_ReadAt f into n pos h) (\<lambda>(r, bs, h). Inr (bs, h))) k =
      Inr (fill into (take (nat n) (drop (nat pos) c)), k') \<and> moved f k k' \<and> executable_of f c k'"
proof -
  let ?h = "host (fileSystem k)"
  obtain d where d: "descriptor ?h (host_fd f) = Some d" "contents ?h (inode d) = c"
    using assms(1) by (auto simp: executable_of_def split: option.splits)
  note v = descriptor_valid [OF d(1)]
  let ?off = "pos + int (length (take (nat n) (drop (nat pos) c)))"
  have "with_host (\<lambda>h. rbind (OpenFile_ReadAt f into n pos h) (\<lambda>(r, bs, h). Inr (bs, h))) k =
      Inr (fill into (take (nat n) (drop (nat pos) c)),
        k\<lparr>fileSystem := (fileSystem k)\<lparr>host := set_descriptor (host_fd f) (Some (d\<lparr>offset := ?off\<rparr>)) ?h\<rparr>\<rparr>)"
    using d v assms(2,3)
    by (simp add: with_host_def OpenFile_ReadAt_def Lseek_set ReadPartial_def unix_read_def Let_def)
  then show ?thesis using d v by (auto simp: moved_def executable_of_def)
qed

lemma moved_mono:
  assumes "moved f k k'"
  shows "mainMemory k' = mainMemory k" "gPhysPageBitMap k' = gPhysPageBitMap k"
  using assms by (auto simp: moved_def)

text \<open>What loading keeps: everything but memory and the offset of the executable.\<close>

definition loading :: "OpenFile \<Rightarrow> 'a Kernel_scheme \<Rightarrow> 'a Kernel_scheme \<Rightarrow> bool" where
  "loading f k k' \<longleftrightarrow> (\<exists>m d off. descriptor (host (fileSystem k)) (host_fd f) = Some d \<and>
     k' = k\<lparr>fileSystem := (fileSystem k)\<lparr>host := set_descriptor (host_fd f) (Some (d\<lparr>offset := off\<rparr>)) (host (fileSystem k))\<rparr>, mainMemory := m\<rparr>)"

lemma loading_refl:
  assumes "executable_of f c k"
  shows "loading f k k"
proof -
  obtain d where d: "descriptor (host (fileSystem k)) (host_fd f) = Some d"
    using assms by (auto simp: executable_of_def split: option.splits)
  have "set_descriptor (host_fd f) (Some (d\<lparr>offset := offset d\<rparr>)) (host (fileSystem k)) = host (fileSystem k)"
    using d by (cases "host (fileSystem k)") (auto simp: set_descriptor_def descriptor_def list_update_same_conv split: if_splits)
  then show ?thesis unfolding loading_def using d
    by (intro exI [of _ "mainMemory k"] exI [of _ d] exI [of _ "offset d"]) simp
qed

lemma loading_step:
  assumes "loading f k k1" "moved f k1 k2"
  shows "loading f k (k2\<lparr>mainMemory := m\<rparr>)"
proof -
  obtain m1 d off where 1: "descriptor (host (fileSystem k)) (host_fd f) = Some d"
    "k1 = k\<lparr>fileSystem := (fileSystem k)\<lparr>host := set_descriptor (host_fd f) (Some (d\<lparr>offset := off\<rparr>)) (host (fileSystem k))\<rparr>, mainMemory := m1\<rparr>"
    using assms(1) by (auto simp: loading_def)
  note v = descriptor_valid [OF 1(1)]
  obtain off2 where "k2 = k1\<lparr>fileSystem := (fileSystem k)\<lparr>host := set_descriptor (host_fd f) (Some (d\<lparr>offset := off2\<rparr>)) (host (fileSystem k))\<rparr>\<rparr>"
    using assms(2) 1 v by (auto simp: moved_def)
  then have "k2\<lparr>mainMemory := m\<rparr> =
    k\<lparr>fileSystem := (fileSystem k)\<lparr>host := set_descriptor (host_fd f) (Some (d\<lparr>offset := off2\<rparr>)) (host (fileSystem k))\<rparr>, mainMemory := m\<rparr>"
    unfolding 1(2) by (cases k) simp
  then show ?thesis using 1(1) unfolding loading_def by blast
qed

definition contiguous :: "int \<Rightarrow> TranslationEntry list \<Rightarrow> bool" where
  "contiguous f0 pt \<longleftrightarrow> (\<forall>i < length pt. physicalPage (pt ! i) = f0 + int i)"

lemma load_pages_contiguous:
  assumes ex: "executable_of f c k" and ct: "contiguous f0 pt" "0 \<le> f0" "n \<le> length pt"
    and g: "0 \<le> sint (virtualAddr g)" "uint (inFileAddr g) + 128 * int (length pt) < 2 ^ 31"
    and fit: "sint (virtualAddr g) + f0 * 128 + int (length (drop (unat (inFileAddr g)) c)) \<le> MemorySize"
  shows "\<exists>k'. for_each (load_page f pt g) [0..<n] k = Inr k' \<and> loading f k k' \<and> executable_of f c k' \<and>
    mainMemory k' = file_write (mainMemory k) (nat (sint (virtualAddr g) + f0 * 128)) (take (128 * n) (drop (unat (inFileAddr g)) c))"
  using ct(3)
proof (induction n)
  case 0
  then show ?case using ex loading_refl [OF ex] by simp
next
  case (Suc n)
  let ?o = "unat (inFileAddr g)" and ?a = "sint (virtualAddr g) + f0 * 128"
  let ?bs = "take 128 (drop (?o + 128 * n) c)"
  have dd: "drop (128 * n) (drop ?o c) = drop (?o + 128 * n) c" by (simp add: add.commute)
  obtain k1 where 1: "for_each (load_page f pt g) [0..<n] k = Inr k1" "loading f k k1" "executable_of f c k1"
    "mainMemory k1 = file_write (mainMemory k) (nat ?a) (take (128 * n) (drop ?o c))"
    using Suc by auto
  have lt: "uint (inFileAddr g) + 128 * int n < 2 ^ 31" using g(2) Suc.prems by linarith
  have w: "inFileAddr g + of_nat n * of_int 128 = word_of_int (uint (inFileAddr g) + 128 * int n)"
    by (simp add: mult.commute)
  have u: "uint (inFileAddr g + of_nat n * of_int 128) = uint (inFileAddr g) + 128 * int n"
    unfolding w uint_word_of_int_eq by (rule take_bit_int_eq_self) (use lt in auto)
  have pos: "sint (inFileAddr g + of_nat n * of_int PageSize) = int (?o + 128 * n)"
    using u lt sint_small [of "inFileAddr g + of_nat n * of_int 128"] by (simp add: memory_consts)
  have "\<exists>k'. with_host (\<lambda>h. rbind (OpenFile_ReadAt f [] 128 (int p) h) (\<lambda>(r, bs, h). Inr (bs, h))) k1 = Inr (take 128 (drop p c), k') \<and>
      moved f k1 k' \<and> executable_of f c k'" for p
    using executable_read [OF 1(3), of "int p" 128 "[]"] by (simp add: fill_def)
  from this [of "?o + 128 * n"] obtain k2 where 2:
    "with_host (\<lambda>h. rbind (OpenFile_ReadAt f [] 128 (int (?o + 128 * n)) h) (\<lambda>(r, bs, h). Inr (bs, h))) k1 = Inr (?bs, k2)"
    "moved f k1 k2" "executable_of f c k2"
    by blast
  let ?m = "file_write (mainMemory k1) (nat ?a + 128 * n) ?bs"
  have e: "physicalPage (pt ! n) = f0 + int n" using ct(1) Suc.prems by (simp add: contiguous_def)
  have "store_bytes (sint (virtualAddr g) + (f0 + int n) * 128) ?bs k2 = Inr (k2\<lparr>mainMemory := ?m\<rparr>)"
  proof (cases "?bs = []")
    case True
    then show ?thesis using moved_mono [OF 2(2)] by (simp add: store_bytes_def del: take_eq_Nil)
  next
    case False
    have "length ?bs + 128 * n \<le> length (drop ?o c)" using False by (simp split: split_min)
    then have "int (length ?bs) + 128 * int n \<le> int (length (drop ?o c))" by linarith
    moreover have "nat (sint (virtualAddr g) + (f0 + int n) * 128) = nat ?a + 128 * n" using g(1) ct(2) by (simp add: nat_add_distrib)
    ultimately show ?thesis using False fit g(1) ct(2) moved_mono [OF 2(2)]
      by (simp add: store_bytes_def algebra_simps)
  qed
  then have "load_page f pt g n k1 = Inr (k2\<lparr>mainMemory := ?m\<rparr>)"
    using 2(1) Suc.prems pos e by (simp add: load_page_def memory_consts)
  moreover have "?m = file_write (mainMemory k) (nat ?a) (take (128 * Suc n) (drop ?o c))"
    using file_write_next [of "mainMemory k" "nat ?a" "128 * n" "drop ?o c" 128] 1(4) unfolding dd by (simp add: add.commute)
  ultimately show ?case
    using 1(1) loading_step [OF 1(2) 2(2)] 2(3) by (simp add: for_each_append)
qed

lemma alloc_first_fit:
  assumes "bitmap_128 b" "marked b = {0..<f0}" "0 \<le> f0" "f0 + int n \<le> NumPhysPages"
  shows "\<exists>b'. alloc_loop Bitmap_FindAndSet n b = Inr (map (\<lambda>i. f0 + int i) [0..<n], b') \<and> bitmap_128 b' \<and>
    marked b' = {0..<f0 + int n}"
  using assms
proof (induction n arbitrary: b f0)
  case (Suc n)
  obtain b1 where 1: "Bitmap_FindAndSet b = Inr (f0, b1)" "bitmap_128 b1" "marked b1 = insert f0 {0..<f0}"
    using Bitmap_FindAndSet_first [of b f0] Suc.prems by (auto simp: bitmap_128_def)
  have "insert f0 {0..<f0} = {0..<f0 + 1}" using Suc.prems by auto
  then obtain b2 where "alloc_loop Bitmap_FindAndSet n b1 = Inr (map (\<lambda>i. f0 + 1 + int i) [0..<n], b2)" "bitmap_128 b2"
    "marked b2 = {0..<f0 + 1 + int n}" using Suc.IH [of b1 "f0 + 1"] 1 Suc.prems by auto
  moreover have "[0..<Suc n] = 0 # map Suc [0..<n]" by (simp add: map_Suc_upt upt_conv_Cons)
  ultimately show ?case using 1 by (simp add: add_ac comp_def)
qed auto

lemma contiguous_entries: "contiguous f0 (map2 fresh_entry [0..<n] (map (\<lambda>i. f0 + int i) [0..<n]))"
  by (simp add: contiguous_def fresh_entry_def)

text \<open>The bytes a segment brings into the program's space: the rest of the file from where it starts.\<close>

definition segment_byte :: "byte list \<Rightarrow> Segment \<Rightarrow> int \<Rightarrow> byte option" where
  "segment_byte c g v =
     (let d = drop (unat (inFileAddr g)) c; j = v - sint (virtualAddr g) in
      if sint (seg_size g) > 0 \<and> 0 \<le> j \<and> j < int (length d) then Some (d ! nat j) else None)"

definition program_image :: "byte list \<Rightarrow> NoffHeader \<Rightarrow> int \<Rightarrow> byte" where
  "program_image c h v = (case segment_byte c (initData h) v of Some b \<Rightarrow> b | None \<Rightarrow>
     (case segment_byte c (code_seg h) v of Some b \<Rightarrow> b | None \<Rightarrow> 0))"

text \<open>A segment whose part of the file stays within the pages of the program.\<close>

definition segment_fits :: "byte list \<Rightarrow> nat \<Rightarrow> Segment \<Rightarrow> bool" where
  "segment_fits c n g \<longleftrightarrow> 0 \<le> sint (virtualAddr g) \<and> uint (inFileAddr g) + 128 * int n < 2 ^ 31 \<and>
     sint (virtualAddr g) + int (length (drop (unat (inFileAddr g)) c)) \<le> 128 * int n"

lemma load_segment_contiguous:
  assumes ex: "executable_of f c k" and ct: "contiguous f0 pt" "0 \<le> f0" "f0 + int (length pt) \<le> NumPhysPages"
    and g: "segment_fits c (length pt) g"
  shows "\<exists>k'. load_segment f pt g k = Inr k' \<and> loading f k k' \<and> executable_of f c k' \<and>
    (\<forall>a. mainMemory k' a = (case segment_byte c g (int a - f0 * 128) of Some b \<Rightarrow> b | None \<Rightarrow> mainMemory k a))"
proof (cases "sint (seg_size g) > 0")
  case True
  let ?d = "drop (unat (inFileAddr g)) c" and ?a = "nat (sint (virtualAddr g) + f0 * 128)"
  have fit: "sint (virtualAddr g) + int (length ?d) \<le> 128 * int (length pt)" and v: "0 \<le> sint (virtualAddr g)"
    using g by (auto simp: segment_fits_def)
  have l: "take (128 * length pt) ?d = ?d" using fit v by simp
  have "sint (virtualAddr g) + f0 * 128 + int (length ?d) \<le> MemorySize"
    using fit ct(3) by (simp add: memory_consts)
  from load_pages_contiguous [OF ex ct(1,2) order_refl v _ this] g obtain k' where k':
    "load_segment f pt g k = Inr k'" "loading f k k'" "executable_of f c k'" "mainMemory k' = file_write (mainMemory k) ?a ?d"
    unfolding l load_segment_def using True by (auto simp: segment_fits_def)
  have "file_write m ?a ?d a = (case segment_byte c g (int a - f0 * 128) of Some b \<Rightarrow> b | None \<Rightarrow> m a)" for m a
  proof -
    obtain x where x: "sint (virtualAddr g) + f0 * 128 = int x" using v ct(2) zero_le_imp_eq_int [of "sint (virtualAddr g) + f0 * 128"] by auto
    then have j: "int a - f0 * 128 - sint (virtualAddr g) = int a - int x" by linarith
    show ?thesis unfolding x segment_byte_def Let_def j using True by (auto simp: file_write_def nat_diff_distrib')
  qed
  then show ?thesis using k' by auto
next
  case False
  then show ?thesis using ex loading_refl [OF ex] by (simp add: load_segment_def segment_byte_def)
qed

lemma Translate_contiguous:
  assumes "contiguous f0 pt" "0 \<le> f0" "f0 + int (length pt) \<le> NumPhysPages" "length pt = unat n"
    "\<forall>e \<in> set pt. \<not> readOnly e" "uint v < 128 * uint n"
  shows "\<exists>a'. AddrSpace_Translate \<lparr>space_table = pt, numPages = n\<rparr> v w = Inr (NoException, f0 * 128 + uint v, a')"
proof -
  have n: "int (length pt) = uint n" using assms(4) by simp
  have q: "0 \<le> uint v div 128" "uint v div 128 < uint n" using assms(6) by (simp_all add: div_less_iff_less_mult pos_imp_zdiv_nonneg_iff mult.commute)
  then have at: "arr_get pt (uint v div 128) = Inr (pt ! nat (uint v div 128))" "nat (uint v div 128) < length pt"
    using n by (auto simp: arr_get_ok nat_less_iff)
  have frame: "physicalPage (pt ! nat (uint v div 128)) = f0 + uint v div 128" "\<not> readOnly (pt ! nat (uint v div 128))"
    using assms(1,5) at(2) q(1) by (auto simp: contiguous_def)
  have e: "(f0 + uint v div 128) * 128 + uint v mod 128 = f0 * 128 + uint v" by (simp add: algebra_simps)
  have p: "0 \<le> f0 * 128 + uint v" "f0 * 128 + uint v < 16384" using assms(2,3,6) n by (auto simp: memory_consts)
  have pw: "uint (word_of_int ((f0 + uint v div 128) * 128 + uint v mod 128) :: 32 word) = f0 * 128 + uint v"
    unfolding e uint_word_of_int_eq by (rule take_bit_int_eq_self) (use p in auto)
  have ps: "uint (v div 128) = uint v div 128" "uint (v mod 128) = uint v mod 128"
    using page_split [of v] by (simp_all add: memory_consts)
  have lt: "v div 128 < n" using q ps by (simp add: word_less_def)
  have st: "arr_set pt (uint v div 128) x = Inr (pt[nat (uint v div 128) := x])" for x using q n by (simp add: arr_set_ok)
  have f: "f0 + uint v div 128 < 128" using q(2) n assms(3) by (simp add: memory_consts)
  show ?thesis
    using lt at(1) frame pw p f st by (simp add: AddrSpace_Translate_def memory_consts ps Let_def not_le)
qed

lemma contiguous_frames:
  assumes "contiguous f0 pt" "length pt = unat n"
  shows "frames \<lparr>space_table = pt, numPages = n\<rparr> = map (\<lambda>i. f0 + int i) [0..<length pt]"
  using assms by (auto simp: frames_def contiguous_def intro!: nth_equalityI)

lemma in_run: "x \<in> set (map (\<lambda>i. f0 + int i) [0..<n]) \<longleftrightarrow> f0 \<le> x \<and> x < f0 + int n"
proof
  assume "f0 \<le> x \<and> x < f0 + int n"
  then have "x = f0 + int (nat (x - f0))" "nat (x - f0) < n" by auto
  then show "x \<in> set (map (\<lambda>i. f0 + int i) [0..<n])" by (metis atLeast0LessThan imageI lessThan_iff list.set_map set_upt)
qed auto

lemma segment_byte_fits:
  assumes "segment_fits c n g" "segment_byte c g v = Some b"
  shows "0 \<le> v" "v < 128 * int n"
  using assms by (auto simp: segment_fits_def segment_byte_def Let_def simp del: length_drop split: if_splits)

lemma load_program_contiguous:
  assumes ex: "executable_of f c k" and b: "bitmap_128 (gPhysPageBitMap k)" "marked (gPhysPageBitMap k) = {0..<f0}" "0 \<le> f0"
    and n: "f0 + uint (pages_needed h) \<le> NumPhysPages"
    and fits: "segment_fits c (unat (pages_needed h)) (code_seg h)" "segment_fits c (unat (pages_needed h)) (initData h)"
  shows "\<exists>pt k'. load_program f h k = Inr (Some \<lparr>space_table = pt, numPages = pages_needed h\<rparr>, k') \<and> contiguous f0 pt \<and>
    length pt = unat (pages_needed h) \<and> (\<forall>e \<in> set pt. \<not> readOnly e) \<and>
    bitmap_128 (gPhysPageBitMap k') \<and> marked (gPhysPageBitMap k') = {0..<f0 + uint (pages_needed h)} \<and>
    (\<forall>a. mainMemory k' a = (if f0 * 128 \<le> int a \<and> int a < (f0 + uint (pages_needed h)) * 128
       then program_image c h (int a - f0 * 128) else mainMemory k a))"
proof -
  let ?n = "pages_needed h" and ?fs = "map (\<lambda>i. f0 + int i) [0..<unat (pages_needed h)]"
  let ?pt = "map2 fresh_entry [0..<unat ?n] ?fs"
  have free: "Bitmap_NumClear (gPhysPageBitMap k) = Inr (NumPhysPages - f0)"
    using bm.num_free_ok [of "gPhysPageBitMap k"] b by (simp add: bitmap_128_def)
  have un: "uint ?n \<le> NumPhysPages - f0" using n by simp
  then have "0 \<le> NumPhysPages - f0" by (rule order_trans [OF uint_nonnegative])
  then have f0: "f0 \<le> 128" by (simp add: memory_consts)
  have "uint (word_of_int (NumPhysPages - f0) :: 32 word) = NumPhysPages - f0"
    unfolding uint_word_of_int_eq by (rule take_bit_int_eq_self) (use f0 b(3) in \<open>auto simp: memory_consts\<close>)
  then have room: "\<not> word_of_int (NumPhysPages - f0) < ?n" using un by (simp add: word_less_def)
  have card: "int (card (marked (gPhysPageBitMap k))) + int (unat ?n) \<le> NumPhysPages" using b(2,3) n by simp
  obtain b' where b': "alloc_loop Bitmap_FindAndSet (unat ?n) (gPhysPageBitMap k) = Inr (?fs, b')" "bitmap_128 b'"
    "marked b' = {0..<f0 + uint ?n}" using alloc_first_fit [OF b, of "unat ?n"] n by auto
  let ?k1 = "k\<lparr>gPhysPageBitMap := b', mainMemory := clear_frames ?fs (mainMemory k)\<rparr>"
  have 1: "for_each new_page [0..<unat ?n] ([], k) = Inr (?pt, ?k1)"
    using new_pages_ok [OF b(1) card, of 0 "[]"] b'(1) by auto
  have ct: "contiguous f0 ?pt" "f0 + int (length ?pt) \<le> NumPhysPages" "length ?pt = unat ?n" using contiguous_entries n by auto
  have "executable_of f c ?k1" using ex by simp
  from load_segment_contiguous [OF this ct(1) b(3) ct(2), of "code_seg h"] fits(1) obtain k2 where 2:
    "load_segment f ?pt (code_seg h) ?k1 = Inr k2" "loading f ?k1 k2" "executable_of f c k2"
    "\<forall>a. mainMemory k2 a = (case segment_byte c (code_seg h) (int a - f0 * 128) of Some b \<Rightarrow> b | None \<Rightarrow> mainMemory ?k1 a)"
    unfolding ct(3) by blast
  from load_segment_contiguous [OF 2(3) ct(1) b(3) ct(2), of "initData h"] fits(2) obtain k3 where 3:
    "load_segment f ?pt (initData h) k2 = Inr k3" "loading f k2 k3"
    "\<forall>a. mainMemory k3 a = (case segment_byte c (initData h) (int a - f0 * 128) of Some b \<Rightarrow> b | None \<Rightarrow> mainMemory k2 a)"
    unfolding ct(3) by blast
  have l: "load_program f h k = Inr (Some \<lparr>space_table = ?pt, numPages = ?n\<rparr>, k3)"
    using n free room 1 2(1) 3(1) b(3) by (simp add: load_program_def Let_def)
  have bm': "gPhysPageBitMap k3 = b'" using 2(2) 3(2) by (auto simp: loading_def)
  have mem: "mainMemory k3 a = (if f0 * 128 \<le> int a \<and> int a < (f0 + uint ?n) * 128 then program_image c h (int a - f0 * 128) else mainMemory k a)" for a
  proof -
    let ?v = "int a - f0 * 128"
    have in_frames: "int a div PageSize \<in> set ?fs \<longleftrightarrow> f0 * 128 \<le> int a \<and> int a < (f0 + uint ?n) * 128"
      unfolding in_run by (auto simp: memory_consts)
    have out: "segment_byte c g ?v = None" if "\<not> (f0 * 128 \<le> int a \<and> int a < (f0 + uint ?n) * 128)" "segment_fits c (unat ?n) g" for g
      using that segment_byte_fits [OF that(2), of ?v] by (cases "segment_byte c g ?v") auto
    show ?thesis using 2(4) 3(3) in_frames out fits by (auto simp: program_image_def clear_frames_def split: option.split)
  qed
  have "\<forall>e \<in> set ?pt. \<not> readOnly e" by (auto simp: fresh_entry_def in_set_zip)
  then show ?thesis using l ct(1,3) bm' b' mem by blast
qed

section \<open>Frames stay disjoint\<close>

lemma store_bytes_keeps: "store_bytes a bs k = Inr k' \<Longrightarrow> \<exists>m. k' = k\<lparr>mainMemory := m\<rparr>"
  by (auto simp: store_bytes_def split: if_splits intro: exI [of _ "mainMemory k"])

lemma load_page_keeps:
  assumes "load_page f pt g i k = Inr k'"
  shows "gPhysPageBitMap k' = gPhysPageBitMap k \<and> spaces k' = spaces k"
  using assms by (auto simp: load_page_def with_host_def rbind_Inr_iff dest!: store_bytes_keeps)

lemma load_segment_keeps:
  assumes "load_segment f pt g k = Inr k'"
  shows "gPhysPageBitMap k' = gPhysPageBitMap k \<and> spaces k' = spaces k"
proof -
  have "for_each (load_page f pt g) is k = Inr k' \<Longrightarrow> gPhysPageBitMap k' = gPhysPageBitMap k \<and> spaces k' = spaces k" for "is" k
    by (induction "is" arbitrary: k) (auto simp: rbind_Inr_iff dest: load_page_keeps)
  then show ?thesis using assms by (auto simp: load_segment_def split: if_splits)
qed

lemma load_program_frames:
  assumes ok: "bitmap_128 (gPhysPageBitMap k)" and l: "load_program f h k = Inr (Some a, k')"
  shows "bitmap_128 (gPhysPageBitMap k')" "spaces k' = spaces k" "length (space_table a) = unat (numPages a)"
    "distinct (frames a)" "set (frames a) \<inter> marked (gPhysPageBitMap k) = {}"
    "marked (gPhysPageBitMap k') = marked (gPhysPageBitMap k) \<union> set (frames a)"
proof -
  let ?b = "gPhysPageBitMap k" and ?n = "pages_needed h"
  have c: "int (card (marked ?b)) \<le> NumPhysPages"
    using ok card_mono [of "{0..<NumPhysPages}" "marked ?b"] bm.inuse_range [of ?b] by (auto simp: bitmap_128_def memory_consts)
  have free: "Bitmap_NumClear ?b = Inr (NumPhysPages - int (card (marked ?b)))"
    using bm.num_free_ok [of ?b] ok by (simp add: bitmap_128_def)
  have "uint (word_of_int (NumPhysPages - int (card (marked ?b))) :: 32 word) = NumPhysPages - int (card (marked ?b))"
    unfolding uint_word_of_int_eq by (rule take_bit_int_eq_self) (use c in \<open>auto simp: memory_consts\<close>)
  moreover have "\<not> word_of_int (NumPhysPages - int (card (marked ?b))) < ?n"
    using l free by (auto simp: load_program_def Let_def rbind_Inr_iff split: if_splits)
  ultimately have room: "int (card (marked ?b)) + int (unat ?n) \<le> NumPhysPages" by (simp add: word_less_def)
  obtain fs b where p: "for_each new_page [0..<unat ?n] ([], k) =
      Inr (map2 fresh_entry [0..<unat ?n] fs, k\<lparr>gPhysPageBitMap := b, mainMemory := clear_frames fs (mainMemory k)\<rparr>)"
    "alloc_loop Bitmap_FindAndSet (unat ?n) ?b = Inr (fs, b)"
    using new_pages_ok [OF ok room, of 0 "[]"] by auto
  have fs: "length fs = unat ?n" "distinct fs" "set fs \<inter> marked ?b = {}" "bitmap_128 b" "marked b = marked ?b \<union> set fs"
    using bm.alloc_loop_ok [of ?b "unat ?n"] ok room p(2) by (auto simp: bitmap_128_def)
  have a: "a = \<lparr>space_table = map2 fresh_entry [0..<unat ?n] fs, numPages = ?n\<rparr>" and k': "gPhysPageBitMap k' = b" "spaces k' = spaces k"
    using l free p(1) by (auto simp: load_program_def Let_def rbind_Inr_iff split: if_splits dest!: load_segment_keeps)
  have "frames a = fs" using fs(1) unfolding a frames_def
    by (auto simp: fresh_entry_def intro: nth_equalityI)
  then show "bitmap_128 (gPhysPageBitMap k')" "spaces k' = spaces k" "length (space_table a) = unat (numPages a)"
    "distinct (frames a)" "set (frames a) \<inter> marked ?b = {}" "marked (gPhysPageBitMap k') = marked ?b \<union> set (frames a)"
    using fs k' a by auto
qed

lemma frames_okD:
  assumes "frames_ok k" "i < length (spaces k)" "spaces k ! i = Some s"
  shows "space_ok (gPhysPageBitMap k) s"
  using assms nth_mem [OF assms(2)] unfolding frames_ok_def by auto

lemma space_ok_mono: "space_ok b s \<Longrightarrow> marked b \<subseteq> marked b' \<Longrightarrow> space_ok b' s"
  by (auto simp: space_ok_def)

lemma frames_ok_add:
  assumes ok: "frames_ok k" and l: "load_program f h k = Inr (Some a, k')"
  shows "frames_ok (k'\<lparr>spaces := spaces k' @ [Some a]\<rparr>)"
proof -
  note n = load_program_frames [OF _ l] and b = ok [unfolded frames_ok_def, THEN conjunct1]
  have old: "space_ok (gPhysPageBitMap k) s" if "Some s \<in> set (spaces k)" for s using ok that by (auto simp: frames_ok_def)
  have "set (frames s) \<inter> set (frames a) = {}" if "Some s \<in> set (spaces k)" for s
    using old [OF that] n(5) [OF b] by (auto simp: space_ok_def)
  then have dis: "set (frames s) \<inter> set (frames a) = {}" "set (frames a) \<inter> set (frames s) = {}" if "spaces k ! i = Some s" "i < length (spaces k)" for i s
    using that nth_mem [of i "spaces k"] by auto
  show ?thesis unfolding frames_ok_def
  proof (intro conjI ballI allI impI)
    fix x s
    assume "x \<in> set (spaces (k'\<lparr>spaces := spaces k' @ [Some a]\<rparr>))" "x = Some s"
    then have "Some s \<in> set (spaces k) \<or> s = a" using n(2) [OF b] by auto
    then show "space_ok (gPhysPageBitMap (k'\<lparr>spaces := spaces k' @ [Some a]\<rparr>)) s"
      using space_ok_mono [OF old, of s "gPhysPageBitMap k'"] n(3,4,6) [OF b] by (auto simp: space_ok_def)
  next
    fix i j s t
    assume "i < length (spaces (k'\<lparr>spaces := spaces k' @ [Some a]\<rparr>))" "j < length (spaces (k'\<lparr>spaces := spaces k' @ [Some a]\<rparr>))"
      "i \<noteq> j" "spaces (k'\<lparr>spaces := spaces k' @ [Some a]\<rparr>) ! i = Some s" "spaces (k'\<lparr>spaces := spaces k' @ [Some a]\<rparr>) ! j = Some t"
    then show "set (frames s) \<inter> set (frames t) = {}"
      using dis ok n(2) [OF b] unfolding frames_ok_def by (auto simp: nth_append less_Suc_eq split: if_splits)
  qed (use n(1) [OF b] in simp)
qed

lemma clear_pages:
  assumes "m \<le> length t"
  shows "for_each (\<lambda>i b. rbind (arr_get t i) (\<lambda>e. Bitmap_Clear b (physicalPage e))) [0..int m - 1] b =
    for_each (\<lambda>f b. Bitmap_Clear b f) (map physicalPage (take m t)) b"
  using assms
proof (induction m)
  case (Suc m)
  have "[0..int (Suc m) - 1] = [0..int m - 1] @ [int m]" by (simp add: upto_rec2)
  then show ?case using Suc by (simp add: for_each_append take_Suc_conv_app_nth cong: rbind_cong)
qed simp

lemma AddrSpace_delete_ok:
  assumes ok: "frames_ok k" and i: "i < length (spaces k)" "spaces k ! i = Some s"
  shows "\<exists>k'. AddrSpace_delete i k = Inr k' \<and> frames_ok k' \<and>
    marked (gPhysPageBitMap k') = marked (gPhysPageBitMap k) - set (frames s) \<and> mainMemory k' = mainMemory k"
proof -
  let ?b = "gPhysPageBitMap k"
  have b: "bitmap_128 ?b" using ok by (simp add: frames_ok_def)
  have s: "length (space_table s) = unat (numPages s)" "set (frames s) \<subseteq> marked ?b" using frames_okD [OF ok i] by (auto simp: space_ok_def)
  have "set (frames s) \<subseteq> {0..<numBits ?b}" using s(2) bm.inuse_range [of ?b] by auto
  with bm.release_all_ok [of ?b "frames s"] b obtain b' where b':
    "for_each (\<lambda>f b. Bitmap_Clear b f) (frames s) ?b = Inr b'" "bitmap_128 b'" "marked b' = marked ?b - set (frames s)"
    by (auto simp: bitmap_128_def)
  let ?k = "k\<lparr>gPhysPageBitMap := b', spaces := (spaces k)[i := None]\<rparr>"
  have d: "AddrSpace_delete i k = Inr ?k"
    using i b'(1) clear_pages [of "unat (numPages s)" "space_table s" ?b] s(1) by (simp add: AddrSpace_delete_def frames_def)
  have live: "spaces ?k ! j = Some t \<longleftrightarrow> j \<noteq> i \<and> spaces k ! j = Some t" if "j < length (spaces k)" for j t
    using i(1) that by (auto simp: nth_list_update)
  have "space_ok b' t" if "j < length (spaces k)" "j \<noteq> i" "spaces k ! j = Some t" for j t
  proof -
    have "set (frames t) \<inter> set (frames s) = {}" using ok i that unfolding frames_ok_def by blast
    then show ?thesis using frames_okD [OF ok that(1,3)] b'(3) by (auto simp: space_ok_def)
  qed
  then have "\<forall>x \<in> set (spaces ?k). \<forall>t. x = Some t \<longrightarrow> space_ok b' t" using live by (auto simp: in_set_conv_nth)
  moreover have "set (frames t) \<inter> set (frames u) = {}"
    if "j < length (spaces k)" "l < length (spaces k)" "j \<noteq> l" "spaces ?k ! j = Some t" "spaces ?k ! l = Some u" for j l t u
    using ok that live [OF that(1), of t] live [OF that(2), of u] unfolding frames_ok_def by blast
  ultimately have "frames_ok ?k" using b'(2) by (simp add: frames_ok_def)
  then show ?thesis using d b'(3) by simp
qed

section \<open>Properties\<close>


text \<open>A program of one page of code and one word of data, on a machine with one program in the first
  frame.\<close>

definition demo_file :: "byte list" where
  "demo_file = concat (map u32_bytes [NOFFMAGIC, 0, 52, 8, 8, 60, 4, 0, 0, 0, 0, 0, 0]) @ [1, 2, 3, 4, 5, 6, 7, 8] @ [9, 10, 11, 12]"

definition demo_bitmap :: "int list \<Rightarrow> Bitmap" where
  "demo_bitmap fs = (case rbind (Bitmap_new 128) (for_each (\<lambda>i b. Bitmap_Mark b i) fs) of Inr b \<Rightarrow> b | Inl _ \<Rightarrow> \<lparr>numBits = 0, numWords = 0, bmap = []\<rparr>)"

definition exec_host :: Host where
  "exec_host = \<lparr>names = [''a'' \<mapsto> 0], contents = (\<lambda>_. [])(0 := demo_file),
     descriptors = [None, None, None, Some \<lparr>inode = 0, offset = 0, writable = True\<rparr>],
     next_inode = 1, can_create = (\<lambda>_. True)\<rparr>"

definition demo_kernel :: "int list \<Rightarrow> Kernel" where
  "demo_kernel fs = Machine.extend demo_machine
     (Kernel.fields [Some 1] [\<lparr>thread_name = ''main'', processID = 0, userRegisters = [], space = None\<rparr>] 0 [] []
        (FileSystem_new (replicate FILE_MAX None) (replicate FILE_MAX 0) exec_host) 0 (demo_bitmap fs)
        \<lparr>bm = demo_bitmap [], slots = []\<rparr> \<lparr>pcb = [], psize = 0, bmsem = 0\<rparr> []
        \<lparr>joinsem = 0, exitsem = 0, multex = 0, exitcode = 0, numwait = 0, pcb_thread = None, filename = [], parentID = 0, pcb_processID = 0\<rparr>
        \<lparr>space_table = [], numPages = 0\<rparr>)"

definition demo_executable :: OpenFile where
  "demo_executable = OpenFile_new 3"

lemma demo_kernel_sel [simp]:
  "fileSystem (demo_kernel fs) = FileSystem_new (replicate FILE_MAX None) (replicate FILE_MAX 0) exec_host"
  "gPhysPageBitMap (demo_kernel fs) = demo_bitmap fs" "mainMemory (demo_kernel fs) = mainMemory demo_machine" "spaces (demo_kernel fs) = []"
  by (simp_all add: demo_kernel_def Machine.defs Kernel.defs)

lemma demo_executable_of: "executable_of demo_executable demo_file (demo_kernel fs)"
  by (simp add: executable_of_def demo_executable_def FileSystem_new_def exec_host_def descriptor_def)

lemma demo_bitmap_ok:
  assumes "set fs \<subseteq> {0..<128}"
  shows "bitmap_128 (demo_bitmap fs)" "marked (demo_bitmap fs) = set fs"
proof -
  obtain b where b: "Bitmap_new 128 = Inr b" "bitmap_ok b" "numBits b = 128" "marked b = {}"
    using Bitmap_new_ok [of 128] by auto
  then show "bitmap_128 (demo_bitmap fs)" "marked (demo_bitmap fs) = set fs"
    using mark_all_ok [OF b(2), of fs] assms by (auto simp: demo_bitmap_def bitmap_128_def memory_consts)
qed

lemma demo_header:
  "pages_needed (NoffHeader_of demo_file) = 9"
  "segment_fits demo_file 9 (code_seg (NoffHeader_of demo_file))" "segment_fits demo_file 9 (initData (NoffHeader_of demo_file))"
  by code_simp+



definition demo_space :: AddrSpace where
  "demo_space = \<lparr>space_table = [fresh_entry 0 0, fresh_entry 1 2], numPages = 2\<rparr>"

definition demo_two :: Kernel where
  "demo_two = (demo_kernel [0, 1, 2])\<lparr>spaces := [Some demo_space, Some \<lparr>space_table = [fresh_entry 0 1], numPages = 1\<rparr>]\<rparr>"

lemma demo_frames: "frames demo_space = [0, 2]" "frames \<lparr>space_table = [fresh_entry 0 1], numPages = 1\<rparr> = [1]"
  by (simp_all add: frames_def demo_space_def fresh_entry_def)

lemma demo_two_ok: "frames_ok demo_two"
  using demo_bitmap_ok [of "[0, 1, 2]"] demo_frames
  by (auto simp: frames_ok_def demo_two_def space_ok_def demo_space_def less_Suc_eq)




end
