(* ===== verification/Processes.thy ===== *)
theory Processes
  imports Address_Space
begin

text \<open>
  Processes of user programs: the process control block of \<open>threads/pcb.cc\<close>, the process table of
  \<open>threads/ptable.cc\<close> and the members of \<open>Thread\<close> they use.  \<open>joinsem\<close> is raised by an exiting process
  and awaited by its parent, \<open>exitsem\<close> the other way round; \<open>multex\<close> and \<open>bmsem\<close> are mutual exclusion.
  A pointer to a control block is the index of its slot in the table.
\<close>

section \<open>Threads of processes\<close>

definition new_Thread :: "string \<Rightarrow> ('a Kernel_scheme, nat) call" where
  "new_Thread threadName k =
     Ret (length (threads k))
       (k\<lparr>threads := threads k @ [\<lparr>thread_name = threadName, processID = 0, userRegisters = replicate NumTotalRegs 0, space = None\<rparr>]\<rparr>)"

definition FreeSpace :: "nat \<Rightarrow> 'a Kernel_scheme \<Rightarrow> 'a Kernel_scheme res" where
  "FreeSpace t k = rbind (arr_get (threads k) (int t)) (\<lambda>th. case space th of None \<Rightarrow> Inr k | Some a \<Rightarrow> AddrSpace_delete a k)"

text \<open>\<open>Finish\<close> never returns.\<close>

definition Finish :: "nat \<Rightarrow> ('a Kernel_scheme, unit) call" where
  "Finish t k = (if t = currentThread k then Finished k else Fault AssertionFailed)"

definition Fork :: "nat \<Rightarrow> int \<Rightarrow> ('a Kernel_scheme, unit) call" where
  "Fork t arg = cthen (change (\<lambda>k. Inr (k\<lparr>readyList := readyList k @ [(t, arg)]\<rparr>))) preempt"

definition SaveUserState :: "'a Kernel_scheme \<Rightarrow> 'a Kernel_scheme res" where
  "SaveUserState k =
     rbind (for_each (\<lambda>i rs. rbind (ReadRegister i k) (\<lambda>v. Inr (rs @ [v]))) [0..int NumTotalRegs - 1] []) (\<lambda>rs.
     Inr (k\<lparr>threads := (threads k)[currentThread k := (this_thread k)\<lparr>userRegisters := rs\<rparr>]\<rparr>))"

definition RestoreUserState :: "'a Kernel_scheme \<Rightarrow> 'a Kernel_scheme res" where
  "RestoreUserState k =
     for_each (\<lambda>i k. rbind (arr_get (userRegisters (this_thread k)) i) (\<lambda>v. WriteRegister i v k)) [0..int NumTotalRegs - 1] k"

section \<open>Process control blocks\<close>

definition pcb_at :: "int \<Rightarrow> 'a Kernel_scheme \<Rightarrow> PCB res" where
  "pcb_at i k = rbind (arr_get (pcb (pTab k)) i) (\<lambda>p. case p of None \<Rightarrow> Inl NullPointer | Some p \<Rightarrow> Inr p)"

definition set_pcb :: "int \<Rightarrow> PCB option \<Rightarrow> 'a Kernel_scheme \<Rightarrow> 'a Kernel_scheme res" where
  "set_pcb i p k = rbind (arr_set (pcb (pTab k)) i p) (\<lambda>ps. Inr (k\<lparr>pTab := (pTab k)\<lparr>pcb := ps\<rparr>\<rparr>))"

definition update_pcb :: "int \<Rightarrow> (PCB \<Rightarrow> PCB) \<Rightarrow> ('a Kernel_scheme, unit) call" where
  "update_pcb i f = change (\<lambda>k. rbind (pcb_at i k) (\<lambda>p. set_pcb i (Some (f p)) k))"

definition PCB_new :: "('a Kernel_scheme, PCB) call" where
  "PCB_new =
     cbind (new_Semaphore 0) (\<lambda>j. cbind (new_Semaphore 0) (\<lambda>e. cbind (new_Semaphore 1) (\<lambda>m.
     ask (\<lambda>k. (junk_PCB k)\<lparr>pcb_processID := my_pid k, joinsem := j, exitsem := e, multex := m\<rparr>))))"

text \<open>The last statement of the destructor frees a member array with \<open>delete[]\<close>.\<close>

definition PCB_delete :: "int \<Rightarrow> ('a Kernel_scheme, unit) call" where
  "PCB_delete i =
     cbind (inspect (pcb_at i)) (\<lambda>p.
     cthen (delete_Semaphore (joinsem p))
     (cthen (delete_Semaphore (exitsem p))
     (cthen (delete_Semaphore (multex p))
     (cthen (case pcb_thread p of None \<Rightarrow> creturn () | Some t \<Rightarrow> cthen (change (FreeSpace t)) (Finish t))
     (\<lambda>k. Fault Dangling)))))"

definition GetFileName :: "int \<Rightarrow> 'a Kernel_scheme \<Rightarrow> string res" where
  "GetFileName i k = rbind (pcb_at i k) (\<lambda>p. Inr (filename p))"

text \<open>The name is copied into an array of 128 characters.\<close>

definition SetFileName :: "int \<Rightarrow> string \<Rightarrow> ('a Kernel_scheme, unit) call" where
  "SetFileName i fn =
     (if length fn < 128 then update_pcb i (\<lambda>p. p\<lparr>filename := fn\<rparr>) else (\<lambda>k. Fault OutOfRange))"

definition StartProcess_2 :: "byte list \<Rightarrow> int \<Rightarrow> ('a Kernel_scheme, unit) call" where
  "StartProcess_2 junk i =
     cbind (inspect (GetFileName i)) (\<lambda>fileName.
     cbind (AddrSpace_new junk fileName) (\<lambda>a. change (Execute a)))"

definition PCB_Exec :: "int \<Rightarrow> string \<Rightarrow> int \<Rightarrow> ('a Kernel_scheme, int) call" where
  "PCB_Exec i fn n =
     cbind (inspect (pcb_at i)) (\<lambda>p.
     cthen (sem_P (multex p))
     (cbind (new_Thread fn) (\<lambda>t.
     cthen (update_pcb i (\<lambda>p. p\<lparr>pcb_thread := Some t\<rparr>))
     (cthen (change (\<lambda>k. Inr (k\<lparr>threads := (threads k)[t := (threads k ! t)\<lparr>processID := n\<rparr>]\<rparr>)))
     (cbind (ask my_pid) (\<lambda>own.
     cthen (update_pcb i (\<lambda>p. p\<lparr>parentID := own\<rparr>))
     (cthen (Fork t n)
     (cthen (sem_V (multex p))
     (creturn n)))))))))"

definition JoinWait :: "int \<Rightarrow> ('a Kernel_scheme, unit) call" where
  "JoinWait i = cbind (inspect (pcb_at i)) (\<lambda>p. sem_P (joinsem p))"

definition ExitWait :: "int \<Rightarrow> ('a Kernel_scheme, unit) call" where
  "ExitWait i = cbind (inspect (pcb_at i)) (\<lambda>p. sem_P (exitsem p))"

definition JoinRelease :: "int \<Rightarrow> ('a Kernel_scheme, unit) call" where
  "JoinRelease i = cbind (inspect (pcb_at i)) (\<lambda>p. sem_V (joinsem p))"

definition ExitRelease :: "int \<Rightarrow> ('a Kernel_scheme, unit) call" where
  "ExitRelease i = cbind (inspect (pcb_at i)) (\<lambda>p. sem_V (exitsem p))"

definition IncNumWait :: "int \<Rightarrow> ('a Kernel_scheme, unit) call" where
  "IncNumWait i = cbind (inspect (pcb_at i)) (\<lambda>p.
     cthen (sem_P (multex p)) (cthen (update_pcb i (\<lambda>p. p\<lparr>numwait := numwait p + 1\<rparr>)) (sem_V (multex p))))"

definition DecNumWait :: "int \<Rightarrow> ('a Kernel_scheme, unit) call" where
  "DecNumWait i = cbind (inspect (pcb_at i)) (\<lambda>p.
     cthen (sem_P (multex p))
     (cthen (update_pcb i (\<lambda>p. if numwait p > 0 then p\<lparr>numwait := numwait p - 1\<rparr> else p)) (sem_V (multex p))))"

definition SetExitCode :: "int \<Rightarrow> int \<Rightarrow> ('a Kernel_scheme, unit) call" where
  "SetExitCode i ec = update_pcb i (\<lambda>p. p\<lparr>exitcode := ec\<rparr>)"

definition GetExitCode :: "int \<Rightarrow> ('a Kernel_scheme, int) call" where
  "GetExitCode i = inspect (\<lambda>k. rbind (pcb_at i k) (\<lambda>p. Inr (exitcode p)))"

section \<open>The process table\<close>

text \<open>\<open>junk\<close> is the array of pointers before the constructor runs.\<close>

definition PTable_new :: "PCB option list \<Rightarrow> int \<Rightarrow> ('a Kernel_scheme, unit) call" where
  "PTable_new junk sz =
     cbind (inspect (\<lambda>k. for_each (\<lambda>i a. arr_set a i None) [0..sz - 1] junk)) (\<lambda>a.
     cbind (new_Semaphore 1) (\<lambda>b.
     cthen (change (\<lambda>k. Inr (k\<lparr>pTab := \<lparr>pcb = a, psize = sz, bmsem = b\<rparr>\<rparr>)))
     (cbind PCB_new (\<lambda>p. change (set_pcb 0 (Some (p\<lparr>parentID := - 1\<rparr>)))))))"

text \<open>The test in the destructor is the wrong way round: only null pointers are deleted.\<close>

definition PTable_delete :: "('a Kernel_scheme, unit) call" where
  "PTable_delete =
     cbind (ask (\<lambda>k. psize (pTab k))) (\<lambda>n.
     cthen (for_each_call (\<lambda>i. cbind (inspect (\<lambda>k. arr_get (pcb (pTab k)) i)) (\<lambda>p. creturn ())) [0..n - 1])
     (cbind (ask (\<lambda>k. bmsem (pTab k))) delete_Semaphore))"

fun free_slot :: "int list \<Rightarrow> PCB option list \<Rightarrow> int res" where
  "free_slot [] ps = Inr (- 1)"
| "free_slot (i # is) ps = rbind (arr_get ps i) (\<lambda>p. if p = None then Inr i else free_slot is ps)"

definition GetFreeSlot :: "'a Kernel_scheme \<Rightarrow> int res" where
  "GetFreeSlot k = free_slot [0..psize (pTab k) - 1] (pcb (pTab k))"

definition IsExist :: "int \<Rightarrow> 'a Kernel_scheme \<Rightarrow> bool res" where
  "IsExist i k = rbind (arr_get (pcb (pTab k)) i) (\<lambda>p. Inr (p \<noteq> None))"

definition PTable_Remove :: "int \<Rightarrow> ('a Kernel_scheme, unit) call" where
  "PTable_Remove i =
     cbind (inspect (IsExist i)) (\<lambda>ex.
     if ex then cthen (PCB_delete i) (change (set_pcb i None)) else creturn ())"

definition Renew_files :: "int \<Rightarrow> ('a Kernel_scheme, unit) call" where
  "Renew_files i = change (\<lambda>k. rbind (FileSystem_Renew i (fileSystem k)) (\<lambda>fs. Inr (k\<lparr>fileSystem := fs\<rparr>)))"

definition ExecUpdate :: "string \<Rightarrow> ('a Kernel_scheme, int) call" where
  "ExecUpdate nm =
     cbind (ask (\<lambda>k. bmsem (pTab k))) (\<lambda>b.
     cthen (sem_P b)
     (cbind (ask (\<lambda>k. thread_name (this_thread k))) (\<lambda>own.
     if nm = own then cthen (sem_V b) (creturn (- 1))
     else
       cbind (inspect GetFreeSlot) (\<lambda>index.
       if index < 0 then cthen (sem_V b) (creturn (- 1))
       else
         cbind PCB_new (\<lambda>p.
         cthen (change (set_pcb index (Some p)))
         (cthen (SetFileName index nm)
         (cthen (Renew_files index)
         (cbind (ask my_pid) (\<lambda>own.
         cthen (update_pcb index (\<lambda>p. p\<lparr>parentID := own\<rparr>))
         (cbind (PCB_Exec index nm index) (\<lambda>r.
         cthen (sem_V b) (creturn r))))))))))))"

definition ExitUpdate :: "int \<Rightarrow> ('a Kernel_scheme, int) call" where
  "ExitUpdate ec =
     cbind (ask my_pid) (\<lambda>i.
     if i = 0 then cthen (change (\<lambda>k. FreeSpace (currentThread k) k)) (\<lambda>k. Fault Halted)
     else
       cbind (inspect (IsExist i)) (\<lambda>ex.
       if \<not> ex then creturn (- 1)
       else
         cthen (SetExitCode i ec)
         (cbind (inspect (pcb_at i)) (\<lambda>p.
         cthen (DecNumWait (parentID p))
         (cthen (JoinRelease i)
         (cthen (ExitWait i)
         (cthen (PTable_Remove i)
         (creturn ec))))))))"

definition JoinUpdate :: "int \<Rightarrow> ('a Kernel_scheme, int) call" where
  "JoinUpdate i =
     cbind (inspect (\<lambda>k.
       if i < 0 \<or> i \<ge> psize (pTab k) then Inr None
       else rbind (arr_get (pcb (pTab k)) i) (\<lambda>p. case p of
           None \<Rightarrow> Inr None
         | Some p \<Rightarrow> Inr (if parentID p \<noteq> my_pid k then None else Some (parentID p))))) (\<lambda>parent.
     case parent of
       None \<Rightarrow> creturn (- 1)
     | Some parent \<Rightarrow>
         cthen (IncNumWait parent)
         (cthen (JoinWait i)
         (cbind (GetExitCode i) (\<lambda>ec.
         cthen (ExitRelease i) (creturn ec)))))"
section \<open>Join and Exit\<close>

text \<open>The state as the two calls read it.\<close>

lemma sem_value_set_sem:
  assumes "sem_value p k = Inr w"
  shows "sem_value q (set_sem p v k) = (if q = p then case v of None \<Rightarrow> Inl Dangling | Some v \<Rightarrow> Inr v else sem_value q k)"
proof -
  have "p < length (semaphores k)" using assms by (simp add: sem_value_def arr_get_def split: if_splits)
  then show ?thesis by (cases "q = p") (simp_all add: sem_value_def set_sem_def arr_get_def)
qed

lemma set_sem_sel [simp]:
  "pTab (set_sem p v k) = pTab k" "threads (set_sem p v k) = threads k" "currentThread (set_sem p v k) = currentThread k"
  "spaces (set_sem p v k) = spaces k" "gPhysPageBitMap (set_sem p v k) = gPhysPageBitMap k" "pcb_at i (set_sem p v k) = pcb_at i k"
  by (simp_all add: set_sem_def pcb_at_def)

definition with_pcb :: "int \<Rightarrow> PCB \<Rightarrow> 'a Kernel_scheme \<Rightarrow> 'a Kernel_scheme" where
  "with_pcb i p k = k\<lparr>pTab := (pTab k)\<lparr>pcb := (pcb (pTab k))[nat i := Some p]\<rparr>\<rparr>"

lemma update_pcb_ok:
  assumes "pcb_at i k = Inr p"
  shows "rbind (pcb_at i k) (\<lambda>p. set_pcb i (Some (f p)) k) = Inr (with_pcb i (f p) k)"
proof -
  have "0 \<le> i \<and> i < int (length (pcb (pTab k)))" using assms by (simp add: pcb_at_def arr_get_def split: if_splits)
  then show ?thesis using assms by (simp add: set_pcb_def with_pcb_def arr_set_def)
qed

lemma with_pcb_sel [simp]:
  "threads (with_pcb i p k) = threads k" "currentThread (with_pcb i p k) = currentThread k" "spaces (with_pcb i p k) = spaces k"
  "gPhysPageBitMap (with_pcb i p k) = gPhysPageBitMap k" "sem_value s (with_pcb i p k) = sem_value s k" "psize (pTab (with_pcb i p k)) = psize (pTab k)"
  by (simp_all add: with_pcb_def sem_value_def)

lemma pcb_at_with_pcb:
  assumes "pcb_at i k = Inr q"
  shows "pcb_at j (with_pcb i p k) = (if j = i then Inr p else pcb_at j k)"
proof -
  have "0 \<le> i \<and> i < int (length (pcb (pTab k)))" using assms by (simp add: pcb_at_def arr_get_def split: if_splits)
  then show ?thesis by (cases "j = i") (auto simp: pcb_at_def with_pcb_def arr_get_def nth_list_update nat_eq_iff)
qed

text \<open>The family: process \<open>i\<close> with control block \<open>p\<close> run by thread \<open>tc\<close>, its parent with control block \<open>q\<close> run by
  thread \<open>tp\<close>.  The semaphores are told apart by their pointers.\<close>

record family =
  child_id :: int
  child_pcb :: PCB
  child_thread :: nat
  parent_pcb :: PCB
  parent_thread :: nat
  exit_code :: int

definition same_but_count :: "PCB \<Rightarrow> PCB \<Rightarrow> bool" where
  "same_but_count p q \<longleftrightarrow> q = p\<lparr>numwait := numwait q\<rparr>"

definition same_but_code :: "PCB \<Rightarrow> PCB \<Rightarrow> bool" where
  "same_but_code p q \<longleftrightarrow> q = p\<lparr>exitcode := exitcode q\<rparr>"

definition can_free :: "nat \<Rightarrow> 'a Kernel_scheme \<Rightarrow> bool" where
  "can_free t k = (\<not> isl (FreeSpace t k))"

text \<open>What the two calls find in the table, when the parent has come to point \<open>a\<close> of \<open>Join\<close> and the child to
  point \<open>b\<close> of \<open>Exit\<close>: the values of the semaphores, and the code that the child leaves.\<close>

definition family_ok :: "family \<Rightarrow> nat \<Rightarrow> nat \<Rightarrow> 'a Kernel_scheme \<Rightarrow> bool" where
  "family_ok F a b k \<longleftrightarrow>
     (let i = child_id F; p = child_pcb F; q = parent_pcb F; bit = (\<lambda>c. if c then 1 else 0) in
      0 < i \<and> i < psize (pTab k) \<and> parentID p \<noteq> i \<and> pcb_thread p = Some (child_thread F) \<and>
      distinct [joinsem p, exitsem p, multex p, multex q] \<and>
      processID (threads k ! parent_thread F) = parentID p \<and> processID (threads k ! child_thread F) = i \<and>
      (\<exists>p'. pcb_at i k = Inr p' \<and> same_but_code p p' \<and> (0 < b \<longrightarrow> exitcode p' = exit_code F)) \<and>
      (\<exists>q'. pcb_at (parentID p) k = Inr q' \<and> same_but_count q q') \<and>
      sem_value (multex q) k = Inr (1 - bit (a = 2) - bit (b = 2)) \<and> (a = 2 \<longrightarrow> b \<noteq> 2) \<and>
      (4 < a \<longrightarrow> 3 < b) \<and> (5 < b \<longrightarrow> 5 < a) \<and> a \<le> 7 \<and> b \<le> 7 \<and>
      (if b < 7 then sem_value (joinsem p) k = Inr (bit (3 < b) - bit (4 < a)) \<and>
                     sem_value (exitsem p) k = Inr (bit (5 < a) - bit (5 < b)) \<and>
                     (\<exists>v. sem_value (multex p) k = Inr v) \<and> can_free (child_thread F) k
       else sem_value (joinsem p) k = Inl Dangling))"

text \<open>The points: where each call gives up the processor, and how it goes on.\<close>

abbreviation join_rest :: "int \<Rightarrow> ('a Kernel_scheme, int) call" where
  "join_rest i \<equiv> cbind (GetExitCode i) (\<lambda>ec. cthen (ExitRelease i) (creturn ec))"

abbreviation count_and_unlock :: "int \<Rightarrow> nat \<Rightarrow> (PCB \<Rightarrow> PCB) \<Rightarrow> ('a Kernel_scheme, 'b) call \<Rightarrow> ('a Kernel_scheme, 'b) call" where
  "count_and_unlock i m f c \<equiv> cthen (update_pcb i f) (cthen (sem_V m) c)"

abbreviation inc_wait :: "PCB \<Rightarrow> PCB" where
  "inc_wait p \<equiv> p\<lparr>numwait := numwait p + 1\<rparr>"

abbreviation dec_wait :: "PCB \<Rightarrow> PCB" where
  "dec_wait p \<equiv> if numwait p > 0 then p\<lparr>numwait := numwait p - 1\<rparr> else p"

definition join_points :: "family \<Rightarrow> (('a Kernel_scheme \<Rightarrow> bool) \<times> ('a Kernel_scheme, int) call) list" where
  "join_points F =
     (let i = child_id F; m = multex (parent_pcb F); j = joinsem (child_pcb F); pp = parentID (child_pcb F);
          wait = cthen (JoinWait i) (join_rest i); counted = count_and_unlock pp m inc_wait wait in
      [(\<lambda>_. True, JoinUpdate i), (nonzero m, took m counted), (\<lambda>_. True, counted), (\<lambda>_. True, wait),
       (nonzero j, took j (join_rest i)), (\<lambda>_. True, join_rest i), (\<lambda>_. True, creturn (exit_code F))])"

definition exit_points :: "family \<Rightarrow> (('a Kernel_scheme \<Rightarrow> bool) \<times> ('a Kernel_scheme, int) call) list" where
  "exit_points F =
     (let i = child_id F; ec = exit_code F; m = multex (parent_pcb F); e = exitsem (child_pcb F); pp = parentID (child_pcb F);
          gone = cthen (PTable_Remove i) (creturn ec); wait = cthen (ExitWait i) gone;
          counted = count_and_unlock pp m dec_wait (cthen (JoinRelease i) wait) in
      [(\<lambda>_. True, ExitUpdate ec), (nonzero m, took m counted), (\<lambda>_. True, counted), (\<lambda>_. True, cthen (JoinRelease i) wait),
       (\<lambda>_. True, wait), (nonzero e, took e gone), (\<lambda>_. True, gone)])"

primrec stopped_at :: "('s, 'a) run \<Rightarrow> 's option" where
  "stopped_at (Ret a s) = Some s"
| "stopped_at (Fault e) = None"
| "stopped_at (Await c s k) = Some s"
| "stopped_at (Finished s) = Some s"

lemmas family_defs = family_ok_def Let_def same_but_code_def same_but_count_def
lemmas point_defs = join_points_def exit_points_def Let_def

lemma same_sel:
  "same_but_code p q \<Longrightarrow> joinsem q = joinsem p \<and> exitsem q = exitsem p \<and> multex q = multex p \<and> parentID q = parentID p \<and> pcb_thread q = pcb_thread p"
  "same_but_count p q \<Longrightarrow> multex q = multex p"
  by (cases p; cases q; simp add: same_but_code_def same_but_count_def)+

lemma family_okD:
  assumes "family_ok F a b k"
  obtains p' q' where "pcb_at (child_id F) k = Inr p'" "same_but_code (child_pcb F) p'" "0 < b \<longrightarrow> exitcode p' = exit_code F"
    "joinsem p' = joinsem (child_pcb F)" "exitsem p' = exitsem (child_pcb F)" "multex p' = multex (child_pcb F)"
    "parentID p' = parentID (child_pcb F)" "pcb_thread p' = Some (child_thread F)"
    "pcb_at (parentID (child_pcb F)) k = Inr q'" "same_but_count (parent_pcb F) q'" "multex q' = multex (parent_pcb F)"
proof -
  obtain p' q' where x: "pcb_at (child_id F) k = Inr p'" "same_but_code (child_pcb F) p'" "0 < b \<longrightarrow> exitcode p' = exit_code F"
    "pcb_at (parentID (child_pcb F)) k = Inr q'" "same_but_count (parent_pcb F) q'" "pcb_thread (child_pcb F) = Some (child_thread F)"
    using assms unfolding family_ok_def Let_def by blast
  then show thesis using that [OF x(1-3)] same_sel(1) [OF x(2)] same_sel(2) [OF x(5)] by simp
qed

lemma pcb_at_get: "pcb_at i k = Inr p \<Longrightarrow> arr_get (pcb (pTab k)) i = Inr (Some p)"
  by (auto simp: pcb_at_def rbind_Inr_iff split: option.splits)

text \<open>The invariant looks at the state through a few observations only.\<close>

lemma family_ok_cong:
  assumes "family_ok F a b k" "psize (pTab k') = psize (pTab k)"
    "\<forall>t \<in> {parent_thread F, child_thread F}. processID (threads k' ! t) = processID (threads k ! t)"
    "pcb_at (child_id F) k' = pcb_at (child_id F) k" "pcb_at (parentID (child_pcb F)) k' = pcb_at (parentID (child_pcb F)) k"
    "\<forall>s \<in> {joinsem (child_pcb F), exitsem (child_pcb F), multex (child_pcb F), multex (parent_pcb F)}. sem_value s k' = sem_value s k"
    "can_free (child_thread F) k' = can_free (child_thread F) k"
  shows "family_ok F a b k'"
  using assms by (simp add: family_ok_def Let_def)

lemma can_free_cong:
  assumes "threads k' = threads k" "spaces k' = spaces k" "gPhysPageBitMap k' = gPhysPageBitMap k"
  shows "can_free t k' = can_free t k"
proof -
  have b: "isl (rbind r f) = (case r of Inl _ \<Rightarrow> True | Inr x \<Rightarrow> isl (f x))" for r :: "fault + 'x" and f :: "'x \<Rightarrow> fault + 'y"
    by (cases r) auto
  have "isl (AddrSpace_delete a k') = isl (AddrSpace_delete a k)" for a
    using assms by (simp add: AddrSpace_delete_def b split: sum.split option.split)
  then show ?thesis using assms(1) by (simp add: can_free_def FreeSpace_def b split: sum.split option.split)
qed

lemma can_free_updates [simp]:
  "can_free t (set_sem p v k) = can_free t k" "can_free t (with_pcb i q k) = can_free t k"
  by (rule can_free_cong; simp)+

lemma with_pcb_same:
  "same_but_code p p' \<Longrightarrow> same_but_code p (p'\<lparr>exitcode := c\<rparr>)" "same_but_count q q' \<Longrightarrow> same_but_count q (q'\<lparr>numwait := n\<rparr>)"
  by (cases p; cases p'; simp add: same_but_code_def) (cases q; cases q'; simp add: same_but_count_def)

lemma family_ok_count:
  assumes "family_ok F a b k" "pcb_at (parentID (child_pcb F)) k = Inr q'" "same_but_count (parent_pcb F) q''"
  shows "family_ok F a b (with_pcb (parentID (child_pcb F)) q'' k)"
  using assms by (simp add: family_ok_def Let_def pcb_at_with_pcb)

text \<open>The steps of \<open>Join\<close>.\<close>

definition step_to :: "(('s \<Rightarrow> bool) \<times> ('s, int) call) list \<Rightarrow> nat \<Rightarrow> 's \<Rightarrow> 's \<Rightarrow> bool" where
  "step_to ps n k k' \<longleftrightarrow> snd (ps ! n) k = Await (fst (ps ! Suc n)) k' (snd (ps ! Suc n))"

lemma join_0:
  assumes ok: "family_ok F 0 b k" and t: "currentThread k = parent_thread F"
  shows "step_to (join_points F) 0 k k" "family_ok F 1 b k"
proof (rule family_okD [OF ok], goal_cases)
  case (1 p' q')
  then show ?case using ok t pcb_at_get [OF 1(1)]
    by (simp add: step_to_def point_defs JoinUpdate_def IncNumWait_def call_assoc sem_P_then family_ok_def)
qed (use ok in \<open>simp add: family_ok_def Let_def\<close>)

lemma join_1:
  assumes ok: "family_ok F 1 b k" and c: "nonzero (multex (parent_pcb F)) k"
  shows "step_to (join_points F) 1 k (set_sem (multex (parent_pcb F)) (Some 0) k)"
    "family_ok F 2 b (set_sem (multex (parent_pcb F)) (Some 0) k)"
proof -
  have b: "b \<noteq> 2" "sem_value (multex (parent_pcb F)) k = Inr 1" using ok c by (auto simp: family_ok_def Let_def nonzero_def split: if_splits)
  then show "step_to (join_points F) 1 k (set_sem (multex (parent_pcb F)) (Some 0) k)"
    by (simp add: step_to_def point_defs took_def)
  show "family_ok F 2 b (set_sem (multex (parent_pcb F)) (Some 0) k)"
    using ok b by (auto simp: family_ok_def Let_def sem_value_set_sem [OF b(2)])
qed

lemma join_2:
  assumes ok: "family_ok F 2 b k"
  shows "\<exists>k'. step_to (join_points F) 2 k k' \<and> family_ok F 3 b k' \<and> currentThread k' = currentThread k"
proof (rule family_okD [OF ok])
  fix p' q'
  assume q: "pcb_at (parentID (child_pcb F)) k = Inr q'" "same_but_count (parent_pcb F) q'"
  let ?m = "multex (parent_pcb F)" and ?k = "with_pcb (parentID (child_pcb F)) (inc_wait q') k"
  have v: "sem_value ?m ?k = Inr 0" using ok by (auto simp: family_ok_def Let_def split: if_splits)
  have ok': "family_ok F 2 b ?k" using family_ok_count [OF ok q(1)] with_pcb_same(2) [OF q(2)] by simp
  have "step_to (join_points F) 2 k (set_sem ?m (Some 1) ?k)"
    using update_pcb_ok [OF q(1), of inc_wait] v by (simp add: step_to_def point_defs update_pcb_def sem_V_then)
  moreover have "family_ok F 3 b (set_sem ?m (Some 1) ?k)"
    using ok' by (auto simp: family_ok_def Let_def sem_value_set_sem [OF v])
  ultimately show ?thesis by (intro exI [of _ "set_sem ?m (Some 1) ?k"]) simp
qed

lemma join_3:
  assumes ok: "family_ok F 3 b k"
  shows "step_to (join_points F) 3 k k" "family_ok F 4 b k"
proof (rule family_okD [OF ok], goal_cases)
  case (1 p' q')
  have "\<exists>v. sem_value (joinsem (child_pcb F)) k = Inr v" using ok by (auto simp: family_ok_def Let_def split: if_splits)
  with 1 show ?case by (auto simp: step_to_def point_defs JoinWait_def call_assoc sem_P_then)
qed (use ok in \<open>simp add: family_ok_def Let_def\<close>)

lemma join_4:
  assumes ok: "family_ok F 4 b k" and c: "nonzero (joinsem (child_pcb F)) k"
  shows "step_to (join_points F) 4 k (set_sem (joinsem (child_pcb F)) (Some 0) k)"
    "family_ok F 5 b (set_sem (joinsem (child_pcb F)) (Some 0) k)"
proof -
  have b: "3 < b" "sem_value (joinsem (child_pcb F)) k = Inr 1" using ok c by (auto simp: family_ok_def Let_def nonzero_def split: if_splits)
  then show "step_to (join_points F) 4 k (set_sem (joinsem (child_pcb F)) (Some 0) k)"
    by (simp add: step_to_def point_defs took_def)
  show "family_ok F 5 b (set_sem (joinsem (child_pcb F)) (Some 0) k)"
    using ok b by (auto simp: family_ok_def Let_def sem_value_set_sem [OF b(2)])
qed

lemma join_5:
  assumes ok: "family_ok F 5 b k"
  shows "step_to (join_points F) 5 k (set_sem (exitsem (child_pcb F)) (Some 1) k)"
    "family_ok F 6 b (set_sem (exitsem (child_pcb F)) (Some 1) k)"
proof -
  have b: "3 < b" "b < 6" "sem_value (exitsem (child_pcb F)) k = Inr 0" using ok by (auto simp: family_ok_def Let_def split: if_splits)
  show "step_to (join_points F) 5 k (set_sem (exitsem (child_pcb F)) (Some 1) k)"
  proof (rule family_okD [OF ok], goal_cases)
    case (1 p' q')
    then show ?case using b by (simp add: step_to_def point_defs GetExitCode_def ExitRelease_def call_assoc sem_V_then)
  qed
  show "family_ok F 6 b (set_sem (exitsem (child_pcb F)) (Some 1) k)"
    using ok b by (auto simp: family_ok_def Let_def sem_value_set_sem [OF b(3)])
qed
text \<open>The steps of \<open>Exit\<close>.\<close>

lemma family_ok_code:
  assumes "family_ok F a 0 k" "pcb_at (child_id F) k = Inr p'" "same_but_code (child_pcb F) p'"
  shows "family_ok F a 1 (with_pcb (child_id F) (p'\<lparr>exitcode := exit_code F\<rparr>) k)"
  using assms(1) with_pcb_same(1) [OF assms(3), of "exit_code F"] by (simp add: family_ok_def Let_def pcb_at_with_pcb [OF assms(2)])

lemma exit_0:
  assumes ok: "family_ok F a 0 k" and t: "currentThread k = child_thread F"
  shows "\<exists>k'. step_to (exit_points F) 0 k k' \<and> family_ok F a 1 k' \<and> currentThread k' = currentThread k"
proof (rule family_okD [OF ok])
  fix p' q'
  assume p: "pcb_at (child_id F) k = Inr p'" "same_but_code (child_pcb F) p'" "parentID p' = parentID (child_pcb F)"
    and q: "pcb_at (parentID (child_pcb F)) k = Inr q'" "multex q' = multex (parent_pcb F)"
  let ?k = "with_pcb (child_id F) (p'\<lparr>exitcode := exit_code F\<rparr>) k"
  have i: "processID (threads k ! child_thread F) = child_id F" "child_id F \<noteq> 0" "parentID (child_pcb F) \<noteq> child_id F"
    "\<exists>v. sem_value (multex (parent_pcb F)) k = Inr v" using ok by (auto simp: family_ok_def Let_def)
  have pp: "pcb_at (child_id F) ?k = Inr (p'\<lparr>exitcode := exit_code F\<rparr>)" "pcb_at (parentID (child_pcb F)) ?k = Inr q'"
    using i(3) q(1) by (simp_all add: pcb_at_with_pcb [OF p(1)])
  have "step_to (exit_points F) 0 k ?k"
    using i t p(3) q(2) pp pcb_at_get [OF p(1)] update_pcb_ok [OF p(1), of "\<lambda>p. p\<lparr>exitcode := exit_code F\<rparr>"]
    by (auto simp: step_to_def point_defs ExitUpdate_def IsExist_def SetExitCode_def update_pcb_def DecNumWait_def call_assoc sem_P_then)
  then show ?thesis using family_ok_code [OF ok p(1,2)] by (intro exI [of _ ?k]) simp
qed

lemma exit_1:
  assumes ok: "family_ok F a 1 k" and c: "nonzero (multex (parent_pcb F)) k"
  shows "step_to (exit_points F) 1 k (set_sem (multex (parent_pcb F)) (Some 0) k)"
    "family_ok F a 2 (set_sem (multex (parent_pcb F)) (Some 0) k)"
proof -
  have b: "a \<noteq> 2" "sem_value (multex (parent_pcb F)) k = Inr 1" using ok c by (auto simp: family_ok_def Let_def nonzero_def split: if_splits)
  then show "step_to (exit_points F) 1 k (set_sem (multex (parent_pcb F)) (Some 0) k)"
    by (simp add: step_to_def point_defs took_def)
  show "family_ok F a 2 (set_sem (multex (parent_pcb F)) (Some 0) k)"
    using ok b by (auto simp: family_ok_def Let_def sem_value_set_sem [OF b(2)])
qed

lemma exit_2:
  assumes ok: "family_ok F a 2 k"
  shows "\<exists>k'. step_to (exit_points F) 2 k k' \<and> family_ok F a 3 k' \<and> currentThread k' = currentThread k"
proof (rule family_okD [OF ok])
  fix p' q'
  assume q: "pcb_at (parentID (child_pcb F)) k = Inr q'" "same_but_count (parent_pcb F) q'"
  let ?m = "multex (parent_pcb F)" and ?k = "with_pcb (parentID (child_pcb F)) (dec_wait q') k"
  have v: "sem_value ?m ?k = Inr 0" using ok by (auto simp: family_ok_def Let_def split: if_splits)
  have "same_but_count (parent_pcb F) (dec_wait q')" using with_pcb_same(2) [OF q(2)] q(2) by simp
  then have ok': "family_ok F a 2 ?k" using family_ok_count [OF ok q(1)] by blast
  have "step_to (exit_points F) 2 k (set_sem ?m (Some 1) ?k)"
    using update_pcb_ok [OF q(1), of dec_wait] v by (simp add: step_to_def point_defs update_pcb_def sem_V_then)
  moreover have "family_ok F a 3 (set_sem ?m (Some 1) ?k)"
    using ok' by (auto simp: family_ok_def Let_def sem_value_set_sem [OF v])
  ultimately show ?thesis by (intro exI [of _ "set_sem ?m (Some 1) ?k"]) simp
qed

lemma exit_3:
  assumes ok: "family_ok F a 3 k"
  shows "step_to (exit_points F) 3 k (set_sem (joinsem (child_pcb F)) (Some 1) k)"
    "family_ok F a 4 (set_sem (joinsem (child_pcb F)) (Some 1) k)"
proof -
  have b: "\<not> 4 < a" "sem_value (joinsem (child_pcb F)) k = Inr 0" using ok by (auto simp: family_ok_def Let_def split: if_splits)
  show "step_to (exit_points F) 3 k (set_sem (joinsem (child_pcb F)) (Some 1) k)"
  proof (rule family_okD [OF ok], goal_cases)
    case (1 p' q')
    then show ?case using b by (simp add: step_to_def point_defs JoinRelease_def call_assoc sem_V_then)
  qed
  show "family_ok F a 4 (set_sem (joinsem (child_pcb F)) (Some 1) k)"
    using ok b by (auto simp: family_ok_def Let_def sem_value_set_sem [OF b(2)])
qed

lemma exit_4:
  assumes ok: "family_ok F a 4 k"
  shows "step_to (exit_points F) 4 k k" "family_ok F a 5 k"
proof (rule family_okD [OF ok], goal_cases)
  case (1 p' q')
  have "\<exists>v. sem_value (exitsem (child_pcb F)) k = Inr v" using ok by (auto simp: family_ok_def Let_def split: if_splits)
  with 1 show ?case by (auto simp: step_to_def point_defs ExitWait_def call_assoc sem_P_then)
qed (use ok in \<open>simp add: family_ok_def Let_def\<close>)

lemma exit_5:
  assumes ok: "family_ok F a 5 k" and c: "nonzero (exitsem (child_pcb F)) k"
  shows "step_to (exit_points F) 5 k (set_sem (exitsem (child_pcb F)) (Some 0) k)"
    "family_ok F a 6 (set_sem (exitsem (child_pcb F)) (Some 0) k)"
proof -
  have b: "5 < a" "sem_value (exitsem (child_pcb F)) k = Inr 1" using ok c by (auto simp: family_ok_def Let_def nonzero_def split: if_splits)
  then show "step_to (exit_points F) 5 k (set_sem (exitsem (child_pcb F)) (Some 0) k)"
    by (simp add: step_to_def point_defs took_def)
  show "family_ok F a 6 (set_sem (exitsem (child_pcb F)) (Some 0) k)"
    using ok b by (auto simp: family_ok_def Let_def sem_value_set_sem [OF b(2)])
qed

lemma FreeSpace_keeps:
  assumes "FreeSpace t k = Inr k'"
  shows "pTab k' = pTab k" "threads k' = threads k" "semaphores k' = semaphores k" "currentThread k' = currentThread k"
  using assms by (auto simp: FreeSpace_def AddrSpace_delete_def rbind_Inr_iff split: option.splits)

lemma Finish_then: "cthen (Finish t) c k = (if t = currentThread k then Finished k else Fault AssertionFailed)"
  by (simp add: cthen_def cbind_def Finish_def)

lemma exit_6:
  assumes ok: "family_ok F a 6 k" and t: "currentThread k = child_thread F"
  shows "\<exists>k'. snd (exit_points F ! 6) k = Finished k' \<and> family_ok F a 7 k' \<and> currentThread k' = currentThread k"
proof (rule family_okD [OF ok])
  fix p' q'
  assume p: "pcb_at (child_id F) k = Inr p'" "joinsem p' = joinsem (child_pcb F)" "exitsem p' = exitsem (child_pcb F)"
    "multex p' = multex (child_pcb F)" "pcb_thread p' = Some (child_thread F)"
  let ?p = "child_pcb F"
  let ?k1 = "set_sem (joinsem ?p) None k" and ?k2 = "set_sem (exitsem ?p) None (set_sem (joinsem ?p) None k)"
  let ?k3 = "set_sem (multex ?p) None (set_sem (exitsem ?p) None (set_sem (joinsem ?p) None k))"
  have d: "joinsem ?p \<noteq> exitsem ?p" "joinsem ?p \<noteq> multex ?p" "exitsem ?p \<noteq> multex ?p" "multex (parent_pcb F) \<notin> {joinsem ?p, exitsem ?p, multex ?p}"
    using ok by (auto simp: family_ok_def Let_def)
  obtain u v w where s: "sem_value (joinsem ?p) k = Inr u" "sem_value (exitsem ?p) ?k1 = Inr v" "sem_value (multex ?p) ?k2 = Inr w"
  proof -
    obtain u v w where s: "sem_value (joinsem ?p) k = Inr u" "sem_value (exitsem ?p) k = Inr v" "sem_value (multex ?p) k = Inr w"
      using ok by (auto simp: family_ok_def Let_def split: if_splits)
    have "sem_value (exitsem ?p) ?k1 = Inr v" using d s by (simp add: sem_value_set_sem [OF s(1)])
    moreover from this have "sem_value (multex ?p) ?k2 = Inr w" using d s by (simp add: sem_value_set_sem [OF s(1)] sem_value_set_sem [OF \<open>sem_value (exitsem ?p) ?k1 = Inr v\<close>])
    ultimately show thesis using that s(1) by blast
  qed
  note sv = sem_value_set_sem [OF s(1)] sem_value_set_sem [OF s(2)] sem_value_set_sem [OF s(3)]
  have "can_free (child_thread F) ?k3" using ok by (auto simp: family_ok_def Let_def)
  then obtain k' where k': "FreeSpace (child_thread F) ?k3 = Inr k'" by (auto simp: can_free_def isl_def) (metis sum.exhaust)
  note same = FreeSpace_keeps [OF k']
  have "snd (exit_points F ! 6) k = Finished k'"
    using p s k' same(4) t pcb_at_get [OF p(1)]
    by (simp add: point_defs PTable_Remove_def IsExist_def PCB_delete_def delete_Semaphore_def call_assoc set_sem_def [symmetric] Finish_then)
  moreover have "family_ok F a 7 k'"
  proof -
    have sem: "sem_value x k' = sem_value x ?k3" for x using same(3) by (simp add: sem_value_def)
    have at: "pcb_at x k' = pcb_at x k" for x using same(1) by (simp add: pcb_at_def)
    show ?thesis using ok d same by (simp add: family_ok_def Let_def at sem sv)
  qed
  ultimately show ?thesis using same(4) by (intro exI [of _ k']) simp
qed
definition join_at :: "family \<Rightarrow> nat \<Rightarrow> ('a Kernel_scheme, int) run \<Rightarrow> bool" where
  "join_at F n r \<longleftrightarrow> (if n = 7 then \<exists>s. r = Ret (exit_code F) s
     else \<exists>s. r = Await (fst (join_points F ! n)) s (snd (join_points F ! n)))"

definition exit_at :: "family \<Rightarrow> nat \<Rightarrow> ('a Kernel_scheme, int) run \<Rightarrow> bool" where
  "exit_at F n r \<longleftrightarrow> (if n = 7 then \<exists>s. r = Finished s
     else \<exists>s. r = Await (fst (exit_points F ! n)) s (snd (exit_points F ! n)))"

lemma step_to_at: "step_to (join_points F) n k k' \<Longrightarrow> n < 6 \<Longrightarrow> join_at F (Suc n) (snd (join_points F ! n) k) \<and> stopped_at (snd (join_points F ! n) k) = Some k'"
  "step_to (exit_points F) n k k' \<Longrightarrow> n < 6 \<Longrightarrow> exit_at F (Suc n) (snd (exit_points F ! n) k) \<and> stopped_at (snd (exit_points F ! n) k) = Some k'"
  by (auto simp: step_to_def join_at_def exit_at_def)

lemma less_7: "n < 7 \<Longrightarrow> n = 0 \<or> n = 1 \<or> n = 2 \<or> n = 3 \<or> n = 4 \<or> n = 5 \<or> n = (6 :: nat)"
  by auto

lemma join_step:
  assumes ok: "family_ok F a b k" and n: "a < 7" "currentThread k = parent_thread F" and c: "fst (join_points F ! a) k"
  shows "\<exists>k'. stopped_at (snd (join_points F ! a) k) = Some k' \<and> join_at F (Suc a) (snd (join_points F ! a) k) \<and> family_ok F (Suc a) b k'"
proof -
  have six: "family_ok F 7 b k" if "family_ok F 6 b k" using that unfolding family_ok_def Let_def by (auto split: if_splits)
  have "snd (join_points F ! 6) k = Ret (exit_code F) k" by (simp add: point_defs creturn_def)
  then have last: "a = 6 \<Longrightarrow> ?thesis" using ok six by (simp add: join_at_def)
  have at: "fst (join_points F ! 1) k = nonzero (multex (parent_pcb F)) k" "fst (join_points F ! 4) k = nonzero (joinsem (child_pcb F)) k"
    by (simp_all add: point_defs)
  have "\<exists>k'. step_to (join_points F) a k k' \<and> family_ok F (Suc a) b k'" if "a < 6"
    using less_7 [OF n(1)] that
  proof (elim disjE)
    assume v: "a = 0"
    show ?thesis using join_0 [OF ok [unfolded v] n(2)] unfolding v by auto
  next
    assume v: "a = 1"
    have "nonzero (multex (parent_pcb F)) k" using c at unfolding v by simp
    then show ?thesis using join_1 [OF ok [unfolded v]] unfolding v by (auto simp: numeral_eq_Suc)
  next
    assume v: "a = 2"
    show ?thesis using join_2 [OF ok [unfolded v]] unfolding v by (auto simp: numeral_eq_Suc)
  next
    assume v: "a = 3"
    show ?thesis using join_3 [OF ok [unfolded v]] unfolding v by (auto simp: numeral_eq_Suc)
  next
    assume v: "a = 4"
    have "nonzero (joinsem (child_pcb F)) k" using c at unfolding v by simp
    then show ?thesis using join_4 [OF ok [unfolded v]] unfolding v by (auto simp: numeral_eq_Suc)
  next
    assume v: "a = 5"
    show ?thesis using join_5 [OF ok [unfolded v]] unfolding v by (auto simp: numeral_eq_Suc)
  qed simp
  then show ?thesis using last step_to_at(1) [of F a k] n(1) by (cases "a = 6") auto
qed

lemma exit_step:
  assumes ok: "family_ok F a b k" and n: "b < 7" "currentThread k = child_thread F" and c: "fst (exit_points F ! b) k"
  shows "\<exists>k'. stopped_at (snd (exit_points F ! b) k) = Some k' \<and> exit_at F (Suc b) (snd (exit_points F ! b) k) \<and> family_ok F a (Suc b) k'"
proof -
  have last: "b = 6 \<Longrightarrow> ?thesis" using exit_6 [of F a k] ok n(2) by (auto simp: exit_at_def)
  have at: "fst (exit_points F ! 1) k = nonzero (multex (parent_pcb F)) k" "fst (exit_points F ! 5) k = nonzero (exitsem (child_pcb F)) k"
    by (simp_all add: point_defs)
  have "\<exists>k'. step_to (exit_points F) b k k' \<and> family_ok F a (Suc b) k'" if "b < 6"
    using less_7 [OF n(1)] that
  proof (elim disjE)
    assume v: "b = 0"
    show ?thesis using exit_0 [OF ok [unfolded v] n(2)] unfolding v by auto
  next
    assume v: "b = 1"
    have "nonzero (multex (parent_pcb F)) k" using c at unfolding v by simp
    then show ?thesis using exit_1 [OF ok [unfolded v]] unfolding v by (auto simp: numeral_eq_Suc)
  next
    assume v: "b = 2"
    show ?thesis using exit_2 [OF ok [unfolded v]] unfolding v by (auto simp: numeral_eq_Suc)
  next
    assume v: "b = 3"
    show ?thesis using exit_3 [OF ok [unfolded v]] unfolding v by (auto simp: numeral_eq_Suc)
  next
    assume v: "b = 4"
    show ?thesis using exit_4 [OF ok [unfolded v]] unfolding v by (auto simp: numeral_eq_Suc)
  next
    assume v: "b = 5"
    have "nonzero (exitsem (child_pcb F)) k" using c at unfolding v by simp
    then show ?thesis using exit_5 [OF ok [unfolded v]] unfolding v by (auto simp: numeral_eq_Suc)
  qed simp
  then show ?thesis using last step_to_at(2) [of F b k] n(1) by (cases "b = 6") auto
qed

text \<open>Until both are done, one of the two can go on.\<close>

lemma someone_ready:
  assumes "family_ok F a b k" "a < 7 \<or> b < 7"
  shows "a < 7 \<and> fst (join_points F ! a) k \<or> b < 7 \<and> fst (exit_points F ! b) k"
proof (rule ccontr)
  assume no: "\<not> ?thesis"
  have j: "fst (join_points F ! n) k" if "n < 7" "n \<noteq> 1" "n \<noteq> 4" for n using less_7 [OF that(1)] that(2,3) by (auto simp: point_defs)
  have e: "fst (exit_points F ! n) k" if "n < 7" "n \<noteq> 1" "n \<noteq> 5" for n using less_7 [OF that(1)] that(2,3) by (auto simp: point_defs)
  have "a \<le> 7" "b \<le> 7" using assms(1) by (auto simp: family_ok_def Let_def)
  then have "a = 1 \<or> a = 4 \<or> a = 7" "b = 1 \<or> b = 5 \<or> b = 7" using no j [of a] e [of b] by (auto simp: le_less)
  then show False using no assms by (auto simp: family_ok_def Let_def point_defs nonzero_def)
qed

text \<open>A step of the two calls: others have run, one of the two threads gets the processor and goes on from
  where it waited.  Others leave the two control blocks and their semaphores alone.\<close>

definition elsewhere :: "family \<Rightarrow> 'a Kernel_scheme \<Rightarrow> 'a Kernel_scheme \<Rightarrow> bool" where
  "elsewhere F k k' \<longleftrightarrow> psize (pTab k') = psize (pTab k) \<and>
     (\<forall>t \<in> {parent_thread F, child_thread F}. processID (threads k' ! t) = processID (threads k ! t)) \<and>
     pcb_at (child_id F) k' = pcb_at (child_id F) k \<and> pcb_at (parentID (child_pcb F)) k' = pcb_at (parentID (child_pcb F)) k \<and>
     (\<forall>s \<in> {joinsem (child_pcb F), exitsem (child_pcb F), multex (child_pcb F), multex (parent_pcb F)}. sem_value s k' = sem_value s k) \<and>
     can_free (child_thread F) k' = can_free (child_thread F) k"

lemma elsewhere_ok: "family_ok F a b k \<Longrightarrow> elsewhere F k k' \<Longrightarrow> family_ok F a b k'"
  unfolding elsewhere_def by (elim conjE, rule family_ok_cong) simp_all

type_synonym 'a calls = "'a Kernel_scheme \<times> ('a Kernel_scheme, int) run \<times> ('a Kernel_scheme, int) run"

inductive own_step :: "family \<Rightarrow> 'a calls \<Rightarrow> 'a calls \<Rightarrow> bool" for F where
  parent: "elsewhere F k k1 \<Longrightarrow> currentThread k1 = parent_thread F \<Longrightarrow> c k1 \<Longrightarrow>
    own_step F (k, Await c s kont, rc) (case stopped_at (kont k1) of None \<Rightarrow> k1 | Some k' \<Rightarrow> k', kont k1, rc)"
| child: "elsewhere F k k1 \<Longrightarrow> currentThread k1 = child_thread F \<Longrightarrow> c k1 \<Longrightarrow>
    own_step F (k, rp, Await c s kont) (case stopped_at (kont k1) of None \<Rightarrow> k1 | Some k' \<Rightarrow> k', rp, kont k1)"

definition both_call :: "family \<Rightarrow> 'a Kernel_scheme \<Rightarrow> 'a calls" where
  "both_call F k = (k, Await (\<lambda>_. True) k (JoinUpdate (child_id F)), Await (\<lambda>_. True) k (ExitUpdate (exit_code F)))"

definition calls_ok :: "family \<Rightarrow> nat \<Rightarrow> 'a calls \<Rightarrow> bool" where
  "calls_ok F n = (\<lambda>(k, rp, rc). \<exists>a b. n = a + b \<and> join_at F a rp \<and> exit_at F b rc \<and> family_ok F a b k)"

lemma own_step_ok:
  assumes "own_step F S S'" "calls_ok F n S"
  shows "calls_ok F (Suc n) S'"
  using assms
proof (induction rule: own_step.induct)
  case (parent k k1 c s kont rc)
  then obtain a b where ab: "n = a + b" "join_at F a (Await c s kont)" "exit_at F b rc" "family_ok F a b k" by (auto simp: calls_ok_def)
  have a: "a < 7" "c = fst (join_points F ! a)" "kont = snd (join_points F ! a)" using ab(2,4) by (auto simp: join_at_def family_ok_def Let_def split: if_splits)
  have "family_ok F a b k1" using elsewhere_ok [OF ab(4) parent(1)] .
  from join_step [OF this a(1) parent(2)] parent(3) a obtain k' where
    "stopped_at (kont k1) = Some k'" "join_at F (Suc a) (kont k1)" "family_ok F (Suc a) b k'" by auto
  then show ?case using ab(1,3) unfolding calls_ok_def prod.case by - (rule exI [of _ "Suc a"], rule exI [of _ b], simp)
next
  case (child k k1 c rp s kont)
  then obtain a b where ab: "n = a + b" "join_at F a rp" "exit_at F b (Await c s kont)" "family_ok F a b k" by (auto simp: calls_ok_def)
  have b: "b < 7" "c = fst (exit_points F ! b)" "kont = snd (exit_points F ! b)" using ab(3,4) by (auto simp: exit_at_def family_ok_def Let_def split: if_splits)
  have "family_ok F a b k1" using elsewhere_ok [OF ab(4) child(1)] .
  from exit_step [OF this b(1) child(2)] child(3) b obtain k' where
    "stopped_at (kont k1) = Some k'" "exit_at F (Suc b) (kont k1)" "family_ok F a (Suc b) k'" by auto
  then show ?case using ab(1,2) unfolding calls_ok_def prod.case by - (rule exI [of _ a], rule exI [of _ "Suc b"], simp)
qed

lemma both_call_ok:
  assumes "family_ok F 0 0 k0" "(own_step F ^^ n) (both_call F k0) S"
  shows "calls_ok F n S"
  using assms(2)
proof (induction n arbitrary: S)
  case 0
  then show ?case using assms(1) by (auto simp: both_call_def calls_ok_def join_at_def exit_at_def point_defs intro!: exI [of _ 0])
next
  case (Suc n)
  then obtain T where "(own_step F ^^ n) (both_call F k0) T" "own_step F T S" by auto
  then show ?case using own_step_ok Suc.IH by blast
qed

lemma calls_progress:
  assumes "calls_ok F n S" "n < 14"
  shows "\<exists>S'. own_step F S S'"
proof -
  obtain k rp rc a b where S: "S = (k, rp, rc)" "n = a + b" "join_at F a rp" "exit_at F b rc" "family_ok F a b k"
    using assms(1) by (cases S) (auto simp: calls_ok_def)
  have el: "elsewhere F k (k\<lparr>currentThread := t\<rparr>)" for t
    using can_free_cong [of "k\<lparr>currentThread := t\<rparr>" k "child_thread F"] by (simp add: elsewhere_def pcb_at_def sem_value_def)
  have ok: "family_ok F a b (k\<lparr>currentThread := t\<rparr>)" for t by (rule elsewhere_ok [OF S(5) el])
  have nz: "nonzero p (k\<lparr>currentThread := t\<rparr>) = nonzero p k" for p t by (simp add: nonzero_def sem_value_def)
  have "a < 7 \<or> b < 7" using assms(2) S(2) by auto
  from someone_ready [OF S(5) this] show ?thesis
  proof (elim disjE conjE)
    assume a: "a < 7" "fst (join_points F ! a) k"
    have "fst (join_points F ! a) (k\<lparr>currentThread := parent_thread F\<rparr>)" using less_7 [OF a(1)] a(2) by (auto simp: point_defs nz)
    then show ?thesis using S(3) a(1) own_step.parent [OF el] unfolding S(1) by (fastforce simp: join_at_def)
  next
    assume b: "b < 7" "fst (exit_points F ! b) k"
    have "fst (exit_points F ! b) (k\<lparr>currentThread := child_thread F\<rparr>)" using less_7 [OF b(1)] b(2) by (auto simp: point_defs nz)
    then show ?thesis using S(4) b(1) own_step.child [OF el] unfolding S(1) by (fastforce simp: exit_at_def)
  qed
qed

lemma calls_reach:
  assumes "family_ok F 0 0 k0" "n \<le> 14"
  shows "\<exists>S. (own_step F ^^ n) (both_call F k0) S"
  using assms(2)
proof (induction n)
  case (Suc n)
  then obtain S where S: "(own_step F ^^ n) (both_call F k0) S" by auto
  from calls_progress [OF both_call_ok [OF assms(1) S]] Suc.prems S show ?case by auto
qed (simp add: both_call_def)

section \<open>Properties\<close>

text \<open>C28. \<open>Join\<close> returns the exit code of the child.  When a parent calls \<open>Join\<close> and its child \<open>Exit\<close>, in every
  interleaving of the two with each other and with threads that leave their control blocks alone,
  no assertion fails and no deleted semaphore is used, one of the two can always go on, after 14
  steps both are done, the child's thread has ended, and what \<open>Join\<close> returned is the code that the
  child passed to \<open>Exit\<close>.\<close>

theorem join_returns_exit_code:
  assumes "family_ok F 0 0 k0" "(own_step F ^^ n) (both_call F k0) (k, rp, rc)"
  shows "n \<le> 14 \<and> (\<forall>e. rp \<noteq> Fault e \<and> rc \<noteq> Fault e) \<and> (n < 14 \<longrightarrow> (\<exists>S'. own_step F (k, rp, rc) S')) \<and>
    (\<forall>r s. rp = Ret r s \<longrightarrow> r = exit_code F) \<and> (n = 14 \<longrightarrow> (\<exists>s t. rp = Ret (exit_code F) s \<and> rc = Finished t))"
proof -
  have ok: "calls_ok F n (k, rp, rc)" by (rule both_call_ok [OF assms])
  then obtain a b where ab: "n = a + b" "join_at F a rp" "exit_at F b rc" "a \<le> 7" "b \<le> 7"
    by (auto simp: calls_ok_def family_ok_def Let_def)
  have "\<forall>e. rp \<noteq> Fault e \<and> rc \<noteq> Fault e" using ab by (auto simp: join_at_def exit_at_def split: if_splits)
  moreover have "\<forall>r s. rp = Ret r s \<longrightarrow> r = exit_code F" using ab by (auto simp: join_at_def split: if_splits)
  moreover have "\<exists>s t. rp = Ret (exit_code F) s \<and> rc = Finished t" if "n = 14"
  proof -
    have "a = 7" "b = 7" using that ab by auto
    then show ?thesis using ab by (auto simp: join_at_def exit_at_def)
  qed
  ultimately show ?thesis using calls_progress [OF ok] ab by auto
qed

text \<open>A parent with process id 0 and a child with process id 1.\<close>

definition demo_pcb :: "nat \<Rightarrow> PCB" where
  "demo_pcb n = \<lparr>joinsem = 3 * n + 1, exitsem = 3 * n + 2, multex = 3 * n + 3, exitcode = 0, numwait = 0,
     pcb_thread = (if n = 0 then None else Some n), filename = ''a'', parentID = (if n = 0 then - 1 else 0), pcb_processID = 0\<rparr>"

definition demo_processes :: Kernel where
  "demo_processes = (demo_kernel [])\<lparr>semaphores := [Some 1, Some 0, Some 0, Some 1, Some 0, Some 0, Some 1, Some 1],
     threads := map (\<lambda>n. \<lparr>thread_name = ''a'', processID = int n, userRegisters = [], space = None\<rparr>) [0, 1],
     pTab := \<lparr>pcb = [Some (demo_pcb 0), Some (demo_pcb 1)] @ replicate 8 None, psize = 10, bmsem = 7\<rparr>\<rparr>"

definition demo_family :: family where
  "demo_family = \<lparr>child_id = 1, child_pcb = demo_pcb 1, child_thread = 1, parent_pcb = demo_pcb 0, parent_thread = 0, exit_code = 42\<rparr>"

lemma demo_family_ok: "family_ok demo_family 0 0 demo_processes"
  by (simp add: family_ok_def Let_def demo_family_def demo_processes_def demo_pcb_def pcb_at_def sem_value_def arr_get_def
      same_but_code_def same_but_count_def can_free_def FreeSpace_def)

theorem join_returns_exit_code_witness:
  "\<exists>k s t. (own_step demo_family ^^ 14) (both_call demo_family demo_processes) (k, Ret 42 s, Finished t)"
proof -
  obtain k rp rc where S: "(own_step demo_family ^^ 14) (both_call demo_family demo_processes) (k, rp, rc)"
    using calls_reach [OF demo_family_ok, of 14] by auto
  have "\<exists>s t. rp = Ret (exit_code demo_family) s \<and> rc = Finished t"
    using join_returns_exit_code [OF demo_family_ok S] by blast
  then show ?thesis using S by (auto simp: demo_family_def)
qed

text \<open>C29. A process that has been joined never gives back its slot: \<open>Remove\<close> ends the thread inside the
  destructor of the control block, so the pointer in the table is never cleared.  The slot is not free
  for another process, and a second \<open>Join\<close> of the parent passes all tests and then waits on a
  semaphore that has been deleted.\<close>

theorem exited_process_keeps_slot:
  assumes "family_ok F 0 0 k0" "(own_step F ^^ 14) (both_call F k0) (k, rp, rc)"
  shows "(\<exists>p. pcb_at (child_id F) k = Inr p \<and> parentID p = processID (threads k ! parent_thread F)) \<and>
    GetFreeSlot k \<noteq> Inr (child_id F) \<and> JoinWait (child_id F) k = Fault Dangling"
proof -
  obtain a b where ab: "14 = a + b" "join_at F a rp" "exit_at F b rc" "family_ok F a b k"
    using both_call_ok [OF assms] by (auto simp: calls_ok_def)
  then have "b = 7" by (auto simp: family_ok_def Let_def)
  then have d: "sem_value (joinsem (child_pcb F)) k = Inl Dangling" "processID (threads k ! parent_thread F) = parentID (child_pcb F)" "0 < child_id F"
    using ab(4) by (auto simp: family_ok_def Let_def)
  obtain p where p: "pcb_at (child_id F) k = Inr p" "joinsem p = joinsem (child_pcb F)" "parentID p = parentID (child_pcb F)"
    by (rule family_okD [OF ab(4)])
  have f: "free_slot is ps = Inr i \<Longrightarrow> 0 \<le> i \<Longrightarrow> arr_get ps i = Inr None" for "is" ps i
    by (induction "is") (auto simp: rbind_Inr_iff split: if_splits)
  have "GetFreeSlot k \<noteq> Inr (child_id F)" using f [of _ "pcb (pTab k)" "child_id F"] pcb_at_get [OF p(1)] d(3) by (auto simp: GetFreeSlot_def)
  moreover have "JoinWait (child_id F) k = Fault Dangling" using p d(1) by (simp add: JoinWait_def sem_P_def)
  ultimately show ?thesis using p d(2) by simp
qed

theorem exited_process_keeps_slot_witness:
  "\<exists>k rp rc. (own_step demo_family ^^ 14) (both_call demo_family demo_processes) (k, rp, rc) \<and>
     GetFreeSlot k \<noteq> Inr 1 \<and> JoinWait 1 k = Fault Dangling"
proof -
  obtain k rp rc where S: "(own_step demo_family ^^ 14) (both_call demo_family demo_processes) (k, rp, rc)"
    using calls_reach [OF demo_family_ok, of 14] by auto
  have "child_id demo_family = 1" by (simp add: demo_family_def)
  then show ?thesis using S exited_process_keeps_slot [OF demo_family_ok S] by auto
qed

end
