(* ===== verification/Sem_Table.thy ===== *)
theory Sem_Table
  imports Kernel_State
begin

text \<open>
  Named semaphores of user programs (\<open>threads/sem.cc\<close>, \<open>threads/stable.cc\<close>): a table of ten entries with
  a bitmap of the entries in use.  The specification is a finite map from names to semaphores; the
  lemmas show that the table implements it.
\<close>

section \<open>Operations\<close>

definition MAX_SEMAPHORE :: nat where "MAX_SEMAPHORE = 10"

text \<open>The name is copied into an array of 50 characters.\<close>

definition Sem_new :: "string \<Rightarrow> int \<Rightarrow> ('a Kernel_scheme, Sem) call" where
  "Sem_new na v =
     (if length na < 50 then cbind (new_Semaphore v) (\<lambda>p. creturn \<lparr>sem = p, sem_name = na\<rparr>) else (\<lambda>k. Fault OutOfRange))"

definition Sem_delete :: "Sem \<Rightarrow> ('a Kernel_scheme, unit) call" where
  "Sem_delete s = delete_Semaphore (sem s)"

definition Sem_wait :: "Sem \<Rightarrow> ('a Kernel_scheme, unit) call" where
  "Sem_wait s = sem_P (sem s)"

definition Sem_signal :: "Sem \<Rightarrow> ('a Kernel_scheme, unit) call" where
  "Sem_signal s = sem_V (sem s)"

definition STable_new :: "STable res" where
  "STable_new = rbind (Bitmap_new (int MAX_SEMAPHORE)) (\<lambda>b. Inr \<lparr>bm = b, slots = replicate MAX_SEMAPHORE None\<rparr>)"

definition STable_delete :: "('a Kernel_scheme, unit) call" where
  "STable_delete =
     for_each_call (\<lambda>i. cbind (inspect (\<lambda>k. arr_get (slots (semTab k)) i)) (\<lambda>s.
       case s of None \<Rightarrow> creturn () | Some s \<Rightarrow>
         cthen (Sem_delete s) (change (\<lambda>k. rbind (arr_set (slots (semTab k)) i None) (\<lambda>t. Inr (k\<lparr>semTab := (semTab k)\<lparr>slots := t\<rparr>\<rparr>))))))
       [0..int MAX_SEMAPHORE - 1]"

text \<open>The loop that all three operations begin with: the entry in use that has the name.\<close>

fun find_name :: "string \<Rightarrow> int list \<Rightarrow> STable \<Rightarrow> Sem option res" where
  "find_name nm [] t = Inr None"
| "find_name nm (i # is) t =
     rbind (Bitmap_Test (bm t) i) (\<lambda>inuse.
     if inuse then
       rbind (arr_get (slots t) i) (\<lambda>s. case s of
           None \<Rightarrow> Inl NullPointer
         | Some s \<Rightarrow> if nm = sem_name s then Inr (Some s) else find_name nm is t)
     else find_name nm is t)"

definition FindFreeSlot :: "('a Kernel_scheme, int) call" where
  "FindFreeSlot = compute (\<lambda>k. rbind (Bitmap_FindAndSet (bm (semTab k))) (\<lambda>(i, b). Inr (i, k\<lparr>semTab := (semTab k)\<lparr>bm := b\<rparr>\<rparr>)))"

definition STable_Create :: "string \<Rightarrow> int \<Rightarrow> ('a Kernel_scheme, int) call" where
  "STable_Create nm v =
     cbind (inspect (\<lambda>k. find_name nm [0..int MAX_SEMAPHORE - 1] (semTab k))) (\<lambda>found.
     if found \<noteq> None then creturn (- 1)
     else
       cbind FindFreeSlot (\<lambda>i.
       if i < 0 then creturn (- 1)
       else
         cbind (Sem_new nm v) (\<lambda>s.
         cthen (change (\<lambda>k. rbind (arr_set (slots (semTab k)) i (Some s)) (\<lambda>t. Inr (k\<lparr>semTab := (semTab k)\<lparr>slots := t\<rparr>\<rparr>))))
         (creturn 0))))"

definition STable_Wait :: "string \<Rightarrow> ('a Kernel_scheme, int) call" where
  "STable_Wait nm =
     cbind (inspect (\<lambda>k. find_name nm [0..int MAX_SEMAPHORE - 1] (semTab k))) (\<lambda>found.
     case found of None \<Rightarrow> creturn (- 1) | Some s \<Rightarrow> cthen (Sem_wait s) (creturn 0))"

definition STable_Signal :: "string \<Rightarrow> ('a Kernel_scheme, int) call" where
  "STable_Signal nm =
     cbind (inspect (\<lambda>k. find_name nm [0..int MAX_SEMAPHORE - 1] (semTab k))) (\<lambda>found.
     case found of None \<Rightarrow> creturn (- 1) | Some s \<Rightarrow> cthen (Sem_signal s) (creturn 0))"

section \<open>The table as a map\<close>

definition sems_of :: "STable \<Rightarrow> Sem list" where
  "sems_of t = map the (filter (\<lambda>s. s \<noteq> None) (slots t))"

definition sem_map :: "STable \<Rightarrow> string \<Rightarrow> nat option" where
  "sem_map t nm = map_option sem (find (\<lambda>s. sem_name s = nm) (sems_of t))"

text \<open>The bitmap marks the entries that hold a semaphore, and no two have the same name.\<close>

definition stable_ok :: "STable \<Rightarrow> bool" where
  "stable_ok t \<longleftrightarrow> bitmap_ok (bm t) \<and> numBits (bm t) = int MAX_SEMAPHORE \<and> length (slots t) = MAX_SEMAPHORE \<and>
     (\<forall>i < MAX_SEMAPHORE. int i \<in> marked (bm t) \<longleftrightarrow> slots t ! i \<noteq> None) \<and>
     (\<forall>i < MAX_SEMAPHORE. \<forall>j < MAX_SEMAPHORE. \<forall>s s'. slots t ! i = Some s \<longrightarrow> slots t ! j = Some s' \<longrightarrow>
        sem_name s = sem_name s' \<longrightarrow> i = j)"

lemma mem_sems_of: "s \<in> set (sems_of t) \<longleftrightarrow> (\<exists>i < length (slots t). slots t ! i = Some s)"
proof
  assume "\<exists>i < length (slots t). slots t ! i = Some s"
  then have "Some s \<in> set (slots t)" by (metis nth_mem)
  then show "s \<in> set (sems_of t)" by (force simp: sems_of_def)
qed (auto simp: sems_of_def in_set_conv_nth)

lemma sem_map_Some:
  assumes "stable_ok t"
  shows "sem_map t nm = Some p \<longleftrightarrow> (\<exists>s \<in> set (sems_of t). sem_name s = nm \<and> sem s = p)"
proof -
  have u: "s = s'" if "s \<in> set (sems_of t)" "s' \<in> set (sems_of t)" "sem_name s = sem_name s'" for s s'
    using assms that unfolding stable_ok_def mem_sems_of by (metis option.inject)
  show ?thesis
  proof (cases "find (\<lambda>s. sem_name s = nm) (sems_of t)")
    case None
    then have "\<not> (\<exists>x. x \<in> set (sems_of t) \<and> sem_name x = nm)" by (simp add: find_None_iff)
    then show ?thesis using None by (auto simp: sem_map_def)
  next
    case (Some x)
    then have x: "x \<in> set (sems_of t)" "sem_name x = nm" by (auto simp: find_Some_iff)
    have "(\<exists>s \<in> set (sems_of t). sem_name s = nm \<and> sem s = p) \<longleftrightarrow> sem x = p" using x u [OF x(1)] by blast
    then show ?thesis using Some by (simp add: sem_map_def)
  qed
qed

lemma find_name_ok:
  assumes ok: "stable_ok t" and ix: "set is \<subseteq> {0..<int MAX_SEMAPHORE}"
  shows "\<exists>r. find_name nm is t = Inr r \<and>
    (case r of None \<Rightarrow> \<forall>i \<in> set is. \<forall>s. slots t ! nat i = Some s \<longrightarrow> sem_name s \<noteq> nm
     | Some s \<Rightarrow> s \<in> set (sems_of t) \<and> sem_name s = nm)"
  using ix
proof (induction "is")
  case (Cons i "is")
  then have i: "0 \<le> i" "i < int MAX_SEMAPHORE" by auto
  then have i': "nat i < MAX_SEMAPHORE" "int (nat i) = i" by auto
  have t: "Bitmap_Test (bm t) i = Inr (i \<in> marked (bm t))" using Bitmap_Test_ok [of "bm t"] ok i by (simp add: stable_ok_def)
  have m: "i \<in> marked (bm t) \<longleftrightarrow> slots t ! nat i \<noteq> None" using ok i' unfolding stable_ok_def by metis
  have g: "arr_get (slots t) i = Inr (slots t ! nat i)" using ok i by (simp add: arr_get_ok stable_ok_def)
  obtain r where r: "find_name nm is t = Inr r"
    "case r of None \<Rightarrow> \<forall>i \<in> set is. \<forall>s. slots t ! nat i = Some s \<longrightarrow> sem_name s \<noteq> nm | Some s \<Rightarrow> s \<in> set (sems_of t) \<and> sem_name s = nm"
    using Cons by auto
  have s: "s \<in> set (sems_of t)" if "slots t ! nat i = Some s" for s
    using that i' ok by (auto simp: mem_sems_of stable_ok_def)
  show ?case
  proof (cases "slots t ! nat i")
    case None
    then show ?thesis using t m r by (cases r) auto
  next
    case (Some x)
    then show ?thesis using t m g r s [OF Some] by (cases "sem_name x = nm"; cases r) auto
  qed
qed auto

text \<open>The search returns the semaphore that the map has for the name.\<close>

lemma find_name_map:
  assumes ok: "stable_ok t"
  shows "\<exists>r. find_name nm [0..int MAX_SEMAPHORE - 1] t = Inr r \<and> map_option sem r = sem_map t nm \<and> (\<forall>s. r = Some s \<longrightarrow> sem_name s = nm)"
proof -
  obtain r where r: "find_name nm [0..int MAX_SEMAPHORE - 1] t = Inr r"
    "case r of None \<Rightarrow> \<forall>i \<in> set [0..int MAX_SEMAPHORE - 1]. \<forall>s. slots t ! nat i = Some s \<longrightarrow> sem_name s \<noteq> nm | Some s \<Rightarrow> s \<in> set (sems_of t) \<and> sem_name s = nm"
    using find_name_ok [OF ok, of "[0..int MAX_SEMAPHORE - 1]" nm] by fastforce
  show ?thesis
  proof (cases r)
    case None
    have "sem_name s \<noteq> nm" if "s \<in> set (sems_of t)" for s
    proof -
      from that ok obtain i where "i < MAX_SEMAPHORE" "slots t ! i = Some s" unfolding mem_sems_of stable_ok_def by metis
      then show ?thesis using r(2) None by (auto dest: bspec [of _ _ "int i"])
    qed
    then have "sem_map t nm = None" using sem_map_Some [OF ok, of nm] by (cases "sem_map t nm") auto
    then show ?thesis using r(1) None by simp
  next
    case (Some s)
    then have "sem_map t nm = Some (sem s)" using r(2) sem_map_Some [OF ok, of nm "sem s"] by auto
    then show ?thesis using r Some by simp
  qed
qed

lemma stable_ok_add:
  assumes ok: "stable_ok t" and i: "i < MAX_SEMAPHORE" "slots t ! i = None"
    and b: "bitmap_ok b" "numBits b = numBits (bm t)" "marked b = insert (int i) (marked (bm t))"
    and n: "sem_map t (sem_name s) = None"
  shows "stable_ok (t\<lparr>bm := b, slots := (slots t)[i := Some s]\<rparr>)"
    "sem_map (t\<lparr>bm := b, slots := (slots t)[i := Some s]\<rparr>) = (sem_map t)(sem_name s \<mapsto> sem s)"
proof -
  let ?t = "t\<lparr>bm := b, slots := (slots t)[i := Some s]\<rparr>"
  have len: "length (slots t) = MAX_SEMAPHORE" using ok by (simp add: stable_ok_def)
  have at: "(slots t)[i := Some s] ! j = (if j = i then Some s else slots t ! j)" for j using i(1) len by (simp add: nth_list_update)
  have fresh: "sem_name s' \<noteq> sem_name s" if "slots t ! j = Some s'" "j < MAX_SEMAPHORE" for j s'
    using sem_map_Some [OF ok, of "sem_name s" "sem s'"] n that len by (auto simp: mem_sems_of)
  have uniq: "j = l" if "slots t ! j = Some u" "slots t ! l = Some v" "sem_name u = sem_name v" "j < MAX_SEMAPHORE" "l < MAX_SEMAPHORE" for j l u v
    using ok that unfolding stable_ok_def by blast
  have bits: "int j \<in> marked (bm t) \<longleftrightarrow> slots t ! j \<noteq> None" if "j < MAX_SEMAPHORE" for j using ok that by (simp add: stable_ok_def)
  show st: "stable_ok ?t"
    unfolding stable_ok_def
  proof (intro conjI allI impI)
    fix j l u v
    assume "j < MAX_SEMAPHORE" "l < MAX_SEMAPHORE" "slots ?t ! j = Some u" "slots ?t ! l = Some v" "sem_name u = sem_name v"
    then show "j = l" using fresh [of j u] fresh [of l v] uniq [of j u l v] by (auto simp: at split: if_splits)
  qed (use ok b len bits in \<open>auto simp: stable_ok_def at\<close>)
  have mem: "x \<in> set (sems_of ?t) \<longleftrightarrow> x = s \<or> x \<in> set (sems_of t)" for x
    using i len by (auto simp: mem_sems_of at split: if_splits) (metis option.distinct(1))
  show "sem_map ?t = (sem_map t)(sem_name s \<mapsto> sem s)"
  proof
    fix nm
    have "sem_map ?t nm = Some p \<longleftrightarrow> ((sem_map t)(sem_name s \<mapsto> sem s)) nm = Some p" for p
      using sem_map_Some [OF st, of nm p] sem_map_Some [OF ok, of nm p] fresh mem len by (auto simp: mem_sems_of)
    then show "sem_map ?t nm = ((sem_map t)(sem_name s \<mapsto> sem s)) nm" by (metis not_None_eq)
  qed
qed

lemma full_iff:
  assumes ok: "stable_ok t"
  shows "marked (bm t) = {0..<int MAX_SEMAPHORE} \<longleftrightarrow> None \<notin> set (slots t)"
proof -
  have b: "int i \<in> marked (bm t) \<longleftrightarrow> slots t ! i \<noteq> None" if "i < MAX_SEMAPHORE" for i using ok that by (simp add: stable_ok_def)
  have l: "length (slots t) = MAX_SEMAPHORE" and r: "marked (bm t) \<subseteq> {0..<int MAX_SEMAPHORE}"
    using ok bm.inuse_range [of "bm t"] by (auto simp: stable_ok_def)
  show ?thesis
  proof
    assume m: "marked (bm t) = {0..<int MAX_SEMAPHORE}"
    then have "slots t ! i \<noteq> None" if "i < MAX_SEMAPHORE" for i using b [OF that] that by simp
    then show "None \<notin> set (slots t)" using l by (auto simp: in_set_conv_nth)
  next
    assume n: "None \<notin> set (slots t)"
    have "i \<in> marked (bm t)" if "0 \<le> i" "i < int MAX_SEMAPHORE" for i
    proof -
      have "nat i < MAX_SEMAPHORE" "int (nat i) = i" using that by auto
      then show ?thesis using b [of "nat i"] n l by (metis nth_mem)
    qed
    then show "marked (bm t) = {0..<int MAX_SEMAPHORE}" using r by auto
  qed
qed

lemma Create_new:
  assumes ok: "stable_ok (semTab k)" and n: "sem_map (semTab k) nm = None" "None \<in> set (slots (semTab k))" "length nm < 50"
  shows "\<exists>k'. STable_Create nm v k = Ret 0 k' \<and> stable_ok (semTab k') \<and>
    sem_map (semTab k') = (sem_map (semTab k))(nm \<mapsto> length (semaphores k)) \<and> semaphores k' = semaphores k @ [Some v]"
proof -
  let ?t = "semTab k" and ?p = "length (semaphores k)"
  let ?s = "\<lparr>sem = ?p, sem_name = nm\<rparr>"
  obtain r where "find_name nm [0..int MAX_SEMAPHORE - 1] ?t = Inr r" "map_option sem r = None"
    using find_name_map [OF ok, of nm] n(1) by auto
  then have f: "find_name nm [0..int MAX_SEMAPHORE - 1] ?t = Inr None" by simp
  have "marked (bm ?t) \<noteq> {0..<int MAX_SEMAPHORE}" using full_iff [OF ok] n(2) by simp
  with bm.find_free [of "bm ?t"] ok obtain i b where i: "Bitmap_FindAndSet (bm ?t) = Inr (i, b)" "0 \<le> i" "i < int MAX_SEMAPHORE"
    "i \<notin> marked (bm ?t)" "bitmap_ok b" "numBits b = numBits (bm ?t)" "marked b = insert i (marked (bm ?t))"
    by (auto simp: stable_ok_def)
  have i': "nat i < MAX_SEMAPHORE" "int (nat i) = i" using i by auto
  have "slots ?t ! nat i = None" using ok i(4) i' unfolding stable_ok_def by metis
  note add = stable_ok_add [OF ok i'(1) this i(5,6), of ?s]
  let ?k = "k\<lparr>semaphores := semaphores k @ [Some v], semTab := ?t\<lparr>bm := b, slots := (slots ?t)[nat i := Some ?s]\<rparr>\<rparr>"
  have len: "length (slots ?t) = MAX_SEMAPHORE" using ok by (simp add: stable_ok_def)
  have "STable_Create nm v k = Ret 0 ?k"
  proof -
    have "k\<lparr>semTab := ?t\<lparr>bm := b\<rparr>, semaphores := x, semTab := ?t\<lparr>bm := b, slots := y\<rparr>\<rparr> = k\<lparr>semaphores := x, semTab := ?t\<lparr>bm := b, slots := y\<rparr>\<rparr>" for x y
      by (rule Kernel.equality) simp_all
    then show ?thesis
      using f i n(3) len by (simp add: STable_Create_def FindFreeSlot_def Sem_new_def call_assoc arr_set_ok creturn_def [of 0])
  qed
  then show ?thesis using add i(7) i'(2) n(1) by auto
qed

section \<open>Properties\<close>

text \<open>C33. The named semaphores are a map from names to semaphores.  \<open>Wait\<close> and \<open>Signal\<close> act on exactly the
  semaphore with the name and return 0, or return \<open>- 1\<close> when there is none.  \<open>Create\<close> of a new name
  while an entry is free adds a new semaphore with the initial value under that name, and changes no
  other; of a name that exists, or in a full table, it returns \<open>- 1\<close> and changes nothing; a name of 50
  characters or more overruns the array.\<close>

theorem named_semaphores_refine_map:
  assumes ok: "stable_ok (semTab k)"
  shows "case sem_map (semTab k) nm of
      Some p \<Rightarrow> STable_Create nm v k = Ret (- 1) k \<and> STable_Wait nm k = cthen (sem_P p) (creturn 0) k \<and>
        STable_Signal nm k = cthen (sem_V p) (creturn 0) k
    | None \<Rightarrow> STable_Wait nm k = Ret (- 1) k \<and> STable_Signal nm k = Ret (- 1) k \<and>
        (if None \<notin> set (slots (semTab k)) then STable_Create nm v k = Ret (- 1) k
         else if 50 \<le> length nm then STable_Create nm v k = Fault OutOfRange
         else \<exists>k'. STable_Create nm v k = Ret 0 k' \<and> stable_ok (semTab k') \<and>
           sem_map (semTab k') = (sem_map (semTab k))(nm \<mapsto> length (semaphores k)) \<and> semaphores k' = semaphores k @ [Some v])"
proof -
  let ?t = "semTab k"
  obtain r where r: "find_name nm [0..int MAX_SEMAPHORE - 1] ?t = Inr r" "map_option sem r = sem_map ?t nm"
    using find_name_map [OF ok] by blast
  show ?thesis
  proof (cases "sem_map ?t nm")
    case (Some p)
    then obtain s where "r = Some s" "sem s = p" using r(2) by auto
    then show ?thesis using r(1) Some by (simp add: STable_Create_def STable_Wait_def STable_Signal_def Sem_wait_def Sem_signal_def creturn_def)
  next
    case None
    then have n: "r = None" using r(2) by simp
    have w: "STable_Wait nm k = Ret (- 1) k" "STable_Signal nm k = Ret (- 1) k"
      using r(1) n by (simp_all add: STable_Wait_def STable_Signal_def creturn_def)
    have full: "STable_Create nm v k = Ret (- 1) k" if "None \<notin> set (slots ?t)"
      using bm.find_full [of "bm ?t"] full_iff [OF ok] that ok r(1) n
      by (simp add: STable_Create_def FindFreeSlot_def stable_ok_def creturn_def)
    have long: "STable_Create nm v k = Fault OutOfRange" if "None \<in> set (slots ?t)" "50 \<le> length nm"
    proof -
      have "marked (bm ?t) \<noteq> {0..<int MAX_SEMAPHORE}" using full_iff [OF ok] that(1) by simp
      with bm.find_free [of "bm ?t"] ok obtain i b where "Bitmap_FindAndSet (bm ?t) = Inr (i, b)" "0 \<le> i"
        by (auto simp: stable_ok_def)
      then show ?thesis using that(2) r(1) n by (simp add: STable_Create_def FindFreeSlot_def Sem_new_def)
    qed
    show ?thesis unfolding None using w full long Create_new [OF ok None] by (auto simp: not_le)
  qed
qed

definition demo_stable :: STable where
  "demo_stable = (case STable_new of Inr t \<Rightarrow> t | Inl _ \<Rightarrow> \<lparr>bm = \<lparr>numBits = 0, numWords = 0, bmap = []\<rparr>, slots = []\<rparr>)"

definition demo_sems :: Kernel where
  "demo_sems = Machine.extend demo_machine
     (Kernel.fields [] [] 0 [] [] (FileSystem_new [] [] demo_host) 0 (bm demo_stable) demo_stable \<lparr>pcb = [], psize = 0, bmsem = 0\<rparr> []
        \<lparr>joinsem = 0, exitsem = 0, multex = 0, exitcode = 0, numwait = 0, pcb_thread = None, filename = [], parentID = 0, pcb_processID = 0\<rparr>
        \<lparr>space_table = [], numPages = 0\<rparr>)"

lemma demo_stable_ok: "stable_ok demo_stable" "slots demo_stable = replicate 10 None"
proof -
  obtain b where b: "Bitmap_new (int MAX_SEMAPHORE) = Inr b" "bitmap_ok b" "numBits b = int MAX_SEMAPHORE" "marked b = {}"
    using Bitmap_new_ok [of "int MAX_SEMAPHORE"] by (auto simp: MAX_SEMAPHORE_def)
  then show "stable_ok demo_stable" "slots demo_stable = replicate 10 None"
    by (auto simp: demo_stable_def STable_new_def stable_ok_def MAX_SEMAPHORE_def)
qed

theorem named_semaphores_refine_map_witness:
  "STable_Wait ''mutex'' demo_sems = Ret (- 1) demo_sems \<and>
   (\<exists>k'. STable_Create ''mutex'' 1 demo_sems = Ret 0 k' \<and> stable_ok (semTab k') \<and> semaphores k' = [Some 1])"
proof -
  have t: "semTab demo_sems = demo_stable" "semaphores demo_sems = []" by (simp_all add: demo_sems_def Machine.defs Kernel.defs)
  have "sem_map demo_stable ''mutex'' = None" using demo_stable_ok(2) by (simp add: sem_map_def sems_of_def)
  then show ?thesis using named_semaphores_refine_map [of demo_sems "''mutex''" 1] t demo_stable_ok by auto
qed

end
