(* ===== verification/Console_Calls.thy ===== *)
theory Console_Calls
  imports Kernel_State
begin

text \<open>
  The console as kernel routines see it (\<open>userprog/synchconsole.cc\<close> on the devices of \<open>Devices\<close>), and the
  calls of \<open>userprog/ksyscall.h\<close> that read and print characters, strings and numbers, with the helpers of
  \<open>userprog/ksyscallhelper.h\<close>.  A character is one action of the device; before each one other threads
  may run.  The first argument is the number of idle turns granted to the device for one character;
  100 are enough for output.  Numbers are formed in a buffer that all processes share.
\<close>

section \<open>Characters\<close>

definition GetChar :: "nat \<Rightarrow> ('a Kernel_scheme, byte) call" where
  "GetChar n = cthen preempt (compute (SynchConsoleInput_GetChar Inr (conin_P n) Inr))"

definition PutChar :: "nat \<Rightarrow> byte \<Rightarrow> ('a Kernel_scheme, unit) call" where
  "PutChar n c = cthen preempt (change (SynchConsoleOutput_PutChar Inr (conout_P n) Inr c))"

definition SysReadChar :: "nat \<Rightarrow> ('a Kernel_scheme, byte) call" where
  "SysReadChar n = GetChar n"

definition SysPrintChar :: "nat \<Rightarrow> byte \<Rightarrow> ('a Kernel_scheme, unit) call" where
  "SysPrintChar n c = PutChar n c"

text \<open>The characters of a buffer of the kernel.\<close>

fun read_chars :: "nat \<Rightarrow> nat \<Rightarrow> byte list \<Rightarrow> ('a Kernel_scheme, byte list) call" where
  "read_chars n 0 buffer = creturn buffer"
| "read_chars n (Suc m) buffer = cbind (SysReadChar n) (\<lambda>c. read_chars n m (buffer @ [c]))"

definition SysReadString :: "nat \<Rightarrow> int \<Rightarrow> ('a Kernel_scheme, byte list) call" where
  "SysReadString n len =
     (if len < - 1 then (\<lambda>k. Fault Uncaught)
      else if len = - 1 then (\<lambda>k. Fault OutOfRange)
      else cbind (read_chars n (nat len) []) (\<lambda>buffer. creturn (buffer @ [0])))"

definition SysPrintString :: "nat \<Rightarrow> byte list \<Rightarrow> int \<Rightarrow> ('a Kernel_scheme, unit) call" where
  "SysPrintString n buffer len =
     for_each_call (\<lambda>i. cbind (inspect (\<lambda>k. arr_get buffer i)) (PutChar n)) [0..len - 1]"

section \<open>Numbers\<close>

definition MAX_NUM_LENGTH :: nat where "MAX_NUM_LENGTH = 11"

definition isBlank :: "byte \<Rightarrow> bool" where
  "isBlank c \<longleftrightarrow> c = 10 \<or> c = 13 \<or> c = 9 \<or> c = 32"

definition set_buffer :: "int \<Rightarrow> byte \<Rightarrow> ('a Kernel_scheme, unit) call" where
  "set_buffer i c = change (\<lambda>k. rbind (arr_set (numberBuffer k) i c) (\<lambda>b. Inr (k\<lparr>numberBuffer := b\<rparr>)))"

text \<open>The second argument counts the characters that may still come.\<close>

fun read_loop :: "nat \<Rightarrow> nat \<Rightarrow> nat \<Rightarrow> byte \<Rightarrow> ('a Kernel_scheme, unit) call" where
  "read_loop n 0 i c = creturn ()"
| "read_loop n (Suc m) i c =
     (if isBlank c \<or> c = EOFc then creturn ()
      else
        cthen (set_buffer (int i) c)
        (if Suc i > MAX_NUM_LENGTH then creturn () else cbind (GetChar n) (read_loop n m (Suc i))))"

definition readUntilBlank :: "nat \<Rightarrow> ('a Kernel_scheme, unit) call" where
  "readUntilBlank n =
     cthen (change (\<lambda>k. Inr (k\<lparr>numberBuffer := replicate (MAX_NUM_LENGTH + 2) 0\<rparr>)))
     (cbind (GetChar n) (\<lambda>c.
     if c = EOFc then creturn ()
     else if isBlank c then creturn ()
     else read_loop n (Suc MAX_NUM_LENGTH) 0 c))"

definition cstring :: "byte list \<Rightarrow> byte list" where
  "cstring bs = takeWhile (\<lambda>c. c \<noteq> 0) bs"

definition bytes_of :: "string \<Rightarrow> byte list" where
  "bytes_of s = map (\<lambda>c. word_of_nat (of_char c)) s"

definition string_of :: "byte list \<Rightarrow> string" where
  "string_of bs = map (\<lambda>b. char_of (unat b)) bs"

text \<open>The digits are compared from the last one on; \<open>off\<close> is 1 behind a sign.\<close>

fun compare_loop :: "byte list \<Rightarrow> int \<Rightarrow> int \<Rightarrow> nat \<Rightarrow> bool res" where
  "compare_loop s off len n =
     (if n = 0 then Inr (len = 0)
      else
        rbind (arr_get s (off + (len - 1))) (\<lambda>c.
        if sint c - 48 \<noteq> int (n mod 10) then Inr False else compare_loop s off (len - 1) (n div 10)))"

declare compare_loop.simps [simp del]

definition compareNumAndString :: "32 word \<Rightarrow> byte list \<Rightarrow> bool res" where
  "compareNumAndString i s =
     (if i = 0 then Inr (cstring s = bytes_of ''0'')
      else
        let len = int (length (cstring s)) in
        rbind (arr_get s 0) (\<lambda>c0.
        if sint i < 0 \<and> c0 \<noteq> 45 then Inr False
        else if sint i < 0 then compare_loop s 1 (len - 1) (nat (sint (- i)))
        else compare_loop s 0 len (nat (sint i))))"

text \<open>The loop over the characters: the number of leading zeros and the value, or the early return.\<close>

fun num_loop :: "byte list \<Rightarrow> int \<Rightarrow> bool \<Rightarrow> 32 word \<Rightarrow> (int \<times> 32 word) option" where
  "num_loop [] zeros leading num = Some (zeros, num)"
| "num_loop (c # cs) zeros leading num =
     (let (zeros, leading) = (if c = 48 \<and> leading then (zeros + 1, leading) else (zeros, False)) in
      if sint c < 48 \<or> sint c > 57 then None
      else num_loop cs zeros leading (num * 10 + word_of_int (sint c - 48)))"

definition ReadNum_value :: "byte list \<Rightarrow> 32 word res" where
  "ReadNum_value buffer =
     (let s = cstring buffer; len = length s in
      if len = 0 then Inr 0
      else if s = bytes_of ''-2147483648'' then Inr (- 2147483648)
      else
        rbind (arr_get buffer 0) (\<lambda>c0.
        let nega = (c0 = 45) in
        case num_loop (drop (if nega then 1 else 0) s) 0 True 0 of
          None \<Rightarrow> Inr 0
        | Some (zeros, num) \<Rightarrow>
            if zeros > 1 \<or> zeros \<noteq> 0 \<and> (num \<noteq> 0 \<or> nega) then Inr 0
            else
              let num = (if nega then - num else num) in
              if len \<le> MAX_NUM_LENGTH - 2 then Inr num
              else rbind (compareNumAndString num buffer) (\<lambda>eq. Inr (if eq then num else 0))))"

definition SysReadNum :: "nat \<Rightarrow> ('a Kernel_scheme, 32 word) call" where
  "SysReadNum n = cthen (readUntilBlank n) (inspect (\<lambda>k. ReadNum_value (numberBuffer k)))"

fun digits_loop :: "nat \<Rightarrow> nat \<Rightarrow> byte list \<Rightarrow> (nat \<times> byte list) res" where
  "digits_loop num i buffer =
     (if num = 0 then Inr (i, buffer)
      else rbind (arr_set buffer (int i) (word_of_nat (num mod 10))) (digits_loop (num div 10) (Suc i)))"

declare digits_loop.simps [simp del]

definition SysPrintNum :: "nat \<Rightarrow> 32 word \<Rightarrow> ('a Kernel_scheme, unit) call" where
  "SysPrintNum n num =
     (if num = 0 then PutChar n 48
      else if num = - 2147483648 then cthen (PutChar n 45) (for_each_call (PutChar n) (bytes_of ''2147483648''))
      else
        cthen (if sint num < 0 then PutChar n 45 else creturn ())
        (let v = nat \<bar>sint num\<bar> in
         cbind (compute (\<lambda>k. rbind (digits_loop v 0 (numberBuffer k)) (\<lambda>(i, b). Inr (i, k\<lparr>numberBuffer := b\<rparr>)))) (\<lambda>i.
         for_each_call (\<lambda>j. cbind (inspect (\<lambda>k. arr_get (numberBuffer k) j)) (\<lambda>d. PutChar n (d + 48))) (rev [0..int i - 1]))))"

section \<open>Reading a number\<close>

definition is_dig :: "byte \<Rightarrow> bool" where
  "is_dig c \<longleftrightarrow> 48 \<le> sint c \<and> sint c \<le> 57"

definition bval :: "int \<Rightarrow> byte list \<Rightarrow> int" where
  "bval a ds = foldl (\<lambda>v c. v * 10 + (sint c - 48)) a ds"

lemma bval_simps [simp]: "bval a [] = a" "bval a (c # cs) = bval (a * 10 + (sint c - 48)) cs" "bval a (cs @ [c]) = bval a cs * 10 + (sint c - 48)"
  by (simp_all add: bval_def)

lemma num_loop_eq:
  "num_loop ds z l (word_of_int a) =
    (if list_all is_dig ds
     then Some (z + (if l then int (length (takeWhile (\<lambda>c. c = 48) ds)) else 0), word_of_int (bval a ds)) else None)"
proof (induction ds arbitrary: z l a)
  case (Cons c ds)
  have w: "word_of_int a * 10 + word_of_int (sint c - 48) = (word_of_int (a * 10 + (sint c - 48)) :: 32 word)" by simp
  show ?case
  proof (cases "is_dig c")
    case True
    then have d: "\<not> (sint c < 48 \<or> 57 < sint c)" by (auto simp: is_dig_def)
    show ?thesis unfolding num_loop.simps w Let_def using d True
      by (cases "c = 48 \<and> l") (auto simp: Cons.IH simp del: of_int_add of_int_mult of_int_diff)
  next
    case False
    then have d: "sint c < 48 \<or> 57 < sint c" by (auto simp: is_dig_def)
    show ?thesis unfolding num_loop.simps w Let_def using d False by (auto split: prod.split)
  qed
qed simp

lemma sint_eq_iff: "sint (v :: 'b :: len word) = sint w \<longleftrightarrow> v = w"
  by (auto intro: signed_word_eqI)

text \<open>Digits as bytes.\<close>

definition dig :: "nat \<Rightarrow> byte" where
  "dig d = word_of_nat (48 + d)"

lemma bytes_of_simps [simp]: "bytes_of [] = []" "bytes_of (a @ b) = bytes_of a @ bytes_of b" "length (bytes_of a) = length a" "bytes_of a = [] \<longleftrightarrow> a = []"
  by (simp_all add: bytes_of_def)

lemma sint_dig: "d < 10 \<Longrightarrow> sint (dig d) = 48 + int d"
proof -
  assume d: "d < 10"
  have u: "uint (dig d) = 48 + int d" using d by (simp add: dig_def unsigned_of_nat take_bit_nat_eq_self del: of_nat_add)
  show ?thesis unfolding sint_uint u using d by (simp add: signed_take_bit_int_eq_self)
qed

lemma byte_of_digit: "d < 10 \<Longrightarrow> bytes_of [char_of (48 + d)] = [dig d]"
  by (simp add: bytes_of_def dig_def)

lemma is_dig_cases:
  assumes "is_dig c"
  obtains d where "d < 10" "c = dig d"
proof -
  let ?d = "nat (sint c - 48)"
  have d: "?d < 10" "int ?d = sint c - 48" using assms by (auto simp: is_dig_def)
  have "sint (dig ?d) = sint c" using sint_dig [OF d(1)] d(2) by simp
  then have "dig ?d = c" by (rule signed_word_eqI)
  then show thesis using that [OF d(1)] by simp
qed

definition dig0 :: "nat \<Rightarrow> byte list" where
  "dig0 n = (if n = 0 then [] else bytes_of (nat_digits n))"

lemma dig0_rec: "0 < n \<Longrightarrow> dig0 n = dig0 (n div 10) @ [dig (n mod 10)]"
  by (subst dig0_def, subst nat_digits.simps) (auto simp: dig0_def byte_of_digit)

text \<open>A string of digits that does not begin with a zero is the numeral of its value.\<close>

lemma bval_nonneg: "0 \<le> a \<Longrightarrow> list_all is_dig ds \<Longrightarrow> 0 \<le> bval a ds"
  by (induction ds arbitrary: a) (auto simp: is_dig_def)

lemma digits_canonical:
  assumes "list_all is_dig ds" "ds = [] \<or> hd ds \<noteq> 48"
  shows "ds = dig0 (nat (bval 0 ds))"
  using assms
proof (induction ds rule: rev_induct)
  case (snoc c ds)
  obtain d where d: "d < 10" "c = dig d" using snoc.prems(1) by (auto elim: is_dig_cases)
  have v: "bval 0 (ds @ [c]) = bval 0 ds * 10 + int d" using d by (simp add: sint_dig)
  have ds: "0 \<le> bval 0 ds" using bval_nonneg [of 0 ds] snoc.prems(1) by simp
  have IH: "ds = dig0 (nat (bval 0 ds))" 
  proof (rule snoc.IH)
    show "list_all is_dig ds" using snoc.prems(1) by simp
    show "ds = [] \<or> hd ds \<noteq> 48" using snoc.prems(2) by (cases ds) auto
  qed
  have n: "nat (bval 0 (ds @ [c])) = nat (bval 0 ds) * 10 + d" unfolding v using ds by (simp add: nat_add_distrib nat_mult_distrib)
  have "0 < nat (bval 0 ds) * 10 + d"
  proof (cases ds)
    case Nil
    then have "c \<noteq> 48" using snoc.prems(2) by simp
    then have "d \<noteq> 0" using d by (intro notI) (simp add: dig_def)
    then show ?thesis by simp
  next
    case (Cons x xs)
    have "nat (bval 0 ds) \<noteq> 0"
    proof
      assume "nat (bval 0 ds) = 0"
      then have "ds = []" using IH dig0_def [of 0] by metis
      then show False using Cons by simp
    qed
    then show ?thesis by simp
  qed
  then show ?case unfolding n using dig0_rec [of "nat (bval 0 ds) * 10 + d"] d IH by simp
qed (simp add: dig0_def)

lemma bval_dig0: "bval 0 (dig0 n) = int n"
proof (induction n rule: less_induct)
  case (less n)
  show ?case
  proof (cases "n = 0")
    case False
    have "bval 0 (dig0 n) = bval 0 (dig0 (n div 10)) * 10 + int (n mod 10)" using dig0_rec [of n] False by (simp add: sint_dig)
    moreover have "int (n div 10) * 10 + int (n mod 10) = int n" by presburger
    ultimately show ?thesis using less.IH [of "n div 10"] False by simp
  qed (simp add: dig0_def)
qed

lemma dig0_digits: "c \<in> set (dig0 n) \<Longrightarrow> is_dig c"
proof (induction n rule: less_induct)
  case (less n)
  then have "0 < n" by (cases "n = 0") (auto simp: dig0_def)
  then show ?case using less.IH [of "n div 10"] less.prems dig0_rec [of n] by (auto simp: is_dig_def sint_dig)
qed

lemma hd_dig0: "0 < n \<Longrightarrow> hd (dig0 n) \<noteq> 48"
proof (induction n rule: less_induct)
  case (less n)
  show ?case
  proof (cases "n < 10")
    case True
    then have "dig0 n = [dig n]" using dig0_rec [OF less.prems] by (simp add: dig0_def)
    moreover have "dig n \<noteq> 48" using True less.prems sint_dig [of n] by auto
    ultimately show ?thesis by simp
  next
    case False
    then have "0 < n div 10" by simp
    moreover from this have "dig0 (n div 10) \<noteq> []" by (simp add: dig0_def)
    ultimately show ?thesis using less dig0_rec [OF less.prems] by simp
  qed
qed
lemma length_dig0: "length (dig0 n) \<le> k \<longleftrightarrow> n < 10 ^ k"
proof (induction k arbitrary: n)
  case 0
  then show ?case by (auto simp: dig0_def)
next
  case (Suc k)
  show ?case
  proof (cases "n = 0")
    case False
    then have "length (dig0 n) = Suc (length (dig0 (n div 10)))" using dig0_rec [of n] by simp
    then show ?thesis using Suc.IH [of "n div 10"] by (simp add: less_mult_imp_div_less div_less_iff_less_mult mult.commute)
  qed (simp add: dig0_def)
qed

lemma compare_loop_eq:
  "length (dig0 n) \<le> length ds \<Longrightarrow> compare_loop (p @ ds @ r) (int (length p)) (int (length ds)) n = Inr (dig0 n = ds)"
proof (induction ds arbitrary: n r rule: rev_induct)
  case Nil
  then have "n = 0" by (auto simp: dig0_def split: if_splits)
  then show ?case by (subst compare_loop.simps) (simp add: dig0_def)
next
  case (snoc c ds)
  show ?case
  proof (cases "n = 0")
    case True
    then show ?thesis by (subst compare_loop.simps) (simp add: dig0_def)
  next
    case False
    then have d: "dig0 n = dig0 (n div 10) @ [dig (n mod 10)]" using dig0_rec by simp
    have c: "sint c - 48 = int (n mod 10) \<longleftrightarrow> c = dig (n mod 10)"
      using sint_dig [of "n mod 10"] sint_eq_iff [of c "dig (n mod 10)"] by auto
    have "arr_get (p @ (ds @ [c]) @ r) (int (length p) + (int (length (ds @ [c])) - 1)) = Inr c"
      by (simp add: arr_get_def nth_append nat_add_distrib flip: of_nat_add)
    moreover have "compare_loop (p @ ds @ c # r) (int (length p)) (int (length ds)) (n div 10) = Inr (dig0 (n div 10) = ds)"
      using snoc.prems d by (intro snoc.IH) simp
    ultimately show ?thesis using False c d by (subst compare_loop.simps) auto
  qed
qed

lemma compare_num_pos:
  assumes s: "cstring buffer = s" "0 \<in> set buffer" and i: "0 < sint i" "length (dig0 (nat (sint i))) \<le> length s"
  shows "compareNumAndString i buffer = Inr (dig0 (nat (sint i)) = s)"
proof -
  from assms obtain r where b: "buffer = s @ r" "buffer \<noteq> []" unfolding cstring_def by (metis takeWhile_dropWhile_id empty_iff list.set(1))
  have "i \<noteq> 0" using i by auto
  moreover have "compare_loop buffer 0 (int (length s)) (nat (sint i)) = Inr (dig0 (nat (sint i)) = s)"
    using compare_loop_eq [OF i(2), of "[]" r] b by simp
  ultimately show ?thesis using i b(2) s(1) by (cases buffer) (auto simp: compareNumAndString_def Let_def arr_get_def)
qed

lemma compare_num_neg:
  assumes s: "cstring buffer = c # s" and i: "sint i < 0" "length (dig0 (nat (sint (- i)))) \<le> length s"
  shows "compareNumAndString i buffer = Inr (c = 45 \<and> dig0 (nat (sint (- i))) = s)"
proof -
  from assms obtain r where b: "buffer = c # s @ r" unfolding cstring_def by (metis takeWhile_dropWhile_id append_Cons)
  have "i \<noteq> 0" using i by auto
  moreover have "compare_loop buffer 1 (int (length s)) (nat (sint (- i))) = Inr (dig0 (nat (sint (- i))) = s)"
    using compare_loop_eq [OF i(2), of "[c]" r] b by simp
  ultimately show ?thesis using i s b by (auto simp: compareNumAndString_def Let_def arr_get_def)
qed

lemma sint_lt: "sint (i :: 32 word) < 2 ^ 31" "- (2 ^ 31) \<le> sint i"
  using sint_lt [of i] sint_ge [of i] by simp_all

text \<open>A number too large for 32 bits is never equal to what its digits wrapped around to.\<close>

lemma compare_num_wrapped:
  assumes s: "cstring buffer = sg @ dig0 v" "0 \<in> set buffer" and v: "2 ^ 31 \<le> v" and sg: "sg = [] \<or> sg = [45]"
  shows "compareNumAndString i buffer = Inr False"
proof -
  have l: "10 \<le> length (dig0 v)" using length_dig0 [of v 9] v by simp
  have small: "length (dig0 n) \<le> 10" "n \<noteq> v" if "n < 2 ^ 31" for n using that v length_dig0 [of n 10] by simp_all
  have eq: "dig0 n \<noteq> dig0 v" if "n < 2 ^ 31" for n using small(2) [OF that] bval_dig0 [of n] bval_dig0 [of v] by auto
  have nosign: "dig0 n \<noteq> 45 # ds" for n ds using dig0_digits [of 45 n] by (auto simp: is_dig_def)
  have i: "nat (sint i) < 2 ^ 31" using sint_lt(1) [of i] by simp
  have m: "nat (sint (- i)) < 2 ^ 31" using sint_lt(1) [of "- i"] by simp
  consider "sint i = 0" | "0 < sint i" | "sint i < 0" by linarith
  then show ?thesis
  proof cases
    case 1
    then have "i = 0" using sint_eq_iff [of i 0] by simp
    moreover have "cstring buffer \<noteq> bytes_of ''0''" unfolding s(1) using l by (auto dest: arg_cong [of _ _ length])
    ultimately show ?thesis by (simp add: compareNumAndString_def)
  next
    case 2
    have "length (dig0 (nat (sint i))) \<le> length (sg @ dig0 v)" using small(1) [OF i] l by simp
    from compare_num_pos [OF s 2 this] show ?thesis using sg eq [OF i] nosign by auto
  next
    case 3
    show ?thesis
    proof (cases "sg = []")
      case True
      obtain c ds where d: "dig0 v = c # ds" using l by (cases "dig0 v") auto
      have "c \<noteq> 45" using dig0_digits [of c v] d by (auto simp: is_dig_def)
      moreover obtain r where "buffer = (c # ds) @ r" using s(1) d True unfolding cstring_def by (metis takeWhile_dropWhile_id append_Nil)
      moreover have "i \<noteq> 0" using 3 by auto
      ultimately show ?thesis using 3 by (simp add: compareNumAndString_def Let_def arr_get_def)
    next
      case False
      then have c: "cstring buffer = 45 # dig0 v" using s sg by simp
      have "length (dig0 (nat (sint (- i)))) \<le> length (dig0 v)" using small(1) [OF m] l by simp
      from compare_num_neg [OF c 3 this] show ?thesis using eq [OF m] by simp
    qed
  qed
qed
lemma bytes_of_numeral:
  "bytes_of (to_string i) = (if i = 0 then [48] else if 0 < i then dig0 (nat i) else 45 # dig0 (nat (- i)))"
proof -
  have "bytes_of (nat_digits 0) = [48]" by (subst nat_digits.simps) (simp add: bytes_of_def)
  moreover have "bytes_of [CHR ''-''] = [45]" by (simp add: bytes_of_def)
  ultimately show ?thesis using bytes_of_simps(2) [of "[CHR ''-'']"] by (auto simp: to_string_def dig0_def)
qed

lemma ReadNum_zeros: "takeWhile (\<lambda>c. c = 48) ds = [] \<longleftrightarrow> ds = [] \<or> hd ds \<noteq> (48 :: byte)"
  by (cases ds) auto

text \<open>What \<open>SysReadNum\<close> does behind the test for the smallest number, once the digits are scanned.\<close>

lemma ReadNum_scan:
  assumes s: "cstring buffer = sg @ ds" "0 \<in> set buffer" "sg @ ds \<noteq> []" "sg @ ds \<noteq> bytes_of ''-2147483648''"
    and sg: "sg = [] \<and> hd ds \<noteq> 45 \<or> sg = [45]"
  shows "ReadNum_value buffer =
    (if \<not> list_all is_dig ds then Inr 0
     else let z = length (takeWhile (\<lambda>c. c = 48) ds); num = (word_of_int (bval 0 ds) :: 32 word) in
       if 1 < z \<or> z \<noteq> 0 \<and> (num \<noteq> 0 \<or> sg \<noteq> []) then Inr 0
       else let num = (if sg \<noteq> [] then - num else num) in
         if length (sg @ ds) \<le> 9 then Inr num else rbind (compareNumAndString num buffer) (\<lambda>eq. Inr (if eq then num else 0)))"
proof -
  obtain r where b: "buffer = (sg @ ds) @ r" using s(1) unfolding cstring_def by (metis takeWhile_dropWhile_id)
  have c0: "arr_get buffer 0 = Inr (hd (sg @ ds))" unfolding b using s(3) by (cases "sg @ ds") (auto simp: arr_get_def)
  have n: "(hd (sg @ ds) = 45) = (sg \<noteq> [])" using sg s(3) by auto
  have d: "drop (if sg \<noteq> [] then 1 else 0) (sg @ ds) = ds" using sg by auto
  show ?thesis
    unfolding ReadNum_value_def s(1) Let_def c0 rbind.simps n d using s(3,4) num_loop_eq [of ds 0 True 0]
    by (auto simp: MAX_NUM_LENGTH_def)
qed

lemma dig0_0 [simp]: "dig0 0 = []"
  by (simp add: dig0_def)

lemma min_digits: "bytes_of ''-2147483648'' = 45 # dig0 (2 ^ 31)"
  by (simp add: bytes_of_def dig0_rec dig_def)

lemma min_numeral: "bytes_of (to_string (- (2 ^ 31))) = bytes_of ''-2147483648''"
  unfolding bytes_of_numeral min_digits by simp

lemma dig0_pos:
  assumes "0 < n"
  shows "dig0 n \<noteq> []" "list_all is_dig (dig0 n)" "hd (dig0 n) \<noteq> 45" "hd (dig0 n) \<noteq> 48" "bval 0 (dig0 n) = int n"
proof -
  show n: "dig0 n \<noteq> []" using assms by (simp add: dig0_def)
  show "list_all is_dig (dig0 n)" using dig0_digits by (simp add: list_all_iff)
  have "is_dig (hd (dig0 n))" using dig0_digits hd_in_set [OF n] by simp
  then show "hd (dig0 n) \<noteq> 45" by (intro notI) (simp add: is_dig_def)
qed (rule hd_dig0 [OF assms], rule bval_dig0)

lemma sint_in_range: "- (2 ^ 31) \<le> v \<Longrightarrow> v < 2 ^ 31 \<Longrightarrow> sint (word_of_int v :: 32 word) = v"
  by (simp add: signed_of_int signed_take_bit_int_eq_self)

lemma ReadNum_valid:
  assumes s: "cstring buffer = bytes_of (to_string i)" "0 \<in> set buffer" and i: "- (2 ^ 31) \<le> i" "i < 2 ^ 31"
  shows "ReadNum_value buffer = Inr (word_of_int i)"
proof -
  consider "i = - (2 ^ 31)" | "i = 0" | "0 < i" | "- (2 ^ 31) < i" "i < 0" using i by linarith
  then show ?thesis
  proof cases
    case 1
    then have "cstring buffer = bytes_of ''-2147483648''" using s(1) min_numeral by simp
    then show ?thesis using 1 by (simp add: ReadNum_value_def Let_def)
  next
    case 2
    have "bytes_of ''-2147483648'' \<noteq> [48]" by (simp add: bytes_of_def)
    then show ?thesis using ReadNum_scan [of buffer "[]" "[48]"] s 2 by (simp add: bytes_of_numeral is_dig_def)
  next
    case 3
    let ?d = "dig0 (nat i)"
    have d: "?d \<noteq> []" "list_all is_dig ?d" "hd ?d \<noteq> 45" "hd ?d \<noteq> 48" "bval 0 ?d = i"
      using 3 dig0_pos [of "nat i"] by simp_all
    have c: "cstring buffer = ?d" using s 3 by (simp add: bytes_of_numeral)
    have z: "takeWhile (\<lambda>c. c = 48) ?d = []" using d by (simp add: ReadNum_zeros)
    have n: "sint (word_of_int i :: 32 word) = i" using 3 i by (intro sint_in_range) simp_all
    have "compareNumAndString (word_of_int i) buffer = Inr True"
      using compare_num_pos [OF c s(2), of "word_of_int i"] 3 n by simp
    moreover have "?d \<noteq> bytes_of ''-2147483648''" using d(3) by (auto simp: bytes_of_def)
    ultimately show ?thesis using ReadNum_scan [of buffer "[]" ?d] c s(2) d z by (simp add: Let_def)
  next
    case 4
    let ?d = "dig0 (nat (- i))"
    have d: "?d \<noteq> []" "list_all is_dig ?d" "hd ?d \<noteq> 48" "bval 0 ?d = - i"
      using 4 dig0_pos [of "nat (- i)"] by simp_all
    have c: "cstring buffer = 45 # ?d" using s 4 by (simp add: bytes_of_numeral)
    have z: "takeWhile (\<lambda>c. c = 48) ?d = []" using d by (simp add: ReadNum_zeros)
    have n: "sint (word_of_int (- i) :: 32 word) = - i" using 4 i by (intro sint_in_range) simp_all
    have m: "sint (word_of_int i :: 32 word) = i" using 4 by (intro sint_in_range) simp_all
    have "compareNumAndString (word_of_int i) buffer = Inr True"
      using compare_num_neg [OF c, of "word_of_int i"] 4 n m by simp
    moreover have "45 # ?d \<noteq> bytes_of ''-2147483648''"
    proof
      assume "45 # ?d = bytes_of ''-2147483648''"
      then have "dig0 (nat (- i)) = dig0 (2 ^ 31)" unfolding min_digits by (rule list.inject [THEN iffD1, THEN conjunct2])
      then have "int (nat (- i)) = 2 ^ 31" using bval_dig0 [of "nat (- i)"] bval_dig0 [of "2 ^ 31"] by simp
      then show False using 4 by simp
    qed
    ultimately show ?thesis using ReadNum_scan [of buffer "[45]" ?d] c s(2) d z by (simp add: Let_def)
  qed
qed

lemma ReadNum_invalid:
  assumes b: "0 \<in> set buffer" and no: "\<And>i. - (2 ^ 31) \<le> i \<Longrightarrow> i < 2 ^ 31 \<Longrightarrow> cstring buffer \<noteq> bytes_of (to_string i)"
  shows "ReadNum_value buffer = Inr 0"
proof (cases "cstring buffer = []")
  case False
  define sg ds where "sg = (if hd (cstring buffer) = 45 then [45] else [] :: byte list)" and "ds = drop (length sg) (cstring buffer)"
  have s: "cstring buffer = sg @ ds" "sg @ ds \<noteq> []" using False by (cases "cstring buffer"; auto simp: sg_def ds_def)+
  have sg: "sg = [] \<and> hd ds \<noteq> 45 \<or> sg = [45]" using s by (auto simp: sg_def split: if_splits)
  have m: "sg @ ds \<noteq> bytes_of ''-2147483648''" using no [of "- (2 ^ 31)"] s(1) min_numeral by simp
  note scan = ReadNum_scan [OF s(1) b s(2) m sg]
  let ?v = "bval 0 ds"
  have zero: "compareNumAndString 0 buffer = Inr (cstring buffer = bytes_of ''0'')" by (simp add: compareNumAndString_def)
  show ?thesis
  proof (cases "list_all is_dig ds \<and> (ds = [] \<or> hd ds \<noteq> 48)")
    case True
    then have d: "ds = dig0 (nat ?v)" and v: "0 \<le> ?v" using digits_canonical bval_nonneg [of 0 ds] by auto
    have z: "takeWhile (\<lambda>c. c = 48) ds = []" using True by (simp add: ReadNum_zeros)
    show ?thesis
    proof (cases "?v < 2 ^ 31")
      case small: True
      have "nat ?v = 0"
      proof (rule ccontr)
        assume "nat ?v \<noteq> 0"
        then have "sg @ ds = bytes_of (to_string (if sg = [] then ?v else - ?v))" using d v sg by (auto simp: bytes_of_numeral)
        moreover have "- (2 ^ 31) \<le> (if sg = [] then ?v else - ?v)" "(if sg = [] then ?v else - ?v) < 2 ^ 31" using small v by auto
        ultimately show False using no s(1) by metis
      qed
      then have "ds = []" "sg = [45]" using d s sg by (auto simp: dig0_def)
      then show ?thesis using scan by simp
    next
      case False
      then have big: "2 ^ 31 \<le> nat ?v" using nat_mono [of "2 ^ 31" ?v] by simp
      then have "10 \<le> length ds" using length_dig0 [of "nat ?v" 9] d by simp
      moreover have "compareNumAndString n buffer = Inr False" for n
        using compare_num_wrapped [of buffer sg "nat ?v"] s(1) d b big sg by auto
      ultimately show ?thesis using scan z by (simp add: Let_def)
    qed
  next
    case False
    then show ?thesis unfolding scan by (auto simp: Let_def zero ReadNum_zeros)
  qed
qed (simp add: ReadNum_value_def)

section \<open>Devices leave the kernel alone\<close>

definition same_rest :: "'a Hardware_scheme \<Rightarrow> 'a Hardware_scheme res \<Rightarrow> bool" where
  "same_rest s r = (case r of Inl _ \<Rightarrow> True | Inr s' \<Rightarrow> Hardware.more s' = Hardware.more s)"

lemma same_rest_Inr [simp]: "same_rest s (Inl e)" "same_rest s (Inr s') \<longleftrightarrow> Hardware.more s' = Hardware.more s"
  by (simp_all add: same_rest_def)

lemma same_rest_bind:
  "same_rest s r \<Longrightarrow> (\<And>s'. Hardware.more s' = Hardware.more s \<Longrightarrow> same_rest s (f s')) \<Longrightarrow> same_rest s (rbind r f)"
  by (cases r) auto

lemma Schedule_rest: "Hardware.more s' = Hardware.more s \<Longrightarrow> same_rest s (Schedule d t ty s')"
  by (auto simp: Schedule_def new_PendingInterrupt_def same_rest_def Let_def ASSERT_def split: sum.split if_splits elim!: rbind.elims)

lemma device_callback_rest: "Hardware.more s' = Hardware.more s \<Longrightarrow> same_rest s (device_callback d s')"
  by (cases d) (auto simp: device_callback_def Timer_CallBack_def Alarm_CallBack_def Timer_SetInterrupt_def YieldOnReturn_def
      RandomNumber_def Disk_CallBack_def SynchDisk_CallBack_def ConsoleOutput_CallBack_def SynchConsoleOutput_CallBack_def
      ConsoleInput_CallBack_def poll_keyboard_def SynchConsoleInput_CallBack_def NetworkOutput_CallBack_def
      NetworkInput_CallBack_def poll_socket_def Ethernet_Layer_CallBack_def Let_def ASSERT_def
      intro!: Schedule_rest same_rest_bind split: poll.split list.split option.split prod.split if_splits)

lemma fire_due_rest: "Hardware.more s' = Hardware.more s \<Longrightarrow> same_rest s (fire_due n device_callback s')"
proof (induction n arbitrary: s')
  case (Suc n)
  then show ?case
    by (auto intro!: same_rest_bind device_callback_rest split: prod.split list.split simp: RemoveFront_spec_def)
qed simp

lemma Idle_rest: "Hardware.more s' = Hardware.more s \<Longrightarrow> same_rest s (rbind (Idle (\<lambda>s. s) device_callback s') (\<lambda>(go, s). Inr s))"
  by (auto simp: Idle_def CheckIfDue_def rbind_assoc Let_def ASSERT_def case_prod_unfold
      intro!: fire_due_rest same_rest_bind split: if_splits simp del: fire_due.simps)

lemma idle_until_rest: "Hardware.more s' = Hardware.more s \<Longrightarrow> same_rest s (idle_until n ready s')"
proof (induction n arbitrary: s')
  case (Suc n)
  show ?case
  proof (cases "Idle (\<lambda>s. s) device_callback s'")
    case (Inr r)
    then have "Hardware.more (snd r) = Hardware.more s" using Idle_rest [OF Suc.prems] by (simp add: case_prod_unfold)
    then show ?thesis using Suc Inr by (simp add: case_prod_unfold)
  qed (use Suc in simp)
qed simp

lemma PutChar_rest: "same_rest s (SynchConsoleOutput_PutChar Inr (conout_P n) Inr c s)"
  by (auto simp: SynchConsoleOutput_PutChar_def ConsoleOutput_PutChar_def conout_P_def ASSERT_def
      intro!: same_rest_bind Schedule_rest idle_until_rest)

lemma GetChar_rest: "same_rest s (rbind (SynchConsoleInput_GetChar Inr (conin_P n) Inr s) (\<lambda>(c, s). Inr s))"
  by (auto simp: SynchConsoleInput_GetChar_def ConsoleInput_GetChar_def conin_P_def rbind_assoc case_prod_unfold Let_def
      intro!: same_rest_bind Schedule_rest idle_until_rest)

lemma same_kernel:
  "Hardware.more k' = Hardware.more k \<Longrightarrow> numberBuffer k' = numberBuffer k"
  for k :: "'a Kernel_scheme"
  by (cases k, cases k') simp

section \<open>Calls of a process that runs alone\<close>

text \<open>The result of a call when no other process runs at the points where it gives up the processor.\<close>

primrec alone :: "('s, 'a) run \<Rightarrow> ('a \<times> 's) option" where
  "alone (Ret a s) = Some (a, s)"
| "alone (Fault e) = None"
| "alone (Await c s k) = (if c s then alone (k s) else None)"
| "alone (Finished s) = None"

lemma alone_bind [simp]: "alone (run_bind r f) = (case alone r of None \<Rightarrow> None | Some (a, s) \<Rightarrow> alone (f a s))"
  by (induction r) auto

lemma alone_cbind: "alone (cbind c f k) = (case alone (c k) of None \<Rightarrow> None | Some (a, s) \<Rightarrow> alone (f a s))"
  by (simp add: cbind_def)

lemma alone_cthen: "alone (cthen c d k) = (case alone (c k) of None \<Rightarrow> None | Some (a, s) \<Rightarrow> alone (d s))"
  by (simp add: cthen_def alone_cbind)

lemma PutChar_alone:
  assumes "console_ready k" "100 \<le> n"
  shows "\<exists>k'. alone (PutChar n c k) = Some ((), k') \<and> console_ready k' \<and> display k' = display k @ [c] \<and> Hardware.more k' = Hardware.more k"
proof -
  obtain k' where k: "SynchConsoleOutput_PutChar Inr (conout_P n) Inr c k = Inr k'" "console_ready k'" "display k' = display k @ [c]"
    using SynchConsoleOutput_PutChar_ok [OF assms, of c] by auto
  then have "Hardware.more k' = Hardware.more k" using PutChar_rest [of k n c] by simp
  then show ?thesis using k by (simp add: PutChar_def change_def)
qed

lemma print_chars:
  assumes "console_ready k" "100 \<le> n"
    and out: "\<And>i k'. i \<in> set is \<Longrightarrow> Hardware.more k' = Hardware.more k \<Longrightarrow> f i k' = PutChar n (c i) k'"
  shows "\<exists>k'. alone (for_each_call f is k) = Some ((), k') \<and> console_ready k' \<and> display k' = display k @ map c is \<and>
    Hardware.more k' = Hardware.more k"
  using assms
proof (induction "is" arbitrary: k)
  case Nil
  then show ?case by (simp add: creturn_def)
next
  case (Cons i "is")
  obtain k1 where k1: "alone (PutChar n (c i) k) = Some ((), k1)" "console_ready k1" "display k1 = display k @ [c i]" "Hardware.more k1 = Hardware.more k"
    using PutChar_alone [OF Cons.prems(1,2)] by blast
  moreover have "f i k = PutChar n (c i) k" using Cons.prems(3) by simp
  moreover obtain k' where "alone (for_each_call f is k1) = Some ((), k')" "console_ready k'" "display k' = display k1 @ map c is"
      "Hardware.more k' = Hardware.more k1"
    using Cons.IH [OF k1(2) Cons.prems(2)] Cons.prems(3) k1(4) by force
  ultimately show ?case by (simp add: alone_cthen)
qed

lemma digits_loop_eq:
  "i + length (dig0 v) \<le> length b \<Longrightarrow>
   digits_loop v i b = Inr (i + length (dig0 v), take i b @ map (\<lambda>c. c - 48) (rev (dig0 v)) @ drop (i + length (dig0 v)) b)"
proof (induction v arbitrary: i b rule: less_induct)
  case (less v)
  show ?case
  proof (cases "v = 0")
    case True
    then show ?thesis by (subst digits_loop.simps) simp
  next
    case False
    let ?c = "word_of_nat (v mod 10) :: byte"
    have d: "dig0 v = dig0 (v div 10) @ [dig (v mod 10)]" using False dig0_rec by simp
    have c: "dig (v mod 10) - 48 = ?c" by (simp add: dig_def)
    have "digits_loop v i b = digits_loop (v div 10) (Suc i) (b[i := ?c])"
      using False less.prems d by (subst digits_loop.simps) (simp add: arr_set_def)
    also have "\<dots> = Inr (Suc i + length (dig0 (v div 10)), take (Suc i) (b[i := ?c]) @ map (\<lambda>c. c - 48) (rev (dig0 (v div 10))) @
        drop (Suc i + length (dig0 (v div 10))) (b[i := ?c]))"
      using less.prems d False by (intro less.IH) simp_all
    also have "take (Suc i) (b[i := ?c]) = take i b @ [?c]" using less.prems d by (simp add: take_Suc_conv_app_nth)
    finally show ?thesis using d c by simp
  qed
qed

lemma length_dig0_num: "length (dig0 (nat \<bar>sint (w :: 32 word)\<bar>)) \<le> 10"
proof -
  have "\<bar>sint w\<bar> \<le> 2 ^ 31" using sint_lt [of w] by (simp add: abs_le_iff)
  then have "nat \<bar>sint w\<bar> < 10 ^ 10" by simp
  then show ?thesis using length_dig0 by simp
qed
abbreviation show_digit :: "nat \<Rightarrow> int \<Rightarrow> ('a Kernel_scheme, unit) call" where
  "show_digit n j \<equiv> cbind (inspect (\<lambda>k. arr_get (numberBuffer k) j)) (\<lambda>d. PutChar n (d + 48))"

lemma rev_upto: "rev [0..int (length (c # cs)) - 1] = int (length cs) # rev [0..int (length cs) - 1]"
  by (simp add: upto_rec2)

text \<open>The last digits of the number in the buffer are printed from index \<open>length ds - 1\<close> down.\<close>

lemma show_digits:
  assumes "console_ready k" "100 \<le> n" and b: "numberBuffer k = map (\<lambda>c. c - 48) (rev ds) @ r"
  shows "\<exists>k'. alone (for_each_call (show_digit n) (rev [0..int (length ds) - 1]) k) = Some ((), k') \<and> console_ready k' \<and>
    display k' = display k @ ds \<and> Hardware.more k' = Hardware.more k"
proof -
  let ?c = "\<lambda>j. numberBuffer k ! nat j + 48"
  have "arr_get (numberBuffer k') j = Inr (numberBuffer k ! nat j)"
    if "j \<in> set (rev [0..int (length ds) - 1])" "Hardware.more k' = Hardware.more k" for j and k' :: "'a Kernel_scheme"
    using that b same_kernel [OF that(2)] by (auto simp: arr_get_def)
  then have f: "show_digit n j k' = PutChar n (?c j) k'"
    if "j \<in> set (rev [0..int (length ds) - 1])" "Hardware.more k' = Hardware.more k" for j and k' :: "'a Kernel_scheme"
    using that by simp
  have "map ?c (rev [0..int (length ds) - 1]) = ds"
    by (rule nth_equalityI) (auto simp: b rev_map [symmetric] rev_nth nth_append nat_diff_distrib nat_add_distrib)
  moreover from assms(1,2) f have "\<exists>k'. alone (for_each_call (show_digit n) (rev [0..int (length ds) - 1]) k) = Some ((), k') \<and>
      console_ready k' \<and> display k' = display k @ map ?c (rev [0..int (length ds) - 1]) \<and> Hardware.more k' = Hardware.more k"
    by (rule print_chars)
  ultimately show ?thesis by simp
qed

lemma SysPrintNum_positive:
  assumes "0 < sint w" "length (numberBuffer k) = 13"
  shows "SysPrintNum n w k = for_each_call (show_digit n) (rev [0..int (length (dig0 (nat (sint w)))) - 1])
    (k\<lparr>numberBuffer := map (\<lambda>c. c - 48) (rev (dig0 (nat (sint w)))) @ drop (length (dig0 (nat (sint w)))) (numberBuffer k)\<rparr>)"
proof -
  have "w \<noteq> 0" "w \<noteq> - 2147483648" using assms(1) by auto
  moreover have "digits_loop (nat (sint w)) 0 (numberBuffer k) = Inr (length (dig0 (nat (sint w))),
      map (\<lambda>c. c - 48) (rev (dig0 (nat (sint w)))) @ drop (length (dig0 (nat (sint w)))) (numberBuffer k))"
    using digits_loop_eq [of 0 "nat (sint w)" "numberBuffer k"] assms length_dig0_num [of w] by simp
  ultimately show ?thesis using assms(1) by (simp add: SysPrintNum_def Let_def)
qed

lemma console_ready_buffer [simp]: "console_ready (k\<lparr>numberBuffer := b\<rparr>) = console_ready k" for k :: "'a Kernel_scheme"
  by (simp add: console_ready_def hw_ok_def ints_ok_def num_pending_def quiet_def)

lemma SysPrintNum_positive_alone:
  assumes "console_ready k" "100 \<le> n" "length (numberBuffer k) = 13" "0 < sint w"
  shows "\<exists>k'. alone (SysPrintNum n w k) = Some ((), k') \<and> console_ready k' \<and> display k' = display k @ dig0 (nat (sint w)) \<and>
    numberBuffer k' = map (\<lambda>c. c - 48) (rev (dig0 (nat (sint w)))) @ drop (length (dig0 (nat (sint w)))) (numberBuffer k)"
proof -
  let ?b = "map (\<lambda>c. c - 48) (rev (dig0 (nat (sint w)))) @ drop (length (dig0 (nat (sint w)))) (numberBuffer k)"
  have k1: "console_ready (k\<lparr>numberBuffer := ?b\<rparr>)" using assms(1) by simp
  from show_digits [OF this assms(2), of "dig0 (nat (sint w))" "drop (length (dig0 (nat (sint w)))) (numberBuffer k)"]
  obtain k' where k': "alone (for_each_call (show_digit n) (rev [0..int (length (dig0 (nat (sint w)))) - 1]) (k\<lparr>numberBuffer := ?b\<rparr>)) = Some ((), k')"
      "console_ready k'" "display k' = display k @ dig0 (nat (sint w))" "Hardware.more k' = Hardware.more (k\<lparr>numberBuffer := ?b\<rparr>)"
    by auto
  then show ?thesis using SysPrintNum_positive [OF assms(4,3), of n] same_kernel [OF k'(4)] by simp
qed

lemma SysPrintNum_negative:
  assumes "sint w < 0" "w \<noteq> - 2147483648"
  shows "SysPrintNum n w = cthen (PutChar n 45) (SysPrintNum n (- w))" "0 < sint (- w)" "sint (- w) = - sint w"
proof -
  have "sint w \<noteq> - (2 ^ 31)"
  proof
    assume "sint w = - (2 ^ 31)"
    then have "sint w = sint (- 2147483648 :: 32 word)" by simp
    then show False using assms(2) sint_eq_iff by blast
  qed
  then have "- (2 ^ 31) < sint w" using sint_lt(2) [of w] by simp
  then have "sint (word_of_int (- sint w) :: 32 word) = - sint w" using assms(1) by (intro sint_in_range) simp_all
  then show m: "sint (- w) = - sint w" by simp
  then show p: "0 < sint (- w)" using assms(1) by simp
  have "w \<noteq> 0" "- w \<noteq> 0" "- w \<noteq> - 2147483648" "\<not> 0 < sint w" using assms p by auto
  then show "SysPrintNum n w = cthen (PutChar n 45) (SysPrintNum n (- w))"
    using assms m by (auto simp: SysPrintNum_def Let_def cthen_def fun_eq_iff cbind_def creturn_def)
qed

lemma SysPrintNum_alone:
  assumes "console_ready k" "100 \<le> n" "length (numberBuffer k) = 13"
  shows "\<exists>k'. alone (SysPrintNum n w k) = Some ((), k') \<and> console_ready k' \<and> display k' = display k @ bytes_of (to_string (sint w))"
proof -
  consider "w = 0" | "w = - 2147483648" | "0 < sint w" | "sint w < 0" "w \<noteq> - 2147483648"
    using sint_eq_iff [of w 0] by fastforce
  then show ?thesis
  proof cases
    case 1
    then show ?thesis using PutChar_alone [OF assms(1,2), of 48] by (auto simp: SysPrintNum_def bytes_of_numeral)
  next
    case 2
    obtain k1 where k1: "alone (PutChar n 45 k) = Some ((), k1)" "console_ready k1" "display k1 = display k @ [45]"
      using PutChar_alone [OF assms(1,2)] by blast
    have "bytes_of (to_string (sint w)) = 45 # bytes_of ''2147483648''" using 2 min_numeral by (simp add: bytes_of_def)
    then show ?thesis using print_chars [OF k1(2) assms(2), of "bytes_of ''2147483648''" "PutChar n" "\<lambda>c. c"] k1 2
      by (auto simp: SysPrintNum_def alone_cthen)
  next
    case 3
    then show ?thesis using SysPrintNum_positive_alone [OF assms 3] by (auto simp: bytes_of_numeral)
  next
    case 4
    note m = SysPrintNum_negative [OF 4]
    obtain k1 where k1: "alone (PutChar n 45 k) = Some ((), k1)" "console_ready k1" "display k1 = display k @ [45]" "Hardware.more k1 = Hardware.more k"
      using PutChar_alone [OF assms(1,2)] by blast
    have "length (numberBuffer k1) = 13" using same_kernel [OF k1(4)] assms(3) by simp
    from SysPrintNum_positive_alone [OF k1(2) assms(2) this m(2)]
    obtain k' where "alone (SysPrintNum n (- w) k1) = Some ((), k')" "console_ready k'" "display k' = display k1 @ dig0 (nat (sint (- w)))" by auto
    then show ?thesis using k1 m(3) 4 unfolding m(1) by (simp add: alone_cthen bytes_of_numeral)
  qed
qed

section \<open>Reading from the keyboard\<close>

lemma GetChar_alone:
  assumes "input_ready k" "keyboard k = KeyTyped c # ks" "c \<noteq> EOFc" "100 \<le> n"
  shows "\<exists>k'. alone (GetChar n k) = Some (c, k') \<and> input_ready k' \<and> keyboard k' = ks \<and> Hardware.more k' = Hardware.more k"
proof -
  obtain k' where k: "SynchConsoleInput_GetChar Inr (conin_P n) Inr k = Inr (c, k')" "input_ready k'" "keyboard k' = ks"
    using SynchConsoleInput_GetChar_ok [OF assms] by auto
  then have "Hardware.more k' = Hardware.more k" using GetChar_rest [of k n] by simp
  then show ?thesis using k by (simp add: GetChar_def compute_def)
qed

lemma input_ready_buffer [simp]: "input_ready (k\<lparr>numberBuffer := b\<rparr>) = input_ready k" for k :: "'a Kernel_scheme"
  by (simp add: input_ready_def hw_ok_def ints_ok_def num_pending_def quiet_def)

text \<open>What ends a number: a blank, or its twelfth character.\<close>

definition number_ends :: "nat \<Rightarrow> byte list \<Rightarrow> bool" where
  "number_ends l rest \<longleftrightarrow> l = 12 \<or> l < 12 \<and> (case rest of [] \<Rightarrow> False | b # _ \<Rightarrow> isBlank b)"

lemma read_loop_alone:
  assumes "input_ready k" "100 \<le> n" "keyboard k = map KeyTyped (cs @ rest) @ ks"
    "list_all (\<lambda>c. \<not> isBlank c \<and> c \<noteq> EOFc) (c # cs)" "number_ends (Suc (i + length cs)) rest" "length (numberBuffer k) = 13"
  shows "\<exists>k'. alone (read_loop n (12 - i) i c k) = Some ((), k') \<and> input_ready k' \<and>
    numberBuffer k' = take i (numberBuffer k) @ c # cs @ drop (Suc (i + length cs)) (numberBuffer k)"
  using assms
proof (induction cs arbitrary: i c k)
  case Nil
  then have i: "i \<le> 11" by (auto simp: number_ends_def)
  let ?k = "k\<lparr>numberBuffer := (numberBuffer k)[i := c]\<rparr>"
  have b: "numberBuffer ?k = take i (numberBuffer k) @ c # [] @ drop (Suc (i + 0)) (numberBuffer k)" "input_ready ?k"
    using i Nil.prems(1,6) by (simp_all add: upd_conv_take_nth_drop)
  have s: "12 - i = Suc (11 - i)" using i by simp
  have r: "alone (read_loop n (12 - i) i c k) = (if i = 11 then Some ((), ?k) else alone (cbind (GetChar n) (read_loop n (11 - i) (Suc i)) ?k))"
    unfolding s using Nil.prems(4,6) i by (auto simp: set_buffer_def arr_set_def MAX_NUM_LENGTH_def creturn_def)
  show ?case
  proof (cases "i = 11")
    case False
    then obtain b' rest' where e: "rest = b' # rest'" "isBlank b'" using Nil.prems(5) by (auto simp: number_ends_def split: list.splits)
    then have "b' \<noteq> EOFc" by (auto simp: isBlank_def EOFc_def)
    then obtain k' where k': "alone (GetChar n ?k) = Some (b', k')" "input_ready k'" "Hardware.more k' = Hardware.more ?k"
      using GetChar_alone [OF b(2), of b' "map KeyTyped rest' @ ks" n] Nil.prems(2,3) e by auto
    have s': "11 - i = Suc (10 - i)" using False i by simp
    have "alone (read_loop n (11 - i) (Suc i) b' k') = Some ((), k')" unfolding s' using e by (simp add: creturn_def)
    then show ?thesis using r False k' b(1) same_kernel [OF k'(3)] by (simp add: alone_cbind)
  qed (use r b in auto)
next
  case (Cons d cs)
  then have i: "i < 11" by (auto simp: number_ends_def)
  let ?k = "k\<lparr>numberBuffer := (numberBuffer k)[i := c]\<rparr>"
  have rd: "input_ready ?k" using Cons.prems(1) by simp
  have s: "12 - i = Suc (11 - i)" using i by simp
  have r: "alone (read_loop n (12 - i) i c k) = alone (cbind (GetChar n) (read_loop n (11 - i) (Suc i)) ?k)"
    unfolding s using Cons.prems(4,6) i by (auto simp: set_buffer_def arr_set_def MAX_NUM_LENGTH_def creturn_def)
  obtain k1 where k1: "alone (GetChar n ?k) = Some (d, k1)" "input_ready k1" "keyboard k1 = map KeyTyped (cs @ rest) @ ks"
      "Hardware.more k1 = Hardware.more ?k"
    using GetChar_alone [OF rd, of d "map KeyTyped (cs @ rest) @ ks" n] Cons.prems(2,3,4) by auto
  have b: "numberBuffer k1 = (numberBuffer k)[i := c]" using same_kernel [OF k1(4)] by simp
  have "\<exists>k'. alone (read_loop n (12 - Suc i) (Suc i) d k1) = Some ((), k') \<and> input_ready k' \<and>
      numberBuffer k' = take (Suc i) (numberBuffer k1) @ d # cs @ drop (Suc (Suc i + length cs)) (numberBuffer k1)"
    using Cons.prems(4,5,6) b by (intro Cons.IH [OF k1(2) Cons.prems(2) k1(3)]) simp_all
  then obtain k' where k': "alone (read_loop n (12 - Suc i) (Suc i) d k1) = Some ((), k')" "input_ready k'"
      "numberBuffer k' = take (Suc i) (numberBuffer k1) @ d # cs @ drop (Suc (Suc i + length cs)) (numberBuffer k1)" by blast
  moreover have "take (Suc i) (numberBuffer k1) = take i (numberBuffer k) @ [c]"
    unfolding b using i Cons.prems(6) by (simp add: take_Suc_conv_app_nth)
  ultimately show ?case using r k1(1) b by (simp add: alone_cbind)
qed

lemma readUntilBlank_alone:
  assumes "input_ready k" "100 \<le> n" "keyboard k = map KeyTyped (cs @ rest) @ ks" "cs \<noteq> []"
    "list_all (\<lambda>c. \<not> isBlank c \<and> c \<noteq> EOFc) cs" "number_ends (length cs) rest"
  shows "\<exists>k'. alone (readUntilBlank n k) = Some ((), k') \<and> input_ready k' \<and> numberBuffer k' = cs @ replicate (13 - length cs) 0"
proof -
  obtain c ds where cs: "cs = c # ds" using assms(4) by (cases cs) auto
  let ?k = "k\<lparr>numberBuffer := replicate 13 0\<rparr>"
  have "input_ready ?k" using assms(1) by simp
  then obtain k1 where k1: "alone (GetChar n ?k) = Some (c, k1)" "input_ready k1" "keyboard k1 = map KeyTyped (ds @ rest) @ ks"
      "Hardware.more k1 = Hardware.more ?k"
    using GetChar_alone [of ?k c "map KeyTyped (ds @ rest) @ ks" n] assms(2,3,5) cs by auto
  have b: "numberBuffer k1 = replicate 13 0" using same_kernel [OF k1(4)] by simp
  have "\<exists>k'. alone (read_loop n (12 - 0) 0 c k1) = Some ((), k') \<and> input_ready k' \<and>
      numberBuffer k' = take 0 (numberBuffer k1) @ c # ds @ drop (Suc (0 + length ds)) (numberBuffer k1)"
    using assms(5,6) cs b by (intro read_loop_alone [OF k1(2) assms(2) k1(3)]) simp_all
  moreover have "Suc MAX_NUM_LENGTH = 12 - 0" by (simp add: MAX_NUM_LENGTH_def)
  moreover have "c \<noteq> EOFc" "\<not> isBlank c" using assms(5) cs by auto
  ultimately show ?thesis using k1(1) b cs unfolding readUntilBlank_def
    by (auto simp: alone_cbind MAX_NUM_LENGTH_def)
qed

lemma cstring_padded: "cstring (cs @ replicate n 0) = cstring cs"
  by (induction cs) (auto simp: cstring_def)

lemma is_dig_plain: "is_dig c \<Longrightarrow> \<not> isBlank c \<and> c \<noteq> EOFc \<and> c \<noteq> 0"
  by (auto simp: is_dig_def isBlank_def EOFc_def)

lemma numeral_chars:
  "bytes_of (to_string (sint (w :: 32 word))) \<noteq> []" "length (bytes_of (to_string (sint w))) \<le> 11"
  "list_all (\<lambda>c. \<not> isBlank c \<and> c \<noteq> EOFc \<and> c \<noteq> 0) (bytes_of (to_string (sint w)))"
proof -
  have d: "list_all (\<lambda>c. \<not> isBlank c \<and> c \<noteq> EOFc \<and> c \<noteq> 0) (dig0 v)" for v
    using is_dig_plain dig0_digits by (auto simp: list_all_iff)
  consider "sint w = 0" | "0 < sint w" | "sint w < 0" by linarith
  note cases = this
  show "bytes_of (to_string (sint w)) \<noteq> []" by (rule cases) (auto simp: bytes_of_numeral dig0_def)
  show "length (bytes_of (to_string (sint w))) \<le> 11" using length_dig0_num [of w] by (cases rule: cases) (auto simp: bytes_of_numeral)
  show "list_all (\<lambda>c. \<not> isBlank c \<and> c \<noteq> EOFc \<and> c \<noteq> 0) (bytes_of (to_string (sint w)))"
    using d [of "nat (sint w)"] d [of "nat (- sint w)"] by (cases rule: cases) (auto simp: bytes_of_numeral isBlank_def EOFc_def)
qed

definition demo_console :: "byte list \<Rightarrow> Kernel" where
  "demo_console cs = (Machine.extend demo_machine
     (Kernel.fields [] [] 0 [] [] (FileSystem_new [] [] demo_host) 0 \<lparr>numBits = 0, numWords = 0, bmap = []\<rparr>
        \<lparr>bm = \<lparr>numBits = 0, numWords = 0, bmap = []\<rparr>, slots = []\<rparr> \<lparr>pcb = [], psize = 0, bmsem = 0\<rparr> (replicate 13 0)
        \<lparr>joinsem = 0, exitsem = 0, multex = 0, exitcode = 0, numwait = 0, pcb_thread = None, filename = [], parentID = 0, pcb_processID = 0\<rparr>
        \<lparr>space_table = [], numPages = 0\<rparr>))
     \<lparr>next_pid := 1, keyboard := map KeyTyped cs, pending := [\<lparr>pid = 0, callOnInterrupt = DevConsoleIn, whent = 100, int_type = ConsoleReadInt\<rparr>]\<rparr>"

lemma demo_console_ready:
  "console_ready (demo_console cs)" "input_ready (demo_console cs)" "keyboard (demo_console cs) = map KeyTyped cs"
  "numberBuffer (demo_console cs) = replicate 13 0"
  by (simp_all add: demo_console_def demo_machine_def Machine.defs Kernel.defs NetKernel.defs Machine_new_def net_boot_def power_on_def Interrupt.defs Hardware.defs
      Interrupt_new_def Statistics_new_def console_ready_def input_ready_def hw_ok_def ints_ok_def num_pending_def quiet_def ConsoleTime_def)

section \<open>Properties\<close>



text \<open>C37. What \<open>PrintNum\<close> prints, \<open>ReadNum\<close> reads back.  A process that runs alone prints the decimal numeral of any
  32-bit number, the smallest one included; the same characters typed and followed by a blank give the
  number again.\<close>

theorem print_read_number:
  assumes "console_ready k" "100 \<le> n" "length (numberBuffer k) = 13"
    and "input_ready j" "isBlank b" "keyboard j = map KeyTyped (bytes_of (to_string (sint w)) @ [b]) @ ks"
  shows "(\<exists>k'. alone (SysPrintNum n w k) = Some ((), k') \<and> display k' = display k @ bytes_of (to_string (sint w))) \<and>
    (\<exists>j'. alone (SysReadNum n j) = Some (w, j'))"
proof -
  let ?s = "bytes_of (to_string (sint w))"
  have s: "?s \<noteq> []" "length ?s \<le> 11" "list_all (\<lambda>c. \<not> isBlank c \<and> c \<noteq> EOFc \<and> c \<noteq> 0) ?s"
    by (rule numeral_chars)+
  let ?b = "?s @ replicate (13 - length ?s) (0 :: byte)"
  have "number_ends (length ?s) [b]" using s(2) assms(5) by (simp add: number_ends_def)
  moreover have "list_all (\<lambda>c. \<not> isBlank c \<and> c \<noteq> EOFc) ?s" using s(3) by (simp add: list_all_iff)
  ultimately obtain j' where j': "alone (readUntilBlank n j) = Some ((), j')" "numberBuffer j' = ?b"
    using readUntilBlank_alone [OF assms(4,2,6) s(1)] by auto
  have "cstring ?b = ?s" unfolding cstring_padded using s(3) by (simp add: cstring_def list_all_iff)
  moreover have "0 \<in> set ?b" using s(2) by simp
  ultimately have "ReadNum_value ?b = Inr w" using ReadNum_valid [of ?b "sint w"] sint_lt [of w] by simp
  then show ?thesis using SysPrintNum_alone [OF assms(1-3)] j' by (auto simp: SysReadNum_def alone_cthen inspect_def)
qed

theorem print_read_number_witness:
  "(\<exists>k'. alone (SysPrintNum 100 (- 42) (demo_console [])) = Some ((), k') \<and>
      display k' = display (demo_console []) @ bytes_of (to_string (sint (- 42 :: 32 word)))) \<and>
   (\<exists>j'. alone (SysReadNum 100 (demo_console (bytes_of (to_string (sint (- 42 :: 32 word))) @ [10]))) = Some (- 42, j'))"
proof (rule print_read_number)
  show "keyboard (demo_console (bytes_of (to_string (sint (- 42 :: 32 word))) @ [10])) =
      map KeyTyped (bytes_of (to_string (sint (- 42 :: 32 word))) @ [10]) @ []" by (simp add: demo_console_ready)
qed (simp_all add: demo_console_ready isBlank_def)

text \<open>The number buffer is shared by all processes.  When another process prints a number with as many digits
  at the moment when a process is about to print the first digit of its own, that process goes on with
  the digits of the other number.\<close>

theorem print_number_race:
  assumes "console_ready k" "100 \<le> n" "length (numberBuffer k) = 13" "0 < sint a" "0 < sint b"
    and len: "length (to_string (sint a)) = length (to_string (sint b))"
  shows "\<exists>k1 goes_on k2 k3. SysPrintNum n a k = Await (\<lambda>_. True) k1 goes_on \<and>
    alone (SysPrintNum n b k1) = Some ((), k2) \<and> alone (goes_on k2) = Some ((), k3) \<and>
    display k3 = display k @ bytes_of (to_string (sint b)) @ hd (bytes_of (to_string (sint a))) # tl (bytes_of (to_string (sint b)))"
proof -
  obtain c cs where c: "dig0 (nat (sint a)) = c # cs" using dig0_pos(1) [of "nat (sint a)"] assms(4) by (cases "dig0 (nat (sint a))") auto
  obtain d ds where d: "dig0 (nat (sint b)) = d # ds" using dig0_pos(1) [of "nat (sint b)"] assms(5) by (cases "dig0 (nat (sint b))") auto
  have num: "bytes_of (to_string (sint a)) = c # cs" "bytes_of (to_string (sint b)) = d # ds" using assms(4,5) c d by (simp_all add: bytes_of_numeral)
  have "length (c # cs) = length (d # ds)" using len num bytes_of_simps(3) by metis
  then have l: "length cs = length ds" by simp
  define buf where "buf = map (\<lambda>c. c - 48) (rev (c # cs)) @ drop (length (c # cs)) (numberBuffer k)"
  define k1 where "k1 = k\<lparr>numberBuffer := buf\<rparr>"
  define rest where "rest = for_each_call (show_digit n :: int \<Rightarrow> ('a Kernel_scheme, unit) call) (rev [0..int (length cs) - 1])"
  have "arr_get (numberBuffer k1) (int (length cs)) = Inr (c - 48)"
    by (simp add: k1_def buf_def arr_get_def nth_append)
  then have A: "SysPrintNum n a k = Await (\<lambda>_. True) k1 (cthen (change (SynchConsoleOutput_PutChar Inr (conout_P n) Inr c)) rest)"
    using SysPrintNum_positive [OF assms(4,3), of n] unfolding c rev_upto k1_def [unfolded buf_def, symmetric]
    by (simp add: rest_def PutChar_def call_assoc cbind_cthen)
  have k1: "console_ready k1" "length (numberBuffer k1) = 13" using assms(1,3) c length_dig0_num [of a] assms(4) by (auto simp: k1_def buf_def)
  obtain k2 where k2: "alone (SysPrintNum n b k1) = Some ((), k2)" "console_ready k2" "display k2 = display k @ d # ds"
      "numberBuffer k2 = map (\<lambda>c. c - 48) (rev ds) @ ((d - 48) # drop (length (d # ds)) (numberBuffer k1))"
    using SysPrintNum_positive_alone [OF k1(1) assms(2) k1(2) assms(5)] d by (auto simp: k1_def)
  obtain k' where k': "SynchConsoleOutput_PutChar Inr (conout_P n) Inr c k2 = Inr k'" "console_ready k'" "display k' = display k2 @ [c]"
    using SynchConsoleOutput_PutChar_ok [OF k2(2) assms(2), of c] by auto
  then have "numberBuffer k' = numberBuffer k2" using PutChar_rest [of k2 n c] by (intro same_kernel) simp
  with k2(4) obtain k3 where "alone (rest k') = Some ((), k3)" "display k3 = display k' @ ds"
    using show_digits [OF k'(2) assms(2), of ds] by (auto simp: rest_def l)
  moreover from this(1) have "alone (cthen (change (SynchConsoleOutput_PutChar Inr (conout_P n) Inr c)) rest k2) = Some ((), k3)"
    using k'(1) by simp
  ultimately show ?thesis using A k2(1,3) k'(3) unfolding num
    by - (rule exI [of _ k1], rule exI [of _ "cthen (change (SynchConsoleOutput_PutChar Inr (conout_P n) Inr c)) rest"],
        rule exI [of _ k2], rule exI [of _ k3], simp)
qed

theorem print_number_race_witness:
  "\<exists>k1 goes_on k2 k3. SysPrintNum 100 12 (demo_console []) = Await (\<lambda>_. True) k1 goes_on \<and>
    alone (SysPrintNum 100 34 k1) = Some ((), k2) \<and> alone (goes_on k2) = Some ((), k3) \<and>
    display k3 = display (demo_console []) @ bytes_of (to_string (sint (34 :: 32 word))) @
      hd (bytes_of (to_string (sint (12 :: 32 word)))) # tl (bytes_of (to_string (sint (34 :: 32 word))))"
  by (rule print_number_race) (simp_all add: demo_console_ready to_string_def nat_digits.simps)

end
