(* ===== verification/Syscalls.thy ===== *)
theory Syscalls
  imports Processes Sem_Table Console_Calls
begin

text \<open>
  System calls (\<open>userprog/exception.cc\<close>, \<open>userprog/ksyscall.h\<close>, \<open>userprog/syscall.h\<close>): the copying of strings
  between user and kernel memory, one handler per call, and \<open>ExceptionHandler\<close>, which dispatches on the
  exception and on the number in register 2.  Handlers are calls of the run monad: blocking ones wait at
  the points where the code waits.  An exception inside the kernel's own accesses to user memory prints
  a message and halts the machine.
\<close>

section \<open>Numbers of the calls\<close>

definition SC_Halt :: int where "SC_Halt = 0"
definition SC_Exit :: int where "SC_Exit = 1"
definition SC_Exec :: int where "SC_Exec = 2"
definition SC_Join :: int where "SC_Join = 3"
definition SC_Create :: int where "SC_Create = 4"
definition SC_Remove :: int where "SC_Remove = 5"
definition SC_Open :: int where "SC_Open = 6"
definition SC_Read :: int where "SC_Read = 7"
definition SC_Write :: int where "SC_Write = 8"
definition SC_Seek :: int where "SC_Seek = 9"
definition SC_Close :: int where "SC_Close = 10"
definition SC_ThreadFork :: int where "SC_ThreadFork = 11"
definition SC_ThreadYield :: int where "SC_ThreadYield = 12"
definition SC_ExecV :: int where "SC_ExecV = 13"
definition SC_ThreadExit :: int where "SC_ThreadExit = 14"
definition SC_ThreadJoin :: int where "SC_ThreadJoin = 15"
definition SC_Add :: int where "SC_Add = 42"
definition SC_ReadNum :: int where "SC_ReadNum = 43"
definition SC_PrintNum :: int where "SC_PrintNum = 44"
definition SC_ReadChar :: int where "SC_ReadChar = 45"
definition SC_PrintChar :: int where "SC_PrintChar = 46"
definition SC_RandomNum :: int where "SC_RandomNum = 47"
definition SC_ReadString :: int where "SC_ReadString = 48"
definition SC_PrintString :: int where "SC_PrintString = 49"
definition SC_CreateFile :: int where "SC_CreateFile = 50"
definition SC_CreateSemaphore :: int where "SC_CreateSemaphore = 51"
definition SC_Wait :: int where "SC_Wait = 52"
definition SC_Signal :: int where "SC_Signal = 53"
definition SC_GetPid :: int where "SC_GetPid = 54"
definition SC_Create_Socket :: int where "SC_Create_Socket = 55"
definition SC_Close_Socket :: int where "SC_Close_Socket = 56"
definition SC_Bind :: int where "SC_Bind = 57"
definition SC_Connect :: int where "SC_Connect = 58"
definition SC_Send_Msg :: int where "SC_Send_Msg = 59"
definition SC_Recv_Msg :: int where "SC_Recv_Msg = 60"

lemmas SC_defs = SC_Halt_def SC_Exit_def SC_Exec_def SC_Join_def SC_Create_def SC_Remove_def SC_Open_def SC_Read_def
  SC_Write_def SC_Seek_def SC_Close_def SC_ThreadFork_def SC_ThreadYield_def SC_ExecV_def SC_ThreadExit_def
  SC_ThreadJoin_def SC_Add_def SC_ReadNum_def SC_PrintNum_def SC_ReadChar_def SC_PrintChar_def SC_RandomNum_def
  SC_ReadString_def SC_PrintString_def SC_CreateFile_def SC_CreateSemaphore_def SC_Wait_def SC_Signal_def SC_GetPid_def
  SC_Create_Socket_def SC_Close_Socket_def SC_Bind_def SC_Connect_def SC_Send_Msg_def SC_Recv_Msg_def

section \<open>User memory\<close>

definition halt_on_exception :: "'a Kernel_scheme handler" where
  "halt_on_exception which k = Inl Halted"

definition read_byte :: "32 word \<Rightarrow> 'a Kernel_scheme \<Rightarrow> (32 word \<times> 'a Kernel_scheme) res" where
  "read_byte addr k =
     rbind (ReadMem halt_on_exception addr 1 k) (\<lambda>(v, k). case v of None \<Rightarrow> Inl Halted | Some v \<Rightarrow> Inr (v, k))"

definition write_byte :: "32 word \<Rightarrow> 32 word \<Rightarrow> 'a Kernel_scheme \<Rightarrow> 'a Kernel_scheme res" where
  "write_byte addr v k = rbind (WriteMem halt_on_exception addr 1 v k) (\<lambda>(_, k). Inr k)"

text \<open>The first loop of \<open>stringUser2System\<close> finds the length.  It leaves the address space after at most
  as many steps as the page table has bytes; the fuel is one more.\<close>

fun string_length :: "nat \<Rightarrow> 32 word \<Rightarrow> int \<Rightarrow> int \<Rightarrow> 'a Kernel_scheme \<Rightarrow> (int \<times> 'a Kernel_scheme) res" where
  "string_length 0 addr convert_length len k = Inl Diverges"
| "string_length (Suc n) addr convert_length len k =
     rbind (read_byte (addr + word_of_int len) k) (\<lambda>(oneChar, k).
     let len = len + 1 in
     if oneChar = 0 \<and> convert_length = - 1 \<or> len = convert_length then Inr (len, k)
     else string_length n addr convert_length len k)"

fun copy_in :: "32 word \<Rightarrow> int list \<Rightarrow> byte list \<Rightarrow> 'a Kernel_scheme \<Rightarrow> (byte list \<times> 'a Kernel_scheme) res" where
  "copy_in addr [] str k = Inr (str, k)"
| "copy_in addr (i # is) str k =
     rbind (read_byte (addr + word_of_int i) k) (\<lambda>(oneChar, k). copy_in addr is (str @ [ucast oneChar]) k)"

definition string_fuel :: "'a Kernel_scheme \<Rightarrow> nat" where
  "string_fuel k = Suc (nat (pageTableSize k * PageSize))"

definition stringUser2System :: "32 word \<Rightarrow> int \<Rightarrow> 'a Kernel_scheme \<Rightarrow> (byte list \<times> 'a Kernel_scheme) res" where
  "stringUser2System addr convert_length k =
     rbind (string_length (string_fuel k) addr convert_length 0 k) (\<lambda>(len, k). copy_in addr [0..len - 1] [] k)"

definition StringSys2User :: "byte list \<Rightarrow> 32 word \<Rightarrow> int \<Rightarrow> 'a Kernel_scheme \<Rightarrow> 'a Kernel_scheme res" where
  "StringSys2User str addr convert_length k =
     rbind (if convert_length = - 1 then strlen str else Inr convert_length) (\<lambda>len.
     rbind (for_each (\<lambda>i k. rbind (arr_get str i) (\<lambda>c. write_byte (addr + word_of_int i) (scast c) k)) [0..len - 1] k) (\<lambda>k.
     write_byte (addr + word_of_int len) 0 k))"

definition move_program_counter :: "'a Kernel_scheme \<Rightarrow> 'a Kernel_scheme res" where
  "move_program_counter k =
     rbind (ReadRegister (int PCReg) k) (\<lambda>pc.
     rbind (WriteRegister (int PrevPCReg) pc k) (\<lambda>k.
     rbind (ReadRegister (int NextPCReg) k) (\<lambda>next.
     rbind (WriteRegister (int PCReg) next k) (\<lambda>k.
     rbind (ReadRegister (int NextPCReg) k) (\<lambda>next.
     WriteRegister (int NextPCReg) (next + 4) k)))))"

text \<open>Arguments, and the end of most handlers: the result in register 2, then the next instruction.\<close>

definition arg :: "int \<Rightarrow> ('a Kernel_scheme, 32 word) call" where
  "arg i = inspect (ReadRegister i)"

definition answer :: "32 word \<Rightarrow> ('a Kernel_scheme, unit) call" where
  "answer r = cthen (change (WriteRegister 2 r)) (change move_program_counter)"

definition user_string :: "32 word \<Rightarrow> ('a Kernel_scheme, byte list) call" where
  "user_string addr = compute (stringUser2System addr (- 1))"

section \<open>ksyscall.h\<close>

definition SysAdd :: "32 word \<Rightarrow> 32 word \<Rightarrow> 32 word" where
  "SysAdd op1 op2 = op1 + op2"

definition on_files :: "(int \<Rightarrow> FileSystem \<Rightarrow> ('r \<times> FileSystem) res) \<Rightarrow> ('a Kernel_scheme, 'r) call" where
  "on_files f = compute (\<lambda>k. rbind (f (my_pid k) (fileSystem k)) (\<lambda>(r, fs). Inr (r, k\<lparr>fileSystem := fs\<rparr>)))"

definition SysCreateFile :: "byte list \<Rightarrow> ('a Kernel_scheme, bool) call" where
  "SysCreateFile fileName =
     cbind (inspect (\<lambda>_. strlen fileName)) (\<lambda>fileNameLength.
     if fileNameLength = 0 then creturn False
     else on_files (\<lambda>i. FileSystem_Create i (string_of (cstring fileName))))"

definition SysOpen :: "byte list \<Rightarrow> int \<Rightarrow> ('a Kernel_scheme, int) call" where
  "SysOpen fileName type =
     (if type \<noteq> 0 \<and> type \<noteq> 1 then creturn (- 1)
      else on_files (\<lambda>i. FileSystem_Open i (string_of (cstring fileName)) type))"

definition SysClose :: "int \<Rightarrow> ('a Kernel_scheme, int) call" where
  "SysClose fid = on_files (\<lambda>i. FileSystem_Close i fid)"

fun GetString :: "nat \<Rightarrow> nat \<Rightarrow> byte list \<Rightarrow> ('a Kernel_scheme, bool \<times> byte list) call" where
  "GetString n 0 buffer = creturn (True, buffer)"
| "GetString n (Suc m) buffer =
     cbind (GetChar n) (\<lambda>c.
     if c = EOFc then creturn (False, buffer @ [0]) else GetString n m (buffer @ [c]))"

definition SysRead :: "nat \<Rightarrow> byte list \<Rightarrow> int \<Rightarrow> int \<Rightarrow> ('a Kernel_scheme, int \<times> byte list) call" where
  "SysRead n buffer charCount fileId =
     (if fileId = 0 then
        cbind (GetString n (nat charCount) []) (\<lambda>(full, chars).
        creturn (if full then charCount else - 2, fill buffer chars))
      else on_files (\<lambda>i. FileSystem_Read i buffer charCount fileId))"

definition SysWrite :: "nat \<Rightarrow> byte list \<Rightarrow> int \<Rightarrow> int \<Rightarrow> ('a Kernel_scheme, int) call" where
  "SysWrite n buffer charCount fileId =
     (if fileId = 1 then cthen (SysPrintString n buffer charCount) (creturn charCount)
      else on_files (\<lambda>i. FileSystem_Write i buffer charCount fileId))"

definition SysSeek :: "int \<Rightarrow> int \<Rightarrow> ('a Kernel_scheme, int) call" where
  "SysSeek seekPos fileId =
     (if fileId \<le> 1 then creturn (- 1) else on_files (\<lambda>i. FileSystem_Seek i seekPos fileId))"

definition SysExec :: "byte list \<Rightarrow> ('a Kernel_scheme, int) call" where
  "SysExec nm =
     cbind (on_files (\<lambda>_. FileSystem_OpenFile (string_of (cstring nm)))) (\<lambda>oFile.
     case oFile of
       None \<Rightarrow> creturn (- 1)
     | Some f \<Rightarrow> cthen (change (delete_executable f)) (ExecUpdate (string_of (cstring nm))))"

definition SysJoin :: "int \<Rightarrow> ('a Kernel_scheme, int) call" where
  "SysJoin i = JoinUpdate i"

definition SysExit :: "int \<Rightarrow> ('a Kernel_scheme, int) call" where
  "SysExit i = ExitUpdate i"

text \<open>The calls on named semaphores also say whether they have deleted the name.\<close>

definition deletes_name :: "('a Kernel_scheme, int) call \<Rightarrow> ('a Kernel_scheme, int \<times> bool) call" where
  "deletes_name c = cbind c (\<lambda>res. creturn (if res = - 1 then (- 1, True) else (0, False)))"

definition SysCreateSemaphore :: "byte list \<Rightarrow> int \<Rightarrow> ('a Kernel_scheme, int \<times> bool) call" where
  "SysCreateSemaphore nm initialValue = deletes_name (STable_Create (string_of (cstring nm)) initialValue)"

definition SysWait :: "byte list \<Rightarrow> ('a Kernel_scheme, int \<times> bool) call" where
  "SysWait nm = deletes_name (STable_Wait (string_of (cstring nm)))"

definition SysSignal :: "byte list \<Rightarrow> ('a Kernel_scheme, int \<times> bool) call" where
  "SysSignal nm = deletes_name (STable_Signal (string_of (cstring nm)))"

definition SysGetPid :: "('a Kernel_scheme, int) call" where
  "SysGetPid = ask my_pid"

definition SysRandomNum :: "('a Kernel_scheme, int) call" where
  "SysRandomNum = compute (\<lambda>k. Inr (RandomNumber k))"

section \<open>Handlers\<close>

definition handle_not_implemented_SC :: "('a Kernel_scheme, unit) call" where
  "handle_not_implemented_SC = change move_program_counter"

definition handle_SC_Halt :: "('a Kernel_scheme, unit) call" where
  "handle_SC_Halt = (\<lambda>k. Fault Halted)"

definition handle_SC_Add :: "('a Kernel_scheme, unit) call" where
  "handle_SC_Add = cbind (arg 4) (\<lambda>op1. cbind (arg 5) (\<lambda>op2. answer (SysAdd op1 op2)))"

definition handle_SC_ReadNum :: "nat \<Rightarrow> ('a Kernel_scheme, unit) call" where
  "handle_SC_ReadNum n = cbind (SysReadNum n) answer"

definition handle_SC_PrintNum :: "nat \<Rightarrow> ('a Kernel_scheme, unit) call" where
  "handle_SC_PrintNum n = cbind (arg 4) (\<lambda>num. cthen (SysPrintNum n num) (change move_program_counter))"

definition handle_SC_ReadChar :: "nat \<Rightarrow> ('a Kernel_scheme, unit) call" where
  "handle_SC_ReadChar n = cbind (SysReadChar n) (\<lambda>c. answer (scast c))"

definition handle_SC_PrintChar :: "nat \<Rightarrow> ('a Kernel_scheme, unit) call" where
  "handle_SC_PrintChar n = cbind (arg 4) (\<lambda>c. cthen (SysPrintChar n (ucast c)) (change move_program_counter))"

definition handle_SC_RandomNum :: "('a Kernel_scheme, unit) call" where
  "handle_SC_RandomNum = cbind SysRandomNum (\<lambda>r. answer (word_of_int r))"

definition MAX_READ_STRING_LENGTH :: int where "MAX_READ_STRING_LENGTH = 255"

definition handle_SC_ReadString :: "nat \<Rightarrow> ('a Kernel_scheme, unit) call" where
  "handle_SC_ReadString n =
     cbind (arg 4) (\<lambda>memPtr.
     cbind (arg 5) (\<lambda>len.
     if sint len > MAX_READ_STRING_LENGTH then (\<lambda>k. Fault Halted)
     else
       cbind (SysReadString n (sint len)) (\<lambda>buffer.
       cthen (change (StringSys2User buffer memPtr (- 1)))
       (change move_program_counter))))"

definition handle_SC_PrintString :: "nat \<Rightarrow> ('a Kernel_scheme, unit) call" where
  "handle_SC_PrintString n =
     cbind (arg 4) (\<lambda>memPtr.
     cbind (user_string memPtr) (\<lambda>buffer.
     cbind (inspect (\<lambda>_. strlen buffer)) (\<lambda>len.
     cthen (SysPrintString n buffer len)
     (change move_program_counter))))"

definition handle_SC_CreateFile :: "('a Kernel_scheme, unit) call" where
  "handle_SC_CreateFile =
     cbind (arg 4) (\<lambda>virtAddr.
     cbind (user_string virtAddr) (\<lambda>fileName.
     cbind (SysCreateFile fileName) (\<lambda>ok. answer (if ok then 0 else - 1))))"

definition handle_SC_Open :: "('a Kernel_scheme, unit) call" where
  "handle_SC_Open =
     cbind (arg 4) (\<lambda>virtAddr.
     cbind (user_string virtAddr) (\<lambda>fileName.
     cbind (arg 5) (\<lambda>type.
     cbind (SysOpen fileName (sint type)) (\<lambda>r. answer (word_of_int r)))))"

definition handle_SC_Close :: "('a Kernel_scheme, unit) call" where
  "handle_SC_Close = cbind (arg 4) (\<lambda>fid. cbind (SysClose (sint fid)) (\<lambda>r. answer (word_of_int r)))"

definition handle_SC_Read :: "nat \<Rightarrow> ('a Kernel_scheme, unit) call" where
  "handle_SC_Read n =
     cbind (arg 4) (\<lambda>virtAddr.
     cbind (arg 5) (\<lambda>charCount.
     cbind (compute (stringUser2System virtAddr (sint charCount))) (\<lambda>buffer.
     cbind (arg 6) (\<lambda>fileId.
     cbind (SysRead n buffer (sint charCount) (sint fileId)) (\<lambda>(r, buffer).
     cthen (change (WriteRegister 2 (word_of_int r)))
     (cthen (change (StringSys2User buffer virtAddr (sint charCount)))
     (change move_program_counter)))))))"

definition handle_SC_Write :: "nat \<Rightarrow> ('a Kernel_scheme, unit) call" where
  "handle_SC_Write n =
     cbind (arg 4) (\<lambda>virtAddr.
     cbind (arg 5) (\<lambda>charCount.
     cbind (compute (stringUser2System virtAddr (sint charCount))) (\<lambda>buffer.
     cbind (arg 6) (\<lambda>fileId.
     cbind (SysWrite n buffer (sint charCount) (sint fileId)) (\<lambda>r.
     cthen (change (WriteRegister 2 (word_of_int r)))
     (cthen (change (StringSys2User buffer virtAddr (sint charCount)))
     (change move_program_counter)))))))"

definition handle_SC_Seek :: "('a Kernel_scheme, unit) call" where
  "handle_SC_Seek =
     cbind (arg 4) (\<lambda>seekPos.
     cbind (arg 5) (\<lambda>fileId.
     cbind (SysSeek (sint seekPos) (sint fileId)) (\<lambda>r. answer (word_of_int r))))"

definition handle_SC_Exec :: "('a Kernel_scheme, unit) call" where
  "handle_SC_Exec =
     cbind (arg 4) (\<lambda>virtAddr.
     cbind (user_string virtAddr) (\<lambda>nm.
     cbind (SysExec nm) (\<lambda>r. answer (word_of_int r))))"

definition handle_SC_Join :: "('a Kernel_scheme, unit) call" where
  "handle_SC_Join = cbind (arg 4) (\<lambda>i. cbind (SysJoin (sint i)) (\<lambda>r. answer (word_of_int r)))"

definition handle_SC_Exit :: "('a Kernel_scheme, unit) call" where
  "handle_SC_Exit = cbind (arg 4) (\<lambda>i. cbind (SysExit (sint i)) (\<lambda>r. answer (word_of_int r)))"

text \<open>After \<open>WriteRegister\<close> the handler deletes the name: a second time when the call has done so.\<close>

definition semaphore_answer :: "int \<times> bool \<Rightarrow> ('a Kernel_scheme, unit) call" where
  "semaphore_answer = (\<lambda>(r, deleted).
     cthen (change (WriteRegister 2 (word_of_int r)))
     (if deleted then (\<lambda>k. Fault Dangling) else change move_program_counter))"

definition handle_SC_CreateSemaphore :: "('a Kernel_scheme, unit) call" where
  "handle_SC_CreateSemaphore =
     cbind (arg 4) (\<lambda>virtAddr.
     cbind (arg 5) (\<lambda>semval.
     cbind (user_string virtAddr) (\<lambda>nm.
     cbind (SysCreateSemaphore nm (sint semval)) semaphore_answer)))"

definition handle_SC_Wait :: "('a Kernel_scheme, unit) call" where
  "handle_SC_Wait =
     cbind (arg 4) (\<lambda>virtAddr. cbind (user_string virtAddr) (\<lambda>nm. cbind (SysWait nm) semaphore_answer))"

definition handle_SC_Signal :: "('a Kernel_scheme, unit) call" where
  "handle_SC_Signal =
     cbind (arg 4) (\<lambda>virtAddr. cbind (user_string virtAddr) (\<lambda>nm. cbind (SysSignal nm) semaphore_answer))"

definition handle_SC_GetPid :: "('a Kernel_scheme, unit) call" where
  "handle_SC_GetPid = cbind SysGetPid (\<lambda>r. answer (word_of_int r))"

definition handle_SC_Create_Socket :: "('a Kernel_scheme, unit) call" where
  "handle_SC_Create_Socket = cbind (compute (\<lambda>k. Inr (get_socket k))) (\<lambda>r. answer (word_of_int r))"

definition handle_SC_Close_Socket :: "('a Kernel_scheme, unit) call" where
  "handle_SC_Close_Socket =
     cbind (arg 4) (\<lambda>sockID. cthen (change (\<lambda>k. Inr (deleteSocket (sint sockID) k))) (answer 1))"

definition handle_SC_Bind :: "('a Kernel_scheme, unit) call" where
  "handle_SC_Bind =
     cbind (arg 4) (\<lambda>sockID.
     cbind (arg 5) (\<lambda>port.
     cbind (compute (\<lambda>k. Inr (insert_bind_socket (sint sockID) (sint port) k))) (\<lambda>r. answer (word_of_int r))))"

definition handle_SC_Connect :: "('a Kernel_scheme, unit) call" where
  "handle_SC_Connect =
     cbind (arg 4) (\<lambda>sockID.
     cbind (arg 5) (\<lambda>virtAddr.
     cbind (user_string virtAddr) (\<lambda>ipAdr.
     cbind (arg 6) (\<lambda>srcPort.
     cbind (arg 7) (\<lambda>destPort.
     cbind (compute (insert_connect_socket (sint sockID) (string_of (cstring ipAdr)) (sint srcPort) (sint destPort))) (\<lambda>r.
     answer (word_of_int r)))))))"

definition handle_SC_Send_Msg :: "16 word \<Rightarrow> ('a Kernel_scheme, unit) call" where
  "handle_SC_Send_Msg junk =
     cbind (arg 4) (\<lambda>sockID.
     cbind (arg 5) (\<lambda>virtAddr.
     cbind (user_string virtAddr) (\<lambda>msg.
     cbind (compute (send_message junk (sint sockID) msg)) (\<lambda>r. answer (word_of_int r)))))"

text \<open>\<open>Kernel::getData\<close> waits in \<open>RemoveFront\<close> until the queue of the port has a message.\<close>

definition getData_call :: "int \<Rightarrow> int \<Rightarrow> ('a Kernel_scheme, int \<times> byte list) call" where
  "getData_call sz sockID =
     cbind (ask (\<lambda>k. port_of (bind_sockets k) sockID)) (\<lambda>port.
     if port = - 1 then creturn (- 1, [])
     else
       cthen (wait_until (\<lambda>k. datagrams k port \<noteq> Some []))
       (compute (\<lambda>k. case datagrams k port of
           None \<Rightarrow> Inl NullPointer
         | Some [] \<Rightarrow> Inl NullPointer
         | Some ((n, data) # rest) \<Rightarrow>
             let k = k\<lparr>datagrams := (datagrams k)(port \<mapsto> rest)\<rparr> in
             rbind (memcpy data 0 (min sz n)) (\<lambda>msg. Inr ((1, msg), k)))))"

text \<open>\<open>calloc\<close> of a negative size returns \<open>NULL\<close>, of which \<open>std::string\<close> throws.\<close>

definition handle_SC_Recv_Msg :: "('a Kernel_scheme, unit) call" where
  "handle_SC_Recv_Msg =
     cbind (arg 4) (\<lambda>sockID.
     cbind (arg 5) (\<lambda>virtAddr.
     cbind (arg 6) (\<lambda>sz.
     cbind (getData_call (sint sz) (sint sockID)) (\<lambda>(r, data).
     if sint (sz + 1) < 0 then (\<lambda>k. Fault Uncaught)
     else
       cthen (change (StringSys2User (fill (replicate (nat (sint (sz + 1))) 0) data) virtAddr (- 1)))
       (answer (word_of_int r))))))"

definition syscall :: "nat \<Rightarrow> 16 word \<Rightarrow> int \<Rightarrow> ('a Kernel_scheme, unit) call" where
  "syscall n junk type =
     (if type = SC_Halt then handle_SC_Halt
      else if type = SC_Add then handle_SC_Add
      else if type = SC_ReadNum then handle_SC_ReadNum n
      else if type = SC_PrintNum then handle_SC_PrintNum n
      else if type = SC_ReadChar then handle_SC_ReadChar n
      else if type = SC_PrintChar then handle_SC_PrintChar n
      else if type = SC_RandomNum then handle_SC_RandomNum
      else if type = SC_ReadString then handle_SC_ReadString n
      else if type = SC_PrintString then handle_SC_PrintString n
      else if type = SC_CreateFile then handle_SC_CreateFile
      else if type = SC_Open then handle_SC_Open
      else if type = SC_Close then handle_SC_Close
      else if type = SC_Read then handle_SC_Read n
      else if type = SC_Write then handle_SC_Write n
      else if type = SC_Seek then handle_SC_Seek
      else if type = SC_Exec then handle_SC_Exec
      else if type = SC_Join then handle_SC_Join
      else if type = SC_Exit then handle_SC_Exit
      else if type = SC_CreateSemaphore then handle_SC_CreateSemaphore
      else if type = SC_Wait then handle_SC_Wait
      else if type = SC_Signal then handle_SC_Signal
      else if type = SC_GetPid then handle_SC_GetPid
      else if type = SC_Create_Socket then handle_SC_Create_Socket
      else if type = SC_Close_Socket then handle_SC_Close_Socket
      else if type = SC_Bind then handle_SC_Bind
      else if type = SC_Connect then handle_SC_Connect
      else if type = SC_Send_Msg then handle_SC_Send_Msg junk
      else if type = SC_Recv_Msg then handle_SC_Recv_Msg
      else if type \<in> {SC_Create, SC_Remove, SC_ThreadFork, SC_ThreadYield, SC_ExecV, SC_ThreadExit, SC_ThreadJoin}
        then handle_not_implemented_SC
      else (\<lambda>k. Fault AssertionFailed))"

definition ExceptionHandler :: "nat \<Rightarrow> 16 word \<Rightarrow> ExceptionType \<Rightarrow> ('a Kernel_scheme, unit) call" where
  "ExceptionHandler n junk which =
     cbind (arg 2) (\<lambda>type.
     if which = NoException then cthen (change (\<lambda>k. Inr (k\<lparr>status := SystemMode\<rparr>))) (\<lambda>k. Fault AssertionFailed)
     else if which = SyscallException then syscall n junk (sint type)
     else (\<lambda>k. Fault Halted))"

section \<open>Calls under interference\<close>

text \<open>A run under rely \<open>R\<close> and guarantee \<open>G\<close>, from the state \<open>s0\<close> in which it has the processor: whenever it gives the
  processor away, \<open>G\<close> relates \<open>s0\<close> to the state it leaves; when it gets it back the state is related by
  \<open>R\<close> to that one; and when it returns, \<open>Q\<close> holds of the result and the last stretch.\<close>

primrec spec :: "('s \<Rightarrow> 's \<Rightarrow> bool) \<Rightarrow> ('s \<Rightarrow> 's \<Rightarrow> bool) \<Rightarrow> ('a \<Rightarrow> 's \<Rightarrow> 's \<Rightarrow> bool) \<Rightarrow> ('s, 'a) run \<Rightarrow> 's \<Rightarrow> bool" where
  "spec R G Q (Ret a s) s0 \<longleftrightarrow> Q a s0 s"
| "spec R G Q (Fault e) s0 \<longleftrightarrow> True"
| "spec R G Q (Await c s k) s0 \<longleftrightarrow> G s0 s \<and> (\<forall>s'. R s s' \<and> c s' \<longrightarrow> spec R G Q (k s') s')"
| "spec R G Q (Finished s) s0 \<longleftrightarrow> G s0 s"

text \<open>The machine of a user program, and what a call does to it before it answers: it sets bits of the page
  table and writes to frames mapped as writable, nothing else.  When the thread gets the processor back,
  \<open>Scheduler::Run\<close> has restored its registers and its page table.\<close>

definition user_ok :: "'a Kernel_scheme \<Rightarrow> bool" where
  "user_ok k \<longleftrightarrow> Machine.table_ok k \<and> length (registers k) = NumTotalRegs"

definition confined_to :: "'a Kernel_scheme \<Rightarrow> 'a Kernel_scheme \<Rightarrow> bool" where
  "confined_to k k' \<longleftrightarrow> user_ok k' \<and> lookup_page k' = lookup_page k \<and>
     (\<forall>a. mainMemory k' a \<noteq> mainMemory k a \<longrightarrow> writable_frame k (int a div PageSize))"

definition calm :: "'a Kernel_scheme \<Rightarrow> 'a Kernel_scheme \<Rightarrow> bool" where
  "calm k k' \<longleftrightarrow> confined_to k k' \<and> registers k' = registers k"

definition restored :: "'a Kernel_scheme \<Rightarrow> 'a Kernel_scheme \<Rightarrow> bool" where
  "restored k k' \<longleftrightarrow> user_ok k' \<and> lookup_page k' = lookup_page k \<and> registers k' = registers k"

text \<open>Behind the call: register 2 holds the result (or what it held), and the program counters have moved.\<close>

definition next_instruction :: "32 word list \<Rightarrow> 32 word list" where
  "next_instruction rs = rs[PrevPCReg := rs ! PCReg, PCReg := rs ! NextPCReg, NextPCReg := rs ! NextPCReg + 4]"

definition served :: "'a Kernel_scheme \<Rightarrow> 'a Kernel_scheme \<Rightarrow> bool" where
  "served k k' \<longleftrightarrow> confined_to k k' \<and> (\<exists>v. registers k' = next_instruction ((registers k)[2 := v]))"

lemma confined_to_trans:
  assumes "confined_to a b" "confined_to b c"
  shows "confined_to a c"
proof -
  have "writable_frame b = writable_frame a" using assms(1) by (simp add: confined_to_def writable_frame_def fun_eq_iff)
  then have "\<forall>x. mainMemory c x \<noteq> mainMemory a x \<longrightarrow> writable_frame a (int x div PageSize)"
    using assms unfolding confined_to_def by metis
  then show ?thesis using assms by (simp add: confined_to_def)
qed

lemma calm_trans: "calm a b \<Longrightarrow> calm b c \<Longrightarrow> calm a c"
  using confined_to_trans by (auto simp: calm_def)

lemma calm_served: "calm a b \<Longrightarrow> served b c \<Longrightarrow> served a c"
  using confined_to_trans by (auto simp: calm_def served_def)

lemma calm_refl: "user_ok k \<Longrightarrow> calm k k"
  by (simp add: calm_def confined_to_def)

definition meets :: "('b \<Rightarrow> 'a Kernel_scheme \<Rightarrow> 'a Kernel_scheme \<Rightarrow> bool) \<Rightarrow> ('a Kernel_scheme, 'b) call \<Rightarrow> bool" where
  "meets Q c \<longleftrightarrow> (\<forall>k. user_ok k \<longrightarrow> spec restored calm Q (c k) k)"

abbreviation calm_call :: "('a Kernel_scheme, 'b) call \<Rightarrow> bool" where
  "calm_call \<equiv> meets (\<lambda>_. calm)"

lemma spec_earlier:
  assumes "calm s0 s" "spec restored calm Q r s" "\<And>a s'. Q a s s' \<Longrightarrow> Q a s0 s'"
  shows "spec restored calm Q r s0"
  using assms calm_trans by (cases r) auto

lemma spec_bind:
  assumes "spec restored calm (\<lambda>_. calm) r s0" "user_ok s0" "\<And>a. meets Q (f a)"
    "\<And>a s s' s''. calm s s' \<Longrightarrow> Q a s' s'' \<Longrightarrow> Q a s s''"
  shows "spec restored calm Q (run_bind r f) s0"
  using assms(1,2)
proof (induction r arbitrary: s0)
  case (Ret a s)
  then have "calm s0 s" "user_ok s" by (auto simp: calm_def confined_to_def)
  then show ?case using assms(3) [of a] by (auto simp: meets_def intro: spec_earlier assms(4))
next
  case (Await c s g)
  then show ?case by (auto simp: restored_def)
qed auto

text \<open>Rules to compose calls.\<close>

named_theorems calls

lemma meets_cbind [calls]:
  "calm_call c \<Longrightarrow> (\<And>a. meets (\<lambda>_. served) (f a)) \<Longrightarrow> meets (\<lambda>_. served) (cbind c f)"
  "calm_call c \<Longrightarrow> (\<And>a. calm_call (f a)) \<Longrightarrow> calm_call (cbind c f)"
  by (auto simp: meets_def cbind_def intro!: spec_bind [unfolded meets_def] intro: calm_served calm_trans)

lemma meets_cthen [calls]:
  "calm_call c \<Longrightarrow> meets (\<lambda>_. served) d \<Longrightarrow> meets (\<lambda>_. served) (cthen c d)" "calm_call c \<Longrightarrow> calm_call d \<Longrightarrow> calm_call (cthen c d)"
  by (simp_all add: cthen_def calls)

lemma meets_if [calls]: "(b \<Longrightarrow> meets Q c) \<Longrightarrow> (\<not> b \<Longrightarrow> meets Q d) \<Longrightarrow> meets Q (if b then c else d)"
  by simp

lemma meets_option [calls]: "(x = None \<Longrightarrow> meets Q c) \<Longrightarrow> (\<And>y. x = Some y \<Longrightarrow> meets Q (f y)) \<Longrightarrow> meets Q (case x of None \<Rightarrow> c | Some y \<Rightarrow> f y)"
  by (cases x) auto

lemma meets_prod [calls]: "(\<And>a b. x = (a, b) \<Longrightarrow> meets Q (f a b)) \<Longrightarrow> meets Q (case x of (a, b) \<Rightarrow> f a b)"
  by (cases x) auto

lemma meets_fault [calls]: "meets Q (\<lambda>k. Fault e)"
  by (simp add: meets_def)

lemma calm_call_simple [calls]:
  "calm_call (creturn a)" "calm_call (ask f)" "calm_call (inspect g)" "calm_call (wait_until c)" "calm_call preempt"
  by (auto simp: meets_def creturn_def ask_def inspect_def wait_until_def preempt_def restored_def intro: calm_refl split: sum.split)

lemma calm_for_each [calls]: "(\<And>i. calm_call (f i)) \<Longrightarrow> calm_call (for_each_call f is)"
  by (induction "is") (auto intro: calls)

text \<open>Steps that leave the machine alone.\<close>

definition machine_of :: "'a Kernel_scheme \<Rightarrow> 32 word list \<times> (nat \<Rightarrow> byte) \<times> TranslationEntry list option \<times> TranslationEntry list option \<times> int" where
  "machine_of k = (registers k, mainMemory k, tlb k, pageTable k, pageTableSize k)"

definition stays :: "'a Kernel_scheme \<Rightarrow> 'a Kernel_scheme res \<Rightarrow> bool" where
  "stays k r = (case r of Inl _ \<Rightarrow> True | Inr k' \<Rightarrow> machine_of k' = machine_of k)"

lemma calm_machine: "user_ok k \<Longrightarrow> machine_of k' = machine_of k \<Longrightarrow> calm k k'"
  by (auto simp: calm_def confined_to_def user_ok_def Machine.table_ok_def machine_of_def lookup_page_def fun_eq_iff)

lemma stays_simps [simp]: "stays k (Inl e)" "stays k (Inr k') \<longleftrightarrow> machine_of k' = machine_of k"
  by (simp_all add: stays_def)

lemma stays_bind: "(\<And>x. r = Inr x \<Longrightarrow> stays k (f x)) \<Longrightarrow> stays k (rbind r f)"
  by (cases r) auto

lemma stays_then: "stays k r \<Longrightarrow> (\<And>k'. machine_of k' = machine_of k \<Longrightarrow> stays k (f k')) \<Longrightarrow> stays k (rbind r f)"
  by (cases r) auto

lemma calm_change [calls]: "(\<And>k. stays k (f k)) \<Longrightarrow> calm_call (change f)"
  by (auto simp: meets_def change_def intro!: calm_machine split: sum.split) (metis stays_simps(2))

lemma calm_compute [calls]: "(\<And>k. stays k (rbind (f k) (\<lambda>(a, k). Inr k))) \<Longrightarrow> calm_call (compute f)"
  by (auto simp: meets_def compute_def intro!: calm_machine split: sum.split) (metis case_prod_conv rbind.simps(2) stays_simps(2))
subsection \<open>The components\<close>

lemma machine_of_update [simp]:
  "machine_of (k\<lparr>semaphores := a\<rparr>) = machine_of k" "machine_of (k\<lparr>threads := b\<rparr>) = machine_of k"
  "machine_of (k\<lparr>readyList := c\<rparr>) = machine_of k" "machine_of (k\<lparr>spaces := d\<rparr>) = machine_of k"
  "machine_of (k\<lparr>fileSystem := e\<rparr>) = machine_of k" "machine_of (k\<lparr>gPhysPageBitMap := f\<rparr>) = machine_of k"
  "machine_of (k\<lparr>semTab := g\<rparr>) = machine_of k" "machine_of (k\<lparr>pTab := h\<rparr>) = machine_of k"
  "machine_of (k\<lparr>numberBuffer := i\<rparr>) = machine_of k" "machine_of (k\<lparr>datagrams := j\<rparr>) = machine_of k"
  "machine_of (k\<lparr>current_socket := l\<rparr>) = machine_of k" "machine_of (k\<lparr>connected_sockets := m\<rparr>) = machine_of k"
  "machine_of (k\<lparr>bind_sockets := n\<rparr>) = machine_of k" "machine_of (k\<lparr>randoms := p\<rparr>) = machine_of k"
  by (simp_all add: machine_of_def)

lemma machine_of_devices: "Hardware.more k' = Hardware.more k \<Longrightarrow> machine_of k' = machine_of k" for k :: "'a Kernel_scheme"
  by (cases k, cases k') (simp add: machine_of_def)

lemma stays_devices: "same_rest k r \<Longrightarrow> stays k r" for k :: "'a Kernel_scheme"
  by (auto simp: same_rest_def stays_def intro: machine_of_devices split: sum.splits)

lemma calm_Ret [calls]: "(\<And>k. machine_of (f k) = machine_of k) \<Longrightarrow> calm_call (\<lambda>k. Ret (g k) (f k))"
  by (auto simp: meets_def intro: calm_machine)

lemma calm_new_Semaphore [calls]: "calm_call (new_Semaphore v)"
  unfolding new_Semaphore_def [abs_def] by (intro calls) simp

lemma calm_semaphores [calls]:
  "calm_call (delete_Semaphore p)" "calm_call (sem_P p)" "calm_call (sem_V p)"
  by (auto simp: delete_Semaphore_def sem_P_def sem_V_def intro!: calls stays_bind)

lemma calm_console [calls]: "calm_call (GetChar n)" "calm_call (PutChar n c)"
  by (auto simp: GetChar_def PutChar_def intro!: calls stays_devices GetChar_rest PutChar_rest)

lemma calm_read_chars [calls]: "calm_call (read_chars n m b)"
  by (induction m arbitrary: b) (auto simp: SysReadChar_def intro!: calls)

lemma calm_read_loop [calls]: "calm_call (read_loop n m i c)"
  by (induction m arbitrary: i c) (auto simp: set_buffer_def intro!: calls stays_bind)

lemma calm_console_calls [calls]:
  "calm_call (SysReadChar n)" "calm_call (SysPrintChar n c)" "calm_call (SysReadString n l)" "calm_call (SysPrintString n b l)"
  "calm_call (readUntilBlank n)"
  by (auto simp: SysReadChar_def SysPrintChar_def SysReadString_def SysPrintString_def readUntilBlank_def intro!: calls)

lemma calm_numbers [calls]: "calm_call (SysReadNum n)" "calm_call (SysPrintNum n w)"
  by (auto simp: SysReadNum_def SysPrintNum_def Let_def rbind_Inr_iff case_prod_unfold intro!: calls stays_bind)

lemma stays_set_pcb [intro]: "stays k (set_pcb i p k)"
  by (auto simp: set_pcb_def intro!: stays_bind)

lemma calm_pcb [calls]: "calm_call (update_pcb i g)" "calm_call PCB_new"
  by (auto simp: update_pcb_def PCB_new_def intro!: calls stays_bind)

lemma calm_processes [calls]:
  "calm_call (SetFileName i s)" "calm_call (JoinWait i)" "calm_call (ExitWait i)"
  "calm_call (JoinRelease i)" "calm_call (ExitRelease i)" "calm_call (IncNumWait i)" "calm_call (DecNumWait i)" "calm_call (SetExitCode i c)"
  "calm_call (GetExitCode i)" "calm_call (Renew_files i)" "calm_call (Fork t a)"
  by (auto simp: SetFileName_def JoinWait_def ExitWait_def JoinRelease_def ExitRelease_def IncNumWait_def DecNumWait_def
      SetExitCode_def GetExitCode_def Renew_files_def Fork_def intro!: calls stays_bind)

lemma stays_FreeSpace [intro]: "stays k (FreeSpace t k)"
  by (auto simp: FreeSpace_def AddrSpace_delete_def intro!: stays_bind split: option.split)

lemma calm_Finish [calls]: "calm_call (Finish t)"
  by (auto simp: meets_def Finish_def intro: calm_refl)

lemma calm_new_Thread [calls]: "calm_call (new_Thread nm)"
  unfolding new_Thread_def [abs_def] by (intro calls) simp

lemma calm_process_table [calls]: "calm_call (PCB_delete i)" "calm_call (PCB_Exec i nm j)"
  by (auto simp: PCB_delete_def PCB_Exec_def intro!: calls)

lemma calm_PTable [calls]: "calm_call (PTable_Remove i)" "calm_call (JoinUpdate i)"
  by (auto simp: PTable_Remove_def JoinUpdate_def intro!: calls)

lemma calm_PTable_updates [calls]: "calm_call (ExitUpdate i)" "calm_call (ExecUpdate nm)"
  by (auto simp: ExitUpdate_def ExecUpdate_def intro!: calls)

lemma calm_named_semaphores [calls]: "calm_call (STable_Create nm v)" "calm_call (STable_Wait nm)" "calm_call (STable_Signal nm)"
  by (auto simp: STable_Create_def STable_Wait_def STable_Signal_def FindFreeSlot_def Sem_new_def Sem_wait_def Sem_signal_def
      rbind_Inr_iff case_prod_unfold intro!: calls stays_bind)
subsection \<open>User memory\<close>

lemma raise_halts: "\<exists>e. RaiseException halt_on_exception ex a k = Inl e \<and> e \<noteq> Diverges"
  by (auto simp: RaiseException_def DelayedLoad_def arr_set_def halt_on_exception_def)

lemma low_byte: "ucast ((v :: 32 word) AND 0xff) = (ucast v :: byte)"
proof -
  have e: "0xff = (mask 8 :: 32 word)" by (simp add: mask_eq_exp_minus_1)
  show ?thesis unfolding e by (intro bit_word_eqI) (simp add: bit_simps)
qed

lemma read_byte_cases:
  assumes "user_ok k"
  shows "case phys_addr k False a of None \<Rightarrow> \<exists>e. read_byte a k = Inl e \<and> e \<noteq> Diverges
    | Some p \<Rightarrow> \<exists>k'. touched k k' \<and> read_byte a k = Inr (scast (mainMemory k (nat p)), k')"
proof -
  have t: "Machine.table_ok k" "(1 :: int) \<in> {1, 2, 4}" using assms by (simp_all add: user_ok_def)
  have al: "aligned a 1" by (simp add: aligned_def)
  from t show ?thesis
  proof (cases rule: ReadMem_cases [where a = a and eh = halt_on_exception])
    case (loaded p k')
    then show ?thesis by (auto simp: read_byte_def fetch_def)
  next
    case (trap ex)
    then show ?thesis using al raise_halts [of ex a k] by (auto simp: read_byte_def)
  qed
qed

lemma write_byte_cases:
  assumes "user_ok k"
  shows "case phys_addr k True a of None \<Rightarrow> \<exists>e. write_byte a v k = Inl e
    | Some p \<Rightarrow> \<exists>k'. touched k k' \<and> write_byte a v k = Inr (k'\<lparr>mainMemory := (mainMemory k)(nat p := ucast v)\<rparr>)"
proof -
  have t: "Machine.table_ok k" "(1 :: int) \<in> {1, 2, 4}" using assms by (simp_all add: user_ok_def)
  have al: "aligned a 1" by (simp add: aligned_def)
  from t show ?thesis
  proof (cases rule: WriteMem_cases [where a = a and eh = halt_on_exception and v = v])
    case (stored p k')
    then show ?thesis by (auto simp: write_byte_def put_def low_byte)
  next
    case (trap ex)
    then show ?thesis using al raise_halts [of ex a k] by (auto simp: write_byte_def)
  qed
qed

lemma touched_calm:
  assumes "user_ok k" "touched k k'"
  shows "calm k k'" "mainMemory k' = mainMemory k" "phys_addr k' = phys_addr k" "pageTableSize k' = pageTableSize k"
  using assms by (auto simp: touched_def calm_def confined_to_def user_ok_def phys_addr_def fun_eq_iff)

lemma calm_write:
  assumes "user_ok k" "touched k k'" "phys_addr k True a = Some p"
  shows "calm k (k'\<lparr>mainMemory := (mainMemory k)(nat p := v)\<rparr>)"
    "phys_addr (k'\<lparr>mainMemory := (mainMemory k)(nat p := v)\<rparr>) = phys_addr k"
proof -
  have "(mainMemory k)(nat p := v) = put (mainMemory k) (nat p) 1 (ucast v)"
    unfolding put_def low_byte by (auto simp: fun_eq_iff bit_simps intro!: bit_word_eqI)
  moreover have "user_step k (k'\<lparr>mainMemory := put (mainMemory k) (nat p) 1 (ucast v)\<rparr>)"
    using assms by (intro put_user_step) (auto simp: aligned_def)
  moreover have "registers k' = registers k" using assms(2) by (auto simp: touched_def)
  ultimately show "calm k (k'\<lparr>mainMemory := (mainMemory k)(nat p := v)\<rparr>)"
    using assms(1) by (simp add: calm_def confined_to_def user_step_def user_ok_def)
  show "phys_addr (k'\<lparr>mainMemory := (mainMemory k)(nat p := v)\<rparr>) = phys_addr k"
    using put_touched(2) [OF assms(2)] by (simp add: fun_eq_iff)
qed

definition calm_res :: "'a Kernel_scheme \<Rightarrow> 'a Kernel_scheme res \<Rightarrow> bool" where
  "calm_res k r = (case r of Inl _ \<Rightarrow> True | Inr k' \<Rightarrow> calm k k')"

lemma calm_res_simps [simp]: "calm_res k (Inl e)" "calm_res k (Inr k') \<longleftrightarrow> calm k k'"
  by (simp_all add: calm_res_def)

lemma calm_res_bind:
  assumes "calm_res k (rbind r (\<lambda>(a, k). Inr k))" "\<And>a k'. r = Inr (a, k') \<Longrightarrow> user_ok k' \<Longrightarrow> calm_res k' (f a k')"
  shows "calm_res k (rbind r (\<lambda>(a, k). f a k))"
proof (cases r)
  case (Inr x)
  obtain a k' where x: "x = (a, k')" by fastforce
  then have "calm k k'" using assms(1) Inr by simp
  moreover from this have "calm_res k' (f a k')" using assms(2) Inr x by (auto simp: calm_def confined_to_def)
  ultimately show ?thesis using Inr x calm_trans by (cases "f a k'") auto
qed simp

lemma calm_res_then:
  assumes "calm_res k r" "\<And>k'. user_ok k' \<Longrightarrow> calm_res k' (f k')"
  shows "calm_res k (rbind r f)"
proof (cases r)
  case (Inr k')
  then have "calm k k'" "calm_res k' (f k')" using assms by (auto simp: calm_def confined_to_def)
  then show ?thesis using Inr calm_trans by (cases "f k'") auto
qed simp

lemma calm_read_byte: "user_ok k \<Longrightarrow> calm_res k (rbind (read_byte a k) (\<lambda>(v, k). Inr k))"
  using read_byte_cases [of k a] touched_calm(1) by (auto split: option.splits)

lemma calm_write_byte: "user_ok k \<Longrightarrow> calm_res k (write_byte a v k)"
  using write_byte_cases [of k a v] calm_write(1) by (auto split: option.splits)

lemma calm_string_length: "user_ok k \<Longrightarrow> calm_res k (rbind (string_length n a c l k) (\<lambda>(v, k). Inr k))"
proof (induction n arbitrary: l k)
  case (Suc n)
  show ?case unfolding string_length.simps rbind_assoc case_prod_unfold
    by (rule calm_res_bind [unfolded case_prod_unfold]) (use calm_read_byte [OF Suc.prems] Suc.IH in \<open>auto simp: case_prod_unfold Let_def intro: calm_refl\<close>)
qed simp

lemma calm_copy_in: "user_ok k \<Longrightarrow> calm_res k (rbind (copy_in a is str k) (\<lambda>(v, k). Inr k))"
proof (induction "is" arbitrary: str k)
  case (Cons i "is")
  show ?case unfolding copy_in.simps rbind_assoc case_prod_unfold
    by (rule calm_res_bind [unfolded case_prod_unfold]) (use calm_read_byte [OF Cons.prems] Cons.IH in \<open>auto simp: case_prod_unfold\<close>)
qed (simp add: calm_refl)

lemma calm_stringUser2System: "user_ok k \<Longrightarrow> calm_res k (rbind (stringUser2System a c k) (\<lambda>(v, k). Inr k))"
  unfolding stringUser2System_def rbind_assoc case_prod_unfold
  by (rule calm_res_bind [unfolded case_prod_unfold]) (use calm_string_length [of k] calm_copy_in in \<open>auto simp: case_prod_unfold\<close>)

lemma calm_for_each_res: "(\<And>i k. user_ok k \<Longrightarrow> calm_res k (f i k)) \<Longrightarrow> user_ok k \<Longrightarrow> calm_res k (for_each f is k)"
  by (induction "is" arbitrary: k) (auto intro: calm_refl calm_res_then)

lemma calm_StringSys2User: "user_ok k \<Longrightarrow> calm_res k (StringSys2User str a c k)"
proof -
  assume k: "user_ok k"
  have w: "calm_res k (rbind (arr_get str i) (\<lambda>c. write_byte (a + word_of_int i) (scast c) k))" if "user_ok k" for i and k :: "'a Kernel_scheme"
    using that calm_write_byte by (cases "arr_get str i") auto
  show ?thesis unfolding StringSys2User_def
  proof (cases "if c = - 1 then strlen str else Inr c")
    case (Inr len)
    then show "calm_res k (rbind (if c = - 1 then strlen str else Inr c) (\<lambda>len. rbind (for_each (\<lambda>i k. rbind (arr_get str i)
        (\<lambda>c. write_byte (a + word_of_int i) (scast c) k)) [0..len - 1] k) (\<lambda>k. write_byte (a + word_of_int len) 0 k)))"
      using k calm_res_then [OF calm_for_each_res [OF w k] calm_write_byte] by simp
  qed simp
qed

lemma calm_changes:
  "(\<And>k. user_ok k \<Longrightarrow> calm_res k (f k)) \<Longrightarrow> calm_call (change f)"
  "(\<And>k. user_ok k \<Longrightarrow> calm_res k (rbind (g k) (\<lambda>(a, k). Inr k))) \<Longrightarrow> calm_call (compute g)"
  by (auto simp: meets_def change_def compute_def split: sum.split) (metis calm_res_simps(2), metis case_prod_conv rbind.simps(2) calm_res_simps(2))

lemma calm_strings [calls]:
  "calm_call (compute (stringUser2System a c))" "calm_call (change (StringSys2User str a c))" "calm_call (user_string a)"
  unfolding user_string_def by (blast intro: calm_changes calm_stringUser2System calm_StringSys2User)+

lemma for_each_rest:
  assumes "\<And>i s'. Hardware.more s' = Hardware.more s \<Longrightarrow> same_rest s (f i s')"
  shows "Hardware.more s' = Hardware.more s \<Longrightarrow> same_rest s (for_each f is s')"
  by (induction "is" arbitrary: s') (auto intro: same_rest_bind assms)

lemma rest_bind: "(\<And>x. r = Inr x \<Longrightarrow> same_rest s (f x)) \<Longrightarrow> same_rest s (rbind r f)"
  by (cases r) auto

lemma Ethernet_Send_rest: "Hardware.more s' = Hardware.more s \<Longrightarrow> same_rest s (Ethernet_Send data dest s')"
proof -
  assume "Hardware.more s' = Hardware.more s"
  then have "same_rest s (NetworkOutput_Send b s')" for b
    unfolding NetworkOutput_Send_def Let_def by (rule same_rest_bind [OF Schedule_rest]) simp
  then show ?thesis unfolding Ethernet_Send_def Let_def by (auto intro: rest_bind)
qed

lemma IP_Send_rest: "same_rest s (IP_Send data sz dest s)"
  by (auto simp: IP_Send_def get_Random_Identification_def RandomNumber_def
      Let_def case_prod_unfold intro!: for_each_rest rest_bind Ethernet_Send_rest split: list.split)

lemma UDP_Send_rest: "same_rest s (UDP_Send junk data sz dest sport dport s)"
  unfolding UDP_Send_def Let_def by (intro rest_bind IP_Send_rest)

lemma calm_send [calls]: "calm_call (compute (send_message junk i msg))"
proof -
  have "machine_of k' = machine_of k" if "UDP_Send junk msg n ip p q k = Inr k'" for n ip p q and k k' :: "'a Kernel_scheme"
    using stays_devices [OF UDP_Send_rest [of k junk msg n ip p q]] that by simp
  then show ?thesis
    by (auto simp: send_message_def rbind_Inr_iff intro!: calls stays_bind split: option.splits)
qed

lemma machine_of_sockets [simp]:
  "machine_of (snd (insert_bind_socket i p k)) = machine_of k" "machine_of (snd (get_socket k)) = machine_of k"
  "machine_of (deleteSocket i k) = machine_of k" "machine_of (snd (RandomNumber k)) = machine_of k"
  by (simp_all add: insert_bind_socket_def get_socket_def deleteSocket_def RandomNumber_def Let_def split: list.split)

lemma calm_insert_connect [calls]: "calm_call (compute (insert_connect_socket i str p q))"
  by (rule calm_compute) (cases "get_ip_strToChar str"; simp add: insert_connect_socket_def case_prod_unfold)

lemma calm_sockets [calls]:
  "calm_call (compute (\<lambda>k. Inr (insert_bind_socket i p k)))" "calm_call (compute (\<lambda>k. Inr (get_socket k)))"
  "calm_call (change (\<lambda>k. Inr (deleteSocket i k)))" "calm_call (compute (\<lambda>k. Inr (RandomNumber k)))"
  by (intro calls; simp add: case_prod_unfold)+

lemma calm_getData [calls]: "calm_call (getData_call n i)"
  by (auto simp: getData_call_def Let_def rbind_Inr_iff intro!: calls stays_bind split: option.splits list.splits)

lemma calm_on_files [calls]: "calm_call (on_files f)"
  by (auto simp: on_files_def rbind_Inr_iff case_prod_unfold intro!: calls stays_bind)

lemma calm_GetString [calls]: "calm_call (GetString n m b)"
  by (induction m arbitrary: b) (auto intro!: calls)

lemma calm_files [calls]:
  "calm_call (SysCreateFile nm)" "calm_call (SysOpen nm t)" "calm_call (SysClose i)" "calm_call (SysSeek p i)"
  "calm_call (SysRead n b c i)" "calm_call (SysWrite n b c i)" "calm_call (SysExec nm)"
  by (auto simp: SysCreateFile_def SysOpen_def SysClose_def SysSeek_def SysRead_def SysWrite_def SysExec_def delete_executable_def
      with_host_def rbind_Inr_iff case_prod_unfold intro!: calls stays_bind)

lemma calm_other_calls [calls]:
  "calm_call (SysJoin i)" "calm_call (SysExit i)" "calm_call (SysCreateSemaphore nm v)" "calm_call (SysWait nm)" "calm_call (SysSignal nm)"
  "calm_call SysGetPid" "calm_call SysRandomNum" "calm_call (arg i)"
  by (auto simp: SysJoin_def SysExit_def SysCreateSemaphore_def SysWait_def SysSignal_def SysGetPid_def SysRandomNum_def arg_def
      deletes_name_def intro!: calls)

subsection \<open>The way back to the program\<close>

lemma move_program_counter_eq:
  assumes "user_ok k"
  shows "move_program_counter k = Inr (k\<lparr>registers := next_instruction (registers k)\<rparr>)"
  using assms
  by (simp add: move_program_counter_def user_ok_def next_instruction_def ReadRegister_def WriteRegister_def ASSERT_def arr_get_def arr_set_def
       )

lemma write_result:
  assumes "user_ok k"
  shows "WriteRegister 2 r k = Inr (set_reg 2 r k)" "user_ok (set_reg 2 r k)"
  using assms by (simp_all add: WriteRegister_def ASSERT_def arr_set_def  user_ok_def Machine.table_ok_def)

lemma lookup_registers: "lookup_page (k\<lparr>registers := rs\<rparr>) = lookup_page k"
  by (simp add: lookup_page_def fun_eq_iff split: option.split)

lemma moved:
  assumes "confined_to k k'" "registers k' = (registers k)[2 := v]"
  shows "served k (k'\<lparr>registers := next_instruction (registers k')\<rparr>)"
  using assms
  by (auto simp: served_def confined_to_def user_ok_def Machine.table_ok_def next_instruction_def lookup_registers)

lemma served_move [calls]: "meets (\<lambda>_. served) (change move_program_counter)"
proof -
  have "served k (k\<lparr>registers := next_instruction (registers k)\<rparr>)" if "user_ok k" for k :: "'a Kernel_scheme"
    by (rule moved [where v = "reg k 2"]) (use that in \<open>auto simp: confined_to_def\<close>)
  then show ?thesis by (simp add: meets_def change_def move_program_counter_eq)
qed

lemma served_copy:
  assumes "\<And>k. user_ok k \<Longrightarrow> calm_res k (f k)"
  shows "meets (\<lambda>_. served) (cthen (change (WriteRegister 2 r)) (cthen (change f) (change move_program_counter)))"
proof -
  have "served k (k'\<lparr>registers := next_instruction (registers k')\<rparr>)" "user_ok k'"
    if "user_ok k" "f (set_reg 2 r k) = Inr k'" for k k' :: "'a Kernel_scheme"
  proof -
    have "calm (set_reg 2 r k) k'" using assms [of "set_reg 2 r k"] write_result [OF that(1)] that(2) by simp
    then have c: "registers k' = (registers k)[2 := r]" "confined_to k k'"
      by (auto simp: calm_def confined_to_def lookup_registers writable_frame_def)
    show "served k (k'\<lparr>registers := next_instruction (registers k')\<rparr>)" by (rule moved [OF c(2,1)])
    show "user_ok k'" using c(2) by (simp add: confined_to_def)
  qed
  then show ?thesis
    by (auto simp: meets_def cthen_def cbind_def change_def write_result move_program_counter_eq split: sum.split)
qed

lemma served_answer [calls]: "meets (\<lambda>_. served) (answer r)"
proof -
  have eq: "answer r = cthen (change (WriteRegister 2 r)) (cthen (change Inr) (change move_program_counter))"
    by (simp add: answer_def fun_eq_iff cthen_def cbind_def change_def split: sum.split)
  show ?thesis unfolding eq by (rule served_copy) (simp add: calm_refl)
qed

lemma fault_after: "meets Q (cthen (change f) (\<lambda>k. Fault e))"
  by (auto simp: meets_def cthen_def cbind_def change_def split: sum.split)

lemma served_semaphore_answer [calls]: "meets (\<lambda>_. served) (semaphore_answer x)"
  by (cases x) (simp add: semaphore_answer_def fault_after served_answer [unfolded answer_def])

lemma served_handlers [calls]:
  "meets (\<lambda>_. served) handle_not_implemented_SC" "meets (\<lambda>_. served) handle_SC_Halt" "meets (\<lambda>_. served) handle_SC_Add"
  "meets (\<lambda>_. served) (handle_SC_ReadNum n)" "meets (\<lambda>_. served) (handle_SC_PrintNum n)"
  "meets (\<lambda>_. served) (handle_SC_ReadChar n)" "meets (\<lambda>_. served) (handle_SC_PrintChar n)" "meets (\<lambda>_. served) handle_SC_RandomNum"
  by (auto simp: handle_not_implemented_SC_def handle_SC_Halt_def handle_SC_Add_def handle_SC_ReadNum_def handle_SC_PrintNum_def
      handle_SC_ReadChar_def handle_SC_PrintChar_def handle_SC_RandomNum_def intro!: calls)

lemma served_string_handlers [calls]:
  "meets (\<lambda>_. served) (handle_SC_ReadString n)" "meets (\<lambda>_. served) (handle_SC_PrintString n)"
  "meets (\<lambda>_. served) handle_SC_CreateFile" "meets (\<lambda>_. served) handle_SC_Open" "meets (\<lambda>_. served) handle_SC_Close"
  "meets (\<lambda>_. served) handle_SC_Seek" "meets (\<lambda>_. served) handle_SC_Exec"
  unfolding handle_SC_ReadString_def handle_SC_PrintString_def handle_SC_CreateFile_def handle_SC_Open_def handle_SC_Close_def
    handle_SC_Seek_def handle_SC_Exec_def
  by (intro calls)+

lemma served_copy_handlers [calls]: "meets (\<lambda>_. served) (handle_SC_Read n)" "meets (\<lambda>_. served) (handle_SC_Write n)"
  unfolding handle_SC_Read_def handle_SC_Write_def
  by (intro meets_cbind(1) meets_prod calm_strings calm_files calm_other_calls served_copy calm_StringSys2User; assumption)+

lemma served_process_handlers [calls]:
  "meets (\<lambda>_. served) handle_SC_Join" "meets (\<lambda>_. served) handle_SC_Exit" "meets (\<lambda>_. served) handle_SC_CreateSemaphore"
  "meets (\<lambda>_. served) handle_SC_Wait" "meets (\<lambda>_. served) handle_SC_Signal" "meets (\<lambda>_. served) handle_SC_GetPid"
  unfolding handle_SC_Join_def handle_SC_Exit_def handle_SC_CreateSemaphore_def handle_SC_Wait_def handle_SC_Signal_def handle_SC_GetPid_def
  by (intro calls)+

lemma served_socket_handlers [calls]:
  "meets (\<lambda>_. served) handle_SC_Create_Socket" "meets (\<lambda>_. served) handle_SC_Close_Socket" "meets (\<lambda>_. served) handle_SC_Bind"
  "meets (\<lambda>_. served) handle_SC_Connect" "meets (\<lambda>_. served) (handle_SC_Send_Msg junk)" "meets (\<lambda>_. served) handle_SC_Recv_Msg"
  unfolding handle_SC_Create_Socket_def handle_SC_Close_Socket_def handle_SC_Bind_def handle_SC_Connect_def handle_SC_Send_Msg_def
    handle_SC_Recv_Msg_def
  by (intro calls calm_sockets)+

lemma served_exception: "meets (\<lambda>_. served) (ExceptionHandler n junk which)"
  unfolding ExceptionHandler_def syscall_def by (intro calls) (simp add: machine_of_def)

section \<open>Strings of the program\<close>

lemma touched_refl: "user_ok k \<Longrightarrow> touched k k"
  by (auto simp: touched_def user_ok_def intro!: exI [of _ "pageTable k"])

lemma touched_trans: "touched j k \<Longrightarrow> touched k l \<Longrightarrow> touched j l"
  by (auto simp: touched_def)

lemma touched_ok:
  assumes "user_ok k" "touched k k'"
  shows "user_ok k'" "mainMemory k' = mainMemory k" "phys_addr k' = phys_addr k" "registers k' = registers k"
  using touched_calm [OF assms] by (simp_all add: calm_def confined_to_def)

lemma read_byte_ok:
  "user_ok k \<Longrightarrow> phys_addr k False a = Some p \<Longrightarrow> \<exists>k'. touched k k' \<and> read_byte a k = Inr (scast (mainMemory k (nat p)), k')"
  using read_byte_cases [of k a] by simp

lemma char_of_byte [simp]: "ucast (scast (b :: byte) :: 32 word) = b" "(scast (b :: byte) :: 32 word) = 0 \<longleftrightarrow> b = 0"
proof -
  show e: "ucast (scast (b :: byte) :: 32 word) = b" by (intro bit_word_eqI) (auto simp: bit_simps)
  show "(scast (b :: byte) :: 32 word) = 0 \<longleftrightarrow> b = 0" using e by (metis scast_0 unsigned_0)
qed

text \<open>The readable addresses of a machine are fewer than the bytes of its page table, so the search for the
  end of a string leaves them in time.\<close>

lemma readable_range:
  assumes "phys_addr k w a = Some p"
  shows "uint a < pageTableSize k * PageSize"
proof -
  have "uint a div PageSize < pageTableSize k"
    using assms by (auto simp: phys_addr_def lookup_page_def split: option.splits if_splits)
  then show ?thesis by (simp add: memory_consts)
qed

lemma readable_count:
  assumes "\<And>i. 0 \<le> i \<Longrightarrow> i < m \<Longrightarrow> \<exists>p. phys_addr k w (a + word_of_int i) = Some p" "m \<le> 2 ^ 32"
  shows "m \<le> max 0 (pageTableSize k * PageSize)"
proof -
  let ?f = "\<lambda>i. uint (a + word_of_int i)"
  have "inj_on ?f {0..<m}"
  proof (rule inj_onI)
    fix i j assume ij: "i \<in> {0..<m}" "j \<in> {0..<m}" "?f i = ?f j"
    then have "word_of_int i = (word_of_int j :: 32 word)" by (metis add_left_cancel word_uint_eq_iff)
    then have "i mod 2 ^ 32 = j mod 2 ^ 32" by (simp add: word_of_int_eq_iff take_bit_eq_mod)
    then show "i = j" using ij(1,2) assms(2) by simp
  qed
  moreover have "?f ` {0..<m} \<subseteq> {0..<pageTableSize k * PageSize}" using assms(1) readable_range by fastforce
  ultimately have "card {0..<m} \<le> card {0..<pageTableSize k * PageSize}" by (metis card_inj_on_le finite_atLeastLessThan_int)
  then show ?thesis by simp
qed

lemma string_length_ends:
  assumes "user_ok k" "l \<le> j" "j < l + int n" "phys_addr k False (a + word_of_int j) = None"
  shows "string_length n a c l k \<noteq> Inl Diverges"
  using assms
proof (induction n arbitrary: l k)
  case (Suc n)
  show ?case
  proof (cases "phys_addr k False (a + word_of_int l)")
    case None
    then show ?thesis using read_byte_cases [OF Suc.prems(1), of "a + word_of_int l"] by auto
  next
    case (Some p)
    obtain k' where k': "touched k k'" "read_byte (a + word_of_int l) k = Inr (scast (mainMemory k (nat p)), k')"
      using read_byte_ok [OF Suc.prems(1) Some] by blast
    have "l \<noteq> j" using Some Suc.prems(4) by auto
    then have "string_length n a c (l + 1) k' \<noteq> Inl Diverges"
      using Suc.prems touched_ok [OF Suc.prems(1) k'(1)] by (intro Suc.IH) auto
    then show ?thesis using k'(2) by (simp add: Let_def)
  qed
qed simp

lemma copy_in_ends: "user_ok k \<Longrightarrow> copy_in a is str k \<noteq> Inl Diverges"
proof (induction "is" arbitrary: str k)
  case (Cons i "is")
  show ?case
  proof (cases "read_byte (a + word_of_int i) k")
    case (Inl e)
    then show ?thesis using read_byte_cases [OF Cons.prems, of "a + word_of_int i"] by (auto split: option.splits)
  next
    case (Inr x)
    have "user_ok (snd x)" using calm_read_byte [OF Cons.prems, of "a + word_of_int i"] Inr by (auto simp: case_prod_unfold calm_def confined_to_def)
    then show ?thesis using Inr Cons.IH by (simp add: case_prod_unfold)
  qed
qed simp

lemma string_length_user: "user_ok k \<Longrightarrow> string_length n a c l k = Inr (len, k') \<Longrightarrow> user_ok k'"
  using calm_string_length [of k n a c l] by (auto simp: calm_def confined_to_def)

text \<open>C35.  Copying a string from the program always ends: whatever the address, the requested length and the
  content of memory, \<open>stringUser2System\<close> returns, or stops the machine at the first address that is not
  mapped.\<close>

theorem string_copy_ends:
  assumes "user_ok k" "pageTableSize k * PageSize < 2 ^ 32"
  shows "stringUser2System a c k \<noteq> Inl Diverges"
proof -
  have "\<exists>j. 0 \<le> j \<and> j < int (string_fuel k) \<and> phys_addr k False (a + word_of_int j) = None"
  proof (rule ccontr)
    assume "\<not> ?thesis"
    then have "int (string_fuel k) \<le> max 0 (pageTableSize k * PageSize)"
      by (intro readable_count) (use assms(2) in \<open>auto simp: string_fuel_def\<close>)
    then show False by (simp add: string_fuel_def max_def split: if_splits)
  qed
  then have "string_length (string_fuel k) a c 0 k \<noteq> Inl Diverges" using string_length_ends [OF assms(1)] by force
  then show ?thesis unfolding stringUser2System_def
    by (cases "string_length (string_fuel k) a c 0 k") (auto dest: string_length_user [OF assms(1)] copy_in_ends)
qed

lemma string_length_reads:
  assumes "user_ok k" "\<And>i. l \<le> i \<Longrightarrow> i < m \<Longrightarrow> phys_addr k False (a + word_of_int i) = Some (p i)"
    "0 \<le> l" "l < m" "m - l \<le> int n"
    "c = m \<or> c = - 1 \<and> mainMemory k (nat (p (m - 1))) = 0 \<and> (\<forall>i. l \<le> i \<and> i < m - 1 \<longrightarrow> mainMemory k (nat (p i)) \<noteq> 0)"
  shows "\<exists>k'. touched k k' \<and> string_length n a c l k = Inr (m, k')"
  using assms
proof (induction n arbitrary: l k)
  case (Suc n)
  obtain k1 where k1: "touched k k1" "read_byte (a + word_of_int l) k = Inr (scast (mainMemory k (nat (p l))), k1)"
    using read_byte_ok [OF Suc.prems(1,2)] Suc.prems(4) by blast
  note ok = touched_ok [OF Suc.prems(1) k1(1)]
  show ?case
  proof (cases "l + 1 = m")
    case True
    then have "mainMemory k (nat (p l)) = 0 \<and> c = - 1 \<or> l + 1 = c" using Suc.prems(6) by auto
    then show ?thesis using k1 True by (auto simp: Let_def)
  next
    case False
    then have go: "\<not> (mainMemory k (nat (p l)) = 0 \<and> c = - 1 \<or> l + 1 = c)" using Suc.prems(3,4,6) by auto
    have "\<exists>k'. touched k1 k' \<and> string_length n a c (l + 1) k1 = Inr (m, k')"
      using False Suc.prems ok by (intro Suc.IH) auto
    then show ?thesis using k1 go touched_trans by (auto simp: Let_def)
  qed
qed simp

lemma copy_in_reads:
  assumes "user_ok k" "\<And>i. i \<in> set is \<Longrightarrow> phys_addr k False (a + word_of_int i) = Some (p i)"
  shows "\<exists>k'. touched k k' \<and> copy_in a is str k = Inr (str @ map (\<lambda>i. mainMemory k (nat (p i))) is, k')"
  using assms
proof (induction "is" arbitrary: str k)
  case Nil
  then show ?case using touched_refl by auto
next
  case (Cons i "is")
  obtain k1 where k1: "touched k k1" "read_byte (a + word_of_int i) k = Inr (scast (mainMemory k (nat (p i))), k1)"
    using read_byte_ok [OF Cons.prems(1) Cons.prems(2)] by fastforce
  note ok = touched_ok [OF Cons.prems(1) k1(1)]
  obtain k' where "touched k1 k'"
      "copy_in a is (str @ [mainMemory k (nat (p i))]) k1 = Inr ((str @ [mainMemory k (nat (p i))]) @ map (\<lambda>i. mainMemory k1 (nat (p i))) is, k')"
    using Cons.IH [OF ok(1)] Cons.prems(2) ok(3) by fastforce
  then show ?case using k1 ok touched_trans by auto
qed

lemma stringUser2System_reads:
  assumes "user_ok k" "\<And>i. 0 \<le> i \<Longrightarrow> i < m \<Longrightarrow> phys_addr k False (a + word_of_int i) = Some (p i)" "0 < m" "m \<le> 2 ^ 32"
    "c = m \<or> c = - 1 \<and> mainMemory k (nat (p (m - 1))) = 0 \<and> (\<forall>i. 0 \<le> i \<and> i < m - 1 \<longrightarrow> mainMemory k (nat (p i)) \<noteq> 0)"
  shows "\<exists>k'. touched k k' \<and> stringUser2System a c k = Inr (map (\<lambda>i. mainMemory k (nat (p i))) [0..m - 1], k')"
proof -
  have "m \<le> max 0 (pageTableSize k * PageSize)" using assms(2,4) by (intro readable_count) auto
  then have "m - 0 \<le> int (string_fuel k)" using assms(3) by (simp add: string_fuel_def max_def split: if_splits)
  then obtain k1 where k1: "touched k k1" "string_length (string_fuel k) a c 0 k = Inr (m, k1)"
    using string_length_reads [of k 0 m a p "string_fuel k" c] assms by blast
  note ok = touched_ok [OF assms(1) k1(1)]
  obtain k' where "touched k1 k'" "copy_in a [0..m - 1] [] k1 = Inr ([] @ map (\<lambda>i. mainMemory k1 (nat (p i))) [0..m - 1], k')"
    using copy_in_reads [OF ok(1), of "[0..m - 1]" a p "[]"] assms(2) ok(3) by auto
  then show ?thesis using k1 ok(2) touched_trans by (auto simp: stringUser2System_def)
qed

lemma write_back:
  assumes "user_ok k" "\<And>i. i \<in> set is \<Longrightarrow> phys_addr k True (a + word_of_int i) = Some (p i)"
    "\<And>i. i \<in> set is \<Longrightarrow> arr_get str i = Inr (mainMemory k (nat (p i)))"
  shows "\<exists>k'. touched k k' \<and> for_each (\<lambda>i k. rbind (arr_get str i) (\<lambda>c. write_byte (a + word_of_int i) (scast c) k)) is k = Inr k'"
  using assms
proof (induction "is" arbitrary: k)
  case Nil
  then show ?case using touched_refl by auto
next
  case (Cons i "is")
  obtain k1 where k1: "touched k k1" "write_byte (a + word_of_int i) (scast (mainMemory k (nat (p i)))) k = Inr (k1\<lparr>mainMemory := mainMemory k\<rparr>)"
    using write_byte_cases [OF Cons.prems(1), of "a + word_of_int i" "scast (mainMemory k (nat (p i)))"] Cons.prems(2) by auto
  note ok = touched_ok [OF Cons.prems(1) k1(1)]
  have k1': "k1\<lparr>mainMemory := mainMemory k\<rparr> = k1" using ok(2) by simp
  have "\<exists>k'. touched k1 k' \<and> for_each (\<lambda>i k. rbind (arr_get str i) (\<lambda>c. write_byte (a + word_of_int i) (scast c) k)) is k1 = Inr k'"
    using Cons.prems ok by (intro Cons.IH) auto
  then show ?case using k1 k1' Cons.prems(3) touched_trans by auto
qed

lemma read_after_write: "phys_addr k True a = Some p \<Longrightarrow> phys_addr k False a = Some p"
  by (auto simp: phys_addr_def lookup_page_def split: option.splits if_splits)

lemma console_ready_machine [simp]:
  "console_ready (k\<lparr>pageTable := pt\<rparr>) = console_ready k" "console_ready (k\<lparr>mainMemory := m\<rparr>) = console_ready k"
  "console_ready (k\<lparr>registers := rs\<rparr>) = console_ready k" "console_ready (k\<lparr>pageTableSize := z\<rparr>) = console_ready k"
  by (simp_all add: console_ready_def hw_ok_def quiet_def ints_ok_def num_pending_def)

lemma print_bytes_alone:
  assumes "console_ready k" "100 \<le> n" "\<And>i. 0 \<le> i \<Longrightarrow> i < m \<Longrightarrow> arr_get buffer i = Inr (c i)"
  shows "\<exists>k'. alone (SysPrintString n buffer m k) = Some ((), k') \<and> console_ready k' \<and>
    display k' = display k @ map c [0..m - 1] \<and> Hardware.more k' = Hardware.more k"
  unfolding SysPrintString_def
  by (rule print_chars) (use assms in \<open>auto simp: cbind_def inspect_def\<close>)

lemma same_machine:
  assumes "Hardware.more k' = Hardware.more k"
  shows "registers k' = registers k" "mainMemory k' = mainMemory k" "phys_addr k' = phys_addr k" "user_ok k' = user_ok k"
proof -
  have "machine_of k' = machine_of k" by (rule machine_of_devices [OF assms])
  then have m: "registers k' = registers k" "mainMemory k' = mainMemory k" "tlb k' = tlb k" "pageTable k' = pageTable k" "pageTableSize k' = pageTableSize k"
    by (simp_all add: machine_of_def)
  then show "registers k' = registers k" "mainMemory k' = mainMemory k" by simp_all
  show "phys_addr k' = phys_addr k" "user_ok k' = user_ok k"
    unfolding phys_addr_def lookup_page_def user_ok_def Machine.table_ok_def m by (rule refl)+
qed

lemma alone_steps:
  "user_ok k \<Longrightarrow> i < 40 \<Longrightarrow> alone (arg (int i) k) = Some (reg k i, k)"
  "f k = Inr (x, k') \<Longrightarrow> alone (compute f k) = Some (x, k')"
  "g k = Inr k' \<Longrightarrow> alone (change g k) = Some ((), k')"
  by (auto simp: arg_def inspect_def compute_def change_def ReadRegister_def ASSERT_def user_ok_def arr_get_def)

text \<open>C34.  \<open>Write\<close> on the console, run without interruption: the bytes of the program's buffer appear on the
  display, the result is their number, and the program goes on behind the call.  The handler also copies
  the buffer back with a terminator: the byte of the program behind the buffer becomes 0.\<close>

theorem write_console_exact:
  assumes k: "user_ok k" "console_ready k" "100 \<le> n"
    and r: "reg k 4 = a" "reg k 5 = word_of_int m" "reg k 6 = 1" "0 < m" "m < 2 ^ 31"
    and p: "\<And>i. 0 \<le> i \<Longrightarrow> i \<le> m \<Longrightarrow> phys_addr k True (a + word_of_int i) = Some (p i)"
  shows "\<exists>k'. alone (handle_SC_Write n k) = Some ((), k') \<and>
    display k' = display k @ map (\<lambda>i. mainMemory k (nat (p i))) [0..m - 1] \<and>
    mainMemory k' = (mainMemory k)(nat (p m) := 0) \<and>
    registers k' = next_instruction ((registers k)[2 := word_of_int m])"
proof -
  define bs where "bs = map (\<lambda>i. mainMemory k (nat (p i))) [0..m - 1]"
  have m: "sint (word_of_int m :: 32 word) = m" using r(4,5) by (intro sint_in_range) auto
  have bs: "arr_get bs i = Inr (mainMemory k (nat (p i)))" if "0 \<le> i" "i < m" for i
    using that by (simp add: bs_def arr_get_def nth_upto)
  obtain k1 where k1: "touched k k1" "stringUser2System a m k = Inr (bs, k1)"
    using stringUser2System_reads [OF k(1), of m a p m] p read_after_write r(4,5) unfolding bs_def by fastforce
  note ok1 = touched_ok [OF k(1) k1(1)]
  have c1: "console_ready k1" "display k1 = display k" using k1(1) k(2) by (auto simp: touched_def)
  obtain k2 where k2: "alone (SysPrintString n bs m k1) = Some ((), k2)" "display k2 = display k1 @ bs" "Hardware.more k2 = Hardware.more k1"
    using print_bytes_alone [OF c1(1) k(3) bs] unfolding bs_def by auto
  note ok2 = same_machine [OF k2(3)]
  have w: "user_ok k2" using ok1(1) ok2 by simp
  define k3 where "k3 = set_reg 2 (word_of_int m) k2"
  have k3: "WriteRegister 2 (word_of_int m) k2 = Inr k3" "user_ok k3" "phys_addr k3 = phys_addr k" "mainMemory k3 = mainMemory k"
    using write_result [OF w] ok1 ok2 by (simp_all add: k3_def fun_eq_iff phys_addr_def lookup_registers)
  obtain k4 where k4: "touched k3 k4"
      "for_each (\<lambda>i k. rbind (arr_get bs i) (\<lambda>c. write_byte (a + word_of_int i) (scast c) k)) [0..m - 1] k3 = Inr k4"
    using write_back [OF k3(2), of "[0..m - 1]" a p bs] p bs k3(3,4) by auto
  note ok4 = touched_ok [OF k3(2) k4(1)]
  obtain k5 where k5: "touched k4 k5" "write_byte (a + word_of_int m) 0 k4 = Inr (k5\<lparr>mainMemory := (mainMemory k4)(nat (p m) := 0)\<rparr>)"
    using write_byte_cases [OF ok4(1), of "a + word_of_int m" 0] p [of m] r(4) ok4(3) k3(3) by auto
  note ok5 = touched_ok [OF ok4(1) k5(1)]
  define k6 where "k6 = k5\<lparr>mainMemory := (mainMemory k4)(nat (p m) := 0)\<rparr>"
  have u: "user_ok k6" using ok5(1) by (simp add: k6_def user_ok_def Machine.table_ok_def)
  have "StringSys2User bs a m k3 = Inr k6" using k4(2) k5(2) r(4) by (simp add: StringSys2User_def k6_def)
  moreover have "alone (handle_SC_Write n k) = alone (cthen (change (StringSys2User bs a m)) (change move_program_counter) k3)"
    using k1 k2 k3 r(1-3) m ok1 alone_steps(1) [OF k(1), of 4] alone_steps(1) [OF k(1), of 5] alone_steps(1) [OF ok1(1), of 6]
    by (simp add: handle_SC_Write_def SysWrite_def alone_cbind alone_cthen alone_steps(2,3) creturn_def)
  ultimately have "alone (handle_SC_Write n k) = Some ((), k6\<lparr>registers := next_instruction (registers k6)\<rparr>)"
    using move_program_counter_eq [OF u] by (simp add: alone_cthen alone_steps(3))
  moreover have "display k6 = display k @ bs" using k4(1) k5(1) k2(2) c1(2) by (auto simp: k6_def k3_def touched_def)
  moreover have "mainMemory k6 = (mainMemory k)(nat (p m) := 0)" using ok4(2) k3(4) by (simp add: k6_def)
  moreover have "registers k6 = (registers k)[2 := word_of_int m]" using ok5(4) ok4(4) ok2(1) ok1(4) by (simp add: k6_def k3_def)
  ultimately show ?thesis unfolding bs_def by (intro exI [of _ "k6\<lparr>registers := next_instruction (registers k6)\<rparr>"]) simp
qed


definition demo_program :: "32 word list \<Rightarrow> Kernel" where
  "demo_program rs = (demo_console [])\<lparr>registers := rs,
     pageTable := Some [\<lparr>virtualPage = 0, physicalPage = 5, valid = True, readOnly = False, used = False, dirty = False\<rparr>],
     pageTableSize := 1\<rparr>"

definition demo_registers :: "32 word \<Rightarrow> 32 word \<Rightarrow> 32 word \<Rightarrow> 32 word \<Rightarrow> 32 word list" where
  "demo_registers c r4 r5 r6 = (replicate NumTotalRegs 0)[2 := c, 4 := r4, 5 := r5, 6 := r6]"

lemma demo_program_ok: "length rs = NumTotalRegs \<Longrightarrow> user_ok (demo_program rs)" "console_ready (demo_program rs)"
  "registers (demo_program rs) = rs" "pageTableSize (demo_program rs) = 1"
proof -
  have "tlb (demo_console []) = None"
    by (simp add: demo_console_def demo_machine_def Machine.defs Machine_new_def NetKernel.defs)
  then show "length rs = NumTotalRegs \<Longrightarrow> user_ok (demo_program rs)" by (simp add: demo_program_def user_ok_def Machine.table_ok_def)
qed (simp_all add: demo_program_def demo_console_ready)

lemma demo_program_phys: "0 \<le> i \<Longrightarrow> i < 128 \<Longrightarrow> phys_addr (demo_program rs) w (word_of_int i) = Some (5 * 128 + i)"
  by (simp add: demo_program_def phys_addr_def lookup_page_def frame_of_entry_def memory_consts uint_word_of_int)

theorem string_copy_ends_witness:
  "user_ok (demo_program (demo_registers 0 0 0 0)) \<and> stringUser2System 100 (- 1) (demo_program (demo_registers 0 0 0 0)) \<noteq> Inl Diverges"
proof -
  have "user_ok (demo_program (demo_registers 0 0 0 0))" by (rule demo_program_ok) (simp add: demo_registers_def)
  moreover from this have "stringUser2System 100 (- 1) (demo_program (demo_registers 0 0 0 0)) \<noteq> Inl Diverges"
    by (rule string_copy_ends) (simp add: demo_program_ok memory_consts)
  ultimately show ?thesis by simp
qed

theorem write_console_exact_witness:
  "\<exists>k'. alone (handle_SC_Write 100 (demo_program (demo_registers 0 16 3 1))) = Some ((), k') \<and>
     display k' = display (demo_program (demo_registers 0 16 3 1)) @
       map (\<lambda>i. mainMemory (demo_program (demo_registers 0 16 3 1)) (nat (5 * 128 + 16 + i))) [0..3 - 1] \<and>
     mainMemory k' = (mainMemory (demo_program (demo_registers 0 16 3 1)))(nat (5 * 128 + 16 + 3) := 0) \<and>
     registers k' = next_instruction ((registers (demo_program (demo_registers 0 16 3 1)))[2 := word_of_int 3])"
proof (rule write_console_exact [where a = 16])
  fix i :: int assume "0 \<le> i" "i \<le> 3"
  then show "phys_addr (demo_program (demo_registers 0 16 3 1)) True (16 + word_of_int i) = Some (5 * 128 + 16 + i)"
    using demo_program_phys [of "16 + i" "demo_registers 0 16 3 1" True] by simp
qed (simp_all add: demo_program_ok demo_registers_def)


end
