(* ===== verification/Hash_Table.thy ===== *)
theory Hash_Table
  imports Linked_List Bitmap "HOL-Library.Multiset"
begin

text \<open>
  The expanding hash table of \<open>lib/hash.h\<close> and \<open>lib/hash.cc\<close>, an array of the linked lists of
  \<open>Linked_List\<close>, and the driver of the library's self tests (\<open>lib/libtest.cc\<close>).  The functions the
  caller supplies (\<open>getKey\<close>, \<open>hash\<close>) are members of the table, as in the code.  \<open>hash\<close> returns an unsigned
  32-bit word, which \<open>HashValue\<close> divides by the number of buckets in unsigned arithmetic.

  The table is shown to behave as a finite map from keys to items: the interface \<open>dictionary\<close>.
\<close>

section \<open>Tables\<close>

definition InitialBuckets :: int where "InitialBuckets = 4"
definition ResizeRatio :: int where "ResizeRatio = 3"
definition IncreaseSizeBy :: int where "IncreaseSizeBy = 4"

record ('k, 't) HashTable =
  buckets :: "'t List list"
  numBuckets :: int
  numItems :: int
  getKey :: "'t \<Rightarrow> 'k"
  hash :: "'k \<Rightarrow> 32 word"

definition InitBuckets :: "int \<Rightarrow> ('k, 't) HashTable \<Rightarrow> ('k, 't) HashTable" where
  "InitBuckets sz t = t\<lparr>numBuckets := sz, buckets := replicate (nat sz) List_new\<rparr>"

definition HashTable_new :: "('t \<Rightarrow> 'k) \<Rightarrow> ('k \<Rightarrow> 32 word) \<Rightarrow> ('k, 't) HashTable" where
  "HashTable_new get hFunc =
     InitBuckets InitialBuckets \<lparr>buckets = [], numBuckets = 0, numItems = 0, getKey = get, hash = hFunc\<rparr>"

definition HashTable_IsEmpty :: "('k, 't) HashTable \<Rightarrow> bool" where
  "HashTable_IsEmpty t \<longleftrightarrow> numItems t = 0"

text \<open>The destructor of a list does nothing, so deleting the buckets reads each of them and frees the array.\<close>

definition DeleteBuckets :: "'t List list \<Rightarrow> int \<Rightarrow> unit res" where
  "DeleteBuckets table sz = for_each (\<lambda>i _. rbind (arr_get table i) (\<lambda>_. Inr ())) [0..sz - 1] ()"

definition HashTable_delete :: "('k, 't) HashTable \<Rightarrow> unit res" where
  "HashTable_delete t =
     rbind (ASSERT (HashTable_IsEmpty t)) (\<lambda>_. DeleteBuckets (buckets t) (numBuckets t))"

definition HashValue :: "('k, 't) HashTable \<Rightarrow> 'k \<Rightarrow> int res" where
  "HashValue t key =
     (let result = sint (hash t key mod word_of_int (numBuckets t)) in
      rbind (ASSERT (0 \<le> result \<and> result < numBuckets t)) (\<lambda>_. Inr result))"

text \<open>The loop of \<open>FindInBucket\<close>; \<open>None\<close> stands for \<open>FALSE\<close> with \<open>NULL\<close> stored.\<close>

fun Find_loop :: "nat \<Rightarrow> ('t \<Rightarrow> 'k) \<Rightarrow> 't List \<Rightarrow> 'k \<Rightarrow> ListIterator \<Rightarrow> 't option res" where
  "Find_loop 0 get l key iter = (if ListIterator_IsDone iter then Inr None else Inl Diverges)"
| "Find_loop (Suc n) get l key iter =
     (if ListIterator_IsDone iter then Inr None
      else rbind (ListIterator_Item l iter) (\<lambda>itm.
        if key = get itm then Inr (Some itm)
        else rbind (ListIterator_Next l iter) (Find_loop n get l key)))"

definition FindInBucket :: "('k, 't) HashTable \<Rightarrow> int \<Rightarrow> 'k \<Rightarrow> 't option res" where
  "FindInBucket t bucket key =
     rbind (arr_get (buckets t) bucket) (\<lambda>l. Find_loop (walk_fuel l) (getKey t) l key (ListIterator_new l))"

definition HashTable_Find :: "('k, 't) HashTable \<Rightarrow> 'k \<Rightarrow> 't option res" where
  "HashTable_Find t key = rbind (HashValue t key) (\<lambda>bucket. FindInBucket t bucket key)"

definition IsInTable :: "('k, 't) HashTable \<Rightarrow> 'k \<Rightarrow> bool res" where
  "IsInTable t key = rbind (HashTable_Find t key) (\<lambda>r. Inr (r \<noteq> None))"

text \<open>The inner loop of \<open>SanityCheck\<close>.\<close>

fun Placed_loop :: "nat \<Rightarrow> ('k, 't) HashTable \<Rightarrow> int \<Rightarrow> 't List \<Rightarrow> ListIterator \<Rightarrow> unit res" where
  "Placed_loop 0 t i l iter = (if ListIterator_IsDone iter then Inr () else Inl Diverges)"
| "Placed_loop (Suc n) t i l iter =
     (if ListIterator_IsDone iter then Inr ()
      else rbind (ListIterator_Item l iter) (\<lambda>itm.
        rbind (HashValue t (getKey t itm)) (\<lambda>b. rbind (ASSERT (i = b)) (\<lambda>_.
        rbind (ListIterator_Next l iter) (Placed_loop n t i l)))))"

definition HashTable_SanityCheck :: "('k, 't) HashTable \<Rightarrow> unit res" where
  "HashTable_SanityCheck t =
     rbind (for_each (\<lambda>i numFound.
         rbind (arr_get (buckets t) i) (\<lambda>l.
         rbind (List_SanityCheck l) (\<lambda>_.
         rbind (Placed_loop (walk_fuel l) t i l (ListIterator_new l)) (\<lambda>_.
         Inr (numFound + List_NumInList l))))) [0..numBuckets t - 1] 0) (\<lambda>numFound.
     ASSERT (numItems t = numFound))"

text \<open>An item appended to the bucket of its key.\<close>

definition append_item :: "'t \<Rightarrow> ('k, 't) HashTable \<Rightarrow> ('k, 't) HashTable res" where
  "append_item itm t =
     rbind (HashValue t (getKey t itm)) (\<lambda>b.
     rbind (arr_get (buckets t) b) (\<lambda>l.
     rbind (List_Append l itm) (\<lambda>l.
     rbind (arr_set (buckets t) b l) (\<lambda>bs. Inr (t\<lparr>buckets := bs\<rparr>)))))"

text \<open>The loop that empties one bucket of the old table.\<close>

fun Move_loop :: "nat \<Rightarrow> 't List \<Rightarrow> ('k, 't) HashTable \<Rightarrow> ('k, 't) HashTable res" where
  "Move_loop 0 l t = (if List_IsEmpty l then Inr t else Inl Diverges)"
| "Move_loop (Suc n) l t =
     (if List_IsEmpty l then Inr t
      else rbind (List_RemoveFront l) (\<lambda>(itm, l). rbind (append_item itm t) (Move_loop n l)))"

definition ReHash :: "('k, 't) HashTable \<Rightarrow> ('k, 't) HashTable res" where
  "ReHash t =
     (let oldTable = buckets t; oldSize = numBuckets t in
      rbind (HashTable_SanityCheck t) (\<lambda>_.
      let t = InitBuckets (numBuckets t * IncreaseSizeBy) t in
      rbind (for_each (\<lambda>i t. rbind (arr_get oldTable i) (\<lambda>l. Move_loop (walk_fuel l) l t)) [0..oldSize - 1] t) (\<lambda>t.
      rbind (DeleteBuckets oldTable oldSize) (\<lambda>_.
      rbind (HashTable_SanityCheck t) (\<lambda>_. Inr t)))))"

definition HashTable_Insert :: "('k, 't) HashTable \<Rightarrow> 't \<Rightarrow> ('k, 't) HashTable res" where
  "HashTable_Insert t itm =
     (let key = getKey t itm in
      rbind (IsInTable t key) (\<lambda>b. rbind (ASSERT (\<not> b)) (\<lambda>_.
      rbind (if numItems t sdiv numBuckets t \<ge> ResizeRatio then ReHash t else Inr t) (\<lambda>t.
      rbind (append_item itm t) (\<lambda>t.
      let t = t\<lparr>numItems := numItems t + 1\<rparr> in
      rbind (IsInTable t key) (\<lambda>b. rbind (ASSERT b) (\<lambda>_. Inr t)))))))"

definition HashTable_Remove :: "('k, 't) HashTable \<Rightarrow> 'k \<Rightarrow> ('t \<times> ('k, 't) HashTable) res" where
  "HashTable_Remove t key =
     rbind (HashValue t key) (\<lambda>bucket.
     rbind (FindInBucket t bucket key) (\<lambda>found.
     case found of
       None \<Rightarrow> Inl AssertionFailed
     | Some itm \<Rightarrow>
         rbind (arr_get (buckets t) bucket) (\<lambda>l.
         rbind (List_Remove l itm) (\<lambda>l.
         rbind (arr_set (buckets t) bucket l) (\<lambda>bs.
         let t = t\<lparr>buckets := bs, numItems := numItems t - 1\<rparr> in
         rbind (IsInTable t key) (\<lambda>b. rbind (ASSERT (\<not> b)) (\<lambda>_. Inr (itm, t))))))))"

text \<open>\<open>Apply\<close> visits the items in this order.\<close>

definition HashTable_Apply :: "('k, 't) HashTable \<Rightarrow> 't list res" where
  "HashTable_Apply t =
     for_each (\<lambda>bucket visited. rbind (arr_get (buckets t) bucket) (\<lambda>l.
       rbind (List_Apply l) (\<lambda>xs. Inr (visited @ xs)))) [0..numBuckets t - 1] []"

section \<open>Iterators\<close>

fun FullBucket_loop :: "nat \<Rightarrow> ('k, 't) HashTable \<Rightarrow> int \<Rightarrow> int res" where
  "FullBucket_loop 0 t bucket = (if bucket < numBuckets t then Inl Diverges else Inr bucket)"
| "FullBucket_loop (Suc n) t bucket =
     (if bucket < numBuckets t then
        rbind (arr_get (buckets t) bucket) (\<lambda>l.
        if \<not> List_IsEmpty l then Inr bucket else FullBucket_loop n t (bucket + 1))
      else Inr bucket)"

definition FindNextFullBucket :: "('k, 't) HashTable \<Rightarrow> int \<Rightarrow> int res" where
  "FindNextFullBucket t bucket = FullBucket_loop (nat (numBuckets t)) t bucket"

record HashIterator =
  iter_bucket :: int
  bucketIter :: "ListIterator option"

definition iterator_at :: "('k, 't) HashTable \<Rightarrow> int \<Rightarrow> HashIterator res" where
  "iterator_at t bucket =
     (if bucket < numBuckets t then
        rbind (arr_get (buckets t) bucket) (\<lambda>l. Inr \<lparr>iter_bucket = bucket, bucketIter = Some (ListIterator_new l)\<rparr>)
      else Inr \<lparr>iter_bucket = bucket, bucketIter = None\<rparr>)"

definition HashIterator_new :: "('k, 't) HashTable \<Rightarrow> HashIterator res" where
  "HashIterator_new t = rbind (FindNextFullBucket t 0) (iterator_at t)"

definition HashIterator_IsDone :: "('k, 't) HashTable \<Rightarrow> HashIterator \<Rightarrow> bool" where
  "HashIterator_IsDone t iter \<longleftrightarrow> iter_bucket iter = numBuckets t"

definition HashIterator_Item :: "('k, 't) HashTable \<Rightarrow> HashIterator \<Rightarrow> 't res" where
  "HashIterator_Item t iter =
     rbind (ASSERT (\<not> HashIterator_IsDone t iter)) (\<lambda>_.
     case bucketIter iter of
       None \<Rightarrow> Inl NullPointer
     | Some cur \<Rightarrow> rbind (arr_get (buckets t) (iter_bucket iter)) (\<lambda>l. ListIterator_Item l cur))"

definition HashIterator_Next :: "('k, 't) HashTable \<Rightarrow> HashIterator \<Rightarrow> HashIterator res" where
  "HashIterator_Next t iter = (case bucketIter iter of
       None \<Rightarrow> Inl NullPointer
     | Some cur \<Rightarrow>
         rbind (arr_get (buckets t) (iter_bucket iter)) (\<lambda>l.
         rbind (ListIterator_Next l cur) (\<lambda>cur.
         if ListIterator_IsDone cur then rbind (FindNextFullBucket t (iter_bucket iter + 1)) (iterator_at t)
         else Inr (iter\<lparr>bucketIter := Some cur\<rparr>))))"

text \<open>The loop of a client that steps through the table.\<close>

fun iterate :: "nat \<Rightarrow> ('k, 't) HashTable \<Rightarrow> HashIterator \<Rightarrow> 't list res" where
  "iterate 0 t iter = (if HashIterator_IsDone t iter then Inr [] else Inl Diverges)"
| "iterate (Suc n) t iter =
     (if HashIterator_IsDone t iter then Inr []
      else rbind (HashIterator_Item t iter) (\<lambda>x.
        rbind (HashIterator_Next t iter) (\<lambda>iter.
        rbind (iterate n t iter) (\<lambda>xs. Inr (x # xs)))))"

section \<open>The self tests of the library\<close>

definition HashTable_SelfTest :: "('k, 't) HashTable \<Rightarrow> 't list \<Rightarrow> ('k, 't) HashTable res" where
  "HashTable_SelfTest t p =
     rbind (HashIterator_new t) (\<lambda>iter.
     rbind (HashTable_SanityCheck t) (\<lambda>_.
     rbind (ASSERT (HashTable_IsEmpty t)) (\<lambda>_.
     rbind (ASSERT (HashIterator_IsDone t iter)) (\<lambda>_.
     rbind (for_each (\<lambda>x t. rbind (HashTable_Insert t x) (\<lambda>t.
              rbind (IsInTable t (getKey t x)) (\<lambda>b. rbind (ASSERT b) (\<lambda>_.
              rbind (ASSERT (\<not> HashTable_IsEmpty t)) (\<lambda>_. Inr t))))) p t) (\<lambda>t.
     rbind (for_each (\<lambda>x t. rbind (HashTable_Remove t (getKey t x)) (\<lambda>(y, t).
              rbind (ASSERT (y = x)) (\<lambda>_. Inr t))) p t) (\<lambda>t.
     rbind (ASSERT (HashTable_IsEmpty t)) (\<lambda>_.
     rbind (HashTable_SanityCheck t) (\<lambda>_. Inr t))))))))"

definition HashInt :: "int \<Rightarrow> 32 word" where
  "HashInt key = word_of_int key"

text \<open>\<open>atoi\<close>: white space, an optional sign, then digits; 0 when there is none.\<close>

definition atoi :: "string \<Rightarrow> int" where
  "atoi str =
     (let t = dropWhile (\<lambda>c. c \<in> {CHR '' '', CHR 0x09, CHR 0x0A, CHR 0x0B, CHR 0x0C, CHR 0x0D}) str in
      case t of [] \<Rightarrow> 0 | c # cs \<Rightarrow>
        if c = CHR ''-'' then - int (digits_val (takeWhile is_digit cs))
        else if c = CHR ''+'' then int (digits_val (takeWhile is_digit cs))
        else int (digits_val (takeWhile is_digit t)))"

definition HashKey :: "string \<Rightarrow> int" where
  "HashKey str = atoi str"

definition listTestVector :: "int list" where
  "listTestVector = [9, 5, 7]"

definition hashTestVector :: "string list" where
  "hashTestVector = [''0'', ''1'', ''2'', ''3'', ''4'', ''5'', ''6'', ''7'',
     ''8'', ''9'', ''10'', ''11'', ''12'', ''13'', ''14'']"

definition LibSelfTest :: "unit res" where
  "LibSelfTest =
     rbind (Bitmap_new 200) (\<lambda>bitmap.
     rbind (Bitmap_SelfTest bitmap) (\<lambda>bitmap.
     rbind (List_SelfTest List_new listTestVector) (\<lambda>list.
     rbind (SortedList_SelfTest IntCompare List_new listTestVector) (\<lambda>sortList.
     rbind (HashTable_SelfTest (HashTable_new HashKey HashInt) hashTestVector) (\<lambda>hashTable.
     HashTable_delete hashTable)))))"

section \<open>Walking along a bucket\<close>

lemma Find_loop_path:
  "path (heap l) p as None \<Longrightarrow> length as \<le> n \<Longrightarrow> Find_loop n get l key p = Inr (find (\<lambda>x. key = get x) (items (heap l) as))"
proof (induction as arbitrary: p n)
  case Nil
  then show ?case by (cases n) (auto simp: ListIterator_IsDone_def)
next
  case (Cons a as)
  then obtain e m where "heap l a = Some e" "path (heap l) (lnext e) as None" "p = Some a" "n = Suc m" by (cases n) auto
  then show ?case using Cons.IH [of "lnext e" m] Cons.prems(2)
    by (simp add: ListIterator_IsDone_def ListIterator_Item_def ListIterator_Next_def)
qed

lemma Placed_loop_path:
  "path (heap l) p as None \<Longrightarrow> length as \<le> n \<Longrightarrow> (\<And>x. x \<in> set (items (heap l) as) \<Longrightarrow> HashValue t (getKey t x) = Inr i) \<Longrightarrow>
    Placed_loop n t i l p = Inr ()"
proof (induction as arbitrary: p n)
  case Nil
  then show ?case by (cases n) (auto simp: ListIterator_IsDone_def)
next
  case (Cons a as)
  then obtain e m where "heap l a = Some e" "path (heap l) (lnext e) as None" "p = Some a" "n = Suc m" by (cases n) auto
  then show ?case using Cons.IH [of "lnext e" m] Cons.prems(2,3)
    by (simp add: ListIterator_IsDone_def ListIterator_Item_def ListIterator_Next_def)
qed

lemma list_rep_path:
  assumes "list_rep l xs"
  obtains as where "path (heap l) (first l) as None" "length as \<le> fresh l" "xs = items (heap l) as"
  using assms cells_path cells_length unfolding list_rep_def by blast

lemma Find_loop_ok: "list_rep l xs \<Longrightarrow> Find_loop (walk_fuel l) get l key (ListIterator_new l) = Inr (find (\<lambda>x. key = get x) xs)"
  by (erule list_rep_path) (simp only: ListIterator_new_def, rule Find_loop_path, auto)

lemma Placed_loop_ok:
  "list_rep l xs \<Longrightarrow> (\<And>x. x \<in> set xs \<Longrightarrow> HashValue t (getKey t x) = Inr i) \<Longrightarrow> Placed_loop (walk_fuel l) t i l (ListIterator_new l) = Inr ()"
  by (erule list_rep_path) (simp only: ListIterator_new_def, rule Placed_loop_path, auto)

lemma list_rep_fuel: "list_rep l xs \<Longrightarrow> length xs \<le> fresh l"
  by (erule list_rep_path) simp

section \<open>Tables and the items they hold\<close>

definition bucket_of :: "('k, 't) HashTable \<Rightarrow> 'k \<Rightarrow> nat" where
  "bucket_of t key = unat (hash t key) mod nat (numBuckets t)"

text \<open>Every item is in the bucket of its key, and no two items have the same key.\<close>

definition placed :: "('k, 't) HashTable \<Rightarrow> 't list list \<Rightarrow> bool" where
  "placed t xss \<longleftrightarrow> 0 < numBuckets t \<and> numBuckets t < 2 ^ 31 \<and> length xss = nat (numBuckets t) \<and>
     list_all2 list_rep (buckets t) xss \<and> (\<forall>i<length xss. \<forall>x\<in>set (xss ! i). bucket_of t (getKey t x) = i) \<and>
     distinct (map (getKey t) (concat xss))"

definition table_rep :: "('k, 't) HashTable \<Rightarrow> 't list list \<Rightarrow> bool" where
  "table_rep t xss \<longleftrightarrow> placed t xss \<and> numItems t = int (length (concat xss))"

definition by_key :: "('t \<Rightarrow> 'k) \<Rightarrow> 't list \<Rightarrow> 'k \<rightharpoonup> 't" where
  "by_key get xs = map_of (map (\<lambda>x. (get x, x)) xs)"

lemma by_key_Some: "distinct (map get xs) \<Longrightarrow> by_key get xs k = Some x \<longleftrightarrow> x \<in> set xs \<and> get x = k"
  unfolding by_key_def by (subst map_of_eq_Some_iff) (auto simp: comp_def)

lemma by_key_None: "by_key get xs k = None \<longleftrightarrow> k \<notin> get ` set xs"
  by (auto simp: by_key_def map_of_eq_None_iff image_image)

lemma by_key_mset:
  assumes "mset xs = mset ys" "distinct (map get xs)"
  shows "by_key get xs = by_key get ys" "distinct (map get ys)"
proof -
  show d: "distinct (map get ys)" using assms mset_eq_imp_distinct_iff [of "map get xs" "map get ys"] by simp
  have "set xs = set ys" using assms(1) by (rule mset_eq_setD)
  then have "by_key get xs k = Some x \<longleftrightarrow> by_key get ys k = Some x" for k x
    by (simp add: by_key_Some [OF assms(2)] by_key_Some [OF d])
  then have "by_key get xs k = by_key get ys k" for k
    by (metis not_Some_eq)
  then show "by_key get xs = by_key get ys" by (rule ext)
qed

lemma mset_concat_update:
  "i < length xss \<Longrightarrow> mset (concat (xss[i := ys])) + mset (xss ! i) = mset ys + mset (concat xss)"
proof (induction xss arbitrary: i)
  case (Cons xs xss)
  then show ?case by (cases i) (auto simp: ac_simps)
qed simp

lemma HashValue_ok:
  assumes "0 < numBuckets t" "numBuckets t < 2 ^ 31"
  shows "HashValue t key = Inr (int (bucket_of t key))" "bucket_of t key < nat (numBuckets t)"
proof -
  let ?b = "nat (numBuckets t)"
  have b: "0 < ?b" "?b < 2 ^ 31" using assms by auto
  have n: "unat (word_of_int (numBuckets t) :: 32 word) = ?b"
    using assms by (simp add: unat_eq_nat_uint uint_word_of_int)
  have "unat (hash t key mod word_of_int (numBuckets t)) = bucket_of t key" by (simp add: bucket_of_def unat_mod n)
  moreover show l: "bucket_of t key < ?b" using b(1) by (simp add: bucket_of_def)
  ultimately have u: "uint (hash t key mod word_of_int (numBuckets t)) = int (bucket_of t key)" by (metis int_nat_eq uint_nat)
  then have "sint (hash t key mod word_of_int (numBuckets t)) = int (bucket_of t key)"
    using l b(2) by (simp add: sint_uint signed_take_bit_int_eq_self)
  then show "HashValue t key = Inr (int (bucket_of t key))" using l by (simp add: HashValue_def Let_def)
qed

lemma placedD:
  assumes "placed t xss"
  shows "HashValue t key = Inr (int (bucket_of t key))" "bucket_of t key < length xss" "length (buckets t) = length xss"
    "i < length xss \<Longrightarrow> list_rep (buckets t ! i) (xss ! i)" "i < length xss \<Longrightarrow> x \<in> set (xss ! i) \<Longrightarrow> bucket_of t (getKey t x) = i"
    "distinct (map (getKey t) (concat xss))" "numBuckets t = int (length xss)"
  using assms HashValue_ok [of t key] by (auto simp: placed_def list_all2_conv_all_nth)

lemma FindInBucket_ok:
  assumes "placed t xss"
  shows "FindInBucket t (int (bucket_of t key)) key = Inr (by_key (getKey t) (concat xss) key)"
proof -
  let ?b = "bucket_of t key"
  note p = placedD [OF assms]
  have "find (\<lambda>x. key = getKey t x) (xss ! ?b) = Some x \<longleftrightarrow> by_key (getKey t) (concat xss) key = Some x" for x
  proof
    assume "find (\<lambda>x. key = getKey t x) (xss ! ?b) = Some x"
    then have "x \<in> set (xss ! ?b)" "key = getKey t x" by (auto simp: find_Some_iff)
    then show "by_key (getKey t) (concat xss) key = Some x" using by_key_Some [OF p(6)] p(2) by (auto intro: nth_mem)
  next
    assume "by_key (getKey t) (concat xss) key = Some x"
    then have x: "x \<in> set (concat xss)" "getKey t x = key" using by_key_Some [OF p(6)] by auto
    then obtain i where i: "i < length xss" "x \<in> set (xss ! i)" by (metis in_set_conv_nth set_concat UN_E)
    then have "x \<in> set (xss ! ?b)" using p(5) x(2) by blast
    then obtain y where y: "find (\<lambda>x. key = getKey t x) (xss ! ?b) = Some y"
      using x(2) by (cases "find (\<lambda>x. key = getKey t x) (xss ! ?b)") (auto simp: find_None_iff)
    then have "y \<in> set (concat xss)" "getKey t y = key" using p(2) by (auto simp: find_Some_iff intro: nth_mem)
    then have "y = x" using x p(6) by (metis distinct_map inj_onD)
    then show "find (\<lambda>x. key = getKey t x) (xss ! ?b) = Some x" using y by simp
  qed
  then have "find (\<lambda>x. key = getKey t x) (xss ! ?b) = by_key (getKey t) (concat xss) key" by (metis not_Some_eq)
  then show ?thesis using p(2,3) by (simp add: FindInBucket_def Find_loop_ok [OF p(4) [OF p(2)]] del: Find_loop.simps)
qed

lemma Find_ok: "placed t xss \<Longrightarrow> HashTable_Find t key = Inr (by_key (getKey t) (concat xss) key)"
  using FindInBucket_ok placedD(1) by (fastforce simp: HashTable_Find_def)

lemma IsInTable_ok: "placed t xss \<Longrightarrow> IsInTable t key = Inr (key \<in> getKey t ` set (concat xss))"
  by (simp add: IsInTable_def Find_ok by_key_None del: not_None_eq set_concat)

section \<open>Updates\<close>

lemma list_update_rep:
  assumes "placed t xss" "i < length xss" "list_rep l ys" "\<And>x. x \<in> set ys \<Longrightarrow> bucket_of t (getKey t x) = i"
    "distinct (map (getKey t) (concat (xss[i := ys])))"
  shows "placed (t\<lparr>buckets := (buckets t)[i := l]\<rparr>) (xss[i := ys])"
proof -
  have "list_all2 list_rep ((buckets t)[i := l]) (xss[i := ys])"
    using assms(1,3) by (auto simp: placed_def intro: list_all2_update_cong)
  then show ?thesis using assms by (auto simp: placed_def bucket_of_def nth_list_update)
qed

definition same_table :: "('k, 't) HashTable \<Rightarrow> ('k, 't) HashTable \<Rightarrow> bool" where
  "same_table t t' \<longleftrightarrow> numBuckets t' = numBuckets t \<and> numItems t' = numItems t \<and> getKey t' = getKey t \<and> hash t' = hash t"

lemma append_item_ok:
  assumes p: "placed t xss" and x: "getKey t x \<notin> getKey t ` set (concat xss)"
  shows "\<exists>t' yss. append_item x t = Inr t' \<and> placed t' yss \<and> mset (concat yss) = add_mset x (mset (concat xss)) \<and> same_table t t'"
proof -
  let ?b = "bucket_of t (getKey t x)"
  note d = placedD [OF p]
  have "x \<notin> set (xss ! ?b)" using x d(2) by (auto intro: nth_mem)
  then obtain l where l: "List_Append (buckets t ! ?b) x = Inr l" "list_rep l (xss ! ?b @ [x])"
    using ll.append_new [OF d(4) [OF d(2)]] by blast
  define yss where "yss = xss[?b := xss ! ?b @ [x]]"
  have m: "mset (concat yss) = add_mset x (mset (concat xss))"
    using mset_concat_update [OF d(2), of "getKey t x" "xss ! ?b @ [x]"] by (simp add: yss_def)
  have "mset (map (getKey t) (concat yss)) = mset (getKey t x # map (getKey t) (concat xss))" using m by simp
  then have "distinct (map (getKey t) (concat yss))"
    using x d(6) mset_eq_imp_distinct_iff by (metis distinct.simps(2) list.set_map)
  then have "placed (t\<lparr>buckets := (buckets t)[?b := l]\<rparr>) yss"
    using list_update_rep [OF p d(2) l(2)] d(2,5) unfolding yss_def by auto
  moreover have "append_item x t = Inr (t\<lparr>buckets := (buckets t)[?b := l]\<rparr>)"
    using d(1-3) l(1) by (simp add: append_item_def arr_set_ok)
  ultimately show ?thesis using m by (auto simp: same_table_def)
qed

lemma Move_loop_ok:
  assumes "list_rep l xs" "length xs \<le> n" "placed t yss" "distinct (map (getKey t) (xs @ concat yss))"
  shows "\<exists>t' zss. Move_loop n l t = Inr t' \<and> placed t' zss \<and> mset (concat zss) = mset xs + mset (concat yss) \<and> same_table t t'"
  using assms
proof (induction xs arbitrary: l n t yss)
  case Nil
  then show ?case by (cases n) (auto simp: List_IsEmpty_ok same_table_def)
next
  case (Cons x xs)
  obtain n' where n: "n = Suc n'" "length xs \<le> n'" using Cons.prems(2) by (cases n) auto
  obtain l1 where l1: "List_RemoveFront l = Inr (x, l1)" "list_rep l1 xs" using List_RemoveFront_Cons [OF Cons.prems(1)] by blast
  obtain t1 yss1 where t1: "append_item x t = Inr t1" "placed t1 yss1" "mset (concat yss1) = add_mset x (mset (concat yss))" "same_table t t1"
    using append_item_ok [OF Cons.prems(3), of x] Cons.prems(4) by auto
  have "mset (map (getKey t) (xs @ concat yss1)) = mset (map (getKey t) ((x # xs) @ concat yss))" using t1(3) by simp
  then have "distinct (map (getKey t) (xs @ concat yss1))" using Cons.prems(4) mset_eq_imp_distinct_iff by blast
  then obtain t2 zss where "Move_loop n' l1 t1 = Inr t2" "placed t2 zss" "mset (concat zss) = mset xs + mset (concat yss1)" "same_table t1 t2"
    using Cons.IH [OF l1(2) n(2) t1(2)] t1(4) by (auto simp: same_table_def)
  then show ?case using n(1) l1 t1 Cons.prems(1) List_IsEmpty_ok [OF Cons.prems(1)]
    by (auto simp: same_table_def)
qed

lemma DeleteBuckets_ok: "sz \<le> int (length bs) \<Longrightarrow> DeleteBuckets bs sz = Inr ()"
proof -
  assume sz: "sz \<le> int (length bs)"
  have "for_each (\<lambda>i _. rbind (arr_get bs i) (\<lambda>_. Inr ())) is () = Inr ()" if "\<forall>i\<in>set is. 0 \<le> i \<and> i < int (length bs)" for "is"
    using that by (induction "is") (auto simp: arr_get_ok)
  then show ?thesis using sz by (simp add: DeleteBuckets_def)
qed

lemma SanityCheck_ok:
  assumes "table_rep t xss"
  shows "HashTable_SanityCheck t = Inr ()"
proof -
  have p: "placed t xss" and n: "numItems t = int (length (concat xss))" using assms by (auto simp: table_rep_def)
  note d = placedD [OF p]
  let ?f = "\<lambda>i numFound. rbind (arr_get (buckets t) i) (\<lambda>l. rbind (List_SanityCheck l) (\<lambda>_.
      rbind (Placed_loop (walk_fuel l) t i l (ListIterator_new l)) (\<lambda>_. Inr (numFound + List_NumInList l))))"
  have step: "?f (int i) c = Inr (c + int (length (xss ! i)))" if "i < length xss" for i c
  proof -
    have "Placed_loop (walk_fuel (buckets t ! i)) t (int i) (buckets t ! i) (ListIterator_new (buckets t ! i)) = Inr ()"
      using that d(1,5) by (intro Placed_loop_ok [OF d(4)]) auto
    then show ?thesis using that d(3) List_SanityCheck_ok [OF d(4)] List_NumInList_ok [OF d(4)]
      by (simp del: Placed_loop.simps)
  qed
  have "for_each (\<lambda>i. ?f (int i)) [k..<length xss] c = Inr (c + int (length (concat (drop k xss))))" if "k \<le> length xss" for k c
    using that
  proof (induction "length xss - k" arbitrary: k c)
    case (Suc j)
    then have "k < length xss" by simp
    then show ?case using Suc(1) [of "Suc k" "c + int (length (xss ! k))"] Suc(2) step
      by (simp add: upt_conv_Cons Cons_nth_drop_Suc [symmetric] del: Placed_loop.simps)
  qed simp
  from this [of 0 0] show ?thesis
    unfolding HashTable_SanityCheck_def d(7) upto_int for_each_map using n by simp
qed

lemma move_all_ok:
  assumes p: "placed t xss"
  shows "k \<le> length xss \<Longrightarrow> placed u zss \<Longrightarrow> getKey u = getKey t \<Longrightarrow> distinct (map (getKey t) (concat (drop k xss) @ concat zss)) \<Longrightarrow>
    \<exists>t' yss. for_each (\<lambda>i u. rbind (arr_get (buckets t) (int i)) (\<lambda>l. Move_loop (walk_fuel l) l u)) [k..<length xss] u = Inr t' \<and>
      placed t' yss \<and> mset (concat yss) = mset (concat (drop k xss)) + mset (concat zss) \<and> same_table u t'"
proof (induction "length xss - k" arbitrary: k u zss)
  case (Suc j)
  note d = placedD [OF p]
  have k: "k < length xss" using Suc(2) by simp
  have ds: "drop k xss = xss ! k # drop (Suc k) xss" using k by (simp add: Cons_nth_drop_Suc)
  have "distinct (map (getKey u) (xss ! k @ concat zss))" using Suc.prems(3,4) unfolding ds by (simp add: Int_Un_distrib del: set_concat)
  then obtain u1 zss1 where u1: "Move_loop (walk_fuel (buckets t ! k)) (buckets t ! k) u = Inr u1" "placed u1 zss1"
      "mset (concat zss1) = mset (xss ! k) + mset (concat zss)" "same_table u u1"
    using Move_loop_ok [OF d(4) [OF k] _ Suc.prems(2)] list_rep_fuel [OF d(4) [OF k]] by (metis le_SucI)
  have "mset (map (getKey t) (concat (drop (Suc k) xss) @ concat zss1)) = mset (map (getKey t) (concat (drop k xss) @ concat zss))"
    using u1(3) unfolding ds by simp
  then have ds1: "distinct (map (getKey t) (concat (drop (Suc k) xss) @ concat zss1))" using Suc.prems(4) mset_eq_imp_distinct_iff by blast
  have pre: "j = length xss - Suc k" "Suc k \<le> length xss" "getKey u1 = getKey t"
    using Suc(2) k u1(4) Suc.prems(3) by (auto simp: same_table_def)
  obtain u2 yss where "for_each (\<lambda>i u. rbind (arr_get (buckets t) (int i)) (\<lambda>l. Move_loop (walk_fuel l) l u)) [Suc k..<length xss] u1 = Inr u2"
      "placed u2 yss" "mset (concat yss) = mset (concat (drop (Suc k) xss)) + mset (concat zss1)" "same_table u1 u2"
    using Suc(1) [OF pre(1,2) u1(2) pre(3) ds1] by blast
  then show ?case using k d(3) u1 ds by (auto simp: upt_conv_Cons same_table_def ac_simps simp del: Move_loop.simps)
qed (auto simp: same_table_def)

lemma ReHash_ok:
  assumes t: "table_rep t xss" and b: "numBuckets t * IncreaseSizeBy < 2 ^ 31"
  shows "\<exists>t' yss. ReHash t = Inr t' \<and> table_rep t' yss \<and> mset (concat yss) = mset (concat xss) \<and> getKey t' = getKey t"
proof -
  have p: "placed t xss" and n: "numItems t = int (length (concat xss))" using t by (auto simp: table_rep_def)
  note d = placedD [OF p]
  define t0 where "t0 = InitBuckets (numBuckets t * IncreaseSizeBy) t"
  have t0: "placed t0 (replicate (nat (numBuckets t * IncreaseSizeBy)) [])"
    using b p List_new_ok by (auto simp: t0_def InitBuckets_def placed_def IncreaseSizeBy_def list_all2_conv_all_nth)
  obtain t1 yss where t1:
    "for_each (\<lambda>i u. rbind (arr_get (buckets t) i) (\<lambda>l. Move_loop (walk_fuel l) l u)) [0..numBuckets t - 1] t0 = Inr t1"
    "placed t1 yss" "mset (concat yss) = mset (concat xss)" "same_table t0 t1"
    using move_all_ok [OF p _ t0, of 0] d(6) unfolding d(7) upto_int for_each_map by (auto simp: t0_def InitBuckets_def)
  have "length (concat yss) = length (concat xss)" using t1(3) by (rule mset_eq_length)
  then have t1': "table_rep t1 yss" using t1(2,4) n by (auto simp: table_rep_def same_table_def t0_def InitBuckets_def)
  have "ReHash t = Inr t1"
    unfolding ReHash_def Let_def SanityCheck_ok [OF t] rbind.simps t0_def [symmetric] t1(1)
    using DeleteBuckets_ok [of "numBuckets t" "buckets t"] d(3,7) SanityCheck_ok [OF t1'] by simp
  then show ?thesis using t1' t1(3,4) by (auto simp: same_table_def t0_def InitBuckets_def)
qed

section \<open>Stepping through a table\<close>

declare Find_loop.simps [simp del] Placed_loop.simps [simp del] Move_loop.simps [simp del]

lemma concat_buckets:
  assumes "placed t xss" "k \<le> length xss"
  shows "for_each (\<lambda>i visited. rbind (arr_get (buckets t) (int i)) (\<lambda>l. rbind (List_Apply l) (\<lambda>xs. Inr (visited @ xs)))) [k..<length xss] vs =
    Inr (vs @ concat (drop k xss))"
  using assms(2)
proof (induction "length xss - k" arbitrary: k vs)
  case (Suc j)
  then have k: "k < length xss" by simp
  show ?case using Suc(1) [of "Suc k" "vs @ xss ! k"] Suc(2) k placedD(3) [OF assms(1)] List_Apply_ok [OF placedD(4) [OF assms(1) k]]
    by (simp add: upt_conv_Cons Cons_nth_drop_Suc [symmetric])
qed simp

lemma Apply_ok:
  assumes "placed t xss"
  shows "HashTable_Apply t = Inr (concat xss)"
  unfolding HashTable_Apply_def placedD(7) [OF assms] upto_int for_each_map using concat_buckets [OF assms, of 0 "[]"] by simp

lemma FullBucket_loop_ok:
  assumes "placed t xss"
  shows "i \<le> length xss \<Longrightarrow> length xss - i \<le> n \<Longrightarrow>
    \<exists>j. FullBucket_loop n t (int i) = Inr (int j) \<and> j \<le> length xss \<and> (j < length xss \<longrightarrow> xss ! j \<noteq> []) \<and> concat (drop i xss) = concat (drop j xss)"
proof (induction n arbitrary: i)
  case 0
  then show ?case using placedD(7) [OF assms] by (intro exI [of _ i]) auto
next
  case (Suc n)
  note d = placedD [OF assms]
  show ?case
  proof (cases "i < length xss")
    case True
    then have ds: "drop i xss = xss ! i # drop (Suc i) xss" by (simp add: Cons_nth_drop_Suc)
    have g: "arr_get (buckets t) (int i) = Inr (buckets t ! i)" "List_IsEmpty (buckets t ! i) \<longleftrightarrow> xss ! i = []"
      using True d(3) List_IsEmpty_ok [OF d(4) [OF True]] by simp_all
    show ?thesis
    proof (cases "xss ! i = []")
      case e: True
      obtain j where "FullBucket_loop n t (int (Suc i)) = Inr (int j)" "j \<le> length xss" "j < length xss \<longrightarrow> xss ! j \<noteq> []"
          "concat (drop (Suc i) xss) = concat (drop j xss)"
        using Suc.IH [of "Suc i"] Suc.prems True by force
      then show ?thesis using g e True d(7) ds by (intro exI [of _ j]) (simp add: add.commute)
    next
      case False
      then show ?thesis using g True d(7) by (intro exI [of _ i]) simp
    qed
  next
    case False
    then show ?thesis using Suc.prems d(7) by (intro exI [of _ i]) auto
  qed
qed

lemma iterate_done: "numBuckets t = int (length xss) \<Longrightarrow> iterate n t \<lparr>iter_bucket = int (length xss), bucketIter = c\<rparr> = Inr []"
  by (cases n) (simp_all add: HashIterator_IsDone_def)

lemma full_bucket_path:
  assumes "placed t xss" "j < length xss" "xss ! j \<noteq> []"
  obtains as where "path (heap (buckets t ! j)) (first (buckets t ! j)) as None" "as \<noteq> []" "items (heap (buckets t ! j)) as = xss ! j"
  using list_rep_path [OF placedD(4) [OF assms(1,2)]] assms(3) by (metis items_simps(1))

lemma iterate_path:
  assumes "placed t xss"
  shows "i < length xss \<Longrightarrow> path (heap (buckets t ! i)) p as None \<Longrightarrow> as \<noteq> [] \<Longrightarrow> length as + length (concat (drop (Suc i) xss)) \<le> n \<Longrightarrow>
    iterate n t \<lparr>iter_bucket = int i, bucketIter = Some p\<rparr> = Inr (items (heap (buckets t ! i)) as @ concat (drop (Suc i) xss))"
proof (induction n arbitrary: i p as)
  case (Suc n)
  note d = placedD [OF assms]
  obtain a as' e where a: "as = a # as'" "p = Some a" "heap (buckets t ! i) a = Some e" "path (heap (buckets t ! i)) (lnext e) as' None"
    using Suc.prems(2,3) by (cases as) auto
  have it: "HashIterator_Item t \<lparr>iter_bucket = int i, bucketIter = Some p\<rparr> = Inr (item e)"
    "\<not> HashIterator_IsDone t \<lparr>iter_bucket = int i, bucketIter = Some p\<rparr>"
    using Suc.prems(1) a d(3,7) by (auto simp: HashIterator_Item_def HashIterator_IsDone_def ListIterator_Item_def ListIterator_IsDone_def)
  show ?case
  proof (cases as')
    case Nil
    obtain j where j: "FindNextFullBucket t (int i + 1) = Inr (int j)" "j \<le> length xss" "j < length xss \<longrightarrow> xss ! j \<noteq> []"
        "concat (drop (Suc i) xss) = concat (drop j xss)"
      using FullBucket_loop_ok [OF assms, of "Suc i" "nat (numBuckets t)"] Suc.prems(1) d(7) by (auto simp: FindNextFullBucket_def add.commute)
    have nx: "HashIterator_Next t \<lparr>iter_bucket = int i, bucketIter = Some p\<rparr> = iterator_at t (int j)"
      using a Nil j(1) Suc.prems(1) d(3) by (simp add: HashIterator_Next_def ListIterator_Next_def ListIterator_IsDone_def)
    have "rbind (iterator_at t (int j)) (iterate n t) = Inr (concat (drop j xss))"
    proof (cases "j < length xss")
      case True
      then have dj: "drop j xss = xss ! j # drop (Suc j) xss" by (simp add: Cons_nth_drop_Suc)
      obtain bs where "path (heap (buckets t ! j)) (first (buckets t ! j)) bs None" "bs \<noteq> []" "items (heap (buckets t ! j)) bs = xss ! j"
        using full_bucket_path [OF assms True] j(3) True by blast
      moreover from this have "length bs = length (xss ! j)" by (metis items_simps(4))
      ultimately have "iterate n t \<lparr>iter_bucket = int j, bucketIter = Some (first (buckets t ! j))\<rparr> = Inr (xss ! j @ concat (drop (Suc j) xss))"
        using Suc.IH [OF True] Suc.prems(4) a(1) Nil j(4) dj by fastforce
      then show ?thesis using True d(3,7) dj by (simp add: iterator_at_def ListIterator_new_def)
    next
      case False
      then show ?thesis using j(2) d(7) iterate_done [OF d(7)] by (simp add: iterator_at_def)
    qed
    then show ?thesis using it nx a Nil j(4) by (auto simp: rbind_Inr_iff)
  next
    case (Cons b bs)
    have "HashIterator_Next t \<lparr>iter_bucket = int i, bucketIter = Some p\<rparr> = Inr \<lparr>iter_bucket = int i, bucketIter = Some (lnext e)\<rparr>"
      using a Cons Suc.prems(1) d(3) by (auto simp: HashIterator_Next_def ListIterator_Next_def ListIterator_IsDone_def)
    then show ?thesis using it a Cons Suc.IH [OF Suc.prems(1) a(4)] Suc.prems(4) by auto
  qed
qed (use assms in simp)

lemma iterate_ok:
  assumes "placed t xss" "length (concat xss) \<le> n"
  shows "rbind (HashIterator_new t) (iterate n t) = Inr (concat xss)"
proof -
  note d = placedD [OF assms(1)]
  obtain j where j: "FindNextFullBucket t 0 = Inr (int j)" "j \<le> length xss" "j < length xss \<longrightarrow> xss ! j \<noteq> []" "concat xss = concat (drop j xss)"
    using FullBucket_loop_ok [OF assms(1), of 0 "nat (numBuckets t)"] d(7) by (auto simp: FindNextFullBucket_def)
  show ?thesis
  proof (cases "j < length xss")
    case True
    then have dj: "drop j xss = xss ! j # drop (Suc j) xss" by (simp add: Cons_nth_drop_Suc)
    obtain bs where bs: "path (heap (buckets t ! j)) (first (buckets t ! j)) bs None" "bs \<noteq> []" "items (heap (buckets t ! j)) bs = xss ! j"
      using full_bucket_path [OF assms(1) True] j(3) True by blast
    then have "length bs = length (xss ! j)" by (metis items_simps(4))
    then show ?thesis using iterate_path [OF assms(1) True bs(1,2), of n] bs(3) assms(2) j(1,4) dj True d(3,7)
      by (simp add: HashIterator_new_def iterator_at_def ListIterator_new_def)
  next
    case False
    then show ?thesis using j d(7) iterate_done [OF d(7)] by (simp add: HashIterator_new_def iterator_at_def)
  qed
qed

section \<open>The dictionary interface\<close>

text \<open>The calls of a client, on a dictionary with operations \<open>insert\<close> and \<open>remove\<close>, and the same calls on a
  finite map.\<close>

datatype ('k, 't) dict_call = CallInsertItem 't | CallRemoveKey 'k

fun do_call :: "('s \<Rightarrow> 't \<Rightarrow> 's res) \<Rightarrow> ('s \<Rightarrow> 'k \<Rightarrow> ('t \<times> 's) res) \<Rightarrow> ('k, 't) dict_call \<Rightarrow> 's \<Rightarrow> 's res" where
  "do_call ins rem (CallInsertItem x) s = ins s x"
| "do_call ins rem (CallRemoveKey k) s = rbind (rem s k) (\<lambda>(x, s). Inr s)"

definition Insert_map :: "('t \<Rightarrow> 'k) \<Rightarrow> ('k \<rightharpoonup> 't) \<Rightarrow> 't \<Rightarrow> ('k \<rightharpoonup> 't) res" where
  "Insert_map key m x = (if m (key x) = None then Inr (m(key x \<mapsto> x)) else Inl AssertionFailed)"

definition Remove_map :: "('k \<rightharpoonup> 't) \<Rightarrow> 'k \<Rightarrow> ('t \<times> ('k \<rightharpoonup> 't)) res" where
  "Remove_map m k = (case m k of None \<Rightarrow> Inl AssertionFailed | Some x \<Rightarrow> Inr (x, m(k := None)))"

locale dictionary =
  fixes rep :: "'s \<Rightarrow> ('k \<rightharpoonup> 't) \<Rightarrow> bool"
    and key :: "'t \<Rightarrow> 'k"
    and capacity :: nat
    and insert :: "'s \<Rightarrow> 't \<Rightarrow> 's res"
    and remove :: "'s \<Rightarrow> 'k \<Rightarrow> ('t \<times> 's) res"
    and lookup :: "'s \<Rightarrow> 'k \<Rightarrow> 't option res"
  assumes finite_rep: "rep s m \<Longrightarrow> finite (dom m)"
    and lookup_rep: "rep s m \<Longrightarrow> lookup s k = Inr (m k)"
    and insert_new: "rep s m \<Longrightarrow> m (key x) = None \<Longrightarrow> card (dom m) < capacity \<Longrightarrow> \<exists>s'. insert s x = Inr s' \<and> rep s' (m(key x \<mapsto> x))"
    and insert_dup: "rep s m \<Longrightarrow> m (key x) \<noteq> None \<Longrightarrow> insert s x = Inl AssertionFailed"
    and remove_Some: "rep s m \<Longrightarrow> m k = Some x \<Longrightarrow> \<exists>s'. remove s k = Inr (x, s') \<and> rep s' (m(k := None))"
    and remove_None: "rep s m \<Longrightarrow> m k = None \<Longrightarrow> remove s k = Inl AssertionFailed"
begin

lemma call_refines:
  assumes "rep s m" "card (dom m) < capacity"
  shows "case do_call (Insert_map key) Remove_map c m of Inl e \<Rightarrow> do_call insert remove c s = Inl e
    | Inr m' \<Rightarrow> (\<exists>s'. do_call insert remove c s = Inr s' \<and> rep s' m') \<and> card (dom m') \<le> Suc (card (dom m))"
proof (cases c)
  case (CallInsertItem x)
  then show ?thesis using insert_new [OF assms(1) _ assms(2), of x] insert_dup [OF assms(1), of x]
    by (auto simp: Insert_map_def card_insert_le_m1 finite_rep [OF assms(1)] card_insert_if)
next
  case (CallRemoveKey k)
  have "card (dom m - {k}) \<le> card (dom m)" using finite_rep [OF assms(1)] by (simp add: card_mono)
  then show ?thesis using CallRemoveKey remove_Some [OF assms(1), of k] remove_None [OF assms(1), of k]
    by (cases "m k") (auto simp: Remove_map_def)
qed

lemma calls_refine:
  "rep s m \<Longrightarrow> card (dom m) + length cs \<le> capacity \<Longrightarrow>
    case for_each (do_call (Insert_map key) Remove_map) cs m of Inl e \<Rightarrow> for_each (do_call insert remove) cs s = Inl e
    | Inr m' \<Rightarrow> \<exists>s'. for_each (do_call insert remove) cs s = Inr s' \<and> rep s' m'"
proof (induction cs arbitrary: s m)
  case (Cons c cs)
  have r: "card (dom m) < capacity" using Cons.prems(2) by simp
  show ?case
  proof (cases "do_call (Insert_map key) Remove_map c m")
    case (Inl e)
    then show ?thesis using call_refines [OF Cons.prems(1) r, of c] by simp
  next
    case (Inr m1)
    then obtain s1 where "do_call insert remove c s = Inr s1" "rep s1 m1" "card (dom m1) \<le> Suc (card (dom m))"
      using call_refines [OF Cons.prems(1) r, of c] by auto
    then show ?thesis using Cons.IH [of s1 m1] Cons.prems(2) Inr by (auto split: sum.splits)
  qed
qed simp

end
definition ht_rep :: "('t \<Rightarrow> 'k) \<Rightarrow> ('k, 't) HashTable \<Rightarrow> ('k \<rightharpoonup> 't) \<Rightarrow> bool" where
  "ht_rep get t m \<longleftrightarrow> getKey t = get \<and> (\<exists>xss. table_rep t xss \<and> m = by_key get (concat xss))"

definition max_items :: nat where
  "max_items = 2 ^ 28"

lemma dom_by_key: "dom (by_key get xs) = get ` set xs"
  by (auto simp: by_key_def dom_map_of_conv_image_fst image_image)

lemma card_by_key: "distinct (map get xs) \<Longrightarrow> card (dom (by_key get xs)) = length xs"
  by (metis dom_by_key distinct_card list.set_map length_map)

lemma by_key_add:
  assumes "mset ys = add_mset x (mset xs)" "distinct (map get ys)"
  shows "by_key get ys = (by_key get xs)(get x \<mapsto> x)"
  using by_key_mset(1) [of ys "x # xs" get] assms by (simp add: by_key_def)

lemma Insert_ok:
  assumes "ht_rep get t m" "m (get x) = None" "card (dom m) < max_items"
  shows "\<exists>t'. HashTable_Insert t x = Inr t' \<and> ht_rep get t' (m(get x \<mapsto> x))"
proof -
  obtain xss where t: "table_rep t xss" "m = by_key get (concat xss)" and g: "getKey t = get" using assms(1) by (auto simp: ht_rep_def)
  have p: "placed t xss" and n: "numItems t = int (length (concat xss))" using t by (auto simp: table_rep_def)
  have x: "get x \<notin> get ` set (concat xss)" using assms(2) t(2) by_key_None by metis
  have c: "length (concat xss) < max_items" using assms(3) t(2) card_by_key placedD(6) [OF p] g by metis
  have "\<exists>t1 yss. (if numItems t sdiv numBuckets t \<ge> ResizeRatio then ReHash t else Inr t) = Inr t1 \<and>
      table_rep t1 yss \<and> mset (concat yss) = mset (concat xss) \<and> getKey t1 = get"
  proof (cases "numItems t sdiv numBuckets t \<ge> ResizeRatio")
    case True
    have b: "0 < numBuckets t" using p by (simp add: placed_def)
    then have "3 \<le> numItems t div numBuckets t" using True n by (simp add: ResizeRatio_def)
    then have "numBuckets t * 3 \<le> numBuckets t * (numItems t div numBuckets t)" using b by (intro mult_left_mono) auto
    then have "3 * numBuckets t \<le> numItems t"
      using pos_mod_sign [OF b, of "numItems t"] mult_div_mod_eq [of "numBuckets t" "numItems t"] by linarith
    then have "numBuckets t * IncreaseSizeBy < 2 ^ 31" using c n by (simp add: max_items_def IncreaseSizeBy_def)
    then show ?thesis using ReHash_ok [OF t(1)] True g by auto
  next
    case False
    then show ?thesis using t(1) g by auto
  qed
  then obtain t1 yss where t1: "(if numItems t sdiv numBuckets t \<ge> ResizeRatio then ReHash t else Inr t) = Inr t1"
      "table_rep t1 yss" "mset (concat yss) = mset (concat xss)" "getKey t1 = get" by blast
  have p1: "placed t1 yss" using t1(2) by (simp add: table_rep_def)
  have s: "set (concat yss) = set (concat xss)" using t1(3) by (rule mset_eq_setD)
  obtain t2 zss where t2: "append_item x t1 = Inr t2" "placed t2 zss" "mset (concat zss) = add_mset x (mset (concat yss))" "same_table t1 t2"
    using append_item_ok [OF p1, of x] x s t1(4) by auto
  define t3 where "t3 = t2\<lparr>numItems := numItems t2 + 1\<rparr>"
  have p3: "placed t3 zss" using t2(2) by (simp add: t3_def placed_def bucket_of_def)
  have g3: "getKey t3 = get" using t2(4) t1(4) by (simp add: t3_def same_table_def)
  have "length (concat zss) = Suc (length (concat yss))" using t2(3) by (metis size_mset size_add_mset)
  then have "table_rep t3 zss" using p3 t2(4) t1(2) by (simp add: table_rep_def t3_def same_table_def)
  moreover have "by_key get (concat zss) = m(get x \<mapsto> x)"
    using by_key_add [of "concat zss" x "concat xss" get] t2(3) t1(3) placedD(6) [OF p3] g3 t(2) by simp
  moreover have "x \<in> set (concat zss)" using arg_cong [OF t2(3), of set_mset] by auto
  ultimately show ?thesis
    using t1(1) t2(1) IsInTable_ok [OF p, of "get x"] IsInTable_ok [OF p3, of "get x"] x g g3
    by (auto simp: HashTable_Insert_def Let_def t3_def [symmetric] ht_rep_def)
qed

lemma mset_cancel: "C + add_mset x R = R + X \<Longrightarrow> X = add_mset x C"
  by (metis add.commute add_left_cancel union_mset_add_mset_left)

lemma Remove_ok:
  assumes "ht_rep get t m" "m k = Some x"
  shows "\<exists>t'. HashTable_Remove t k = Inr (x, t') \<and> ht_rep get t' (m(k := None))"
proof -
  obtain xss where t: "table_rep t xss" "m = by_key get (concat xss)" and g: "getKey t = get" using assms(1) by (auto simp: ht_rep_def)
  have p: "placed t xss" and n: "numItems t = int (length (concat xss))" using t by (auto simp: table_rep_def)
  note d = placedD [OF p]
  let ?b = "bucket_of t k"
  have b: "?b < length xss" by (rule d(2))
  have dk: "distinct (map get (concat xss))" using d(6) g by simp
  have x: "x \<in> set (concat xss)" "get x = k" using assms(2) t(2) by_key_Some [OF dk] by auto
  then have xb: "x \<in> set (xss ! ?b)" using d(5) g by (metis in_set_conv_nth set_concat UN_E)
  have "distinct (concat xss)" using dk by (simp add: distinct_map)
  then have db: "distinct (xss ! ?b)" using b by (metis distinct_concat_iff nth_mem)
  then obtain l where l: "List_Remove (buckets t ! ?b) x = Inr l" "list_rep l (remove1 x (xss ! ?b))"
    using List_Remove_ok [OF d(4) [OF b], of x] xb by (cases "List_Remove (buckets t ! ?b) x") (auto simp: Remove_spec_def)
  define yss where "yss = xss[?b := remove1 x (xss ! ?b)]"
  have m: "mset (concat xss) = add_mset x (mset (concat yss))"
  proof -
    have "mset (concat yss) + mset (xss ! ?b) = mset (remove1 x (xss ! ?b)) + mset (concat xss)" unfolding yss_def by (rule mset_concat_update [OF b])
    moreover have "mset (xss ! ?b) = add_mset x (mset (remove1 x (xss ! ?b)))" using xb by simp
    ultimately show ?thesis by (metis mset_cancel)
  qed
  have "mset (map get (concat xss)) = mset (map get (x # concat yss))" using m by simp
  then have dx: "distinct (map get (x # concat yss))" using dk mset_eq_imp_distinct_iff by blast
  have "placed (t\<lparr>buckets := (buckets t)[?b := l]\<rparr>) yss"
    unfolding yss_def
    by (rule list_update_rep [OF p b l(2)]) (use b d(5) dx g in \<open>auto simp: yss_def dest: notin_set_remove1\<close>)
  then have p1: "placed (t\<lparr>buckets := (buckets t)[?b := l], numItems := numItems t - 1\<rparr>) yss" by (simp add: placed_def bucket_of_def)
  have "length (concat xss) = Suc (length (concat yss))" using m by (metis size_mset size_add_mset)
  then have r: "table_rep (t\<lparr>buckets := (buckets t)[?b := l], numItems := numItems t - 1\<rparr>) yss" using p1 n by (simp add: table_rep_def)
  have k: "k \<notin> get ` set (concat yss)" using dx x(2) by auto
  have "m = (by_key get (concat yss))(k \<mapsto> x)" using by_key_add [OF m dk] x(2) t(2) by simp
  moreover have "by_key get (concat yss) k = None" using k by_key_None by metis
  ultimately have "by_key get (concat yss) = m(k := None)" by (metis fun_upd_triv fun_upd_upd)
  then show ?thesis
    using d(1-3) l(1) FindInBucket_ok [OF p, of k] assms(2) t(2) g IsInTable_ok [OF p1, of k] k r
    by (auto simp: HashTable_Remove_def Let_def arr_set_ok ht_rep_def)
qed

interpretation ht: dictionary "ht_rep get" get max_items HashTable_Insert HashTable_Remove HashTable_Find
proof
  fix s m k x
  assume r: "ht_rep get s m"
  then obtain xss where t: "table_rep s xss" "m = by_key get (concat xss)" and g: "getKey s = get" by (auto simp: ht_rep_def)
  have p: "placed s xss" using t by (simp add: table_rep_def)
  show "finite (dom m)" by (simp add: t(2) dom_by_key)
  show f: "HashTable_Find s k = Inr (m k)" using Find_ok [OF p] g t(2) by simp
  show "\<exists>s'. HashTable_Insert s x = Inr s' \<and> ht_rep get s' (m(get x \<mapsto> x))" if "m (get x) = None" "card (dom m) < max_items"
    using Insert_ok [OF r that] .
  show "HashTable_Insert s x = Inl AssertionFailed" if "m (get x) \<noteq> None"
    using that Find_ok [OF p, of "get x"] g t(2) by (simp add: HashTable_Insert_def IsInTable_def Let_def)
  show "\<exists>s'. HashTable_Remove s k = Inr (x, s') \<and> ht_rep get s' (m(k := None))" if "m k = Some x"
    using Remove_ok [OF r that] .
  show "HashTable_Remove s k = Inl AssertionFailed" if "m k = None"
    using that f placedD(1) [OF p] by (simp add: HashTable_Remove_def HashTable_Find_def rbind_Inr_iff)
qed

lemma new_table_rep: "table_rep (HashTable_new get h) (replicate 4 [])"
  by (simp add: table_rep_def placed_def HashTable_new_def InitBuckets_def InitialBuckets_def list_all2_conv_all_nth List_new_ok)

lemma ht_rep_new: "ht_rep get (HashTable_new get h) Map.empty"
proof -
  have "getKey (HashTable_new get h) = get" by (simp add: HashTable_new_def InitBuckets_def)
  then show ?thesis using new_table_rep unfolding ht_rep_def by (auto simp: by_key_def intro!: exI [of _ "replicate 4 []"])
qed

lemma ht_rep_empty:
  assumes "ht_rep get t m"
  shows "HashTable_IsEmpty t \<longleftrightarrow> m = Map.empty" "HashTable_SanityCheck t = Inr ()" "IsInTable t k = Inr (k \<in> dom m)"
proof -
  obtain xss where t: "table_rep t xss" "m = by_key get (concat xss)" and g: "getKey t = get" using assms by (auto simp: ht_rep_def)
  have p: "placed t xss" and n: "numItems t = int (length (concat xss))" using t by (auto simp: table_rep_def)
  have "dom m = {} \<longleftrightarrow> concat xss = []" by (simp add: t(2) dom_by_key del: set_concat concat_eq_Nil_conv)
  then show "HashTable_IsEmpty t \<longleftrightarrow> m = Map.empty" using n by (simp add: HashTable_IsEmpty_def del: concat_eq_Nil_conv length_concat)
  show "HashTable_SanityCheck t = Inr ()" by (rule SanityCheck_ok [OF t(1)])
  show "IsInTable t k = Inr (k \<in> dom m)" using IsInTable_ok [OF p, of k] g by (simp add: t(2) dom_by_key)
qed

section \<open>The self tests pass\<close>

lemma self_test_inserts:
  "ht_rep get t m \<Longrightarrow> distinct (map get p) \<Longrightarrow> get ` set p \<inter> dom m = {} \<Longrightarrow> card (dom m) + length p \<le> max_items \<Longrightarrow>
    \<exists>t' m'. for_each (\<lambda>x t. rbind (HashTable_Insert t x) (\<lambda>t. rbind (IsInTable t (getKey t x)) (\<lambda>b. rbind (ASSERT b) (\<lambda>_.
        rbind (ASSERT (\<not> HashTable_IsEmpty t)) (\<lambda>_. Inr t))))) p t = Inr t' \<and> ht_rep get t' m' \<and> dom m' = dom m \<union> get ` set p \<and>
      (\<forall>x\<in>set p. m' (get x) = Some x) \<and> (\<forall>k\<in>dom m. m' k = m k)"
proof (induction p arbitrary: t m)
  case Nil
  then show ?case by auto
next
  case (Cons x p)
  have "m (get x) = None" using Cons.prems(3) by auto
  then obtain t1 where t1: "HashTable_Insert t x = Inr t1" "ht_rep get t1 (m(get x \<mapsto> x))"
    using ht.insert_new [OF Cons.prems(1)] Cons.prems(4) by auto
  have "getKey t1 = get" using t1(2) by (simp add: ht_rep_def)
  then have chk: "IsInTable t1 (getKey t1 x) = Inr True" "\<not> HashTable_IsEmpty t1"
    using ht_rep_empty [OF t1(2)] by auto
  have c: "card (dom (m(get x \<mapsto> x))) + length p \<le> max_items"
    using Cons.prems(4) ht.finite_rep [OF Cons.prems(1)] by (simp add: card_insert_if)
  have pre: "distinct (map get p)" "get ` set p \<inter> dom (m(get x \<mapsto> x)) = {}" using Cons.prems(2,3) by auto
  obtain t' m' where "for_each (\<lambda>x t. rbind (HashTable_Insert t x) (\<lambda>t. rbind (IsInTable t (getKey t x)) (\<lambda>b. rbind (ASSERT b) (\<lambda>_.
        rbind (ASSERT (\<not> HashTable_IsEmpty t)) (\<lambda>_. Inr t))))) p t1 = Inr t'" "ht_rep get t' m'"
      "dom m' = dom (m(get x \<mapsto> x)) \<union> get ` set p" "\<forall>x\<in>set p. m' (get x) = Some x" "\<forall>k\<in>dom (m(get x \<mapsto> x)). m' k = (m(get x \<mapsto> x)) k"
    using Cons.IH [OF t1(2) pre c] by blast
  moreover have "\<forall>k\<in>dom m. k \<noteq> get x" using Cons.prems(3) by auto
  ultimately show ?case using t1(1) chk by auto
qed

lemma self_test_removes:
  "ht_rep get t m \<Longrightarrow> distinct (map get p) \<Longrightarrow> (\<And>x. x \<in> set p \<Longrightarrow> m (get x) = Some x) \<Longrightarrow>
    \<exists>t' m'. for_each (\<lambda>x t. rbind (HashTable_Remove t (getKey t x)) (\<lambda>(y, t). rbind (ASSERT (y = x)) (\<lambda>_. Inr t))) p t = Inr t' \<and>
      ht_rep get t' m' \<and> dom m' = dom m - get ` set p"
proof (induction p arbitrary: t m)
  case Nil
  then show ?case by auto
next
  case (Cons x p)
  have g: "getKey t = get" using Cons.prems(1) by (simp add: ht_rep_def)
  obtain t1 where t1: "HashTable_Remove t (get x) = Inr (x, t1)" "ht_rep get t1 (m(get x := None))"
    using ht.remove_Some [OF Cons.prems(1) Cons.prems(3) [of x]] by auto
  have "(m(get x := None)) (get y) = Some y" if "y \<in> set p" for y
  proof -
    have "get y \<noteq> get x" using that Cons.prems(2) by (metis distinct.simps(2) image_eqI list.set_map list.simps(9))
    then show ?thesis using that Cons.prems(3) [of y] by simp
  qed
  moreover have "distinct (map get p)" using Cons.prems(2) by simp
  ultimately obtain t' m' where "for_each (\<lambda>x t. rbind (HashTable_Remove t (getKey t x)) (\<lambda>(y, t). rbind (ASSERT (y = x)) (\<lambda>_. Inr t))) p t1 = Inr t'"
      "ht_rep get t' m'" "dom m' = dom (m(get x := None)) - get ` set p"
    using Cons.IH [OF t1(2)] by blast
  then show ?case using t1(1) g by (intro exI [of _ t'] exI [of _ m']) auto
qed

lemma HashTable_SelfTest_ok:
  assumes "distinct (map get p)" "length p \<le> max_items"
  shows "\<exists>t. HashTable_SelfTest (HashTable_new get h) p = Inr t \<and> ht_rep get t Map.empty"
proof -
  let ?t = "HashTable_new get h"
  obtain t1 m1 where t1: "for_each (\<lambda>x t. rbind (HashTable_Insert t x) (\<lambda>t. rbind (IsInTable t (getKey t x)) (\<lambda>b. rbind (ASSERT b) (\<lambda>_.
        rbind (ASSERT (\<not> HashTable_IsEmpty t)) (\<lambda>_. Inr t))))) p ?t = Inr t1" "ht_rep get t1 m1" "dom m1 = get ` set p" "\<forall>x\<in>set p. m1 (get x) = Some x"
    using self_test_inserts [OF ht_rep_new, of get p h] assms by auto
  obtain t2 m2 where t2: "for_each (\<lambda>x t. rbind (HashTable_Remove t (getKey t x)) (\<lambda>(y, t). rbind (ASSERT (y = x)) (\<lambda>_. Inr t))) p t1 = Inr t2"
      "ht_rep get t2 m2" "dom m2 = {}"
    using self_test_removes [OF t1(2) assms(1)] t1(3,4) by auto
  have m2: "m2 = Map.empty" using t2(3) by simp
  have "placed ?t (replicate 4 [])" using new_table_rep [of get h] by (simp add: table_rep_def)
  then have "rbind (HashIterator_new ?t) (iterate 0 ?t) = Inr []" using iterate_ok [of ?t "replicate 4 []" 0] by simp
  then obtain iter where "HashIterator_new ?t = Inr iter" "HashIterator_IsDone ?t iter"
    by (auto simp: rbind_Inr_iff split: if_splits)
  then show ?thesis using t1(1) t2(1,2) m2 ht_rep_empty [OF ht_rep_new, of get h] ht_rep_empty [OF t2(2)]
    by (auto simp: HashTable_SelfTest_def)
qed

section \<open>Properties\<close>

text \<open>C38.  Any sequence of up to \<open>2 ^ 28\<close> calls of \<open>Insert\<close> and \<open>Remove\<close> on a new hash table behaves as on a finite map
  from keys to items, whatever the hash function: the same call fails its assertion, and otherwise \<open>Find\<close>
  looks up the map, and \<open>Apply\<close> and a \<open>HashIterator\<close> visit every item exactly once, in the same order.
  Growing the table is invisible, and its consistency checks never fail.\<close>

theorem hash_table_refines_map:
  assumes "length cs \<le> max_items"
  shows "case for_each (do_call (Insert_map get) Remove_map) cs Map.empty of
      Inl e \<Rightarrow> for_each (do_call HashTable_Insert HashTable_Remove) cs (HashTable_new get h) = Inl e
    | Inr m \<Rightarrow> \<exists>t xs. for_each (do_call HashTable_Insert HashTable_Remove) cs (HashTable_new get h) = Inr t \<and>
        (\<forall>k. HashTable_Find t k = Inr (m k)) \<and> HashTable_SanityCheck t = Inr () \<and>
        HashTable_Apply t = Inr xs \<and> distinct xs \<and> set xs = ran m \<and> rbind (HashIterator_new t) (iterate (length xs) t) = Inr xs"
proof (cases "for_each (do_call (Insert_map get) Remove_map) cs Map.empty")
  case (Inl e)
  then show ?thesis using ht.calls_refine [OF ht_rep_new [of get h], of cs] assms by simp
next
  case (Inr m)
  then obtain t where t: "for_each (do_call HashTable_Insert HashTable_Remove) cs (HashTable_new get h) = Inr t" "ht_rep get t m"
    using ht.calls_refine [OF ht_rep_new [of get h], of cs] assms by auto
  then obtain xss where x: "table_rep t xss" "m = by_key get (concat xss)" "getKey t = get" by (auto simp: ht_rep_def)
  have p: "placed t xss" using x(1) by (simp add: table_rep_def)
  have d: "distinct (map get (concat xss))" using placedD(6) [OF p] x(3) by simp
  have "set (concat xss) = ran m" using by_key_Some [OF d] by (auto simp: x(2) ran_def simp del: set_concat)
  moreover have "distinct (concat xss)" using d by (simp add: distinct_map)
  ultimately show ?thesis
    using Inr t(1) ht.lookup_rep [OF t(2)] ht_rep_empty(2) [OF t(2)] Apply_ok [OF p] iterate_ok [OF p order_refl] by auto
qed

theorem hash_table_refines_map_witness:
  "\<exists>t xs. for_each (do_call HashTable_Insert HashTable_Remove) [CallInsertItem (8 :: nat), CallInsertItem 12, CallRemoveKey 4]
      (HashTable_new (\<lambda>x. x div 2) of_nat) = Inr t \<and>
    (\<forall>k. HashTable_Find t k = Inr ([6 \<mapsto> 12] k)) \<and> HashTable_SanityCheck t = Inr () \<and>
    HashTable_Apply t = Inr xs \<and> distinct xs \<and> set xs = ran [6 \<mapsto> 12] \<and> rbind (HashIterator_new t) (iterate (length xs) t) = Inr xs"
proof -
  have "for_each (do_call (Insert_map (\<lambda>x :: nat. x div 2)) Remove_map) [CallInsertItem 8, CallInsertItem 12, CallRemoveKey 4] Map.empty = Inr [6 \<mapsto> 12]"
    by (simp add: Insert_map_def Remove_map_def fun_eq_iff)
  then show ?thesis
    using hash_table_refines_map [of "[CallInsertItem (8 :: nat), CallInsertItem 12, CallRemoveKey 4]" "\<lambda>x. x div 2" of_nat]
    by (simp add: max_items_def del: for_each.simps)
qed


end
