(* ===== verification/Disk_File.thy ===== *)
theory Disk_File
  imports Devices Bitmap Packets
begin

text \<open>
  Files on the simulated disk (the configuration without \<open>FILESYS_STUB\<close>): the file header of
  \<open>filesys/filehdr.h\<close> and \<open>filesys/filehdr.cc\<close>, and \<open>OpenFile\<close> of \<open>filesys/openfile.cc\<close>.  A header is stored in
  one sector as its memory image.  Sectors are read and written through the synchronous disk of
  \<open>Devices\<close>, by a thread that has the machine to itself; \<open>disk_wait\<close> is the fuel of its waits.

  Memory a constructor or \<open>new\<close> leaves uninitialised is an argument \<open>junk\<close>, because some of it is written to
  the disk.  The sums of positions and lengths are those of the integers; the requests of a program
  that would overflow \<open>int\<close> are outside the model.

  The interface \<open>sector_store\<close> is what a file needs of the disk; the synchronous disk provides it.
\<close>

section \<open>Sectors\<close>

text \<open>No request takes longer than this many ticks, hence interrupts.\<close>

definition disk_wait :: nat where "disk_wait = 32000"

definition disk_read :: "int \<Rightarrow> 'a Hardware_scheme \<Rightarrow> (byte list \<times> 'a Hardware_scheme) res" where
  "disk_read = SynchDisk_ReadSector Inr (disk_P disk_wait) Inr"

definition disk_write :: "int \<Rightarrow> byte list \<Rightarrow> 'a Hardware_scheme \<Rightarrow> 'a Hardware_scheme res" where
  "disk_write = SynchDisk_WriteSector Inr (disk_P disk_wait) Inr"

text \<open>A checked \<open>bcopy\<close>: \<open>len\<close> bytes out of a buffer, and bytes into a buffer.\<close>

definition copy_out :: "byte list \<Rightarrow> int \<Rightarrow> int \<Rightarrow> byte list res" where
  "copy_out buf off len =
     (if 0 \<le> off \<and> 0 \<le> len \<and> off + len \<le> int (length buf) then Inr (slice_of (nat off) (nat len) buf)
      else Inl OutOfRange)"

definition overlay :: "nat \<Rightarrow> byte list \<Rightarrow> byte list \<Rightarrow> byte list" where
  "overlay off bs buf = take off buf @ bs @ drop (off + length bs) buf"

definition copy_in_at :: "int \<Rightarrow> byte list \<Rightarrow> byte list \<Rightarrow> byte list res" where
  "copy_in_at off bs buf =
     (if 0 \<le> off \<and> off + int (length bs) \<le> int (length buf) then Inr (overlay (nat off) bs buf) else Inl OutOfRange)"

section \<open>File headers\<close>

definition NumDirect :: int where "NumDirect = (SectorSize - 2 * 4) div 4"

record FileHeader =
  numBytes :: int
  numSectors :: int
  dataSectors :: "int list"

definition i32_bytes :: "int \<Rightarrow> byte list" where
  "i32_bytes i = u32_bytes (word_of_int i)"

definition bytes_i32 :: "byte list \<Rightarrow> int" where
  "bytes_i32 bs = sint (bytes_u32 bs)"

definition header_bytes :: "FileHeader \<Rightarrow> byte list" where
  "header_bytes h = i32_bytes (numBytes h) @ i32_bytes (numSectors h) @ concat (map i32_bytes (dataSectors h))"

definition header_of :: "byte list \<Rightarrow> FileHeader" where
  "header_of bs = \<lparr>numBytes = bytes_i32 (slice_of 0 4 bs), numSectors = bytes_i32 (slice_of 4 4 bs),
     dataSectors = map (\<lambda>i. bytes_i32 (slice_of (8 + 4 * i) 4 bs)) [0..<nat NumDirect]\<rparr>"

definition FileHeader_new :: "(nat \<Rightarrow> byte) \<Rightarrow> FileHeader" where
  "FileHeader_new junk = header_of (map junk [0..<nat SectorSize])"

definition FileHeader_Allocate :: "Bitmap \<Rightarrow> int \<Rightarrow> FileHeader \<Rightarrow> (bool \<times> FileHeader \<times> Bitmap) res" where
  "FileHeader_Allocate freeMap fileSize h =
     (let h = h\<lparr>numBytes := fileSize, numSectors := divRoundUp fileSize SectorSize\<rparr> in
      rbind (Bitmap_NumClear freeMap) (\<lambda>clear.
      if clear < numSectors h then Inr (False, h, freeMap)
      else
        rbind (for_each (\<lambda>i (h, freeMap).
            rbind (Bitmap_FindAndSet freeMap) (\<lambda>(sector, freeMap).
            rbind (arr_set (dataSectors h) i sector) (\<lambda>ss.
            rbind (ASSERT (sector \<ge> 0)) (\<lambda>_.
            Inr (h\<lparr>dataSectors := ss\<rparr>, freeMap))))) [0..numSectors h - 1] (h, freeMap)) (\<lambda>(h, freeMap).
        Inr (True, h, freeMap))))"

definition FileHeader_Deallocate :: "FileHeader \<Rightarrow> Bitmap \<Rightarrow> Bitmap res" where
  "FileHeader_Deallocate h freeMap =
     for_each (\<lambda>i freeMap.
       rbind (arr_get (dataSectors h) i) (\<lambda>sector.
       rbind (Bitmap_Test freeMap sector) (\<lambda>t.
       rbind (ASSERT t) (\<lambda>_.
       Bitmap_Clear freeMap sector)))) [0..numSectors h - 1] freeMap"

definition FileHeader_FetchFrom :: "int \<Rightarrow> 'a Hardware_scheme \<Rightarrow> (FileHeader \<times> 'a Hardware_scheme) res" where
  "FileHeader_FetchFrom sector s = rbind (disk_read sector s) (\<lambda>(bs, s). Inr (header_of bs, s))"

definition FileHeader_WriteBack :: "int \<Rightarrow> FileHeader \<Rightarrow> 'a Hardware_scheme \<Rightarrow> 'a Hardware_scheme res" where
  "FileHeader_WriteBack sector h s = disk_write sector (header_bytes h) s"

definition ByteToSector :: "FileHeader \<Rightarrow> int \<Rightarrow> int res" where
  "ByteToSector h offset = arr_get (dataSectors h) (offset sdiv SectorSize)"

definition FileLength :: "FileHeader \<Rightarrow> int" where
  "FileLength h = numBytes h"

section \<open>Open files\<close>

record DiskFile =
  hdr :: FileHeader
  seekPosition :: int

definition DiskFile_new :: "int \<Rightarrow> 'a Hardware_scheme \<Rightarrow> (DiskFile \<times> 'a Hardware_scheme) res" where
  "DiskFile_new sector s =
     rbind (FileHeader_FetchFrom sector s) (\<lambda>(h, s). Inr (\<lparr>hdr = h, seekPosition = 0\<rparr>, s))"

definition DiskFile_Seek :: "int \<Rightarrow> DiskFile \<Rightarrow> DiskFile" where
  "DiskFile_Seek position f = f\<lparr>seekPosition := position\<rparr>"

definition DiskFile_Length :: "DiskFile \<Rightarrow> int" where
  "DiskFile_Length f = FileLength (hdr f)"

text \<open>The loop of \<open>ReadAt\<close> over the sectors; the buffer grows by a sector in each round.\<close>

definition read_sectors :: "FileHeader \<Rightarrow> int list \<Rightarrow> 'a Hardware_scheme \<Rightarrow> (byte list \<times> 'a Hardware_scheme) res" where
  "read_sectors h is s =
     for_each (\<lambda>i (buf, s).
       rbind (ByteToSector h (i * SectorSize)) (\<lambda>sector.
       rbind (disk_read sector s) (\<lambda>(bs, s). Inr (buf @ bs, s)))) is ([], s)"

text \<open>\<open>ReadAt\<close> returns the bytes it stores; their number is its result.\<close>

definition DiskFile_ReadAt ::
  "DiskFile \<Rightarrow> int \<Rightarrow> int \<Rightarrow> 'a Hardware_scheme \<Rightarrow> (byte list \<times> 'a Hardware_scheme) res" where
  "DiskFile_ReadAt f len position s =
     (let fileLength = FileLength (hdr f) in
      if len \<le> 0 \<or> position \<ge> fileLength then Inr ([], s)
      else
        let len = (if position + len > fileLength then fileLength - position else len);
            firstSector = divRoundDown position SectorSize;
            lastSector = divRoundDown (position + len - 1) SectorSize in
        rbind (read_sectors (hdr f) [firstSector..lastSector] s) (\<lambda>(buf, s).
        rbind (copy_out buf (position - firstSector * SectorSize) len) (\<lambda>into.
        Inr (into, s))))"

definition write_sectors :: "FileHeader \<Rightarrow> int \<Rightarrow> byte list \<Rightarrow> int list \<Rightarrow> 'a Hardware_scheme \<Rightarrow> 'a Hardware_scheme res" where
  "write_sectors h firstSector buf is s =
     for_each (\<lambda>i s.
       rbind (ByteToSector h (i * SectorSize)) (\<lambda>sector.
       rbind (copy_out buf ((i - firstSector) * SectorSize) SectorSize) (\<lambda>bs.
       disk_write sector bs s))) is s"

definition DiskFile_WriteAt ::
  "(nat \<Rightarrow> byte) \<Rightarrow> DiskFile \<Rightarrow> byte list \<Rightarrow> int \<Rightarrow> int \<Rightarrow> 'a Hardware_scheme \<Rightarrow> (int \<times> 'a Hardware_scheme) res" where
  "DiskFile_WriteAt junk f from len position s =
     (let fileLength = FileLength (hdr f) in
      if len \<le> 0 \<or> position \<ge> fileLength then Inr (0, s)
      else
        let len = (if position + len > fileLength then fileLength - position else len);
            firstSector = divRoundDown position SectorSize;
            lastSector = divRoundDown (position + len - 1) SectorSize;
            sectors = 1 + lastSector - firstSector;
            buf = map junk [0..<nat (sectors * SectorSize)];
            firstAligned = (position = firstSector * SectorSize);
            lastAligned = (position + len = (lastSector + 1) * SectorSize) in
        rbind (if \<not> firstAligned then
                 rbind (DiskFile_ReadAt f SectorSize (firstSector * SectorSize) s) (\<lambda>(bs, s).
                 rbind (copy_in_at 0 bs buf) (\<lambda>buf. Inr (buf, s)))
               else Inr (buf, s)) (\<lambda>(buf, s).
        rbind (if \<not> lastAligned \<and> (firstSector \<noteq> lastSector \<or> firstAligned) then
                 rbind (DiskFile_ReadAt f SectorSize (lastSector * SectorSize) s) (\<lambda>(bs, s).
                 rbind (copy_in_at ((lastSector - firstSector) * SectorSize) bs buf) (\<lambda>buf. Inr (buf, s)))
               else Inr (buf, s)) (\<lambda>(buf, s).
        rbind (copy_out from 0 len) (\<lambda>bs.
        rbind (copy_in_at (position - firstSector * SectorSize) bs buf) (\<lambda>buf.
        rbind (write_sectors (hdr f) firstSector buf [firstSector..lastSector] s) (\<lambda>s.
        Inr (len, s)))))))"

definition DiskFile_Read :: "DiskFile \<Rightarrow> int \<Rightarrow> 'a Hardware_scheme \<Rightarrow> (byte list \<times> DiskFile \<times> 'a Hardware_scheme) res" where
  "DiskFile_Read f len s =
     rbind (DiskFile_ReadAt f len (seekPosition f) s) (\<lambda>(bs, s).
     Inr (bs, f\<lparr>seekPosition := seekPosition f + int (length bs)\<rparr>, s))"

definition DiskFile_Write ::
  "(nat \<Rightarrow> byte) \<Rightarrow> DiskFile \<Rightarrow> byte list \<Rightarrow> int \<Rightarrow> 'a Hardware_scheme \<Rightarrow> (int \<times> DiskFile \<times> 'a Hardware_scheme) res" where
  "DiskFile_Write junk f from len s =
     rbind (DiskFile_WriteAt junk f from len (seekPosition f) s) (\<lambda>(r, s).
     Inr (r, f\<lparr>seekPosition := seekPosition f + r\<rparr>, s))"

section \<open>What a file needs of the disk\<close>

locale sector_store =
  fixes ok :: "'s \<Rightarrow> bool"
    and content :: "'s \<Rightarrow> int \<Rightarrow> byte list"
    and count :: int
    and get :: "int \<Rightarrow> 's \<Rightarrow> (byte list \<times> 's) res"
    and put :: "int \<Rightarrow> byte list \<Rightarrow> 's \<Rightarrow> 's res"
  assumes length_content: "0 \<le> k \<Longrightarrow> k < count \<Longrightarrow> length (content s k) = nat SectorSize"
    and read_ok: "ok s \<Longrightarrow> 0 \<le> k \<Longrightarrow> k < count \<Longrightarrow> \<exists>s'. get k s = Inr (content s k, s') \<and> ok s' \<and> content s' = content s"
    and write_ok: "ok s \<Longrightarrow> 0 \<le> k \<Longrightarrow> k < count \<Longrightarrow> length bs = nat SectorSize \<Longrightarrow>
      \<exists>s'. put k bs s = Inr s' \<and> ok s' \<and> content s' = (content s)(k := bs)"
begin

lemma read_all:
  assumes "ok s" "\<And>i. i \<in> set is \<Longrightarrow> sec i = Inr (f i) \<and> 0 \<le> f i \<and> f i < count"
  shows "\<exists>s'. for_each (\<lambda>i (buf, s). rbind (sec i) (\<lambda>k. rbind (get k s) (\<lambda>(bs, s). Inr (buf @ bs, s)))) is (buf, s) =
    Inr (buf @ concat (map (\<lambda>i. content s (f i)) is), s') \<and> ok s' \<and> content s' = content s"
  using assms
proof (induction "is" arbitrary: buf s)
  case (Cons i "is")
  obtain s1 where s1: "get (f i) s = Inr (content s (f i), s1)" "ok s1" "content s1 = content s"
    using read_ok [OF Cons.prems(1)] Cons.prems(2) [of i] by auto
  then show ?case using Cons.IH [OF s1(2), of "buf @ content s (f i)"] Cons.prems(2) by auto
qed auto

lemma write_all:
  assumes "ok s" "distinct (map f is)"
    "\<And>i. i \<in> set is \<Longrightarrow> sec i = Inr (f i) \<and> 0 \<le> f i \<and> f i < count \<and> out i = Inr (d i) \<and> length (d i) = nat SectorSize"
  shows "\<exists>s'. for_each (\<lambda>i s. rbind (sec i) (\<lambda>k. rbind (out i) (\<lambda>bs. put k bs s))) is s = Inr s' \<and> ok s' \<and>
    (\<forall>i\<in>set is. content s' (f i) = d i) \<and> (\<forall>k. k \<notin> f ` set is \<longrightarrow> content s' k = content s k)"
  using assms
proof (induction "is" arbitrary: s)
  case (Cons i "is")
  obtain s1 where s1: "put (f i) (d i) s = Inr s1" "ok s1" "content s1 = (content s)(f i := d i)"
    using write_ok [OF Cons.prems(1)] Cons.prems(3) [of i] by auto
  obtain s' where s': "for_each (\<lambda>i s. rbind (sec i) (\<lambda>k. rbind (out i) (\<lambda>bs. put k bs s))) is s1 = Inr s'" "ok s'"
      "\<forall>i\<in>set is. content s' (f i) = d i" "\<forall>k. k \<notin> f ` set is \<longrightarrow> content s' k = content s1 k"
    using Cons.IH [OF s1(2)] Cons.prems(2,3) by auto
  have "f i \<notin> f ` set is" using Cons.prems(2) by auto
  then have "content s' (f i) = d i" using s'(4) s1(3) by simp
  then show ?case using s1 s' Cons.prems(3) [of i] by auto
qed auto

end

definition disk_content :: "'a Hardware_scheme \<Rightarrow> int \<Rightarrow> byte list" where
  "disk_content s k = (if 0 \<le> k \<and> k < NumSectors then file_read (disk_file s) (sector_offset k) (nat SectorSize) else [])"

interpretation dk: sector_store disk_ready disk_content NumSectors disk_read disk_write
proof
  fix s :: "'a Hardware_scheme" and k bs
  assume k: "0 \<le> k" "k < NumSectors"
  show "length (disk_content s k) = nat SectorSize" using k by (simp add: disk_content_def file_read_def)
  show "\<exists>s'. disk_read k s = Inr (disk_content s k, s') \<and> disk_ready s' \<and> disk_content s' = disk_content s" if s: "disk_ready s"
  proof -
    obtain s' where "disk_read k s = Inr (disk_content s k, s')" "disk_ready s'" "disk_file s' = disk_file s"
      using SynchDisk_ReadSector_ok [OF s k, of disk_wait] k by (auto simp: disk_read_def disk_content_def disk_wait_def)
    moreover from this(3) have "disk_content s' = disk_content s" by (intro ext) (simp add: disk_content_def)
    ultimately show ?thesis by blast
  qed
  show "\<exists>s'. disk_write k bs s = Inr s' \<and> disk_ready s' \<and> disk_content s' = (disk_content s)(k := bs)"
    if s: "disk_ready s" and l: "length bs = nat SectorSize"
  proof -
    obtain s' where s': "disk_write k bs s = Inr s'" "disk_ready s'" "disk_file s' = file_write (disk_file s) (sector_offset k) bs"
      using SynchDisk_WriteSector_ok [OF s k, of disk_wait bs] l by (auto simp: disk_write_def disk_wait_def disk_consts)
    have "disk_content s' j = ((disk_content s)(k := bs)) j" for j
      using k l sector_disjoint [of j k bs "disk_file s"] file_read_write_same [of "disk_file s" "sector_offset k" bs]
      by (auto simp: disk_content_def s'(3))
    then show ?thesis using s' by (auto simp: fun_eq_iff)
  qed
qed

section \<open>Headers and contents\<close>

definition sectors_of :: "FileHeader \<Rightarrow> int list" where
  "sectors_of h = take (nat (numSectors h)) (dataSectors h)"

definition header_ok :: "FileHeader \<Rightarrow> bool" where
  "header_ok h \<longleftrightarrow> 0 \<le> numBytes h \<and> numSectors h = divRoundUp (numBytes h) SectorSize \<and> numSectors h \<le> NumDirect \<and>
     length (dataSectors h) = nat NumDirect \<and> distinct (sectors_of h) \<and> set (sectors_of h) \<subseteq> {0..<NumSectors}"

definition blocks :: "(int \<Rightarrow> byte list) \<Rightarrow> FileHeader \<Rightarrow> byte list" where
  "blocks D h = concat (map D (sectors_of h))"

definition content_of :: "(int \<Rightarrow> byte list) \<Rightarrow> FileHeader \<Rightarrow> byte list" where
  "content_of D h = take (nat (numBytes h)) (blocks D h)"

definition sectors_full :: "(int \<Rightarrow> byte list) \<Rightarrow> bool" where
  "sectors_full D \<longleftrightarrow> (\<forall>k. 0 \<le> k \<and> k < NumSectors \<longrightarrow> length (D k) = nat SectorSize)"

lemma disk_full: "sectors_full (disk_content s)"
  by (simp add: sectors_full_def dk.length_content)

lemma nth_concat_blocks:
  "(\<And>xs. xs \<in> set xss \<Longrightarrow> length xs = b) \<Longrightarrow> i < b * length xss \<Longrightarrow> concat xss ! i = xss ! (i div b) ! (i mod b)"
proof (induction xss arbitrary: i)
  case (Cons xs xss)
  have b: "length xs = b" "0 < b" using Cons.prems by (auto intro: gr0I)
  show ?case
  proof (cases "i < b")
    case False
    then have "i div b = Suc ((i - b) div b)" "i mod b = (i - b) mod b" using b(2) by (simp_all add: le_div_geq le_mod_geq)
    then show ?thesis using Cons.IH [of "i - b"] Cons.prems False b(1) by (auto simp: nth_append)
  qed (use b in \<open>simp add: nth_append\<close>)
qed simp

lemma header_ok_bounds:
  assumes "header_ok h"
  shows "0 \<le> numSectors h" "numBytes h \<le> 128 * numSectors h" "128 * numSectors h < numBytes h + 128" "length (sectors_of h) = nat (numSectors h)"
proof -
  have n: "0 \<le> numBytes h" "numSectors h = divRoundUp (numBytes h) 128" using assms by (auto simp: header_ok_def disk_consts)
  show u: "numBytes h \<le> 128 * numSectors h" "128 * numSectors h < numBytes h + 128"
    using divRoundUp_bounds [OF n(1), of 128] n(2) by simp_all
  show "0 \<le> numSectors h" using u(1) n(1) by linarith
  show "length (sectors_of h) = nat (numSectors h)" using assms by (auto simp: sectors_of_def header_ok_def)
qed

lemma length_blocks:
  assumes "header_ok h" "sectors_full D"
  shows "length (blocks D h) = 128 * nat (numSectors h)"
proof -
  have "length (D k) = 128" if "k \<in> set (sectors_of h)" for k
    using that assms by (auto simp: header_ok_def sectors_full_def disk_consts)
  then have "length (concat (map D ks)) = 128 * length ks" if "set ks \<subseteq> set (sectors_of h)" for ks
    using that by (induction ks) auto
  then show ?thesis using header_ok_bounds(4) [OF assms(1)] by (simp add: blocks_def)
qed

lemma nth_blocks:
  assumes "header_ok h" "sectors_full D" "i < 128 * nat (numSectors h)"
  shows "blocks D h ! i = D (sectors_of h ! (i div 128)) ! (i mod 128)"
proof -
  have "length xs = 128" if "xs \<in> set (map D (sectors_of h))" for xs
    using that assms(1,2) by (auto simp: header_ok_def sectors_full_def disk_consts)
  moreover have "i div 128 < length (sectors_of h)" using assms(3) header_ok_bounds(4) [OF assms(1)] by simp
  ultimately show ?thesis using nth_concat_blocks [of "map D (sectors_of h)" 128 i] assms(3) header_ok_bounds(4) [OF assms(1)]
    by (simp add: blocks_def)
qed

lemma length_content_of:
  assumes "header_ok h" "sectors_full D"
  shows "length (content_of D h) = nat (numBytes h)"
  using length_blocks [OF assms] header_ok_bounds [OF assms(1)] by (simp add: content_of_def)

lemma ByteToSector_ok:
  assumes "header_ok h" "0 \<le> i" "i < numSectors h"
  shows "ByteToSector h (i * SectorSize) = Inr (sectors_of h ! nat i)" "0 \<le> sectors_of h ! nat i" "sectors_of h ! nat i < NumSectors"
proof -
  have "nat i < length (sectors_of h)" using assms header_ok_bounds(4) [OF assms(1)] by simp
  then have "sectors_of h ! nat i \<in> set (sectors_of h)" by (rule nth_mem)
  then show "0 \<le> sectors_of h ! nat i" "sectors_of h ! nat i < NumSectors" using assms(1) by (auto simp: header_ok_def)
  show "ByteToSector h (i * SectorSize) = Inr (sectors_of h ! nat i)"
    using assms by (simp add: ByteToSector_def header_ok_def sectors_of_def disk_consts arr_get_def NumDirect_def)
qed

section \<open>Reading and writing\<close>

lemma length_overlay [simp]: "off + length bs \<le> length buf \<Longrightarrow> length (overlay off bs buf) = length buf"
  by (simp add: overlay_def)

lemma nth_overlay:
  "off + length bs \<le> length buf \<Longrightarrow> i < length buf \<Longrightarrow>
    overlay off bs buf ! i = (if off \<le> i \<and> i < off + length bs then bs ! (i - off) else buf ! i)"
  by (auto simp: overlay_def nth_append)

lemma read_sectors_ok:
  assumes h: "header_ok h" "disk_ready s" and f: "0 \<le> f" "f \<le> l" "l < numSectors h"
  shows "\<exists>buf s'. read_sectors h [f..l] s = Inr (buf, s') \<and> disk_ready s' \<and> disk_content s' = disk_content s \<and>
    length buf = 128 * nat (l - f + 1) \<and> (\<forall>x<length buf. buf ! x = blocks (disk_content s) h ! (128 * nat f + x))"
proof -
  let ?D = "disk_content s" and ?g = "\<lambda>i. sectors_of h ! nat i"
  let ?buf = "concat (map (\<lambda>i. ?D (?g i)) [f..l])"
  have g: "ByteToSector h (i * SectorSize) = Inr (?g i) \<and> 0 \<le> ?g i \<and> ?g i < NumSectors" if "i \<in> set [f..l]" for i
    using ByteToSector_ok [OF h(1), of i] that f by auto
  obtain s' where s': "read_sectors h [f..l] s = Inr (?buf, s')" "disk_ready s'" "disk_content s' = ?D"
    using dk.read_all [OF h(2), of "[f..l]" "\<lambda>i. ByteToSector h (i * SectorSize)" ?g "[]", OF g]
    unfolding read_sectors_def by auto
  have len: "length xs = 128" if "xs \<in> set (map (\<lambda>i. ?D (?g i)) [f..l])" for xs
    using that g dk.length_content [of _ s] by (auto simp: disk_consts)
  have lb: "length ?buf = 128 * nat (l - f + 1)"
  proof -
    have "length (concat xss) = 128 * length xss" if "\<forall>xs\<in>set xss. length xs = 128" for xss :: "byte list list"
      using that by (induction xss) auto
    then show ?thesis using len f(2) by simp
  qed
  have "?buf ! x = blocks ?D h ! (128 * nat f + x)" if x: "x < 128 * nat (l - f + 1)" for x
  proof -
    have "x div 128 < nat (l - f + 1)" using x by simp
    then have i: "[f..l] ! (x div 128) = f + int (x div 128)" "x div 128 < length [f..l]" by (simp_all add: nth_upto)
    have "?buf ! x = ?D (?g (f + int (x div 128))) ! (x mod 128)"
      using nth_concat_blocks [of "map (\<lambda>i. ?D (?g i)) [f..l]" 128 x, OF len] x i by simp
    moreover have "nat (f + int (x div 128)) = (128 * nat f + x) div 128" "(128 * nat f + x) mod 128 = x mod 128"
      using f(1) by (simp_all add: nat_add_distrib)
    moreover have "128 * nat f + x < 128 * nat (numSectors h)" using x f by simp
    ultimately show ?thesis using nth_blocks [OF h(1) disk_full] by metis
  qed
  then show ?thesis using s' lb by auto
qed

lemma ReadAt_ok:
  assumes h: "header_ok (hdr f)" "disk_ready s" "0 \<le> position"
  shows "\<exists>s'. DiskFile_ReadAt f len position s = Inr (take (nat len) (drop (nat position) (content_of (disk_content s) (hdr f))), s') \<and>
    disk_ready s' \<and> disk_content s' = disk_content s"
proof (cases "len \<le> 0 \<or> position \<ge> numBytes (hdr f)")
  case True
  moreover have "length (content_of (disk_content s) (hdr f)) = nat (numBytes (hdr f))" by (rule length_content_of [OF h(1) disk_full])
  ultimately show ?thesis using h by (auto simp: DiskFile_ReadAt_def FileLength_def)
next
  case False
  let ?h = "hdr f" and ?D = "disk_content s"
  define m where "m = (if position + len > numBytes ?h then numBytes ?h - position else len)"
  have m: "0 < m" "position + m \<le> numBytes ?h" using False by (auto simp: m_def)
  note b = header_ok_bounds [OF h(1)]
  define a l where "a = position div 128" and "l = (position + m - 1) div 128"
  have al: "0 \<le> a" "a \<le> l" "l < numSectors ?h" "128 * a \<le> position" "position + m \<le> 128 * (l + 1)"
    using h(3) m b(2) by (auto simp: a_def l_def zdiv_mono1)
  have r: "divRoundDown position SectorSize = a" "divRoundDown (position + m - 1) SectorSize = l"
    using h(3) m(1) by (simp_all add: divRoundDown_def disk_consts a_def l_def)
  obtain buf s' where s': "read_sectors ?h [a..l] s = Inr (buf, s')" "disk_ready s'" "disk_content s' = ?D"
      "length buf = 128 * nat (l - a + 1)" "\<forall>x<length buf. buf ! x = blocks ?D ?h ! (128 * nat a + x)"
    using read_sectors_ok [OF h(1,2) al(1-3)] by blast
  have o: "0 \<le> position - a * SectorSize" "position - a * SectorSize + m \<le> int (length buf)"
    using al s'(4) by (auto simp: disk_consts)
  have "slice_of (nat (position - a * SectorSize)) (nat m) buf = take (nat len) (drop (nat position) (content_of ?D ?h))"
  proof (rule nth_equalityI)
    show e: "length (slice_of (nat (position - a * SectorSize)) (nat m) buf) = length (take (nat len) (drop (nat position) (content_of ?D ?h)))"
      using o m h(3) length_content_of [OF h(1) disk_full, of s] by (auto simp: m_def split: if_splits)
    fix i assume i: "i < length (slice_of (nat (position - a * SectorSize)) (nat m) buf)"
    then have im: "i < nat m" by simp
    have "nat (position - a * SectorSize) + i < length buf" using o im by linarith
    moreover have "128 * nat a + (nat (position - a * SectorSize) + i) = nat position + i" using al(1,4) by (simp add: disk_consts)
    ultimately have "buf ! (nat (position - a * SectorSize) + i) = blocks ?D ?h ! (nat position + i)" using s'(5) by metis
    moreover have p: "nat position + i < nat (numBytes ?h)" using im m h(3) by linarith
    moreover have "i < nat len" "nat position \<le> length (content_of ?D ?h)" "nat (position - a * SectorSize) \<le> length buf"
      using im p m(1) o length_content_of [OF h(1) disk_full, of s] by (auto simp: m_def split: if_splits)
    ultimately show "slice_of (nat (position - a * SectorSize)) (nat m) buf ! i = take (nat len) (drop (nat position) (content_of ?D ?h)) ! i"
      using im by (simp add: slice_of_def) (simp add: content_of_def)
  qed
  moreover have "DiskFile_ReadAt f len position s = Inr (slice_of (nat (position - a * SectorSize)) (nat m) buf, s')"
    unfolding DiskFile_ReadAt_def Let_def FileLength_def m_def [symmetric] r s'(1) using False o m(1) by (simp add: copy_out_def)
  ultimately show ?thesis using s'(2,3) by auto
qed

lemma write_sectors_ok:
  assumes h: "header_ok h" "disk_ready s" and a: "0 \<le> a" "a \<le> l" "l < numSectors h" and b: "length buf = 128 * nat (l - a + 1)"
  shows "\<exists>s'. write_sectors h a buf [a..l] s = Inr s' \<and> disk_ready s' \<and>
    (\<forall>k. k \<notin> set (sectors_of h) \<longrightarrow> disk_content s' k = disk_content s k) \<and>
    (\<forall>x<128 * nat (numSectors h). blocks (disk_content s') h ! x =
      (if 128 * nat a \<le> x \<and> x < 128 * nat (l + 1) then buf ! (x - 128 * nat a) else blocks (disk_content s) h ! x))"
proof -
  let ?g = "\<lambda>i. sectors_of h ! nat i" and ?d = "\<lambda>i. slice_of (128 * nat (i - a)) 128 buf"
  have ls: "length (sectors_of h) = nat (numSectors h)" by (rule header_ok_bounds(4) [OF h(1)])
  have g: "ByteToSector h (i * SectorSize) = Inr (?g i) \<and> 0 \<le> ?g i \<and> ?g i < NumSectors \<and>
      copy_out buf ((i - a) * SectorSize) SectorSize = Inr (?d i) \<and> length (?d i) = nat SectorSize" if "i \<in> set [a..l]" for i
  proof -
    have i: "a \<le> i" "i \<le> l" using that by auto
    then have "(i - a) * 128 + 128 \<le> int (length buf)" "nat ((i - a) * 128) = 128 * nat (i - a)" using b by (auto simp: nat_mult_distrib)
    then show ?thesis using ByteToSector_ok [OF h(1), of i] i a by (auto simp: copy_out_def disk_consts)
  qed
  have dis: "distinct (map ?g [a..l])"
    using h(1) a ls by (auto simp: distinct_map header_ok_def inj_on_def nth_eq_iff_index_eq)
  obtain s' where s': "write_sectors h a buf [a..l] s = Inr s'" "disk_ready s'" "\<forall>i\<in>set [a..l]. disk_content s' (?g i) = ?d i"
      "\<forall>k. k \<notin> ?g ` set [a..l] \<longrightarrow> disk_content s' k = disk_content s k"
    using dk.write_all [OF h(2) dis, of "\<lambda>i. ByteToSector h (i * SectorSize)" "\<lambda>i. copy_out buf ((i - a) * SectorSize) SectorSize" ?d, OF g]
    unfolding write_sectors_def by blast
  have sub: "?g ` set [a..l] \<subseteq> set (sectors_of h)" using a ls by auto
  have "blocks (disk_content s') h ! x =
      (if 128 * nat a \<le> x \<and> x < 128 * nat (l + 1) then buf ! (x - 128 * nat a) else blocks (disk_content s) h ! x)"
    if x: "x < 128 * nat (numSectors h)" for x
  proof -
    let ?i = "int (x div 128)"
    have B: "blocks (disk_content s') h ! x = disk_content s' (?g ?i) ! (x mod 128)" "blocks (disk_content s) h ! x = disk_content s (?g ?i) ! (x mod 128)"
      using nth_blocks [OF h(1) disk_full x] by simp_all
    show ?thesis
    proof (cases "a \<le> ?i \<and> ?i \<le> l")
      case True
      then have "disk_content s' (?g ?i) ! (x mod 128) = slice_of (128 * nat (?i - a)) 128 buf ! (x mod 128)" using bspec [OF s'(3), of ?i] by simp
      also have "\<dots> = buf ! (128 * nat (?i - a) + x mod 128)"
      proof -
        have "128 * nat (?i - a) \<le> length buf" using True b by (simp add: nat_mono)
        then show ?thesis by (simp add: slice_of_def)
      qed
      also have "128 * nat (?i - a) + x mod 128 = x - 128 * nat a"
      proof -
        define q where "q = x div 128"
        have "nat (?i - a) = q - nat a" "nat a \<le> q" "x = 128 * q + x mod 128" using True a(1) by (auto simp: q_def nat_diff_distrib)
        then have "128 * (q - nat a) + x mod 128 = x - 128 * nat a" by linarith
        then show ?thesis using \<open>nat (?i - a) = q - nat a\<close> by simp
      qed
      finally show ?thesis using B True a(1) by auto
    next
      case False
      have xi: "x div 128 < length (sectors_of h)" using x ls by simp
      have "?g ?i \<noteq> ?g i" if "i \<in> set [a..l]" for i
      proof
        assume "?g ?i = ?g i"
        then have "nat ?i = nat i" using h(1) xi that a ls by (subst (asm) nth_eq_iff_index_eq) (auto simp: header_ok_def)
        then show False using that False a(1) by auto
      qed
      then have "disk_content s' (?g ?i) = disk_content s (?g ?i)" using s'(4) by blast
      moreover have "\<not> (128 * nat a \<le> x \<and> x < 128 * nat (l + 1))" using False a by linarith
      ultimately show ?thesis using B by auto
    qed
  qed
  then show ?thesis using s' sub by blast
qed

text \<open>The buffer of \<open>WriteAt\<close> after the partial sectors have been read: inside the file it differs from the old
  contents at most in the range to be written.\<close>

definition prepare :: "(nat \<Rightarrow> byte) \<Rightarrow> DiskFile \<Rightarrow> int \<Rightarrow> int \<Rightarrow> int \<Rightarrow> int \<Rightarrow> 'a Hardware_scheme \<Rightarrow> (byte list \<times> 'a Hardware_scheme) res" where
  "prepare junk f position len a l s =
     (let buf = map junk [0..<nat ((1 + l - a) * SectorSize)] in
      rbind (if position \<noteq> a * SectorSize then
               rbind (DiskFile_ReadAt f SectorSize (a * SectorSize) s) (\<lambda>(bs, s). rbind (copy_in_at 0 bs buf) (\<lambda>buf. Inr (buf, s)))
             else Inr (buf, s)) (\<lambda>(buf, s).
      if position + len \<noteq> (l + 1) * SectorSize \<and> (a \<noteq> l \<or> position = a * SectorSize) then
        rbind (DiskFile_ReadAt f SectorSize (l * SectorSize) s) (\<lambda>(bs, s). rbind (copy_in_at ((l - a) * SectorSize) bs buf) (\<lambda>buf. Inr (buf, s)))
      else Inr (buf, s)))"

lemma read_into:
  assumes h: "header_ok (hdr f)" "disk_ready s" and i: "0 \<le> a" "a \<le> i" "int (length buf) \<ge> 128 * (i - a + 1)"
  shows "\<exists>buf' s'. rbind (DiskFile_ReadAt f SectorSize (i * SectorSize) s)
      (\<lambda>(bs, s). rbind (copy_in_at ((i - a) * SectorSize) bs buf) (\<lambda>buf. Inr (buf, s))) = Inr (buf', s') \<and>
    disk_ready s' \<and> disk_content s' = disk_content s \<and> length buf' = length buf \<and>
    (\<forall>x<length buf. (128 * nat (i - a) \<le> x \<and> x < 128 * nat (i - a + 1) \<and> 128 * nat a + x < nat (numBytes (hdr f)) \<longrightarrow>
        buf' ! x = content_of (disk_content s) (hdr f) ! (128 * nat a + x)) \<and>
      (\<not> (128 * nat (i - a) \<le> x \<and> x < 128 * nat (i - a + 1)) \<longrightarrow> buf' ! x = buf ! x))"
proof -
  let ?c = "content_of (disk_content s) (hdr f)"
  let ?r = "take 128 (drop (nat (i * 128)) ?c)"
  have c: "length ?c = nat (numBytes (hdr f))" by (rule length_content_of [OF h(1) disk_full])
  obtain s' where s': "DiskFile_ReadAt f SectorSize (i * SectorSize) s = Inr (?r, s')" "disk_ready s'" "disk_content s' = disk_content s"
    using ReadAt_ok [OF h, of "i * SectorSize" SectorSize] i by (auto simp: disk_consts)
  define w where "w = 128 * nat (i - a)"
  have w: "nat ((i - a) * 128) = w" "int w = 128 * (i - a)" "128 * nat a + w = nat (i * 128)" using i by (auto simp: w_def nat_diff_distrib nat_mult_distrib)
  have l: "w + length ?r \<le> length buf" using w(2) i by auto
  have "copy_in_at ((i - a) * SectorSize) ?r buf = Inr (overlay w ?r buf)" using l w i by (simp add: copy_in_at_def disk_consts)
  moreover have "overlay w ?r buf ! x = ?c ! (128 * nat a + x)" if "x < length buf" "w \<le> x" "x < w + 128" "128 * nat a + x < nat (numBytes (hdr f))" for x
  proof -
    have "x - w < length ?r" using that c w(3) by auto
    then have "overlay w ?r buf ! x = ?r ! (x - w)" using nth_overlay [OF l that(1)] that(2) by auto
    also have "\<dots> = ?c ! (nat (i * 128) + (x - w))" using that c w(3) by simp
    also have "nat (i * 128) + (x - w) = 128 * nat a + x" using that(2) w(3) by simp
    finally show ?thesis .
  qed
  moreover have "overlay w ?r buf ! x = buf ! x" if "x < length buf" "\<not> (w \<le> x \<and> x < w + 128)" for x
    using nth_overlay [OF l that(1)] that(2) by auto
  moreover have "128 * nat (i - a + 1) = w + 128" using i by (simp add: w_def)
  ultimately show ?thesis using s' l by (intro exI [of _ "overlay w ?r buf"] exI [of _ s']) (auto simp: w_def)
qed

lemma prepare_ok:
  assumes h: "header_ok (hdr f)" "disk_ready s"
    and a: "0 \<le> a" "a \<le> l" "128 * a \<le> position" "position < 128 * (a + 1)" "128 * l < position + len" "position + len \<le> 128 * (l + 1)"
  shows "\<exists>buf s'. prepare junk f position len a l s = Inr (buf, s') \<and> disk_ready s' \<and> disk_content s' = disk_content s \<and>
    length buf = 128 * nat (l - a + 1) \<and>
    (\<forall>x<length buf. 128 * nat a + x < nat (numBytes (hdr f)) \<longrightarrow> \<not> (nat position \<le> 128 * nat a + x \<and> 128 * nat a + x < nat (position + len)) \<longrightarrow>
      buf ! x = content_of (disk_content s) (hdr f) ! (128 * nat a + x))"
proof -
  let ?c = "content_of (disk_content s) (hdr f)"
  define b0 where "b0 = map junk [0..<nat ((1 + l - a) * SectorSize)]"
  have l0: "length b0 = 128 * nat (l - a + 1)" using a by (simp add: b0_def disk_consts nat_mult_distrib add.commute add_diff_eq)
  obtain b1 s1 where s1: "(if position \<noteq> a * SectorSize then
               rbind (DiskFile_ReadAt f SectorSize (a * SectorSize) s) (\<lambda>(bs, s). rbind (copy_in_at 0 bs b0) (\<lambda>buf. Inr (buf, s)))
             else Inr (b0, s)) = Inr (b1, s1)" "disk_ready s1" "disk_content s1 = disk_content s" "length b1 = length b0"
      "\<And>x. position \<noteq> 128 * a \<Longrightarrow> x < 128 \<Longrightarrow> x < length b0 \<Longrightarrow> 128 * nat a + x < nat (numBytes (hdr f)) \<Longrightarrow> b1 ! x = ?c ! (128 * nat a + x)"
  proof (cases "position \<noteq> a * SectorSize")
    case True
    have "128 * (a - a + 1) \<le> int (length b0)" using l0 a by simp
    from read_into [OF h a(1) order_refl this] True show ?thesis by (auto intro!: that simp: disk_consts)
  next
    case False
    then show ?thesis using h by (auto intro!: that simp: disk_consts)
  qed
  have lb: "128 * (l - a + 1) \<le> int (length b1)" using s1(4) l0 a by simp
  show ?thesis
  proof (cases "position + len \<noteq> (l + 1) * SectorSize \<and> (a \<noteq> l \<or> position = a * SectorSize)")
    case True
    obtain b2 s2 where s2: "rbind (DiskFile_ReadAt f SectorSize (l * SectorSize) s1)
        (\<lambda>(bs, s). rbind (copy_in_at ((l - a) * SectorSize) bs b1) (\<lambda>buf. Inr (buf, s))) = Inr (b2, s2)"
        "disk_ready s2" "disk_content s2 = disk_content s" "length b2 = length b1"
      and b2: "\<And>x. x < length b1 \<Longrightarrow> 128 * nat (l - a) \<le> x \<Longrightarrow> x < 128 * nat (l - a + 1) \<Longrightarrow> 128 * nat a + x < nat (numBytes (hdr f)) \<Longrightarrow>
          b2 ! x = ?c ! (128 * nat a + x)" "\<And>x. x < length b1 \<Longrightarrow> x < 128 * nat (l - a) \<Longrightarrow> b2 ! x = b1 ! x"
      using read_into [OF h(1) s1(2) a(1,2) lb] s1(3) by auto
    have "b2 ! x = ?c ! (128 * nat a + x)" if x: "x < length b2" "128 * nat a + x < nat (numBytes (hdr f))"
      and out: "\<not> (nat position \<le> 128 * nat a + x \<and> 128 * nat a + x < nat (position + len))" for x
    proof (cases "128 * nat (l - a) \<le> x")
      case last: True
      then show ?thesis using b2(1) x s2(4) s1(4) l0 by simp
    next
      case False
      then have "128 * nat a + x < nat position" using out a by linarith
      then have "128 * a + int x < position" using a(1) by (simp add: zless_nat_eq_int_zless)
      then have "position \<noteq> 128 * a" "x < 128" using a(4) by auto
      then show ?thesis using b2(2) [of x] s1(4) s1(5) [of x] x False s2(4) by simp
    qed
    then show ?thesis using s1(1) s2 True l0 s1(4) unfolding prepare_def Let_def b0_def [symmetric] by auto
  next
    case False
    have "b1 ! x = ?c ! (128 * nat a + x)" if x: "x < length b1" "128 * nat a + x < nat (numBytes (hdr f))"
      and out: "\<not> (nat position \<le> 128 * nat a + x \<and> 128 * nat a + x < nat (position + len))" for x
    proof (cases "128 * nat a + x < nat position")
      case True
      then have "128 * a + int x < position" using a(1) by (simp add: zless_nat_eq_int_zless)
      then have "position \<noteq> 128 * a" "x < 128" using a(4) by auto
      then show ?thesis using s1(4,5) x by simp
    next
      case ge: False
      then have "nat (position + len) \<le> 128 * nat a + x" using out by simp
      then have "position + len \<le> 128 * a + int x" using a(1) by (simp add: nat_le_iff)
      moreover have "int (length b1) = 128 * (l - a + 1)" using s1(4) l0 a(2) by simp
      ultimately have "position + len \<noteq> 128 * (l + 1)" using x(1) by auto
      then have "a = l" "position \<noteq> 128 * a" using False by (auto simp: disk_consts)
      then show ?thesis using s1(4,5) x l0 by simp
    qed
    then show ?thesis using s1 False l0 unfolding prepare_def Let_def b0_def [symmetric] by auto
  qed
qed

lemma WriteAt_prepare:
  "DiskFile_WriteAt junk f from len position s =
     (if len \<le> 0 \<or> position \<ge> numBytes (hdr f) then Inr (0, s)
      else
        let len = (if position + len > numBytes (hdr f) then numBytes (hdr f) - position else len);
            a = divRoundDown position SectorSize;
            l = divRoundDown (position + len - 1) SectorSize in
        rbind (prepare junk f position len a l s) (\<lambda>(buf, s).
        rbind (copy_out from 0 len) (\<lambda>bs.
        rbind (copy_in_at (position - a * SectorSize) bs buf) (\<lambda>buf.
        rbind (write_sectors (hdr f) a buf [a..l] s) (\<lambda>s. Inr (len, s))))))"
  by (auto simp: DiskFile_WriteAt_def prepare_def FileLength_def Let_def rbind_assoc case_prod_unfold)

text \<open>The number of bytes \<open>WriteAt\<close> writes.\<close>

definition written :: "FileHeader \<Rightarrow> int \<Rightarrow> int \<Rightarrow> int" where
  "written h len position = (if len \<le> 0 \<or> position \<ge> numBytes h then 0 else min len (numBytes h - position))"

lemma WriteAt_ok:
  assumes h: "header_ok (hdr f)" "disk_ready s" "0 \<le> position" "len \<le> int (length from)"
  shows "\<exists>s'. DiskFile_WriteAt junk f from len position s = Inr (written (hdr f) len position, s') \<and> disk_ready s' \<and>
    (\<forall>k. k \<notin> set (sectors_of (hdr f)) \<longrightarrow> disk_content s' k = disk_content s k) \<and>
    content_of (disk_content s') (hdr f) =
      (if written (hdr f) len position = 0 then content_of (disk_content s) (hdr f)
       else overlay (nat position) (take (nat (written (hdr f) len position)) from) (content_of (disk_content s) (hdr f)))"
proof (cases "len \<le> 0 \<or> position \<ge> numBytes (hdr f)")
  case True
  then show ?thesis using h by (auto simp: WriteAt_prepare written_def)
next
  case False
  let ?h = "hdr f" and ?D = "disk_content s"
  define m where "m = (if position + len > numBytes ?h then numBytes ?h - position else len)"
  have m: "0 < m" "position + m \<le> numBytes ?h" "m \<le> int (length from)" "written ?h len position = m"
    using False h(4) by (auto simp: m_def written_def)
  note b = header_ok_bounds [OF h(1)]
  define a l where "a = position div 128" and "l = (position + m - 1) div 128"
  have al: "0 \<le> a" "a \<le> l" "128 * a \<le> position" "position < 128 * (a + 1)" "128 * l < position + m" "position + m \<le> 128 * (l + 1)"
    using h(3) m(1,2) by (auto simp: a_def l_def zdiv_mono1)
  have ln: "l < numSectors ?h" using al(5) m(2) b(2) by linarith
  have r: "divRoundDown position SectorSize = a" "divRoundDown (position + m - 1) SectorSize = l"
    using h(3) m(1) by (simp_all add: divRoundDown_def disk_consts a_def l_def)
  obtain buf s1 where s1: "prepare junk f position m a l s = Inr (buf, s1)" "disk_ready s1" "disk_content s1 = ?D" "length buf = 128 * nat (l - a + 1)"
      and buf: "\<And>x. x < length buf \<Longrightarrow> 128 * nat a + x < nat (numBytes ?h) \<Longrightarrow>
        \<not> (nat position \<le> 128 * nat a + x \<and> 128 * nat a + x < nat (position + m)) \<Longrightarrow> buf ! x = content_of ?D ?h ! (128 * nat a + x)"
    using prepare_ok [OF h(1,2) al, of junk] by blast
  define bs off where "bs = take (nat m) from" and "off = nat (position - 128 * a)"
  have lb: "length bs = nat m" using m(3) by (simp add: bs_def)
  have of: "off + length bs \<le> length buf" "128 * nat a + off = nat position" using al s1(4) lb m(1) by (auto simp: off_def)
  define buf' where "buf' = overlay off bs buf"
  have c: "copy_out from 0 m = Inr bs" "copy_in_at (position - a * SectorSize) bs buf = Inr buf'"
    using m(1,3) al of lb by (auto simp: copy_out_def bs_def slice_of_def copy_in_at_def disk_consts buf'_def off_def mult.commute)
  have lb': "length buf' = 128 * nat (l - a + 1)" using of(1) s1(4) by (simp add: buf'_def)
  obtain s2 where s2: "write_sectors ?h a buf' [a..l] s1 = Inr s2" "disk_ready s2" "\<forall>k. k \<notin> set (sectors_of ?h) \<longrightarrow> disk_content s2 k = ?D k"
      and B: "\<And>x. x < 128 * nat (numSectors ?h) \<Longrightarrow> blocks (disk_content s2) ?h ! x =
        (if 128 * nat a \<le> x \<and> x < 128 * nat (l + 1) then buf' ! (x - 128 * nat a) else blocks ?D ?h ! x)"
    using write_sectors_ok [OF h(1) s1(2) al(1,2) ln lb'] s1(3) by auto
  have w: "DiskFile_WriteAt junk f from len position s = Inr (m, s2)"
    using False c s2(1) unfolding WriteAt_prepare m_def [symmetric] Let_def r s1(1) by simp
  have lc: "length (content_of ?D ?h) = nat (numBytes ?h)" "length (content_of (disk_content s2) ?h) = nat (numBytes ?h)"
    by (rule length_content_of [OF h(1) disk_full])+
  have ov: "nat position + length bs \<le> length (content_of ?D ?h)" using lb lc(1) m(1,2) h(3) by linarith
  have "content_of (disk_content s2) ?h = overlay (nat position) bs (content_of ?D ?h)"
  proof (rule nth_equalityI)
    show "length (content_of (disk_content s2) ?h) = length (overlay (nat position) bs (content_of ?D ?h))" using lc ov by simp
    fix x assume "x < length (content_of (disk_content s2) ?h)"
    then have x: "x < nat (numBytes ?h)" using lc by simp
    then have x': "x < 128 * nat (numSectors ?h)" using b(2) by linarith
    have C: "content_of (disk_content s2) ?h ! x = blocks (disk_content s2) ?h ! x" "content_of ?D ?h ! x = blocks ?D ?h ! x"
      using x by (simp_all add: content_of_def)
    show "content_of (disk_content s2) ?h ! x = overlay (nat position) bs (content_of ?D ?h) ! x"
    proof (cases "128 * nat a \<le> x \<and> x < 128 * nat (l + 1)")
      case True
      define y where "y = x - 128 * nat a"
      have y: "x = 128 * nat a + y" "y < length buf" using True al s1(4) by (auto simp: y_def)
      have "buf' ! y = (if off \<le> y \<and> y < off + length bs then bs ! (y - off) else buf ! y)" unfolding buf'_def by (rule nth_overlay [OF of(1) y(2)])
      moreover have "off \<le> y \<and> y < off + length bs \<longleftrightarrow> nat position \<le> x \<and> x < nat position + length bs" "y - off = x - nat position"
        using y(1) of(2) by auto
      moreover have "buf ! y = content_of ?D ?h ! x" if "\<not> (nat position \<le> x \<and> x < nat position + length bs)"
        using buf [OF y(2)] x y(1) that lb m(1) h(3) by (simp add: nat_add_distrib)
      ultimately show ?thesis using nth_overlay [OF ov, of x] B [OF x'] C(1) True x lc(1) by (auto simp: y_def)
    next
      case False
      have "int (nat position + length bs) \<le> int (128 * nat (l + 1))" using al lb m(1) h(3) by simp
      then have "nat position + length bs \<le> 128 * nat (l + 1)" by (simp only: of_nat_le_iff)
      then have "\<not> (nat position \<le> x \<and> x < nat position + length bs)" using of(2) False by auto
      then show ?thesis using nth_overlay [OF ov, of x] B [OF x'] C False x lc(1) by auto
    qed
  qed
  then show ?thesis using w s2(2,3) m(1,4) by (auto simp: bs_def)
qed

section \<open>Headers on the disk\<close>

definition fits_int :: "int \<Rightarrow> bool" where
  "fits_int i \<longleftrightarrow> - (2 ^ 31) \<le> i \<and> i < 2 ^ 31"

definition header_fits :: "FileHeader \<Rightarrow> bool" where
  "header_fits h \<longleftrightarrow> fits_int (numBytes h) \<and> fits_int (numSectors h) \<and> length (dataSectors h) = nat NumDirect \<and> list_all fits_int (dataSectors h)"

lemma i32_roundtrip [simp]: "fits_int i \<Longrightarrow> bytes_i32 (i32_bytes i) = i"
  by (simp add: bytes_i32_def i32_bytes_def fits_int_def signed_of_int signed_take_bit_int_eq_self)

lemma fits_bytes [simp]: "fits_int (bytes_i32 bs)"
  using sint_ge [of "bytes_u32 bs"] sint_lt [of "bytes_u32 bs"] by (simp add: fits_int_def bytes_i32_def)

lemma length_i32 [simp]: "length (i32_bytes i) = 4"
  by (simp add: i32_bytes_def)

lemma slice_words: "i < length xs \<Longrightarrow> slice_of (4 * i) 4 (concat (map i32_bytes xs)) = i32_bytes (xs ! i)"
proof (induction xs arbitrary: i)
  case (Cons x xs)
  then show ?case by (cases i) (simp_all add: slice_of_def)
qed simp

lemma length_words: "length (concat (map i32_bytes xs)) = 4 * length xs"
  by (induction xs) auto

lemma length_header_bytes: "header_fits h \<Longrightarrow> length (header_bytes h) = nat SectorSize"
  by (simp add: header_bytes_def header_fits_def length_words NumDirect_def disk_consts del: length_concat)

lemma header_roundtrip: "header_fits h \<Longrightarrow> header_of (header_bytes h) = h"
proof -
  assume f: "header_fits h"
  have "map (\<lambda>i. bytes_i32 (slice_of (8 + 4 * i) 4 (header_bytes h))) [0..<nat NumDirect] = dataSectors h"
  proof (rule nth_equalityI)
    show "length (map (\<lambda>i. bytes_i32 (slice_of (8 + 4 * i) 4 (header_bytes h))) [0..<nat NumDirect]) = length (dataSectors h)"
      using f by (simp add: header_fits_def)
    fix i assume i: "i < length (map (\<lambda>i. bytes_i32 (slice_of (8 + 4 * i) 4 (header_bytes h))) [0..<nat NumDirect])"
    then have i': "i < length (dataSectors h)" using f by (simp add: header_fits_def)
    then have "slice_of (8 + 4 * i) 4 (header_bytes h) = i32_bytes (dataSectors h ! i)"
      using slice_words [OF i'] by (simp add: header_bytes_def slice_append2 slice_of_def)
    moreover have "fits_int (dataSectors h ! i)" using f i' by (simp add: header_fits_def list_all_length)
    ultimately show "map (\<lambda>i. bytes_i32 (slice_of (8 + 4 * i) 4 (header_bytes h))) [0..<nat NumDirect] ! i = dataSectors h ! i"
      using i by simp
  qed
  then show ?thesis using f by (cases h) (simp add: header_of_def header_bytes_def header_fits_def slice_of_def)
qed

lemma header_of_fits: "header_fits (header_of bs)"
  by (simp add: header_fits_def header_of_def list_all_length)

lemma FetchFrom_ok:
  "disk_ready s \<Longrightarrow> 0 \<le> k \<Longrightarrow> k < NumSectors \<Longrightarrow>
    \<exists>s'. FileHeader_FetchFrom k s = Inr (header_of (disk_content s k), s') \<and> disk_ready s' \<and> disk_content s' = disk_content s"
  using dk.read_ok [of s k] by (auto simp: FileHeader_FetchFrom_def)

lemma WriteBack_ok:
  "disk_ready s \<Longrightarrow> 0 \<le> k \<Longrightarrow> k < NumSectors \<Longrightarrow> header_fits h \<Longrightarrow>
    \<exists>s'. FileHeader_WriteBack k h s = Inr s' \<and> disk_ready s' \<and> disk_content s' = (disk_content s)(k := header_bytes h)"
  using dk.write_ok [of s k "header_bytes h"] length_header_bytes by (auto simp: FileHeader_WriteBack_def)

lemma DiskFile_new_ok:
  "disk_ready s \<Longrightarrow> 0 \<le> k \<Longrightarrow> k < NumSectors \<Longrightarrow>
    \<exists>s'. DiskFile_new k s = Inr (\<lparr>hdr = header_of (disk_content s k), seekPosition = 0\<rparr>, s') \<and> disk_ready s' \<and> disk_content s' = disk_content s"
  using FetchFrom_ok [of s k] by (auto simp: DiskFile_new_def)

section \<open>Allocation\<close>

lemma upto_prefix: "[0..n - 1] = ds @ i # rest \<Longrightarrow> i = int (length ds) \<and> 0 \<le> i \<and> i < n"
proof -
  assume e: "[0..n - 1] = ds @ i # rest"
  then have l: "length ds < length [0..n - 1]" by simp
  have "i = [0..n - 1] ! length ds" using e by simp
  also have "\<dots> = int (length ds)" using l by (simp add: nth_upto)
  finally show ?thesis using l by simp
qed

definition allocated :: "FileHeader \<Rightarrow> Bitmap \<Rightarrow> nat \<Rightarrow> FileHeader \<Rightarrow> Bitmap \<Rightarrow> bool" where
  "allocated h b k h' b' \<longleftrightarrow> bitmap_ok b' \<and> numBits b' = numBits b \<and> numBytes h' = numBytes h \<and> numSectors h' = numSectors h \<and>
     length (dataSectors h') = length (dataSectors h) \<and> distinct (take k (dataSectors h')) \<and> set (take k (dataSectors h')) \<inter> marked b = {} \<and>
     set (take k (dataSectors h')) \<subseteq> {0..<numBits b} \<and> marked b' = marked b \<union> set (take k (dataSectors h')) \<and>
     drop k (dataSectors h') = drop k (dataSectors h)"

lemma allocate_one:
  assumes a: "allocated h b k h' b'" and k: "k < length (dataSectors h)" and room: "int (card (marked b)) + int k < numBits b"
  shows "\<exists>h'' b''. rbind (Bitmap_FindAndSet b') (\<lambda>(sector, freeMap). rbind (arr_set (dataSectors h') (int k) sector) (\<lambda>ss.
      rbind (ASSERT (sector \<ge> 0)) (\<lambda>_. Inr (h'\<lparr>dataSectors := ss\<rparr>, freeMap)))) = Inr (h'', b'') \<and> allocated h b (Suc k) h'' b''"
proof -
  have b': "bitmap_ok b'" "numBits b' = numBits b" using a by (auto simp: allocated_def)
  have "card (marked b') \<le> card (marked b) + k"
  proof -
    have "card (set (take k (dataSectors h'))) \<le> k" using card_length [of "take k (dataSectors h')"] by simp
    moreover have "card (marked b') \<le> card (marked b) + card (set (take k (dataSectors h')))"
      using a by (simp add: allocated_def card_Un_le)
    ultimately show ?thesis by linarith
  qed
  then have "int (card (marked b')) < numBits b'" using room b'(2) by linarith
  then have "marked b' \<noteq> {0..<numBits b'}" by (auto split: if_splits)
  then obtain i b'' where i: "Bitmap_FindAndSet b' = Inr (i, b'')" "0 \<le> i" "i < numBits b'" "i \<notin> marked b'" "bitmap_ok b''"
      "numBits b'' = numBits b'" "marked b'' = insert i (marked b')"
    using Bitmap_FindAndSet_ok [OF b'(1)] by auto
  have l: "k < length (dataSectors h')" using k a by (simp add: allocated_def)
  have t: "take (Suc k) ((dataSectors h')[k := i]) = take k (dataSectors h') @ [i]" using l by (simp add: take_Suc_conv_app_nth)
  have d: "drop (Suc k) (dataSectors h') = drop (Suc k) (dataSectors h)"
    using a by (metis allocated_def drop_drop plus_1_eq_Suc)
  have "allocated h b (Suc k) (h'\<lparr>dataSectors := (dataSectors h')[k := i]\<rparr>) b''"
    using a i t d l by (auto simp: allocated_def)
  then show ?thesis using i(1,2) l by (simp add: arr_set_ok)
qed

definition allocate_step :: "int \<Rightarrow> FileHeader \<times> Bitmap \<Rightarrow> (FileHeader \<times> Bitmap) res" where
  "allocate_step i = (\<lambda>(h, freeMap). rbind (Bitmap_FindAndSet freeMap) (\<lambda>(sector, freeMap). rbind (arr_set (dataSectors h) i sector) (\<lambda>ss.
      rbind (ASSERT (sector \<ge> 0)) (\<lambda>_. Inr (h\<lparr>dataSectors := ss\<rparr>, freeMap)))))"

lemma allocate_loop:
  assumes b: "bitmap_ok b" and j: "0 \<le> j" "j \<le> int (length (dataSectors h))" "int (card (marked b)) + j \<le> numBits b"
  shows "\<exists>h' b'. for_each allocate_step [0..j - 1] (h, b) = Inr (h', b') \<and> allocated h b (nat j) h' b'"
proof -
  have "\<exists>x. for_each allocate_step [0..j - 1] (h, b) = Inr x \<and> (\<lambda>ds (h', b'). allocated h b (length ds) h' b') [0..j - 1] x"
  proof (rule for_each_rule)
    show "case (h, b) of (h', b') \<Rightarrow> allocated h b (length ([] :: int list)) h' b'" using b by (simp add: allocated_def)
    fix ds i rest x assume e: "[0..j - 1] = ds @ i # rest" and x: "case x of (h', b') \<Rightarrow> allocated h b (length ds) h' b'"
    have i: "i = int (length ds)" "i < j" using upto_prefix [OF e] by auto
    then have "length ds < length (dataSectors h)" "int (card (marked b)) + int (length ds) < numBits b" using j by auto
    then show "\<exists>s'. allocate_step i x = Inr s' \<and> (case s' of (h', b') \<Rightarrow> allocated h b (length (ds @ [i])) h' b')"
      using allocate_one [of h b "length ds" "fst x" "snd x"] x i(1) by (auto simp: allocate_step_def case_prod_unfold)
  qed
  then show ?thesis using j(1) by auto
qed

lemma Allocate_loop:
  assumes "bitmap_ok b"
  shows "FileHeader_Allocate b n h =
    (let h = h\<lparr>numBytes := n, numSectors := divRoundUp n SectorSize\<rparr> in
     if numBits b - int (card (marked b)) < divRoundUp n SectorSize then Inr (False, h, b)
     else rbind (for_each allocate_step [0..divRoundUp n SectorSize - 1] (h, b)) (\<lambda>(h, b). Inr (True, h, b)))"
  unfolding FileHeader_Allocate_def allocate_step_def [abs_def] using Bitmap_NumClear_ok [OF assms] by (simp add: Let_def)

lemma Allocate_ok:
  assumes b: "bitmap_ok b" and n: "0 \<le> n" "divRoundUp n SectorSize \<le> int (length (dataSectors h))"
  defines "h0 \<equiv> h\<lparr>numBytes := n, numSectors := divRoundUp n SectorSize\<rparr>"
  shows "if numBits b - int (card (marked b)) < divRoundUp n SectorSize then FileHeader_Allocate b n h = Inr (False, h0, b)
    else \<exists>h' b'. FileHeader_Allocate b n h = Inr (True, h', b') \<and> allocated h0 b (nat (divRoundUp n SectorSize)) h' b'"
proof -
  have "0 \<le> divRoundUp n SectorSize" using divRoundUp_bounds(1) [of n SectorSize] n(1) by (simp add: disk_consts)
  then show ?thesis using allocate_loop [OF b, of "divRoundUp n SectorSize" h0] n(2) by (auto simp: Allocate_loop [OF b] h0_def)
qed

text \<open>A file of more sectors than a header has room for: \<open>Allocate\<close> writes behind its array.\<close>

lemma Allocate_overrun:
  assumes b: "bitmap_ok b" and n: "int (length (dataSectors h)) < divRoundUp n SectorSize" "divRoundUp n SectorSize \<le> numBits b - int (card (marked b))"
  shows "FileHeader_Allocate b n h = Inl OutOfRange"
proof -
  let ?h = "h\<lparr>numBytes := n, numSectors := divRoundUp n SectorSize\<rparr>"
  define l where "l = int (length (dataSectors h))"
  obtain h' b' where a: "for_each allocate_step [0..l - 1] (?h, b) = Inr (h', b')" "allocated ?h b (nat l) h' b'"
    using allocate_loop [OF b, of l ?h] n by (auto simp: l_def)
  have l0: "0 \<le> l" "l \<le> divRoundUp n SectorSize - 1" using n(1) by (auto simp: l_def)
  then have u: "[0..divRoundUp n SectorSize - 1] = [0..l - 1] @ l # [l + 1..divRoundUp n SectorSize - 1]" by (rule upto_split3)
  have "bitmap_ok b'" "length (dataSectors h') = nat l" using a(2) by (auto simp: allocated_def l_def)
  then have "allocate_step l (h', b') = Inl OutOfRange"
    using Bitmap_FindAndSet_ok [of b'] l0(1) by (auto simp: allocate_step_def arr_set_def)
  then show ?thesis unfolding Allocate_loop [OF b] u for_each_append using a(1) n(2) by (simp add: Let_def)
qed

lemma Deallocate_ok:
  assumes h: "bitmap_ok b" "distinct (sectors_of h)" "set (sectors_of h) \<subseteq> marked b" "0 \<le> numSectors h" "numSectors h \<le> int (length (dataSectors h))"
  shows "\<exists>b'. FileHeader_Deallocate h b = Inr b' \<and> bitmap_ok b' \<and> numBits b' = numBits b \<and> marked b' = marked b - set (sectors_of h)"
proof -
  let ?f = "\<lambda>i freeMap. rbind (arr_get (dataSectors h) i) (\<lambda>sector. rbind (Bitmap_Test freeMap sector) (\<lambda>t. rbind (ASSERT t) (\<lambda>_. Bitmap_Clear freeMap sector)))"
  have "\<exists>b'. for_each ?f [0..numSectors h - 1] b = Inr b' \<and>
    (\<lambda>ds b'. bitmap_ok b' \<and> numBits b' = numBits b \<and> marked b' = marked b - set (take (length ds) (sectors_of h))) [0..numSectors h - 1] b'"
  proof (rule for_each_rule)
    show "bitmap_ok b \<and> numBits b = numBits b \<and> marked b = marked b - set (take (length ([] :: int list)) (sectors_of h))" using h(1) by simp
    fix ds i rest b' assume e: "[0..numSectors h - 1] = ds @ i # rest"
      and x: "bitmap_ok b' \<and> numBits b' = numBits b \<and> marked b' = marked b - set (take (length ds) (sectors_of h))"
    have i: "i = int (length ds)" "i < numSectors h" using upto_prefix [OF e] by auto
    have l: "length ds < length (sectors_of h)" using i h(5) by (simp add: sectors_of_def)
    have g: "arr_get (dataSectors h) i = Inr (sectors_of h ! length ds)" using i h(5) by (simp add: sectors_of_def)
    have n: "sectors_of h ! length ds \<notin> set (take (length ds) (sectors_of h))"
      using distinct_take [OF h(2), of "Suc (length ds)"] l by (simp add: take_Suc_conv_app_nth)
    have mb: "sectors_of h ! length ds \<in> marked b'" using h(3) l n x by (auto intro: nth_mem)
    then have r: "0 \<le> sectors_of h ! length ds" "sectors_of h ! length ds < numBits b'" using marked_range by auto
    obtain b2 where "Bitmap_Clear b' (sectors_of h ! length ds) = Inr b2" "bitmap_ok b2" "numBits b2 = numBits b'" "marked b2 = marked b' - {sectors_of h ! length ds}"
      using Bitmap_Clear_ok [of b', OF _ r] x by blast
    moreover have "set (take (Suc (length ds)) (sectors_of h)) = insert (sectors_of h ! length ds) (set (take (length ds) (sectors_of h)))"
      using l by (simp add: take_Suc_conv_app_nth)
    ultimately show "\<exists>s'. ?f i b' = Inr s' \<and> bitmap_ok s' \<and> numBits s' = numBits b \<and> marked s' = marked b - set (take (length (ds @ [i])) (sectors_of h))"
      using g Bitmap_Test_ok [of b', OF _ r] mb x by auto
  qed
  moreover have "take (length [0..numSectors h - 1]) (sectors_of h) = sectors_of h" using h(4) by (simp add: sectors_of_def)
  ultimately show ?thesis by (auto simp: FileHeader_Deallocate_def)
qed

end
