(* ===== verification/Disk_FileSystem.thy ===== *)
theory Disk_FileSystem
  imports Disk_File
begin

text \<open>
  The file system on the simulated disk (\<open>filesys/filesys.cc\<close> without \<open>FILESYS_STUB\<close>), with its directory
  (\<open>filesys/directory.cc\<close>) and the bitmap of free sectors (\<open>filesys/pbitmap.cc\<close>).  Directory and bitmap are files; their
  headers are in sectors 0 and 1.  A directory entry is stored as its memory image of 20 bytes: the
  flag, three bytes of padding, the sector, ten bytes for the name, two bytes of padding.

  A name is the array of characters the caller passes; it counts up to its terminator, and the
  comparisons look at the first nine characters.  \<open>junk i\<close> is the content of the \<open>i\<close>-th piece of memory an
  operation allocates and does not initialise.

  The abstraction \<open>fs_rep\<close> sees the disk as a finite map from names to contents.
\<close>

section \<open>The bitmap of free sectors\<close>

definition bitmap_bytes :: "Bitmap \<Rightarrow> byte list" where
  "bitmap_bytes b = concat (map u32_bytes (bmap b))"

definition words_of :: "byte list \<Rightarrow> 32 word list" where
  "words_of bs = map (\<lambda>i. bytes_u32 (slice_of (4 * i) 4 bs)) [0..<length bs div 4]"

definition PersistentBitmap_FetchFrom :: "DiskFile \<Rightarrow> Bitmap \<Rightarrow> 'a Hardware_scheme \<Rightarrow> (Bitmap \<times> 'a Hardware_scheme) res" where
  "PersistentBitmap_FetchFrom f b s =
     rbind (DiskFile_ReadAt f (numWords b * 4) 0 s) (\<lambda>(bs, s).
     Inr (b\<lparr>bmap := words_of (overlay 0 bs (bitmap_bytes b))\<rparr>, s))"

definition PersistentBitmap_new :: "DiskFile \<Rightarrow> int \<Rightarrow> 'a Hardware_scheme \<Rightarrow> (Bitmap \<times> 'a Hardware_scheme) res" where
  "PersistentBitmap_new f numItems s = rbind (Bitmap_new numItems) (\<lambda>b. PersistentBitmap_FetchFrom f b s)"

definition PersistentBitmap_WriteBack :: "(nat \<Rightarrow> byte) \<Rightarrow> DiskFile \<Rightarrow> Bitmap \<Rightarrow> 'a Hardware_scheme \<Rightarrow> 'a Hardware_scheme res" where
  "PersistentBitmap_WriteBack junk f b s =
     rbind (DiskFile_WriteAt junk f (bitmap_bytes b) (numWords b * 4) 0 s) (\<lambda>(_, s). Inr s)"

section \<open>The directory\<close>

definition FileNameMaxLen :: nat where "FileNameMaxLen = 9"

record DirectoryEntry =
  inUse :: bool
  entry_pad :: "byte list"
  entry_sector :: int
  entry_name :: "byte list"
  entry_tail :: "byte list"

definition entry_bytes :: "DirectoryEntry \<Rightarrow> byte list" where
  "entry_bytes e = of_bool (inUse e) # entry_pad e @ i32_bytes (entry_sector e) @ entry_name e @ entry_tail e"

definition entry_of :: "byte list \<Rightarrow> DirectoryEntry" where
  "entry_of bs = \<lparr>inUse = (bs ! 0 \<noteq> 0), entry_pad = slice_of 1 3 bs, entry_sector = bytes_i32 (slice_of 4 4 bs),
     entry_name = slice_of 8 10 bs, entry_tail = slice_of 18 2 bs\<rparr>"

definition table_bytes :: "DirectoryEntry list \<Rightarrow> byte list" where
  "table_bytes es = concat (map entry_bytes es)"

definition table_of :: "byte list \<Rightarrow> DirectoryEntry list" where
  "table_of bs = map (\<lambda>i. entry_of (slice_of (20 * i) 20 bs)) [0..<length bs div 20]"

record Directory =
  tableSize :: int
  dir_table :: "DirectoryEntry list"

definition Directory_new :: "(nat \<Rightarrow> byte) \<Rightarrow> int \<Rightarrow> Directory" where
  "Directory_new junk sz =
     \<lparr>tableSize = sz, dir_table = map (\<lambda>e. e\<lparr>inUse := False\<rparr>) (table_of (map junk [0..<20 * nat sz]))\<rparr>"

definition Directory_FetchFrom :: "DiskFile \<Rightarrow> Directory \<Rightarrow> 'a Hardware_scheme \<Rightarrow> (Directory \<times> 'a Hardware_scheme) res" where
  "Directory_FetchFrom f d s =
     rbind (DiskFile_ReadAt f (tableSize d * 20) 0 s) (\<lambda>(bs, s).
     Inr (d\<lparr>dir_table := table_of (overlay 0 bs (table_bytes (dir_table d)))\<rparr>, s))"

definition Directory_WriteBack :: "(nat \<Rightarrow> byte) \<Rightarrow> DiskFile \<Rightarrow> Directory \<Rightarrow> 'a Hardware_scheme \<Rightarrow> 'a Hardware_scheme res" where
  "Directory_WriteBack junk f d s =
     rbind (DiskFile_WriteAt junk f (table_bytes (dir_table d)) (tableSize d * 20) 0 s) (\<lambda>(_, s). Inr s)"

text \<open>\<open>strncmp(a, b, n) == 0\<close> and \<open>strncpy(dst, src, n)\<close>.\<close>

definition cstr :: "byte list \<Rightarrow> byte list" where
  "cstr a = takeWhile (\<lambda>c. c \<noteq> 0) a"

definition strncmp_eq :: "byte list \<Rightarrow> byte list \<Rightarrow> nat \<Rightarrow> bool" where
  "strncmp_eq a b n \<longleftrightarrow> take n (cstr a) = take n (cstr b)"

definition strncpy :: "byte list \<Rightarrow> byte list \<Rightarrow> nat \<Rightarrow> byte list" where
  "strncpy dst src n = (let c = take n (cstr src) in c @ replicate (n - length c) 0 @ drop n dst)"

fun FindIndex_loop :: "byte list \<Rightarrow> int \<Rightarrow> DirectoryEntry list \<Rightarrow> int" where
  "FindIndex_loop nm i [] = - 1"
| "FindIndex_loop nm i (e # es) =
     (if inUse e \<and> strncmp_eq (entry_name e) nm FileNameMaxLen then i else FindIndex_loop nm (i + 1) es)"

definition FindIndex :: "Directory \<Rightarrow> byte list \<Rightarrow> int" where
  "FindIndex d nm = FindIndex_loop nm 0 (take (nat (tableSize d)) (dir_table d))"

definition Directory_Find :: "Directory \<Rightarrow> byte list \<Rightarrow> int res" where
  "Directory_Find d nm =
     (let i = FindIndex d nm in
      if i \<noteq> - 1 then rbind (arr_get (dir_table d) i) (\<lambda>e. Inr (entry_sector e)) else Inr (- 1))"

fun Add_loop :: "byte list \<Rightarrow> int \<Rightarrow> DirectoryEntry list \<Rightarrow> (bool \<times> DirectoryEntry list)" where
  "Add_loop nm newSector [] = (False, [])"
| "Add_loop nm newSector (e # es) =
     (if \<not> inUse e then
        (True, e\<lparr>inUse := True, entry_name := strncpy (entry_name e) nm FileNameMaxLen, entry_sector := newSector\<rparr> # es)
      else let (r, es) = Add_loop nm newSector es in (r, e # es))"

definition Directory_Add :: "byte list \<Rightarrow> int \<Rightarrow> Directory \<Rightarrow> bool \<times> Directory" where
  "Directory_Add nm newSector d =
     (if FindIndex d nm \<noteq> - 1 then (False, d)
      else let (r, es) = Add_loop nm newSector (dir_table d) in (r, d\<lparr>dir_table := es\<rparr>))"

definition Directory_Remove :: "byte list \<Rightarrow> Directory \<Rightarrow> (bool \<times> Directory) res" where
  "Directory_Remove nm d =
     (let i = FindIndex d nm in
      if i = - 1 then Inr (False, d)
      else
        rbind (arr_get (dir_table d) i) (\<lambda>e.
        rbind (arr_set (dir_table d) i (e\<lparr>inUse := False\<rparr>)) (\<lambda>es. Inr (True, d\<lparr>dir_table := es\<rparr>))))"

text \<open>\<open>printf\<close> of a name without a terminator runs out of the array.\<close>

definition Directory_List :: "Directory \<Rightarrow> byte list list res" where
  "Directory_List d =
     for_each (\<lambda>e out. if inUse e then (if 0 \<in> set (entry_name e) then Inr (out @ [cstr (entry_name e)]) else Inl OutOfRange)
       else Inr out) (dir_table d) []"

section \<open>The file system\<close>

definition FreeMapSector :: int where "FreeMapSector = 0"
definition DirectorySector :: int where "DirectorySector = 1"
definition FreeMapFileSize :: int where "FreeMapFileSize = NumSectors div BitsInByte"
definition NumDirEntries :: int where "NumDirEntries = 10"
definition DirectoryFileSize :: int where "DirectoryFileSize = 20 * NumDirEntries"

record DiskFileSystem =
  freeMapFile :: DiskFile
  directoryFile :: DiskFile

definition DiskFileSystem_format :: "(nat \<Rightarrow> nat \<Rightarrow> byte) \<Rightarrow> 'a Hardware_scheme \<Rightarrow> (DiskFileSystem \<times> 'a Hardware_scheme) res" where
  "DiskFileSystem_format junk s =
     rbind (Bitmap_new NumSectors) (\<lambda>freeMap.
     let directory = Directory_new (junk 0) NumDirEntries;
         mapHdr = FileHeader_new (junk 1);
         dirHdr = FileHeader_new (junk 2) in
     rbind (Bitmap_Mark freeMap FreeMapSector) (\<lambda>freeMap.
     rbind (Bitmap_Mark freeMap DirectorySector) (\<lambda>freeMap.
     rbind (FileHeader_Allocate freeMap FreeMapFileSize mapHdr) (\<lambda>(ok, mapHdr, freeMap).
     rbind (ASSERT ok) (\<lambda>_.
     rbind (FileHeader_Allocate freeMap DirectoryFileSize dirHdr) (\<lambda>(ok, dirHdr, freeMap).
     rbind (ASSERT ok) (\<lambda>_.
     rbind (FileHeader_WriteBack FreeMapSector mapHdr s) (\<lambda>s.
     rbind (FileHeader_WriteBack DirectorySector dirHdr s) (\<lambda>s.
     rbind (DiskFile_new FreeMapSector s) (\<lambda>(mapFile, s).
     rbind (DiskFile_new DirectorySector s) (\<lambda>(dirFile, s).
     rbind (PersistentBitmap_WriteBack (junk 3) mapFile freeMap s) (\<lambda>s.
     rbind (Directory_WriteBack (junk 4) dirFile directory s) (\<lambda>s.
     Inr (\<lparr>freeMapFile = mapFile, directoryFile = dirFile\<rparr>, s))))))))))))))"

definition DiskFileSystem_new :: "(nat \<Rightarrow> nat \<Rightarrow> byte) \<Rightarrow> bool \<Rightarrow> 'a Hardware_scheme \<Rightarrow> (DiskFileSystem \<times> 'a Hardware_scheme) res" where
  "DiskFileSystem_new junk format s =
     (if format then DiskFileSystem_format junk s
      else
        rbind (DiskFile_new FreeMapSector s) (\<lambda>(mapFile, s).
        rbind (DiskFile_new DirectorySector s) (\<lambda>(dirFile, s).
        Inr (\<lparr>freeMapFile = mapFile, directoryFile = dirFile\<rparr>, s))))"

definition DiskFileSystem_Create ::
  "(nat \<Rightarrow> nat \<Rightarrow> byte) \<Rightarrow> DiskFileSystem \<Rightarrow> byte list \<Rightarrow> int \<Rightarrow> 'a Hardware_scheme \<Rightarrow> (bool \<times> 'a Hardware_scheme) res" where
  "DiskFileSystem_Create junk fs nm initialSize s =
     rbind (Directory_FetchFrom (directoryFile fs) (Directory_new (junk 0) NumDirEntries) s) (\<lambda>(directory, s).
     rbind (Directory_Find directory nm) (\<lambda>found.
     if found \<noteq> - 1 then Inr (False, s)
     else
       rbind (PersistentBitmap_new (freeMapFile fs) NumSectors s) (\<lambda>(freeMap, s).
       rbind (Bitmap_FindAndSet freeMap) (\<lambda>(sector, freeMap).
       if sector = - 1 then Inr (False, s)
       else
         let (added, directory) = Directory_Add nm sector directory in
         if \<not> added then Inr (False, s)
         else
           rbind (FileHeader_Allocate freeMap initialSize (FileHeader_new (junk 1))) (\<lambda>(ok, h, freeMap).
           if \<not> ok then Inr (False, s)
           else
             rbind (FileHeader_WriteBack sector h s) (\<lambda>s.
             rbind (Directory_WriteBack (junk 2) (directoryFile fs) directory s) (\<lambda>s.
             rbind (PersistentBitmap_WriteBack (junk 3) (freeMapFile fs) freeMap s) (\<lambda>s.
             Inr (True, s)))))))))"

definition DiskFileSystem_Open ::
  "(nat \<Rightarrow> nat \<Rightarrow> byte) \<Rightarrow> DiskFileSystem \<Rightarrow> byte list \<Rightarrow> 'a Hardware_scheme \<Rightarrow> (DiskFile option \<times> 'a Hardware_scheme) res" where
  "DiskFileSystem_Open junk fs nm s =
     rbind (Directory_FetchFrom (directoryFile fs) (Directory_new (junk 0) NumDirEntries) s) (\<lambda>(directory, s).
     rbind (Directory_Find directory nm) (\<lambda>sector.
     if sector \<ge> 0 then rbind (DiskFile_new sector s) (\<lambda>(f, s). Inr (Some f, s)) else Inr (None, s)))"

definition DiskFileSystem_Remove ::
  "(nat \<Rightarrow> nat \<Rightarrow> byte) \<Rightarrow> DiskFileSystem \<Rightarrow> byte list \<Rightarrow> 'a Hardware_scheme \<Rightarrow> (bool \<times> 'a Hardware_scheme) res" where
  "DiskFileSystem_Remove junk fs nm s =
     rbind (Directory_FetchFrom (directoryFile fs) (Directory_new (junk 0) NumDirEntries) s) (\<lambda>(directory, s).
     rbind (Directory_Find directory nm) (\<lambda>sector.
     if sector = - 1 then Inr (False, s)
     else
       rbind (FileHeader_FetchFrom sector s) (\<lambda>(fileHdr, s).
       rbind (PersistentBitmap_new (freeMapFile fs) NumSectors s) (\<lambda>(freeMap, s).
       rbind (FileHeader_Deallocate fileHdr freeMap) (\<lambda>freeMap.
       rbind (Bitmap_Clear freeMap sector) (\<lambda>freeMap.
       rbind (Directory_Remove nm directory) (\<lambda>(_, directory).
       rbind (PersistentBitmap_WriteBack (junk 1) (freeMapFile fs) freeMap s) (\<lambda>s.
       rbind (Directory_WriteBack (junk 2) (directoryFile fs) directory s) (\<lambda>s.
       Inr (True, s))))))))))"

definition DiskFileSystem_List ::
  "(nat \<Rightarrow> nat \<Rightarrow> byte) \<Rightarrow> DiskFileSystem \<Rightarrow> 'a Hardware_scheme \<Rightarrow> (byte list list \<times> 'a Hardware_scheme) res" where
  "DiskFileSystem_List junk fs s =
     rbind (Directory_FetchFrom (directoryFile fs) (Directory_new (junk 0) NumDirEntries) s) (\<lambda>(directory, s).
     rbind (Directory_List directory) (\<lambda>names. Inr (names, s)))"

section \<open>Images of the bitmap and of the directory\<close>

lemma slice_concat:
  "(\<And>x. x \<in> set xs \<Longrightarrow> length (f x) = n) \<Longrightarrow> i < length xs \<Longrightarrow> slice_of (n * i) n (concat (map f xs)) = f (xs ! i)"
proof (induction xs arbitrary: i)
  case (Cons x xs)
  show ?case
  proof (cases i)
    case (Suc j)
    have "slice_of (n * i) n (concat (map f (x # xs))) = slice_of (n * j) n (concat (map f xs))"
      using Cons.prems(1) [of x] by (simp add: slice_of_def Suc)
    then show ?thesis using Cons.IH [of j] Cons.prems Suc by simp
  qed (use Cons.prems(1) [of x] in \<open>simp add: slice_of_def\<close>)
qed simp

lemma length_concat_blocks: "(\<And>x. x \<in> set xs \<Longrightarrow> length (f x) = n) \<Longrightarrow> length (concat (map f xs)) = n * length xs"
  by (induction xs) auto

lemma overlay_all: "length bs = length buf \<Longrightarrow> overlay 0 bs buf = bs"
  by (simp add: overlay_def)

lemma length_u32 [simp]: "length (u32_bytes w) = 4"
  by (simp add: u32_bytes_def)

lemma length_bitmap_bytes: "length (bitmap_bytes b) = 4 * length (bmap b)"
  by (simp add: bitmap_bytes_def length_concat_blocks del: length_concat)

lemma words_roundtrip: "words_of (bitmap_bytes b) = bmap b"
proof (rule nth_equalityI)
  show l: "length (words_of (bitmap_bytes b)) = length (bmap b)" by (simp add: words_of_def length_bitmap_bytes)
  fix i assume "i < length (words_of (bitmap_bytes b))"
  then show "words_of (bitmap_bytes b) ! i = bmap b ! i"
    using l slice_concat [of "bmap b" u32_bytes 4 i] by (simp add: words_of_def) (simp add: bitmap_bytes_def)
qed

definition entry_wf :: "DirectoryEntry \<Rightarrow> bool" where
  "entry_wf e \<longleftrightarrow> length (entry_pad e) = 3 \<and> fits_int (entry_sector e) \<and> length (entry_name e) = 10 \<and> length (entry_tail e) = 2"

lemma length_entry_bytes: "entry_wf e \<Longrightarrow> length (entry_bytes e) = 20"
  by (simp add: entry_bytes_def entry_wf_def)

lemma entry_roundtrip: "entry_wf e \<Longrightarrow> entry_of (entry_bytes e) = e"
  by (cases e) (auto simp: entry_of_def entry_bytes_def entry_wf_def slice_of_def)

lemma entry_of_wf: "length bs = 20 \<Longrightarrow> entry_wf (entry_of bs)"
  by (simp add: entry_wf_def entry_of_def slice_of_def)

lemma length_table_bytes: "list_all entry_wf es \<Longrightarrow> length (table_bytes es) = 20 * length es"
  unfolding table_bytes_def by (intro length_concat_blocks) (auto simp: list_all_iff length_entry_bytes)

lemma table_roundtrip:
  assumes "list_all entry_wf es"
  shows "table_of (table_bytes es) = es"
proof (rule nth_equalityI)
  show l: "length (table_of (table_bytes es)) = length es" using assms by (simp add: table_of_def length_table_bytes)
  fix i assume "i < length (table_of (table_bytes es))"
  then have i: "i < length es" using l by simp
  have "slice_of (20 * i) 20 (table_bytes es) = entry_bytes (es ! i)"
    unfolding table_bytes_def using assms i by (intro slice_concat) (auto simp: list_all_iff length_entry_bytes)
  then show "table_of (table_bytes es) ! i = es ! i"
    using i assms l by (simp add: table_of_def entry_roundtrip list_all_length)
qed

lemma table_of_wf: "length bs = 20 * n \<Longrightarrow> list_all entry_wf (table_of bs) \<and> length (table_of bs) = n"
  by (auto simp: table_of_def list_all_length slice_of_def intro!: entry_of_wf)

lemma Directory_new_wf:
  "0 \<le> n \<Longrightarrow> list_all entry_wf (dir_table (Directory_new junk n)) \<and> length (dir_table (Directory_new junk n)) = nat n \<and>
    tableSize (Directory_new junk n) = n \<and> filter inUse (dir_table (Directory_new junk n)) = []"
  using table_of_wf [of "map junk [0..<20 * nat n]" "nat n"]
  by (auto simp: Directory_new_def list_all_iff entry_wf_def filter_empty_conv)

section \<open>Whole files\<close>

lemma read_whole:
  assumes h: "header_ok (hdr f)" "disk_ready s" and n: "n = numBytes (hdr f)"
  shows "\<exists>s'. DiskFile_ReadAt f n 0 s = Inr (content_of (disk_content s) (hdr f), s') \<and> disk_ready s' \<and> disk_content s' = disk_content s"
  using ReadAt_ok [OF h, of 0 n] length_content_of [OF h(1) disk_full, of s] n by simp

text \<open>What a disk looks like after the content of one file has been replaced.\<close>

definition replaced :: "(int \<Rightarrow> byte list) \<Rightarrow> FileHeader \<Rightarrow> byte list \<Rightarrow> (int \<Rightarrow> byte list) \<Rightarrow> bool" where
  "replaced D h bs D' \<longleftrightarrow> (\<forall>k. k \<notin> set (sectors_of h) \<longrightarrow> D' k = D k) \<and> content_of D' h = bs"

lemma write_whole:
  assumes h: "header_ok (hdr f)" "disk_ready s" and n: "int (length bs) = numBytes (hdr f)" "0 < n" "n = numBytes (hdr f)"
  shows "\<exists>s'. DiskFile_WriteAt junk f bs n 0 s = Inr (n, s') \<and> disk_ready s' \<and> replaced (disk_content s) (hdr f) bs (disk_content s')"
proof -
  have "length bs = length (content_of (disk_content s) (hdr f))" using length_content_of [OF h(1) disk_full, of s] n by simp
  moreover have "written (hdr f) n 0 = n" using n by (simp add: written_def)
  ultimately show ?thesis using WriteAt_ok [OF h, of 0 n bs junk] n by (auto simp: overlay_all replaced_def)
qed

definition bitmap_of :: "byte list \<Rightarrow> Bitmap" where
  "bitmap_of bs = \<lparr>numBits = NumSectors, numWords = 32, bmap = words_of bs\<rparr>"

lemma bitmap_of_ok: "length bs = 128 \<Longrightarrow> bitmap_ok (bitmap_of bs) \<and> numBits (bitmap_of bs) = NumSectors"
  by (simp add: bitmap_ok_def bitmap_of_def words_of_def divRoundUp_def disk_consts bitmap_consts)

lemma bitmap_of_bytes:
  assumes "bitmap_ok b" "numBits b = NumSectors"
  shows "bitmap_of (bitmap_bytes b) = b" "length (bitmap_bytes b) = 128" "numWords b = 32"
  using assms by (cases b; simp add: bitmap_ok_def bitmap_of_def words_roundtrip length_bitmap_bytes divRoundUp_def disk_consts bitmap_consts)+

lemma fetch_bitmap:
  assumes h: "header_ok (hdr f)" "disk_ready s" "numBytes (hdr f) = 128"
  shows "\<exists>s'. PersistentBitmap_new f NumSectors s = Inr (bitmap_of (content_of (disk_content s) (hdr f)), s') \<and> disk_ready s' \<and> disk_content s' = disk_content s"
proof -
  obtain b where b: "Bitmap_new NumSectors = Inr b" "bitmap_ok b" "numBits b = NumSectors"
    using Bitmap_new_ok [of NumSectors] by (auto simp: disk_consts)
  have w: "numWords b = 32" "length (bitmap_bytes b) = 128" using bitmap_of_bytes [OF b(2,3)] by auto
  obtain s' where "DiskFile_ReadAt f 128 0 s = Inr (content_of (disk_content s) (hdr f), s')" "disk_ready s'" "disk_content s' = disk_content s"
    using read_whole [OF h(1,2), of 128] h(3) by auto
  moreover have "b\<lparr>bmap := words_of c\<rparr> = bitmap_of c" for c using w b(3) by (simp add: bitmap_of_def)
  ultimately show ?thesis using b w length_content_of [OF h(1) disk_full, of s] h(3)
    by (simp add: PersistentBitmap_new_def PersistentBitmap_FetchFrom_def overlay_all)
qed

lemma store_bitmap:
  assumes h: "header_ok (hdr f)" "disk_ready s" "numBytes (hdr f) = 128" and b: "bitmap_ok b" "numBits b = NumSectors"
  shows "\<exists>s'. PersistentBitmap_WriteBack junk f b s = Inr s' \<and> disk_ready s' \<and> replaced (disk_content s) (hdr f) (bitmap_bytes b) (disk_content s')"
proof -
  note w = bitmap_of_bytes [OF b]
  have "int (length (bitmap_bytes b)) = numBytes (hdr f)" using w(2) h(3) by simp
  then show ?thesis using write_whole [OF h(1,2) _ _ h(3) [symmetric], of "bitmap_bytes b" junk]
    unfolding PersistentBitmap_WriteBack_def w(3) by force
qed

lemma fetch_directory:
  assumes h: "header_ok (hdr f)" "disk_ready s" "numBytes (hdr f) = 200"
  shows "\<exists>s'. Directory_FetchFrom f (Directory_new junk NumDirEntries) s =
    Inr (\<lparr>tableSize = 10, dir_table = table_of (content_of (disk_content s) (hdr f))\<rparr>, s') \<and> disk_ready s' \<and> disk_content s' = disk_content s"
proof -
  define d where "d = Directory_new junk NumDirEntries"
  have d: "tableSize d = 10" "length (table_bytes (dir_table d)) = 200"
    using Directory_new_wf [of 10 junk] by (auto simp: d_def NumDirEntries_def length_table_bytes)
  obtain s' where "DiskFile_ReadAt f 200 0 s = Inr (content_of (disk_content s) (hdr f), s')" "disk_ready s'" "disk_content s' = disk_content s"
    using read_whole [OF h(1,2), of 200] h(3) by auto
  moreover have "d\<lparr>dir_table := t\<rparr> = \<lparr>tableSize = 10, dir_table = t\<rparr>" for t using d(1) by (cases d) simp
  ultimately show ?thesis using d length_content_of [OF h(1) disk_full, of s] h(3)
    unfolding d_def [symmetric] by (simp add: Directory_FetchFrom_def overlay_all)
qed

lemma store_directory:
  assumes h: "header_ok (hdr f)" "disk_ready s" "numBytes (hdr f) = 200"
    and d: "tableSize d = 10" "list_all entry_wf (dir_table d)" "length (dir_table d) = 10"
  shows "\<exists>s'. Directory_WriteBack junk f d s = Inr s' \<and> disk_ready s' \<and> replaced (disk_content s) (hdr f) (table_bytes (dir_table d)) (disk_content s')"
proof -
  have "int (length (table_bytes (dir_table d))) = numBytes (hdr f)" using d h(3) by (simp add: length_table_bytes)
  then show ?thesis using write_whole [OF h(1,2) _ _ h(3) [symmetric], of "table_bytes (dir_table d)" junk]
    unfolding Directory_WriteBack_def d(1) by force
qed

section \<open>The directory as a map\<close>

definition short :: "byte list \<Rightarrow> byte list" where
  "short nm = take FileNameMaxLen (cstr nm)"

definition live :: "DirectoryEntry list \<Rightarrow> byte list \<rightharpoonup> int" where
  "live es = map_of (map (\<lambda>e. (short (entry_name e), entry_sector e)) (filter inUse es))"

definition names_ok :: "DirectoryEntry list \<Rightarrow> bool" where
  "names_ok es \<longleftrightarrow> distinct (map (\<lambda>e. short (entry_name e)) (filter inUse es))"

lemma strncmp_short: "strncmp_eq a b FileNameMaxLen \<longleftrightarrow> short a = short b"
  by (simp add: strncmp_eq_def short_def)

lemma short_strncpy:
  assumes "FileNameMaxLen \<le> length dst"
  shows "short (strncpy dst nm FileNameMaxLen) = short nm" "length (strncpy dst nm FileNameMaxLen) = length dst"
proof -
  define c where "c = take FileNameMaxLen (cstr nm)"
  have l: "length c \<le> FileNameMaxLen" by (simp add: c_def)
  have "set c \<subseteq> set (cstr nm)" unfolding c_def by (rule set_take_subset)
  then have z: "\<forall>x\<in>set c. x \<noteq> 0" by (auto simp: cstr_def dest: set_takeWhileD)
  have e: "strncpy dst nm FileNameMaxLen = c @ replicate (FileNameMaxLen - length c) 0 @ drop FileNameMaxLen dst"
    by (simp add: strncpy_def c_def Let_def)
  have t: "takeWhile (\<lambda>c. c \<noteq> 0) (c @ ys) = c @ takeWhile (\<lambda>c. c \<noteq> 0) ys" for ys using z by (simp add: takeWhile_append2)
  have "take FileNameMaxLen (c @ takeWhile (\<lambda>c. c \<noteq> 0) (replicate (FileNameMaxLen - length c) 0 @ ys)) = c" for ys
    using l by (cases "FileNameMaxLen - length c") simp_all
  then show "short (strncpy dst nm FileNameMaxLen) = short nm" unfolding e short_def cstr_def t by (simp add: c_def cstr_def)
  show "length (strncpy dst nm FileNameMaxLen) = length dst" unfolding e using l assms by simp
qed

lemma live_append: "live (xs @ ys) = live ys ++ live xs"
  by (simp add: live_def)

lemma live_Cons: "live (e # es) = (if inUse e then (live es)(short (entry_name e) \<mapsto> entry_sector e) else live es)"
  by (simp add: live_def)

lemma dom_live: "dom (live es) = (\<lambda>e. short (entry_name e)) ` set (filter inUse es)"
  by (simp add: live_def dom_map_of_conv_image_fst image_image)

lemma live_None: "live es n = None \<longleftrightarrow> (\<forall>e\<in>set es. inUse e \<longrightarrow> short (entry_name e) \<noteq> n)"
proof -
  have "live es n = None \<longleftrightarrow> n \<notin> dom (live es)" by auto
  then show ?thesis unfolding dom_live by auto
qed

lemma card_live: "names_ok es \<Longrightarrow> card (dom (live es)) = length (filter inUse es)"
  using distinct_card [of "map (\<lambda>e. short (entry_name e)) (filter inUse es)"] by (simp add: dom_live names_ok_def)

lemma FindIndex_loop_ok:
  "(live es (short nm) = None \<and> FindIndex_loop nm i es = - 1) \<or>
   (\<exists>pre e post. es = pre @ e # post \<and> inUse e \<and> short (entry_name e) = short nm \<and> live pre (short nm) = None \<and>
      FindIndex_loop nm i es = i + int (length pre) \<and> live es (short nm) = Some (entry_sector e))"
proof (induction es arbitrary: i)
  case (Cons e es)
  show ?case
  proof (cases "inUse e \<and> short (entry_name e) = short nm")
    case True
    then have "e # es = [] @ e # es" "live [] (short nm) = None" "live (e # es) (short nm) = Some (entry_sector e)"
      "FindIndex_loop nm i (e # es) = i + int (length ([] :: DirectoryEntry list))"
      by (simp_all add: live_Cons strncmp_short) (simp add: live_def)
    then show ?thesis using True by blast
  next
    case False
    then have f: "FindIndex_loop nm i (e # es) = FindIndex_loop nm (i + 1) es" "live (e # xs) (short nm) = live xs (short nm)" for xs
      by (auto simp: live_Cons strncmp_short)
    show ?thesis
    proof (cases "live es (short nm)")
      case None
      then show ?thesis using Cons.IH [of "i + 1"] f by auto
    next
      case (Some k)
      then obtain pre x post where x: "es = pre @ x # post" "inUse x" "short (entry_name x) = short nm" "live pre (short nm) = None"
          "FindIndex_loop nm (i + 1) es = i + 1 + int (length pre)" "live es (short nm) = Some (entry_sector x)"
        using Cons.IH [of "i + 1"] by auto
      then have "e # es = (e # pre) @ x # post" "live (e # pre) (short nm) = None"
        "FindIndex_loop nm i (e # es) = i + int (length (e # pre))" "live (e # es) (short nm) = Some (entry_sector x)" using f by auto
      then show ?thesis using x(2,3) by blast
    qed
  qed
qed (simp add: live_def)

lemma Directory_Find_ok:
  assumes "tableSize d = int (length (dir_table d))"
  shows "Directory_Find d nm = Inr (case live (dir_table d) (short nm) of Some k \<Rightarrow> k | None \<Rightarrow> - 1)"
  using FindIndex_loop_ok [of "dir_table d" nm 0] assms
  by (elim disjE exE) (auto simp: Directory_Find_def FindIndex_def arr_get_ok nth_append)

lemma Add_loop_ok:
  "(filter inUse es = es \<and> Add_loop nm k es = (False, es)) \<or>
   (\<exists>pre e post. es = pre @ e # post \<and> \<not> inUse e \<and> filter inUse pre = pre \<and>
      Add_loop nm k es = (True, pre @ e\<lparr>inUse := True, entry_name := strncpy (entry_name e) nm FileNameMaxLen, entry_sector := k\<rparr> # post))"
proof (induction es)
  case (Cons e es)
  show ?case
  proof (cases "inUse e")
    case True
    show ?thesis
    proof (cases "filter inUse es = es \<and> Add_loop nm k es = (False, es)")
      case False
      then obtain pre x post where x: "es = pre @ x # post" "\<not> inUse x" "filter inUse pre = pre"
          "Add_loop nm k es = (True, pre @ x\<lparr>inUse := True, entry_name := strncpy (entry_name x) nm FileNameMaxLen, entry_sector := k\<rparr> # post)"
        using Cons.IH by blast
      then have "e # es = (e # pre) @ x # post" "filter inUse (e # pre) = e # pre"
        "Add_loop nm k (e # es) = (True, (e # pre) @ x\<lparr>inUse := True, entry_name := strncpy (entry_name x) nm FileNameMaxLen, entry_sector := k\<rparr> # post)"
        using True by auto
      then show ?thesis using x(2) by blast
    qed (use True in simp)
  next
    case False
    then have "e # es = [] @ e # es" "filter inUse ([] :: DirectoryEntry list) = []"
      "Add_loop nm k (e # es) = (True, [] @ e\<lparr>inUse := True, entry_name := strncpy (entry_name e) nm FileNameMaxLen, entry_sector := k\<rparr> # es)" by simp_all
    then show ?thesis using False by blast
  qed
qed simp

lemma Directory_Add_ok:
  assumes d: "tableSize d = int (length (dir_table d))" "list_all entry_wf (dir_table d)" "names_ok (dir_table d)"
    and n: "live (dir_table d) (short nm) = None" and k: "fits_int k"
  shows "if length (filter inUse (dir_table d)) < length (dir_table d)
    then \<exists>es. Directory_Add nm k d = (True, d\<lparr>dir_table := es\<rparr>) \<and> list_all entry_wf es \<and> names_ok es \<and> length es = length (dir_table d) \<and>
      live es = (live (dir_table d))(short nm \<mapsto> k)
    else Directory_Add nm k d = (False, d)"
proof -
  let ?t = "dir_table d"
  have i: "FindIndex d nm = - 1" using FindIndex_loop_ok [of ?t nm 0] n d(1) by (auto simp: FindIndex_def)
  consider (full) "filter inUse ?t = ?t" "Add_loop nm k ?t = (False, ?t)"
    | (free) pre e post where "?t = pre @ e # post" "\<not> inUse e" "filter inUse pre = pre"
      "Add_loop nm k ?t = (True, pre @ e\<lparr>inUse := True, entry_name := strncpy (entry_name e) nm FileNameMaxLen, entry_sector := k\<rparr> # post)"
    using Add_loop_ok [of ?t nm k] by blast
  then show ?thesis
  proof cases
    case full
    then show ?thesis using i by (simp add: Directory_Add_def)
  next
    case free
    let ?e = "e\<lparr>inUse := True, entry_name := strncpy (entry_name e) nm FileNameMaxLen, entry_sector := k\<rparr>"
    have e: "entry_wf e" using d(2) free(1) by simp
    then have s: "short (strncpy (entry_name e) nm FileNameMaxLen) = short nm" "entry_wf ?e"
      using short_strncpy [of "entry_name e" nm] k by (simp_all add: entry_wf_def FileNameMaxLen_def)
    have p: "live pre (short nm) = None" "live post (short nm) = None" using n free(1,2) by (auto simp: live_append live_Cons map_add_None)
    then have l: "live (pre @ ?e # post) = (live ?t)(short nm \<mapsto> k)"
      using s(1) free(1,2) by (simp add: live_append live_Cons) (simp add: map_add_upd_left domIff)
    have "names_ok (pre @ ?e # post)"
      using d(3) p s(1) free(1,2) by (auto simp: names_ok_def live_None)
    moreover have "list_all entry_wf (pre @ ?e # post)" using d(2) free(1) s(2) by simp
    moreover have "length (filter inUse ?t) < length ?t" unfolding free(1) using free(2) length_filter_le [of inUse pre] length_filter_le [of inUse post]
      by (simp add: less_Suc_eq_le add_mono)
    ultimately show ?thesis using l i free by (auto simp: Directory_Add_def)
  qed
qed

lemma Directory_Remove_ok:
  assumes d: "tableSize d = int (length (dir_table d))" "list_all entry_wf (dir_table d)" "names_ok (dir_table d)"
    and n: "live (dir_table d) (short nm) \<noteq> None"
  shows "\<exists>es. Directory_Remove nm d = Inr (True, d\<lparr>dir_table := es\<rparr>) \<and> list_all entry_wf es \<and> names_ok es \<and> length es = length (dir_table d) \<and>
    live es = (live (dir_table d))(short nm := None)"
proof -
  let ?t = "dir_table d"
  obtain pre e post where p: "?t = pre @ e # post" "inUse e" "short (entry_name e) = short nm" "live pre (short nm) = None" "FindIndex d nm = int (length pre)"
    using FindIndex_loop_ok [of ?t nm 0] n d(1) by (auto simp: FindIndex_def)
  let ?es = "pre @ e\<lparr>inUse := False\<rparr> # post"
  have "short nm \<notin> (\<lambda>e. short (entry_name e)) ` set (filter inUse post)" using d(3) p(1-3) by (simp add: names_ok_def)
  then have "live post (short nm) = None" unfolding dom_live [symmetric] by auto
  then have "live ?es = (live ?t)(short nm := None)"
    using p by (auto simp: live_append live_Cons map_add_def fun_eq_iff split: option.splits)
  moreover have "names_ok ?es" using d(3) p(1,2) by (auto simp: names_ok_def)
  moreover have "list_all entry_wf ?es" using d(2) p(1) by (simp add: entry_wf_def)
  moreover have "Directory_Remove nm d = Inr (True, d\<lparr>dir_table := ?es\<rparr>)"
    using p(5) by (simp add: Directory_Remove_def arr_get_ok arr_set_ok p(1) nth_append list_update_append)
  ultimately show ?thesis using p(1) by auto
qed

section \<open>The file system as a map\<close>

definition hdr_at :: "(int \<Rightarrow> byte list) \<Rightarrow> int \<Rightarrow> FileHeader" where
  "hdr_at D k = header_of (D k)"

definition own :: "(int \<Rightarrow> byte list) \<Rightarrow> int \<Rightarrow> int set" where
  "own D k = insert k (set (sectors_of (hdr_at D k)))"

definition own_ok :: "(int \<Rightarrow> byte list) \<Rightarrow> int \<Rightarrow> bool" where
  "own_ok D k \<longleftrightarrow> 0 \<le> k \<and> k < NumSectors \<and> header_ok (hdr_at D k) \<and> k \<notin> set (sectors_of (hdr_at D k))"

definition map_hdr :: "DiskFileSystem \<Rightarrow> FileHeader" where
  "map_hdr fs = hdr (freeMapFile fs)"

definition dir_hdr :: "DiskFileSystem \<Rightarrow> FileHeader" where
  "dir_hdr fs = hdr (directoryFile fs)"

definition free_map :: "DiskFileSystem \<Rightarrow> (int \<Rightarrow> byte list) \<Rightarrow> Bitmap" where
  "free_map fs D = bitmap_of (content_of D (map_hdr fs))"

definition entries :: "DiskFileSystem \<Rightarrow> (int \<Rightarrow> byte list) \<Rightarrow> DirectoryEntry list" where
  "entries fs D = table_of (content_of D (dir_hdr fs))"

definition system_sectors :: "DiskFileSystem \<Rightarrow> int set" where
  "system_sectors fs = {0, 1} \<union> set (sectors_of (map_hdr fs)) \<union> set (sectors_of (dir_hdr fs))"

text \<open>The two system files: their headers are on the disk, and their sectors are their own.\<close>

definition system_ok :: "DiskFileSystem \<Rightarrow> (int \<Rightarrow> byte list) \<Rightarrow> bool" where
  "system_ok fs D \<longleftrightarrow> header_ok (map_hdr fs) \<and> numBytes (map_hdr fs) = 128 \<and> header_ok (dir_hdr fs) \<and> numBytes (dir_hdr fs) = 200 \<and>
     hdr_at D 0 = map_hdr fs \<and> hdr_at D 1 = dir_hdr fs \<and> {0, 1} \<inter> set (sectors_of (map_hdr fs)) = {} \<and>
     {0, 1} \<inter> set (sectors_of (dir_hdr fs)) = {} \<and> set (sectors_of (map_hdr fs)) \<inter> set (sectors_of (dir_hdr fs)) = {}"

text \<open>The directory maps names to headers; no sector belongs to two files, and the bitmap marks exactly the
  sectors in use.\<close>

definition files_ok :: "DiskFileSystem \<Rightarrow> (int \<Rightarrow> byte list) \<Rightarrow> (byte list \<rightharpoonup> int) \<Rightarrow> bool" where
  "files_ok fs D L \<longleftrightarrow> (\<forall>n k. L n = Some k \<longrightarrow> own_ok D k \<and> own D k \<inter> system_sectors fs = {}) \<and>
     (\<forall>n k n' k'. L n = Some k \<longrightarrow> L n' = Some k' \<longrightarrow> n \<noteq> n' \<longrightarrow> own D k \<inter> own D k' = {})"

definition in_use :: "DiskFileSystem \<Rightarrow> (int \<Rightarrow> byte list) \<Rightarrow> (byte list \<rightharpoonup> int) \<Rightarrow> int set" where
  "in_use fs D L = system_sectors fs \<union> (\<Union>k\<in>ran L. own D k)"

definition fs_inv :: "DiskFileSystem \<Rightarrow> (int \<Rightarrow> byte list) \<Rightarrow> (byte list \<rightharpoonup> int) \<Rightarrow> bool" where
  "fs_inv fs D L \<longleftrightarrow> system_ok fs D \<and> names_ok (entries fs D) \<and> live (entries fs D) = L \<and> files_ok fs D L \<and>
     marked (free_map fs D) = in_use fs D L"

definition file_map :: "(int \<Rightarrow> byte list) \<Rightarrow> (byte list \<rightharpoonup> int) \<Rightarrow> (byte list \<rightharpoonup> byte list)" where
  "file_map D L = (\<lambda>n. map_option (\<lambda>k. content_of D (hdr_at D k)) (L n))"

definition fs_rep :: "DiskFileSystem \<Rightarrow> 'a Hardware_scheme \<Rightarrow> (byte list \<rightharpoonup> byte list) \<Rightarrow> bool" where
  "fs_rep fs s m \<longleftrightarrow> disk_ready s \<and> (\<exists>L. fs_inv fs (disk_content s) L \<and> file_map (disk_content s) L = m)"

lemma content_frame: "(\<And>k. k \<in> set (sectors_of h) \<Longrightarrow> D' k = D k) \<Longrightarrow> content_of D' h = content_of D h"
  unfolding content_of_def blocks_def by (metis (mono_tags, lifting) map_cong)

lemma hdr_frame: "D' k = D k \<Longrightarrow> hdr_at D' k = hdr_at D k \<and> own D' k = own D k \<and> (own_ok D' k \<longleftrightarrow> own_ok D k)"
  by (simp add: own_def own_ok_def hdr_at_def)

lemma entries_wf:
  assumes "system_ok fs D" "sectors_full D"
  shows "list_all entry_wf (entries fs D)" "length (entries fs D) = 10" "bitmap_ok (free_map fs D)" "numBits (free_map fs D) = NumSectors"
proof -
  have "length (content_of D (dir_hdr fs)) = 20 * 10" "length (content_of D (map_hdr fs)) = 128"
    using length_content_of [OF _ assms(2)] assms(1) by (auto simp: system_ok_def)
  then show "list_all entry_wf (entries fs D)" "length (entries fs D) = 10" "bitmap_ok (free_map fs D)" "numBits (free_map fs D) = NumSectors"
    using table_of_wf [of "content_of D (dir_hdr fs)" 10] bitmap_of_ok by (auto simp: entries_def free_map_def)
qed

lemma system_sectors_card: "system_ok fs D \<Longrightarrow> card (system_sectors fs) \<le> 62"
proof -
  assume a: "system_ok fs D"
  have "card (set (sectors_of h)) \<le> 30" if "header_ok h" for h
    using card_length [of "sectors_of h"] that by (auto simp: header_ok_def sectors_of_def NumDirect_def disk_consts)
  then have "card (set (sectors_of (map_hdr fs))) \<le> 30" "card (set (sectors_of (dir_hdr fs))) \<le> 30" using a by (auto simp: system_ok_def)
  moreover have c: "card ({0, 1 :: int} \<union> A \<union> B) \<le> 2 + card A + card B" for A B
    using card_Un_le [of "{0, 1} \<union> A" B] card_Un_le [of "{0, 1 :: int}" A] by simp
  ultimately show ?thesis using c [of "set (sectors_of (map_hdr fs))" "set (sectors_of (dir_hdr fs))"] unfolding system_sectors_def by linarith
qed

lemma own_card: "own_ok D k \<Longrightarrow> card (own D k) \<le> 31"
proof -
  assume "own_ok D k"
  then have "length (sectors_of (hdr_at D k)) \<le> 30" by (auto simp: own_ok_def header_ok_def sectors_of_def NumDirect_def disk_consts)
  then have "card (set (sectors_of (hdr_at D k))) \<le> 30" using card_length le_trans by blast
  then show ?thesis using card_insert_le_m1 [of 31 "set (sectors_of (hdr_at D k))" k] by (simp add: own_def)
qed

text \<open>Ten files of the largest size do not fill the disk.\<close>

lemma in_use_card:
  assumes i: "fs_inv fs D L" and f: "sectors_full D"
  shows "card (in_use fs D L) \<le> 62 + 31 * card (dom L)" "finite (dom L)" "card (dom L) \<le> 10"
proof -
  have L: "L = live (entries fs D)" "names_ok (entries fs D)" "system_ok fs D" "files_ok fs D L" using i by (auto simp: fs_inv_def)
  show d: "finite (dom L)" by (simp add: L(1) dom_live)
  show "card (dom L) \<le> 10" using card_live [OF L(2)] length_filter_le [of inUse "entries fs D"] entries_wf(2) [OF L(3) f] L(1) by simp
  have ran_image: "ran L = (\<lambda>n. the (L n)) ` dom L" by (force simp: ran_def)
  have r: "finite (ran L)" "card (ran L) \<le> card (dom L)"
    using d card_image_le [OF d, of "\<lambda>n. the (L n)"] by (simp_all add: ran_image)
  have o: "own_ok D k" if "k \<in> ran L" for k using that L(4) by (auto simp: files_ok_def ran_def)
  have "card (\<Union>k\<in>ran L. own D k) \<le> (\<Sum>k\<in>ran L. card (own D k))" by (rule card_UN_le [OF r(1)])
  also have "\<dots> \<le> of_nat (card (ran L)) * 31" by (rule sum_bounded_above) (use o own_card in auto)
  finally have "card (\<Union>k\<in>ran L. own D k) \<le> 31 * card (dom L)" using r(2) by simp
  then show "card (in_use fs D L) \<le> 62 + 31 * card (dom L)"
    unfolding in_use_def using system_sectors_card [OF L(3)] card_Un_le [of "system_sectors fs" "\<Union>k\<in>ran L. own D k"] by linarith
qed

text \<open>Both system files have been written.\<close>

definition stored :: "DiskFileSystem \<Rightarrow> (int \<Rightarrow> byte list) \<Rightarrow> DirectoryEntry list \<Rightarrow> Bitmap \<Rightarrow> (int \<Rightarrow> byte list) \<Rightarrow> bool" where
  "stored fs D es b D' \<longleftrightarrow> (\<forall>k. k \<notin> set (sectors_of (map_hdr fs)) \<union> set (sectors_of (dir_hdr fs)) \<longrightarrow> D' k = D k) \<and>
     content_of D' (dir_hdr fs) = table_bytes es \<and> content_of D' (map_hdr fs) = bitmap_bytes b"

lemma stored_dir_map:
  assumes "system_ok fs D" "replaced D1 (dir_hdr fs) (table_bytes es) D2" "replaced D2 (map_hdr fs) (bitmap_bytes b) D3"
  shows "stored fs D1 es b D3"
proof -
  have "content_of D3 (dir_hdr fs) = content_of D2 (dir_hdr fs)"
    using assms(1,3) by (intro content_frame) (auto simp: system_ok_def replaced_def)
  then show ?thesis using assms(2,3) by (auto simp: stored_def replaced_def)
qed

lemma stored_map_dir:
  assumes "system_ok fs D" "replaced D1 (map_hdr fs) (bitmap_bytes b) D2" "replaced D2 (dir_hdr fs) (table_bytes es) D3"
  shows "stored fs D1 es b D3"
proof -
  have "content_of D3 (map_hdr fs) = content_of D2 (map_hdr fs)"
    using assms(1,3) by (intro content_frame) (auto simp: system_ok_def replaced_def)
  then show ?thesis using assms(2,3) by (auto simp: stored_def replaced_def)
qed

lemma stored_ok:
  assumes s: "system_ok fs D" "stored fs D es b D'" and w: "list_all entry_wf es" "bitmap_ok b" "numBits b = NumSectors"
  shows "system_ok fs D'" "entries fs D' = es" "free_map fs D' = b" "k \<notin> system_sectors fs \<Longrightarrow> D' k = D k"
proof -
  have "D' 0 = D 0" "D' 1 = D 1" using s by (auto simp: stored_def system_ok_def)
  then show "system_ok fs D'" using s(1) by (simp add: system_ok_def hdr_at_def)
  show "entries fs D' = es" "free_map fs D' = b"
    using s(2) table_roundtrip [OF w(1)] bitmap_of_bytes(1) [OF w(2,3)] by (simp_all add: entries_def free_map_def stored_def)
  show "k \<notin> system_sectors fs \<Longrightarrow> D' k = D k" using s(2) by (simp add: stored_def system_sectors_def)
qed

lemma file_frame:
  assumes "\<And>j. j \<in> own D k \<Longrightarrow> D' j = D j"
  shows "own D' k = own D k" "own_ok D' k \<longleftrightarrow> own_ok D k" "content_of D' (hdr_at D' k) = content_of D (hdr_at D k)"
proof -
  have h: "hdr_at D' k = hdr_at D k" "own D' k = own D k" "own_ok D' k \<longleftrightarrow> own_ok D k" using hdr_frame [of D' k D] assms by (auto simp: own_def)
  then show "own D' k = own D k" "own_ok D' k \<longleftrightarrow> own_ok D k" by auto
  show "content_of D' (hdr_at D' k) = content_of D (hdr_at D k)" unfolding h(1) using assms by (intro content_frame) (auto simp: own_def)
qed

lemma files_okD: "files_ok fs D L \<Longrightarrow> L n = Some k \<Longrightarrow> own_ok D k \<and> own D k \<inter> system_sectors fs = {}"
  unfolding files_ok_def by blast

lemma files_disjoint: "files_ok fs D L \<Longrightarrow> L n = Some k \<Longrightarrow> L n' = Some k' \<Longrightarrow> n \<noteq> n' \<Longrightarrow> own D k \<inter> own D k' = {}"
  unfolding files_ok_def by blast

lemma files_frame:
  assumes l: "files_ok fs D L" "L x = Some j" and d: "\<And>i. i \<notin> system_sectors fs \<union> X \<Longrightarrow> D' i = D i" "own D j \<inter> X = {}"
  shows "own D' j = own D j" "own_ok D' j \<longleftrightarrow> own_ok D j" "content_of D' (hdr_at D' j) = content_of D (hdr_at D j)"
proof -
  have "D' i = D i" if "i \<in> own D j" for i using that files_okD [OF l] d by blast
  then show "own D' j = own D j" "own_ok D' j \<longleftrightarrow> own_ok D j" "content_of D' (hdr_at D' j) = content_of D (hdr_at D j)" using file_frame by blast+
qed

lemma create_inv:
  assumes i: "fs_inv fs D L" "L n = None" and k: "0 \<le> k" "k < NumSectors" "k \<notin> in_use fs D L"
    and h: "header_ok h" "header_fits h" "set (sectors_of h) \<inter> insert k (in_use fs D L) = {}"
    and s: "stored fs (D(k := header_bytes h)) es b D'" and w: "list_all entry_wf es" "bitmap_ok b" "numBits b = NumSectors"
    and e: "names_ok es" "live es = L(n \<mapsto> k)" "marked b = insert k (in_use fs D L) \<union> set (sectors_of h)"
  shows "fs_inv fs D' (L(n \<mapsto> k)) \<and> file_map D' (L(n \<mapsto> k)) = (file_map D L)(n \<mapsto> content_of D h)"
proof -
  let ?D = "D(k := header_bytes h)"
  have L: "system_ok fs D" "files_ok fs D L" using i by (auto simp: fs_inv_def)
  have ks: "k \<notin> system_sectors fs" "\<And>n j. L n = Some j \<Longrightarrow> k \<notin> own D j" using k(3) by (auto simp: in_use_def ran_def)
  have "system_ok fs ?D" using L(1) ks(1) by (simp add: system_ok_def hdr_at_def system_sectors_def)
  note st = stored_ok [OF this s w]
  have k': "D' k = header_bytes h" using st(4) ks(1) by simp
  then have hk: "hdr_at D' k = h" "own D' k = insert k (set (sectors_of h))"
    using header_roundtrip [OF h(2)] by (simp_all add: hdr_at_def own_def)
  have f: "own D' j = own D j" "own_ok D' j \<longleftrightarrow> own_ok D j" "content_of D' (hdr_at D' j) = content_of D (hdr_at D j)" if "L x = Some j" for x j
    using files_frame [OF L(2) that, of "{k}" D'] st(4) ks(2) [OF that] by auto
  have c: "content_of D' h = content_of D h"
  proof (rule content_frame)
    fix j assume "j \<in> set (sectors_of h)"
    then have "j \<noteq> k" "j \<notin> system_sectors fs" using h(3) by (auto simp: in_use_def)
    then show "D' j = D j" using st(4) by simp
  qed
  have d: "own D' k \<inter> system_sectors fs = {}" "\<And>x j. L x = Some j \<Longrightarrow> own D' k \<inter> own D j = {}"
    using h(3) k(3) hk(2) by (auto simp: in_use_def ran_def)
  have "files_ok fs D' (L(n \<mapsto> k))"
    unfolding files_ok_def
  proof (intro conjI allI impI)
    fix x j assume "(L(n \<mapsto> k)) x = Some j"
    then show "own_ok D' j" "own D' j \<inter> system_sectors fs = {}"
      using L(2) f [of x j] d(1) k h(1,3) hk by (auto simp: files_ok_def own_ok_def split: if_splits)
  next
    fix x j x' j' assume "(L(n \<mapsto> k)) x = Some j" "(L(n \<mapsto> k)) x' = Some j'" "x \<noteq> x'"
    then show "own D' j \<inter> own D' j' = {}"
      using L(2) f(1) [of x j] f(1) [of x' j'] d(2) [of x j] d(2) [of x' j'] by (auto simp: files_ok_def split: if_splits)
  qed
  moreover have "in_use fs D' (L(n \<mapsto> k)) = marked b"
  proof -
    have "(\<Union>j\<in>ran L. own D' j) = (\<Union>j\<in>ran L. own D j)" using f(1) by (auto simp: ran_def)
    then show ?thesis using i(2) by (simp add: in_use_def e(3) hk(2) ran_map_upd) blast
  qed
  moreover have "file_map D' (L(n \<mapsto> k)) = (file_map D L)(n \<mapsto> content_of D h)"
    using f(3) hk(1) c i(2) by (auto simp: file_map_def fun_eq_iff split: option.splits intro!: option.map_cong)
  ultimately show ?thesis using st(1-3) e by (simp add: fs_inv_def)
qed

lemma remove_inv:
  assumes i: "fs_inv fs D L" "L n = Some k" and s: "stored fs D es b D'" and w: "list_all entry_wf es" "bitmap_ok b" "numBits b = NumSectors"
    and e: "names_ok es" "live es = L(n := None)" "marked b = in_use fs D L - own D k"
  shows "fs_inv fs D' (L(n := None)) \<and> file_map D' (L(n := None)) = (file_map D L)(n := None)"
proof -
  have L: "system_ok fs D" "files_ok fs D L" using i by (auto simp: fs_inv_def)
  note st = stored_ok [OF L(1) s w]
  have f: "own D' j = own D j" "own_ok D' j \<longleftrightarrow> own_ok D j" "content_of D' (hdr_at D' j) = content_of D (hdr_at D j)" if "L x = Some j" for x j
    using files_frame [OF L(2) that, of "{}" D'] st(4) by auto
  have "files_ok fs D' (L(n := None))" using L(2) f by (auto simp: files_ok_def split: if_splits)
  moreover have "in_use fs D' (L(n := None)) = marked b"
  proof -
    define U where "U = (\<Union>x\<in>dom L - {n}. own D (the (L x)))"
    have "own D k \<inter> U = {}" using files_disjoint [OF L(2) i(2)] by (force simp: U_def)
    moreover have "own D k \<inter> system_sectors fs = {}" using files_okD [OF L(2) i(2)] by simp
    moreover have "(\<Union>j\<in>ran (L(n := None)). own D' j) = U" using f(1) by (force simp: ran_def U_def)
    moreover have "(\<Union>j\<in>ran L. own D j) = U \<union> own D k" using i(2) by (force simp: ran_def U_def)
    ultimately show ?thesis unfolding e(3) in_use_def by blast
  qed
  moreover have "file_map D' (L(n := None)) = (file_map D L)(n := None)"
    using f(3) by (auto simp: file_map_def fun_eq_iff split: option.splits intro!: option.map_cong)
  ultimately show ?thesis using st(1-3) e by (simp add: fs_inv_def)
qed

lemma write_inv:
  assumes i: "fs_inv fs D L" "L n = Some k" and r: "replaced D (hdr_at D k) c D'"
  shows "fs_inv fs D' L \<and> file_map D' L = (file_map D L)(n \<mapsto> c)"
proof -
  have L: "system_ok fs D" "files_ok fs D L" using i by (auto simp: fs_inv_def)
  have k: "own_ok D k" "own D k \<inter> system_sectors fs = {}" using L(2) i(2) by (auto simp: files_ok_def)
  have u: "D' j = D j" if "j \<notin> own D k \<or> j = k" for j using r k(1) that by (auto simp: replaced_def own_def own_ok_def)
  have o: "own D' j = own D j" "own_ok D' j \<longleftrightarrow> own_ok D j" "hdr_at D' j = hdr_at D j" if "L x = Some j" for x j
  proof -
    have "D' j = D j" using that L(2) i(2) u [of j] by (cases "x = n") (auto simp: files_ok_def own_def)
    then show "own D' j = own D j" "own_ok D' j \<longleftrightarrow> own_ok D j" "hdr_at D' j = hdr_at D j" using hdr_frame [of D' j D] by simp_all
  qed
  have c: "content_of D' (hdr_at D' j) = (if x = n then c else content_of D (hdr_at D j))" if x: "L x = Some j" for x j
  proof (cases "x = n")
    case False
    then have "own D j \<inter> own D k = {}" using x i(2) L(2) by (auto simp: files_ok_def)
    then show ?thesis using False o(3) [OF x] u by (auto intro!: content_frame simp: own_def)
  qed (use x i(2) r o(3) [OF x] in \<open>auto simp: replaced_def\<close>)
  have sy: "D' j = D j" if "j \<in> system_sectors fs" for j using that u k(2) by auto
  then have "content_of D' (dir_hdr fs) = content_of D (dir_hdr fs)" "content_of D' (map_hdr fs) = content_of D (map_hdr fs)"
    by (auto intro!: content_frame simp: system_sectors_def)
  then have "entries fs D' = entries fs D" "free_map fs D' = free_map fs D" by (simp_all add: entries_def free_map_def)
  moreover have "system_ok fs D'" using L(1) sy by (simp add: system_ok_def hdr_at_def system_sectors_def)
  moreover have "files_ok fs D' L" using L(2) o by (auto simp: files_ok_def)
  moreover have "in_use fs D' L = in_use fs D L" using o(1) by (auto simp: in_use_def ran_def)
  moreover have "file_map D' L = (file_map D L)(n \<mapsto> c)" 
  proof
    fix x show "file_map D' L x = ((file_map D L)(n \<mapsto> c)) x" using c [of x] i(2) by (cases "L x") (auto simp: file_map_def)
  qed
  ultimately show ?thesis using i(1) by (simp add: fs_inv_def)
qed

section \<open>Every operation on the map\<close>

lemma new_header:
  assumes b: "bitmap_ok b" "numBits b = NumSectors" "card (marked b) + 30 \<le> 1024" and n: "0 \<le> n" "n \<le> 3840"
  shows "\<exists>h b'. FileHeader_Allocate b n (FileHeader_new junk) = Inr (True, h, b') \<and> header_ok h \<and> header_fits h \<and> numBytes h = n \<and>
    set (sectors_of h) \<inter> marked b = {} \<and> bitmap_ok b' \<and> numBits b' = NumSectors \<and> marked b' = marked b \<union> set (sectors_of h)"
proof -
  define h0 where "h0 = FileHeader_new junk"
  define m where "m = divRoundUp n SectorSize"
  have h0: "header_fits h0" by (simp add: h0_def FileHeader_new_def header_of_fits)
  then have l: "length (dataSectors h0) = 30" by (simp add: header_fits_def NumDirect_def disk_consts)
  have "n \<le> 128 * m" "128 * m < n + 128" using divRoundUp_bounds [OF n(1), of 128] by (simp_all add: m_def disk_consts)
  then have m: "0 \<le> m" "m \<le> 30" using n by auto
  then have nf: "\<not> numBits b - int (card (marked b)) < m" using b(2,3) by (simp add: disk_consts)
  obtain h b' where a: "FileHeader_Allocate b n h0 = Inr (True, h, b')" "allocated (h0\<lparr>numBytes := n, numSectors := m\<rparr>) b (nat m) h b'"
    using Allocate_ok [OF b(1) n(1), of h0] nf m(2) l unfolding m_def [symmetric] by auto
  have s: "sectors_of h = take (nat m) (dataSectors h)" "numBytes h = n" "numSectors h = m" "length (dataSectors h) = 30"
    using a(2) l by (simp_all add: allocated_def sectors_of_def)
  then have r: "set (sectors_of h) \<subseteq> {0..<NumSectors}" "distinct (sectors_of h)" using a(2) b(2) by (auto simp: allocated_def)
  have "header_ok h" using s r m n(1) by (simp add: header_ok_def m_def NumDirect_def disk_consts)
  moreover have "list_all fits_int (dataSectors h)"
  proof -
    have "dataSectors h = sectors_of h @ drop (nat m) (dataSectors h0)" using a(2) s(1) by (metis FileHeader.select_convs(3) FileHeader.surjective FileHeader.update_convs(1,2) allocated_def append_take_drop_id)
    moreover have "list_all fits_int (drop (nat m) (dataSectors h0))" using h0 by (auto simp: header_fits_def list_all_iff dest: in_set_dropD)
    moreover have "list_all fits_int (sectors_of h)" using r(1) by (force simp: list_all_iff fits_int_def disk_consts)
    ultimately show ?thesis by (metis list_all_append)
  qed
  then have "header_fits h" using s m n by (simp add: header_fits_def fits_int_def NumDirect_def disk_consts)
  ultimately show ?thesis using a s(1,2) b(2) unfolding h0_def by (auto simp: allocated_def)
qed

lemma dom_file_map [simp]: "dom (file_map D L) = dom L"
  by (auto simp: file_map_def)

lemma file_map_None [simp]: "file_map D L n = None \<longleftrightarrow> L n = None"
  by (simp add: file_map_def)

lemma fs_invD:
  assumes "fs_inv fs (disk_content s) L"
  shows "system_ok fs (disk_content s)" "names_ok (entries fs (disk_content s))" "live (entries fs (disk_content s)) = L"
    "files_ok fs (disk_content s) L" "marked (free_map fs (disk_content s)) = in_use fs (disk_content s) L"
    "header_ok (map_hdr fs)" "numBytes (map_hdr fs) = 128" "header_ok (dir_hdr fs)" "numBytes (dir_hdr fs) = 200"
    "list_all entry_wf (entries fs (disk_content s))" "length (entries fs (disk_content s)) = 10"
    "bitmap_ok (free_map fs (disk_content s))" "numBits (free_map fs (disk_content s)) = NumSectors"
  using assms entries_wf [OF _ disk_full, of fs s] by (auto simp: fs_inv_def system_ok_def)

text \<open>The directory is read, and the name is looked up.\<close>

lemma lookup_ok:
  assumes "disk_ready s" "fs_inv fs (disk_content s) L"
  defines "d \<equiv> \<lparr>tableSize = 10, dir_table = entries fs (disk_content s)\<rparr>"
  shows "\<exists>s'. Directory_FetchFrom (directoryFile fs) (Directory_new junk NumDirEntries) s = Inr (d, s') \<and> disk_ready s' \<and> disk_content s' = disk_content s"
    "Directory_Find d nm = Inr (case L (short nm) of Some k \<Rightarrow> k | None \<Rightarrow> - 1)"
proof -
  note i = fs_invD [OF assms(2)]
  show "\<exists>s'. Directory_FetchFrom (directoryFile fs) (Directory_new junk NumDirEntries) s = Inr (d, s') \<and> disk_ready s' \<and> disk_content s' = disk_content s"
    using fetch_directory [OF _ assms(1), of "directoryFile fs" junk] i(8,9) by (simp add: dir_hdr_def d_def entries_def)
  show "Directory_Find d nm = Inr (case L (short nm) of Some k \<Rightarrow> k | None \<Rightarrow> - 1)"
    using Directory_Find_ok [of d nm] i(3,11) by (simp add: d_def)
qed

lemma fetch_map_ok:
  assumes "disk_ready s" "fs_inv fs (disk_content s) L"
  shows "\<exists>s'. PersistentBitmap_new (freeMapFile fs) NumSectors s = Inr (free_map fs (disk_content s), s') \<and> disk_ready s' \<and> disk_content s' = disk_content s"
  using fetch_bitmap [OF _ assms(1), of "freeMapFile fs"] fs_invD(6,7) [OF assms(2)] by (simp add: map_hdr_def free_map_def)

lemma Open_ok:
  assumes "fs_rep fs s m"
  shows "\<exists>s'. (case m (short nm) of None \<Rightarrow> DiskFileSystem_Open junk fs nm s = Inr (None, s')
      | Some c \<Rightarrow> \<exists>f L k. DiskFileSystem_Open junk fs nm s = Inr (Some f, s') \<and> seekPosition f = 0 \<and> fs_inv fs (disk_content s') L \<and>
          file_map (disk_content s') L = m \<and> L (short nm) = Some k \<and> hdr f = hdr_at (disk_content s') k \<and> header_ok (hdr f) \<and>
          content_of (disk_content s') (hdr f) = c) \<and> fs_rep fs s' m"
proof -
  obtain L where L: "disk_ready s" "fs_inv fs (disk_content s) L" "file_map (disk_content s) L = m" using assms by (auto simp: fs_rep_def)
  define d where "d = \<lparr>tableSize = 10, dir_table = entries fs (disk_content s)\<rparr>"
  note lk = lookup_ok [OF L(1,2), folded d_def]
  obtain s1 where s1: "Directory_FetchFrom (directoryFile fs) (Directory_new (junk 0) NumDirEntries) s = Inr (d, s1)" "disk_ready s1" "disk_content s1 = disk_content s"
    using lk(1) by blast
  show ?thesis
  proof (cases "L (short nm)")
    case None
    then have "DiskFileSystem_Open junk fs nm s = Inr (None, s1)" using s1 lk(2) by (simp add: DiskFileSystem_Open_def)
    moreover have "m (short nm) = None" using None L(3) by auto
    moreover have "fs_rep fs s1 m" using s1 L by (auto simp: fs_rep_def)
    ultimately show ?thesis by auto
  next
    case (Some k)
    have k: "own_ok (disk_content s) k" using files_okD [OF fs_invD(4) [OF L(2)] Some] by simp
    then have kr: "0 \<le> k" "k < NumSectors" by (auto simp: own_ok_def)
    obtain s2 where s2: "DiskFile_new k s1 = Inr (\<lparr>hdr = hdr_at (disk_content s) k, seekPosition = 0\<rparr>, s2)" "disk_ready s2" "disk_content s2 = disk_content s"
      using DiskFile_new_ok [OF s1(2) kr] s1(3) by (auto simp: hdr_at_def)
    have "DiskFileSystem_Open junk fs nm s = Inr (Some \<lparr>hdr = hdr_at (disk_content s) k, seekPosition = 0\<rparr>, s2)"
      using s1 s2 lk(2) Some kr by (simp add: DiskFileSystem_Open_def)
    moreover have "m (short nm) = Some (content_of (disk_content s) (hdr_at (disk_content s) k))" using Some L(3) by (auto simp: file_map_def)
    moreover have "fs_rep fs s2 m" using s2 L by (auto simp: fs_rep_def)
    ultimately show ?thesis using s2(3) L Some k by (auto simp: own_ok_def)
  qed
qed

text \<open>\<open>Create\<close> up to the allocation of the data sectors, and after it.\<close>

definition create_end ::
  "(nat \<Rightarrow> nat \<Rightarrow> byte) \<Rightarrow> DiskFileSystem \<Rightarrow> int \<Rightarrow> Directory \<Rightarrow> 'a Hardware_scheme \<Rightarrow> bool \<times> FileHeader \<times> Bitmap \<Rightarrow> (bool \<times> 'a Hardware_scheme) res" where
  "create_end junk fs k d s = (\<lambda>(ok, h, freeMap).
     if \<not> ok then Inr (False, s)
     else
       rbind (FileHeader_WriteBack k h s) (\<lambda>s.
       rbind (Directory_WriteBack (junk 2) (directoryFile fs) d s) (\<lambda>s.
       rbind (PersistentBitmap_WriteBack (junk 3) (freeMapFile fs) freeMap s) (\<lambda>s. Inr (True, s)))))"

lemma Create_begins:
  assumes r: "disk_ready s" and i: "fs_inv fs (disk_content s) L" and f: "L (short nm) = None" and c: "card (dom L) < 10"
  shows "\<exists>k b es s'. DiskFileSystem_Create junk fs nm n s =
      rbind (FileHeader_Allocate b n (FileHeader_new (junk 1))) (create_end junk fs k \<lparr>tableSize = 10, dir_table = es\<rparr> s') \<and>
    disk_ready s' \<and> disk_content s' = disk_content s \<and> 0 \<le> k \<and> k < NumSectors \<and> k \<notin> in_use fs (disk_content s) L \<and>
    bitmap_ok b \<and> numBits b = NumSectors \<and> marked b = insert k (in_use fs (disk_content s) L) \<and> card (marked b) \<le> 342 \<and>
    list_all entry_wf es \<and> names_ok es \<and> length es = 10 \<and> live es = L(short nm \<mapsto> k)"
proof -
  let ?D = "disk_content s"
  define d where "d = \<lparr>tableSize = 10, dir_table = entries fs ?D\<rparr>"
  define b where "b = free_map fs ?D"
  note iv = fs_invD [OF i, folded b_def] and lk = lookup_ok [OF r i, folded d_def]
  obtain s1 where s1: "Directory_FetchFrom (directoryFile fs) (Directory_new (junk 0) NumDirEntries) s = Inr (d, s1)" "disk_ready s1" "disk_content s1 = ?D"
    using lk(1) by blast
  obtain s2 where s2: "PersistentBitmap_new (freeMapFile fs) NumSectors s1 = Inr (b, s2)" "disk_ready s2" "disk_content s2 = ?D"
    using fetch_map_ok [OF s1(2), of fs L] i s1(3) by (auto simp: b_def)
  have cm: "card (marked b) \<le> 62 + 31 * 9" using in_use_card(1) [OF i disk_full] c unfolding iv(5) by linarith
  have "marked b \<noteq> {0..<numBits b}"
  proof
    assume "marked b = {0..<numBits b}"
    then have "card (marked b) = 1024" using iv(13) by (simp add: disk_consts)
    then show False using cm by simp
  qed
  then obtain k b1 where k: "Bitmap_FindAndSet b = Inr (k, b1)" "0 \<le> k" "k < NumSectors" "k \<notin> marked b" "bitmap_ok b1" "numBits b1 = NumSectors" "marked b1 = insert k (marked b)"
    using Bitmap_FindAndSet_ok [OF iv(12)] iv(13) by auto
  have "length (filter inUse (dir_table d)) < length (dir_table d)" using c card_live [OF iv(2)] iv(3,11) by (simp add: d_def)
  then obtain es where es: "Directory_Add nm k d = (True, \<lparr>tableSize = 10, dir_table = es\<rparr>)" "list_all entry_wf es" "names_ok es" "length es = 10" "live es = L(short nm \<mapsto> k)"
    using Directory_Add_ok [of d nm k] iv f k(2,3) by (auto simp: d_def fits_int_def disk_consts)
  have "DiskFileSystem_Create junk fs nm n s = rbind (FileHeader_Allocate b1 n (FileHeader_new (junk 1))) (create_end junk fs k \<lparr>tableSize = 10, dir_table = es\<rparr> s2)"
    using s1(1) s2(1) lk(2) f k(1,2) es(1) by (simp add: DiskFileSystem_Create_def create_end_def)
  moreover have "card (marked b1) \<le> 342" using cm card_insert_le_m1 [of 342 "marked b" k] by (simp add: k(7))
  ultimately show ?thesis using s2(2,3) k(2-) es(2-) iv(5) by blast
qed

lemma Create_fresh:
  assumes r: "disk_ready s" and i: "fs_inv fs (disk_content s) L" and f: "L (short nm) = None" and c: "card (dom L) < 10"
    and n: "0 \<le> n" "n \<le> 3840"
  shows "\<exists>s' L' c. DiskFileSystem_Create junk fs nm n s = Inr (True, s') \<and> disk_ready s' \<and> fs_inv fs (disk_content s') L' \<and>
    length c = nat n \<and> file_map (disk_content s') L' = (file_map (disk_content s) L)(short nm \<mapsto> c)"
proof -
  let ?D = "disk_content s"
  obtain k b es s2 where k: "DiskFileSystem_Create junk fs nm n s = rbind (FileHeader_Allocate b n (FileHeader_new (junk 1)))
        (create_end junk fs k \<lparr>tableSize = 10, dir_table = es\<rparr> s2)"
      and s2: "disk_ready s2" "disk_content s2 = ?D" and kr: "0 \<le> k" "k < NumSectors" "k \<notin> in_use fs ?D L"
      and b: "bitmap_ok b" "numBits b = NumSectors" "marked b = insert k (in_use fs ?D L)" "card (marked b) \<le> 342"
      and es: "list_all entry_wf es" "names_ok es" "length es = 10" "live es = L(short nm \<mapsto> k)"
    using Create_begins [OF r i f c, of junk n] by blast
  note iv = fs_invD [OF i]
  obtain h b2 where h: "FileHeader_Allocate b n (FileHeader_new (junk 1)) = Inr (True, h, b2)" "header_ok h" "header_fits h" "numBytes h = n"
      "set (sectors_of h) \<inter> marked b = {}" "bitmap_ok b2" "numBits b2 = NumSectors" "marked b2 = marked b \<union> set (sectors_of h)"
    using new_header [OF b(1,2) _ n, of "junk 1"] b(4) by auto
  obtain s3 where s3: "FileHeader_WriteBack k h s2 = Inr s3" "disk_ready s3" "disk_content s3 = ?D(k := header_bytes h)"
    using WriteBack_ok [OF s2(1) kr(1,2) h(3)] s2(2) by auto
  obtain s4 where s4: "Directory_WriteBack (junk 2) (directoryFile fs) \<lparr>tableSize = 10, dir_table = es\<rparr> s3 = Inr s4" "disk_ready s4"
      "replaced (disk_content s3) (dir_hdr fs) (table_bytes es) (disk_content s4)"
    using store_directory [OF _ s3(2), of "directoryFile fs" "\<lparr>tableSize = 10, dir_table = es\<rparr>" "junk 2"] iv(8,9) es by (auto simp: dir_hdr_def)
  obtain s5 where s5: "PersistentBitmap_WriteBack (junk 3) (freeMapFile fs) b2 s4 = Inr s5" "disk_ready s5"
      "replaced (disk_content s4) (map_hdr fs) (bitmap_bytes b2) (disk_content s5)"
    using store_bitmap [OF _ s4(2) _ h(6,7), of "freeMapFile fs" "junk 3"] iv(6,7) by (auto simp: map_hdr_def)
  have "stored fs (?D(k := header_bytes h)) es b2 (disk_content s5)" using stored_dir_map [OF iv(1) s4(3) s5(3)] s3(3) by simp
  then have "fs_inv fs (disk_content s5) (L(short nm \<mapsto> k)) \<and> file_map (disk_content s5) (L(short nm \<mapsto> k)) = (file_map ?D L)(short nm \<mapsto> content_of ?D h)"
    using create_inv [OF i f kr h(2,3) _ _ es(1) h(6,7) es(2,4)] h(5,8) unfolding b(3) by blast
  moreover have "DiskFileSystem_Create junk fs nm n s = Inr (True, s5)" using k s3(1) s4(1) s5(1) h(1) by (simp add: create_end_def)
  ultimately show ?thesis using s5(2) length_content_of [OF h(2) disk_full, of s] h(4) by blast
qed

lemma Create_overrun:
  assumes r: "disk_ready s" and i: "fs_inv fs (disk_content s) L" and f: "L (short nm) = None" and c: "card (dom L) < 10"
    and n: "3840 < n" "n \<le> 87000"
  shows "DiskFileSystem_Create junk fs nm n s = Inl OutOfRange"
proof -
  obtain k b es s' where k: "DiskFileSystem_Create junk fs nm n s = rbind (FileHeader_Allocate b n (FileHeader_new (junk 1)))
        (create_end junk fs k \<lparr>tableSize = 10, dir_table = es\<rparr> s')" and b: "bitmap_ok b" "numBits b = NumSectors" "card (marked b) \<le> 342"
    using Create_begins [OF r i f c, of junk n] by blast
  have "n \<le> 128 * divRoundUp n SectorSize" "128 * divRoundUp n SectorSize < n + 128"
    using divRoundUp_bounds [of n 128] n by (simp_all add: disk_consts)
  then have "30 < divRoundUp n SectorSize" "divRoundUp n SectorSize \<le> 682" using n by auto
  moreover have "length (dataSectors (FileHeader_new (junk 1))) = 30"
    using header_of_fits by (simp add: FileHeader_new_def header_fits_def NumDirect_def disk_consts)
  ultimately have "FileHeader_Allocate b n (FileHeader_new (junk 1)) = Inl OutOfRange"
    using b by (intro Allocate_overrun) (auto simp: disk_consts)
  then show ?thesis using k by simp
qed

lemma Create_refused:
  assumes r: "disk_ready s" and i: "fs_inv fs (disk_content s) L" and f: "L (short nm) \<noteq> None \<or> 10 \<le> card (dom L)"
  shows "\<exists>s'. DiskFileSystem_Create junk fs nm n s = Inr (False, s') \<and> disk_ready s' \<and> disk_content s' = disk_content s"
proof -
  let ?D = "disk_content s"
  define d where "d = \<lparr>tableSize = 10, dir_table = entries fs ?D\<rparr>"
  define b where "b = free_map fs ?D"
  note iv = fs_invD [OF i, folded b_def] and lk = lookup_ok [OF r i, folded d_def]
  obtain s1 where s1: "Directory_FetchFrom (directoryFile fs) (Directory_new (junk 0) NumDirEntries) s = Inr (d, s1)" "disk_ready s1" "disk_content s1 = ?D"
    using lk(1) by blast
  show ?thesis
  proof (cases "L (short nm)")
    case (Some k)
    then have "k \<noteq> - 1" using files_okD [OF iv(4) Some] by (auto simp: own_ok_def)
    then show ?thesis using s1 lk(2) Some by (simp add: DiskFileSystem_Create_def)
  next
    case None
    obtain s2 where s2: "PersistentBitmap_new (freeMapFile fs) NumSectors s1 = Inr (b, s2)" "disk_ready s2" "disk_content s2 = ?D"
      using fetch_map_ok [OF s1(2), of fs L] i s1(3) by (auto simp: b_def)
    have "\<not> length (filter inUse (dir_table d)) < length (dir_table d)" using f None card_live [OF iv(2)] iv(3,11) by (simp add: d_def)
    then have "Directory_Add nm k d = (False, d)" if "0 \<le> k" "k < NumSectors" for k
      using Directory_Add_ok [of d nm k] iv None that by (auto simp: d_def fits_int_def disk_consts)
    moreover have "\<exists>k b1. Bitmap_FindAndSet b = Inr (k, b1) \<and> (k = - 1 \<or> 0 \<le> k \<and> k < NumSectors)"
      using Bitmap_FindAndSet_ok [OF iv(12)] iv(13) by auto
    ultimately show ?thesis using s1 s2 lk(2) None by (auto simp: DiskFileSystem_Create_def)
  qed
qed

lemma Remove_file:
  assumes r: "disk_ready s" and i: "fs_inv fs (disk_content s) L" and f: "L (short nm) = Some k"
  shows "\<exists>s' L'. DiskFileSystem_Remove junk fs nm s = Inr (True, s') \<and> disk_ready s' \<and> fs_inv fs (disk_content s') L' \<and>
    file_map (disk_content s') L' = (file_map (disk_content s) L)(short nm := None)"
proof -
  let ?D = "disk_content s"
  define d where "d = \<lparr>tableSize = 10, dir_table = entries fs ?D\<rparr>"
  define b where "b = free_map fs ?D"
  define h where "h = hdr_at ?D k"
  note iv = fs_invD [OF i, folded b_def] and lk = lookup_ok [OF r i, folded d_def]
  have k: "0 \<le> k" "k < NumSectors" "header_ok h" "k \<notin> set (sectors_of h)" using files_okD [OF iv(4) f] by (auto simp: own_ok_def h_def)
  obtain s1 where s1: "Directory_FetchFrom (directoryFile fs) (Directory_new (junk 0) NumDirEntries) s = Inr (d, s1)" "disk_ready s1" "disk_content s1 = ?D"
    using lk(1) by blast
  obtain s2 where s2: "FileHeader_FetchFrom k s1 = Inr (h, s2)" "disk_ready s2" "disk_content s2 = ?D"
    using FetchFrom_ok [OF s1(2) k(1,2)] s1(3) by (auto simp: h_def hdr_at_def)
  obtain s3 where s3: "PersistentBitmap_new (freeMapFile fs) NumSectors s2 = Inr (b, s3)" "disk_ready s3" "disk_content s3 = ?D"
    using fetch_map_ok [OF s2(2), of fs L] i s2(3) by (auto simp: b_def)
  have o: "own ?D k = insert k (set (sectors_of h))" "own ?D k \<subseteq> marked b" using f iv(5) by (auto simp: own_def h_def in_use_def ran_def)
  obtain b1 where b1: "FileHeader_Deallocate h b = Inr b1" "bitmap_ok b1" "numBits b1 = NumSectors" "marked b1 = marked b - set (sectors_of h)"
    using Deallocate_ok [OF iv(12), of h] o k(3) header_ok_bounds(1) [OF k(3)] iv(13) by (auto simp: header_ok_def NumDirect_def disk_consts)
  obtain b2 where b2: "Bitmap_Clear b1 k = Inr b2" "bitmap_ok b2" "numBits b2 = NumSectors" "marked b2 = marked b1 - {k}"
    using Bitmap_Clear_ok [OF b1(2), of k] k(1,2) b1(3) by auto
  obtain es where es: "Directory_Remove nm d = Inr (True, \<lparr>tableSize = 10, dir_table = es\<rparr>)" "list_all entry_wf es" "names_ok es" "length es = 10" "live es = L(short nm := None)"
    using Directory_Remove_ok [of d nm] iv f by (auto simp: d_def)
  obtain s4 where s4: "PersistentBitmap_WriteBack (junk 1) (freeMapFile fs) b2 s3 = Inr s4" "disk_ready s4"
      "replaced ?D (map_hdr fs) (bitmap_bytes b2) (disk_content s4)"
    using store_bitmap [OF _ s3(2) _ b2(2,3), of "freeMapFile fs" "junk 1"] iv(6,7) s3(3) by (auto simp: map_hdr_def)
  obtain s5 where s5: "Directory_WriteBack (junk 2) (directoryFile fs) \<lparr>tableSize = 10, dir_table = es\<rparr> s4 = Inr s5" "disk_ready s5"
      "replaced (disk_content s4) (dir_hdr fs) (table_bytes es) (disk_content s5)"
    using store_directory [OF _ s4(2), of "directoryFile fs" "\<lparr>tableSize = 10, dir_table = es\<rparr>" "junk 2"] iv(8,9) es by (auto simp: dir_hdr_def)
  have "marked b2 = in_use fs ?D L - own ?D k" using b1(4) b2(4) o(1) iv(5) by auto
  then have "fs_inv fs (disk_content s5) (L(short nm := None)) \<and> file_map (disk_content s5) (L(short nm := None)) = (file_map ?D L)(short nm := None)"
    using remove_inv [OF i f stored_map_dir [OF iv(1) s4(3) s5(3)] es(2) b2(2,3) es(3,5)] by blast
  moreover have "DiskFileSystem_Remove junk fs nm s = Inr (True, s5)"
    using s1(1) s2(1) s3(1) s4(1) s5(1) lk(2) f k(1) b1(1) b2(1) es(1) by (simp add: DiskFileSystem_Remove_def)
  ultimately show ?thesis using s5(2) by blast
qed

lemma Remove_absent:
  assumes r: "disk_ready s" and i: "fs_inv fs (disk_content s) L" and f: "L (short nm) = None"
  shows "\<exists>s'. DiskFileSystem_Remove junk fs nm s = Inr (False, s') \<and> disk_ready s' \<and> disk_content s' = disk_content s"
  using lookup_ok(1) [OF r i, of "junk 0"] lookup_ok(2) [OF r i, of nm] f by (auto simp: DiskFileSystem_Remove_def)

lemma format_headers:
  fixes junk :: "nat \<Rightarrow> nat \<Rightarrow> byte"
  shows "\<exists>b0 b1 b2 b3 b4 mh dh. Bitmap_new NumSectors = Inr b0 \<and> Bitmap_Mark b0 FreeMapSector = Inr b1 \<and> Bitmap_Mark b1 DirectorySector = Inr b2 \<and>
    FileHeader_Allocate b2 FreeMapFileSize (FileHeader_new (junk 1)) = Inr (True, mh, b3) \<and>
    FileHeader_Allocate b3 DirectoryFileSize (FileHeader_new (junk 2)) = Inr (True, dh, b4) \<and>
    header_ok mh \<and> header_fits mh \<and> numBytes mh = 128 \<and> header_ok dh \<and> header_fits dh \<and> numBytes dh = 200 \<and>
    {0, 1} \<inter> set (sectors_of mh) = {} \<and> {0, 1} \<inter> set (sectors_of dh) = {} \<and> set (sectors_of mh) \<inter> set (sectors_of dh) = {} \<and>
    bitmap_ok b4 \<and> numBits b4 = NumSectors \<and> marked b4 = {0, 1} \<union> set (sectors_of mh) \<union> set (sectors_of dh)"
proof -
  obtain b0 where b0: "Bitmap_new NumSectors = Inr b0" "bitmap_ok b0" "numBits b0 = NumSectors" "marked b0 = {}"
    using Bitmap_new_ok [of NumSectors] by (auto simp: disk_consts)
  obtain b1 where b1: "Bitmap_Mark b0 FreeMapSector = Inr b1" "bitmap_ok b1" "numBits b1 = NumSectors" "marked b1 = {0}"
    using Bitmap_Mark_ok [OF b0(2), of 0] b0(3,4) by (auto simp: disk_consts FreeMapSector_def)
  obtain b2 where b2: "Bitmap_Mark b1 DirectorySector = Inr b2" "bitmap_ok b2" "numBits b2 = NumSectors" "marked b2 = {0, 1}"
    using Bitmap_Mark_ok [OF b1(2), of 1] b1(3,4) by (auto simp: disk_consts DirectorySector_def)
  obtain mh b3 where m: "FileHeader_Allocate b2 128 (FileHeader_new (junk 1)) = Inr (True, mh, b3)" "header_ok mh" "header_fits mh" "numBytes mh = 128"
      "set (sectors_of mh) \<inter> marked b2 = {}" "bitmap_ok b3" "numBits b3 = NumSectors" "marked b3 = marked b2 \<union> set (sectors_of mh)"
    using new_header [OF b2(2,3), of 128 "junk 1"] b2(4) by auto
  have "card (set (sectors_of mh)) \<le> 30"
    using card_length [of "sectors_of mh"] m(2) by (auto simp: header_ok_def sectors_of_def NumDirect_def disk_consts)
  then have "card (marked b3) + 30 \<le> 1024" using card_Un_le [of "{0, 1 :: int}" "set (sectors_of mh)"] by (simp add: m(8) b2(4))
  then obtain dh b4 where d: "FileHeader_Allocate b3 200 (FileHeader_new (junk 2)) = Inr (True, dh, b4)" "header_ok dh" "header_fits dh" "numBytes dh = 200"
      "set (sectors_of dh) \<inter> marked b3 = {}" "bitmap_ok b4" "numBits b4 = NumSectors" "marked b4 = marked b3 \<union> set (sectors_of dh)"
    using new_header [OF m(6,7), of 200 "junk 2"] by auto
  have "FreeMapFileSize = 128" "DirectoryFileSize = 200"
    by (simp_all add: FreeMapFileSize_def DirectoryFileSize_def NumDirEntries_def disk_consts bitmap_consts)
  moreover have "{0, 1} \<inter> set (sectors_of mh) = {}" "{0, 1} \<inter> set (sectors_of dh) = {}" "set (sectors_of mh) \<inter> set (sectors_of dh) = {}"
    using m(5,8) d(5) b2(4) by auto
  ultimately show ?thesis using b0(1) b1(1) b2(1,4) m(1-4,8) d(1-4,6-8) by auto
qed

lemma format_ok:
  assumes r: "disk_ready s"
  shows "\<exists>fs s'. DiskFileSystem_new junk True s = Inr (fs, s') \<and> fs_rep fs s' Map.empty"
proof -
  obtain b0 b1 b2 b3 b4 mh dh where b: "Bitmap_new NumSectors = Inr b0" "Bitmap_Mark b0 FreeMapSector = Inr b1" "Bitmap_Mark b1 DirectorySector = Inr b2"
      "FileHeader_Allocate b2 FreeMapFileSize (FileHeader_new (junk 1)) = Inr (True, mh, b3)"
      "FileHeader_Allocate b3 DirectoryFileSize (FileHeader_new (junk 2)) = Inr (True, dh, b4)"
      and m: "header_ok mh" "header_fits mh" "numBytes mh = 128" and d: "header_ok dh" "header_fits dh" "numBytes dh = 200"
      and x: "{0, 1} \<inter> set (sectors_of mh) = {}" "{0, 1} \<inter> set (sectors_of dh) = {}" "set (sectors_of mh) \<inter> set (sectors_of dh) = {}"
      and b4: "bitmap_ok b4" "numBits b4 = NumSectors" "marked b4 = {0, 1} \<union> set (sectors_of mh) \<union> set (sectors_of dh)"
    using format_headers [of junk] by (elim exE conjE) (rule that; assumption)
  define dir where "dir = Directory_new (junk 0) NumDirEntries"
  have dir: "tableSize dir = 10" "list_all entry_wf (dir_table dir)" "length (dir_table dir) = 10" "filter inUse (dir_table dir) = []"
    using Directory_new_wf [of 10 "junk 0"] by (auto simp: dir_def NumDirEntries_def)
  have k: "0 \<le> FreeMapSector" "FreeMapSector < NumSectors" "0 \<le> DirectorySector" "DirectorySector < NumSectors"
    by (simp_all add: FreeMapSector_def DirectorySector_def disk_consts)
  obtain s1 where s1: "FileHeader_WriteBack FreeMapSector mh s = Inr s1" "disk_ready s1" "disk_content s1 = (disk_content s)(0 := header_bytes mh)"
    using WriteBack_ok [OF r k(1,2) m(2)] by (auto simp: FreeMapSector_def)
  obtain s2 where s2: "FileHeader_WriteBack DirectorySector dh s1 = Inr s2" "disk_ready s2" "disk_content s2 = (disk_content s1)(1 := header_bytes dh)"
    using WriteBack_ok [OF s1(2) k(3,4) d(2)] by (auto simp: DirectorySector_def)
  have hd: "hdr_at (disk_content s2) 0 = mh" "hdr_at (disk_content s2) 1 = dh"
    using header_roundtrip [OF m(2)] header_roundtrip [OF d(2)] by (simp_all add: hdr_at_def s1(3) s2(3))
  obtain s3 where s3: "DiskFile_new FreeMapSector s2 = Inr (\<lparr>hdr = mh, seekPosition = 0\<rparr>, s3)" "disk_ready s3" "disk_content s3 = disk_content s2"
    using DiskFile_new_ok [OF s2(2) k(1,2)] hd by (auto simp: FreeMapSector_def hdr_at_def)
  obtain s4 where s4: "DiskFile_new DirectorySector s3 = Inr (\<lparr>hdr = dh, seekPosition = 0\<rparr>, s4)" "disk_ready s4" "disk_content s4 = disk_content s2"
    using DiskFile_new_ok [OF s3(2) k(3,4)] hd s3(3) by (auto simp: DirectorySector_def hdr_at_def)
  define fs where "fs = \<lparr>freeMapFile = \<lparr>hdr = mh, seekPosition = 0\<rparr>, directoryFile = \<lparr>hdr = dh, seekPosition = 0\<rparr>\<rparr>"
  have fs: "map_hdr fs = mh" "dir_hdr fs = dh" by (simp_all add: fs_def map_hdr_def dir_hdr_def)
  obtain s5 where s5: "PersistentBitmap_WriteBack (junk 3) (freeMapFile fs) b4 s4 = Inr s5" "disk_ready s5" "replaced (disk_content s2) (map_hdr fs) (bitmap_bytes b4) (disk_content s5)"
    using store_bitmap [OF _ s4(2) _ b4(1,2), of "freeMapFile fs" "junk 3"] m s4(3) by (auto simp: map_hdr_def fs_def)
  obtain s6 where s6: "Directory_WriteBack (junk 4) (directoryFile fs) dir s5 = Inr s6" "disk_ready s6" "replaced (disk_content s5) (dir_hdr fs) (table_bytes (dir_table dir)) (disk_content s6)"
    using store_directory [OF _ s5(2), of "directoryFile fs" dir "junk 4"] d dir by (auto simp: dir_hdr_def fs_def)
  have sy: "system_ok fs (disk_content s2)" using m d x hd by (simp add: system_ok_def fs)
  note st = stored_ok [OF sy stored_map_dir [OF sy s5(3) s6(3)] dir(2) b4(1,2)]
  have "names_ok (dir_table dir)" "live (dir_table dir) = Map.empty" using dir(4) by (simp_all add: names_ok_def live_def)
  then have "fs_inv fs (disk_content s6) Map.empty"
    using st(1-3) b4(3) by (simp add: fs_inv_def files_ok_def in_use_def system_sectors_def fs)
  moreover have "DiskFileSystem_new junk True s = Inr (fs, s6)"
    using b s1(1) s2(1) s3(1) s4(1) s5(1) s6(1) by (simp add: DiskFileSystem_new_def DiskFileSystem_format_def Let_def dir_def fs_def)
  ultimately show ?thesis using s6(2) by (auto simp: fs_rep_def file_map_def)
qed

lemma remount_ok:
  assumes "fs_rep fs s m"
  shows "\<exists>fs' s'. DiskFileSystem_new junk False s = Inr (fs', s') \<and> fs_rep fs' s' m"
proof -
  obtain L where L: "disk_ready s" "fs_inv fs (disk_content s) L" "file_map (disk_content s) L = m" using assms by (auto simp: fs_rep_def)
  have hd: "header_of (disk_content s 0) = map_hdr fs" "header_of (disk_content s 1) = dir_hdr fs"
    using fs_invD(1) [OF L(2)] by (simp_all add: system_ok_def hdr_at_def)
  obtain s1 where s1: "DiskFile_new 0 s = Inr (\<lparr>hdr = map_hdr fs, seekPosition = 0\<rparr>, s1)" "disk_ready s1" "disk_content s1 = disk_content s"
    using DiskFile_new_ok [OF L(1), of 0] hd(1) by (auto simp: disk_consts)
  obtain s2 where s2: "DiskFile_new 1 s1 = Inr (\<lparr>hdr = dir_hdr fs, seekPosition = 0\<rparr>, s2)" "disk_ready s2" "disk_content s2 = disk_content s"
    using DiskFile_new_ok [OF s1(2), of 1] hd(2) s1(3) by (auto simp: disk_consts)
  define fs' where "fs' = \<lparr>freeMapFile = \<lparr>hdr = map_hdr fs, seekPosition = 0\<rparr>, directoryFile = \<lparr>hdr = dir_hdr fs, seekPosition = 0\<rparr>\<rparr>"
  have "map_hdr fs' = map_hdr fs" "dir_hdr fs' = dir_hdr fs" by (simp_all add: fs'_def map_hdr_def dir_hdr_def)
  then have "fs_inv fs' (disk_content s) L"
    using L(2) by (simp add: fs_inv_def system_ok_def entries_def free_map_def files_ok_def in_use_def system_sectors_def)
  then show ?thesis using s1 s2 L(3) by (auto simp: DiskFileSystem_new_def FreeMapSector_def DirectorySector_def fs_rep_def fs'_def)
qed

lemma List_ok:
  assumes r: "fs_rep fs s m" and n: "\<And>x. x \<in> dom m \<Longrightarrow> length x < FileNameMaxLen"
  shows "\<exists>ns s'. DiskFileSystem_List junk fs s = Inr (ns, s') \<and> distinct ns \<and> set ns = dom m \<and> fs_rep fs s' m"
proof -
  obtain L where L: "disk_ready s" "fs_inv fs (disk_content s) L" "file_map (disk_content s) L = m" using r by (auto simp: fs_rep_def)
  let ?es = "entries fs (disk_content s)"
  note iv = fs_invD [OF L(2)]
  have dm: "dom m = (\<lambda>e. short (entry_name e)) ` set (filter inUse ?es)" unfolding dom_live [symmetric] iv(3) using L(3) dom_file_map by metis
  have c: "0 \<in> set (entry_name e) \<and> cstr (entry_name e) = short (entry_name e)" if e: "e \<in> set ?es" "inUse e" for e
  proof -
    have "short (entry_name e) \<in> dom m" using e dm by auto
    then have "length (short (entry_name e)) < FileNameMaxLen" by (rule n)
    then have l: "length (cstr (entry_name e)) < FileNameMaxLen" by (simp add: short_def)
    have "length (entry_name e) = 10" using iv(10) e(1) by (auto simp: list_all_iff entry_wf_def)
    then have "cstr (entry_name e) \<noteq> entry_name e" using l by (auto simp: FileNameMaxLen_def)
    then show ?thesis using l by (auto simp: cstr_def short_def takeWhile_eq_all_conv)
  qed
  have f: "for_each (\<lambda>e out. if inUse e then (if 0 \<in> set (entry_name e) then Inr (out @ [cstr (entry_name e)]) else Inl OutOfRange)
       else Inr out) es out = (Inr (out @ map (\<lambda>e. short (entry_name e)) (filter inUse es)) :: byte list list res)" if "set es \<subseteq> set ?es" for es out
    using that by (induction es arbitrary: out) (auto simp: c)
  define d where "d = \<lparr>tableSize = 10, dir_table = ?es\<rparr>"
  obtain s1 where s1: "Directory_FetchFrom (directoryFile fs) (Directory_new (junk 0) NumDirEntries) s = Inr (d, s1)" "disk_ready s1" "disk_content s1 = disk_content s"
    using lookup_ok(1) [OF L(1,2)] unfolding d_def by blast
  have "Directory_List d = Inr (map (\<lambda>e. short (entry_name e)) (filter inUse ?es))" using f [of ?es "[]"] by (simp add: Directory_List_def d_def)
  then have "DiskFileSystem_List junk fs s = Inr (map (\<lambda>e. short (entry_name e)) (filter inUse ?es), s1)" using s1(1) by (simp add: DiskFileSystem_List_def)
  moreover have "fs_rep fs s1 m" using s1 L by (auto simp: fs_rep_def)
  ultimately show ?thesis using iv(2) dm by (auto simp: names_ok_def)
qed

section \<open>Sequences of operations\<close>

text \<open>The calls of a client: create, remove, open and write at a position, open and read at a position, and starting
  again from what is on the disk.\<close>

datatype FsOp = FsCreate "byte list" int | FsRemove "byte list" | FsWrite "byte list" int "byte list" | FsRead "byte list" int int | FsRemount

datatype FsResult = FsDone bool | FsCount "int option" | FsBytes "byte list option" | FsMounted

fun fs_do :: "(nat \<Rightarrow> nat \<Rightarrow> byte) \<Rightarrow> FsOp \<Rightarrow> DiskFileSystem \<times> 'a Hardware_scheme \<Rightarrow> (FsResult \<times> DiskFileSystem \<times> 'a Hardware_scheme) res" where
  "fs_do junk (FsCreate nm n) (fs, s) = rbind (DiskFileSystem_Create junk fs nm n s) (\<lambda>(r, s). Inr (FsDone r, fs, s))"
| "fs_do junk (FsRemove nm) (fs, s) = rbind (DiskFileSystem_Remove junk fs nm s) (\<lambda>(r, s). Inr (FsDone r, fs, s))"
| "fs_do junk (FsWrite nm pos bs) (fs, s) =
     rbind (DiskFileSystem_Open junk fs nm s) (\<lambda>(f, s).
     case f of None \<Rightarrow> Inr (FsCount None, fs, s)
     | Some f \<Rightarrow> rbind (DiskFile_Write (junk 1) (DiskFile_Seek pos f) bs (int (length bs)) s) (\<lambda>(n, f, s). Inr (FsCount (Some n), fs, s)))"
| "fs_do junk (FsRead nm pos n) (fs, s) =
     rbind (DiskFileSystem_Open junk fs nm s) (\<lambda>(f, s).
     case f of None \<Rightarrow> Inr (FsBytes None, fs, s)
     | Some f \<Rightarrow> rbind (DiskFile_Read (DiskFile_Seek pos f) n s) (\<lambda>(bs, f, s). Inr (FsBytes (Some bs), fs, s)))"
| "fs_do junk FsRemount (fs, s) = rbind (DiskFileSystem_new junk False s) (\<lambda>(fs, s). Inr (FsMounted, fs, s))"

fun fs_run ::
  "(nat \<Rightarrow> nat \<Rightarrow> nat \<Rightarrow> byte) \<Rightarrow> FsOp list \<Rightarrow> DiskFileSystem \<times> 'a Hardware_scheme \<Rightarrow> (FsResult list \<times> DiskFileSystem \<times> 'a Hardware_scheme) res" where
  "fs_run junk [] st = Inr ([], st)"
| "fs_run junk (x # xs) st =
     rbind (fs_do (junk 0) x st) (\<lambda>(r, st).
     rbind (fs_run (\<lambda>i. junk (Suc i)) xs st) (\<lambda>(rs, st). Inr (r # rs, st)))"

text \<open>What the calls do to a map of at most ten short names.\<close>

fun fs_spec :: "FsOp \<Rightarrow> FsResult \<Rightarrow> (byte list \<rightharpoonup> byte list) \<Rightarrow> (byte list \<rightharpoonup> byte list) \<Rightarrow> bool" where
  "fs_spec (FsCreate nm n) r m m' =
     (if m (short nm) \<noteq> None \<or> 10 \<le> card (dom m) then r = FsDone False \<and> m' = m
      else r = FsDone True \<and> (\<exists>c. length c = nat n \<and> m' = m(short nm \<mapsto> c)))"
| "fs_spec (FsRemove nm) r m m' = (r = FsDone (m (short nm) \<noteq> None) \<and> m' = m(short nm := None))"
| "fs_spec (FsWrite nm pos bs) r m m' =
     (case m (short nm) of None \<Rightarrow> r = FsCount None \<and> m' = m
      | Some c \<Rightarrow> (let n = min (length bs) (length c - nat pos) in
          r = FsCount (Some (int n)) \<and> m' = m(short nm \<mapsto> overlay (nat pos) (take n bs) c)))"
| "fs_spec (FsRead nm pos n) r m m' = (r = FsBytes (map_option (\<lambda>c. take (nat n) (drop (nat pos) c)) (m (short nm))) \<and> m' = m)"
| "fs_spec FsRemount r m m' = (r = FsMounted \<and> m' = m)"

fun fs_trace :: "FsOp list \<Rightarrow> FsResult list \<Rightarrow> (byte list \<rightharpoonup> byte list) \<Rightarrow> (byte list \<rightharpoonup> byte list) \<Rightarrow> bool" where
  "fs_trace [] [] m m' = (m' = m)"
| "fs_trace (x # xs) (r # rs) m m' = (\<exists>m1. fs_spec x r m m1 \<and> fs_trace xs rs m1 m')"
| "fs_trace _ _ m m' = False"

fun fs_op_ok :: "FsOp \<Rightarrow> bool" where
  "fs_op_ok (FsCreate nm n) \<longleftrightarrow> 0 \<le> n \<and> n \<le> NumDirect * SectorSize"
| "fs_op_ok (FsWrite nm pos bs) \<longleftrightarrow> 0 \<le> pos"
| "fs_op_ok (FsRead nm pos n) \<longleftrightarrow> 0 \<le> pos"
| "fs_op_ok _ \<longleftrightarrow> True"

lemma overlay_Nil: "overlay n [] c = c"
  by (simp add: overlay_def)

lemma write_through:
  fixes bs :: "byte list"
  assumes i: "disk_ready s" "fs_inv fs (disk_content s) L" "L nm = Some k"
    and f: "hdr f = hdr_at (disk_content s) k" "header_ok (hdr f)" "content_of (disk_content s) (hdr f) = c" and p: "0 \<le> pos"
  defines "n \<equiv> min (length bs) (length c - nat pos)"
  shows "\<exists>f' s'. DiskFile_Write junk (DiskFile_Seek pos f) bs (int (length bs)) s = Inr (int n, f', s') \<and>
    fs_rep fs s' ((file_map (disk_content s) L)(nm \<mapsto> overlay (nat pos) (take n bs) c))"
proof -
  let ?f = "DiskFile_Seek pos f"
  have h: "hdr ?f = hdr f" "seekPosition ?f = pos" "header_ok (hdr ?f)" using f(2) by (simp_all add: DiskFile_Seek_def)
  have lc: "length c = nat (numBytes (hdr f))" using length_content_of [OF f(2) disk_full, of s] f(3) by simp
  have b0: "0 \<le> numBytes (hdr f)" using f(2) by (simp add: header_ok_def)
  have w: "written (hdr f) (int (length bs)) pos = int n" using lc p b0 by (auto simp: written_def n_def min_def)
  obtain s' where s': "DiskFile_WriteAt junk ?f bs (int (length bs)) pos s = Inr (int n, s')" "disk_ready s'"
      "\<forall>j. j \<notin> set (sectors_of (hdr f)) \<longrightarrow> disk_content s' j = disk_content s j"
      "content_of (disk_content s') (hdr f) = (if int n = 0 then c else overlay (nat pos) (take n bs) c)"
    using WriteAt_ok [OF h(3) i(1) p, of "int (length bs)" bs junk] unfolding h(1) w f(3) by auto
  then have "replaced (disk_content s) (hdr_at (disk_content s) k) (overlay (nat pos) (take n bs) c) (disk_content s')"
    using f(1) by (auto simp: replaced_def overlay_Nil)
  then have "fs_rep fs s' ((file_map (disk_content s) L)(nm \<mapsto> overlay (nat pos) (take n bs) c))"
    using write_inv [OF i(2,3)] s'(2) by (auto simp: fs_rep_def)
  then show ?thesis using s'(1) h(2) by (simp add: DiskFile_Write_def)
qed

lemma read_through:
  assumes s: "disk_ready s" and f: "header_ok (hdr f)" "content_of (disk_content s) (hdr f) = c" and p: "0 \<le> pos"
  shows "\<exists>f' s'. DiskFile_Read (DiskFile_Seek pos f) n s = Inr (take (nat n) (drop (nat pos) c), f', s') \<and>
    disk_ready s' \<and> disk_content s' = disk_content s"
  using ReadAt_ok [of "DiskFile_Seek pos f" s pos n] s f p by (auto simp: DiskFile_Read_def DiskFile_Seek_def)

lemma fs_do_ok:
  assumes r: "fs_rep fs s m" and x: "fs_op_ok x"
  shows "\<exists>r fs' s' m'. fs_do junk x (fs, s) = Inr (r, fs', s') \<and> fs_spec x r m m' \<and> fs_rep fs' s' m'"
proof -
  obtain L where L: "disk_ready s" "fs_inv fs (disk_content s) L" "file_map (disk_content s) L = m" using r by (auto simp: fs_rep_def)
  have mL: "m n = None \<longleftrightarrow> L n = None" "dom m = dom L" for n unfolding L(3) [symmetric] by simp_all
  show ?thesis
  proof (cases x)
    case (FsCreate nm n)
    then have n: "0 \<le> n" "n \<le> 3840" using x by (auto simp: NumDirect_def disk_consts)
    show ?thesis
    proof (cases "L (short nm) \<noteq> None \<or> 10 \<le> card (dom L)")
      case True
      then show ?thesis using Create_refused [OF L(1,2) True, of junk n] L FsCreate mL by (auto simp: fs_rep_def)
    next
      case False
      then show ?thesis using Create_fresh [OF L(1,2) _ _ n, of nm junk] L(3) FsCreate mL by (fastforce simp: fs_rep_def)
    qed
  next
    case (FsRemove nm)
    show ?thesis
    proof (cases "L (short nm)")
      case None
      moreover have "m(short nm := None) = m" using None mL(1) [of "short nm"] by (intro fun_upd_idem) simp
      ultimately show ?thesis using Remove_absent [OF L(1,2), of nm junk] L FsRemove mL by (auto simp: fs_rep_def)
    next
      case (Some k)
      then show ?thesis using Remove_file [OF L(1,2) Some, of junk] L(3) FsRemove mL by (fastforce simp: fs_rep_def)
    qed
  next
    case (FsWrite nm pos bs)
    show ?thesis
    proof (cases "m (short nm)")
      case None
      then show ?thesis using Open_ok [OF r, of junk nm] FsWrite by auto
    next
      case (Some c)
      obtain s1 f L k where o: "DiskFileSystem_Open junk fs nm s = Inr (Some f, s1)" "fs_inv fs (disk_content s1) L" "file_map (disk_content s1) L = m"
          "L (short nm) = Some k" "hdr f = hdr_at (disk_content s1) k" "header_ok (hdr f)" "content_of (disk_content s1) (hdr f) = c" "fs_rep fs s1 m"
        using Open_ok [OF r, of junk nm] Some by auto
      then show ?thesis using write_through [of s1 fs L "short nm" k f c pos "junk 1" bs] Some FsWrite x by (auto simp: fs_rep_def Let_def)
    qed
  next
    case (FsRead nm pos n)
    show ?thesis
    proof (cases "m (short nm)")
      case None
      then show ?thesis using Open_ok [OF r, of junk nm] FsRead by auto
    next
      case (Some c)
      obtain s1 f where o: "DiskFileSystem_Open junk fs nm s = Inr (Some f, s1)" "header_ok (hdr f)" "content_of (disk_content s1) (hdr f) = c" "fs_rep fs s1 m"
        using Open_ok [OF r, of junk nm] Some by auto
      then show ?thesis using read_through [of s1 f c pos n] Some FsRead x by (auto simp: fs_rep_def)
    qed
  next
    case FsRemount
    then show ?thesis using remount_ok [OF r, of junk] by auto
  qed
qed

lemma fs_run_ok:
  "fs_rep fs s m \<Longrightarrow> list_all fs_op_ok xs \<Longrightarrow>
    \<exists>rs fs' s' m'. fs_run junk xs (fs, s) = Inr (rs, fs', s') \<and> fs_trace xs rs m m' \<and> fs_rep fs' s' m'"
proof (induction xs arbitrary: fs s m junk)
  case (Cons x xs)
  obtain r fs1 s1 m1 where 1: "fs_do (junk 0) x (fs, s) = Inr (r, fs1, s1)" "fs_spec x r m m1" "fs_rep fs1 s1 m1"
    using fs_do_ok [OF Cons.prems(1), of x "junk 0"] Cons.prems(2) by auto
  obtain rs fs' s' m' where 2: "fs_run (\<lambda>i. junk (Suc i)) xs (fs1, s1) = Inr (rs, fs', s')" "fs_trace xs rs m1 m'" "fs_rep fs' s' m'"
    using Cons.IH [OF 1(3)] Cons.prems(2) by fastforce
  have "fs_run junk (x # xs) (fs, s) = Inr (r # rs, fs', s')" using 1(1) 2(1) by simp
  moreover have "fs_trace (x # xs) (r # rs) m m'" using 1(2) 2(2) by auto
  ultimately show ?case using 2(3) by blast
qed auto

section \<open>Properties\<close>

text \<open>C8. The file system on the disk is a map from names to contents: after formatting, whatever was on the disk
  and whatever memory is left uninitialised, every sequence of \<open>Create\<close>, \<open>Remove\<close>, \<open>Open\<close> with \<open>Seek\<close> and
  \<open>Write\<close>, \<open>Open\<close> with \<open>Seek\<close> and \<open>Read\<close>, and restarts from the disk runs without a fault, and the results are those of a map
  of at most ten names of nine characters: \<open>Create\<close> succeeds exactly for a new name when there are fewer than ten files, a
  write changes the bytes it covers of the one file, within its size, and a restart loses nothing.\<close>

theorem disk_file_system_refines_map:
  assumes "disk_ready s" "list_all fs_op_ok xs"
  shows "\<exists>fs s0 rs fs' s' m. DiskFileSystem_new junk True s = Inr (fs, s0) \<and> fs_run junks xs (fs, s0) = Inr (rs, fs', s') \<and>
    fs_trace xs rs Map.empty m \<and> fs_rep fs' s' m"
proof -
  obtain fs s0 where "DiskFileSystem_new junk True s = Inr (fs, s0)" "fs_rep fs s0 Map.empty" using format_ok [OF assms(1)] by blast
  then show ?thesis using fs_run_ok [OF _ assms(2), of fs s0 Map.empty junks] by blast
qed

theorem disk_file_system_refines_map_witness:
  "\<exists>fs s0 rs fs' s' m. DiskFileSystem_new (\<lambda>_ _. 255) True (power_on 1 [] [] [] (\<lambda>_. 3)) = Inr (fs, s0) \<and>
    fs_run (\<lambda>_ _ _. 255) [FsCreate [97] 300, FsWrite [97] 120 [1, 2, 3], FsRemount, FsRead [97] 121 2, FsRemove [97]] (fs, s0) = Inr (rs, fs', s') \<and>
    fs_trace [FsCreate [97] 300, FsWrite [97] 120 [1, 2, 3], FsRemount, FsRead [97] 121 2, FsRemove [97]] rs Map.empty m \<and> fs_rep fs' s' m"
  by (rule disk_file_system_refines_map) (simp_all add: power_on_ready NumDirect_def disk_consts)

text \<open>C40. \<open>Create\<close> does not look at the number of sectors a header has room for: for a new name and a size above the
  largest, with enough free sectors, \<open>Allocate\<close> writes behind the array of sector numbers.\<close>

theorem create_too_large_overruns:
  assumes "fs_rep fs s m" "m (short nm) = None" "card (dom m) < 10" "NumDirect * SectorSize < n" "n \<le> 87000"
  shows "DiskFileSystem_Create junk fs nm n s = Inl OutOfRange"
proof -
  obtain L where L: "disk_ready s" "fs_inv fs (disk_content s) L" "m = file_map (disk_content s) L" using assms(1) by (auto simp: fs_rep_def)
  show ?thesis using assms(2-) L(3) by (intro Create_overrun [OF L(1,2)]) (auto simp: NumDirect_def disk_consts)
qed

theorem create_too_large_overruns_witness:
  "rbind (DiskFileSystem_new (\<lambda>_ _. 0) True (power_on 1 [] [] [] (\<lambda>_. 0))) (\<lambda>(fs, s). DiskFileSystem_Create (\<lambda>_ _. 0) fs [97] 4000 s) = Inl OutOfRange"
proof -
  obtain fs s where "DiskFileSystem_new (\<lambda>_ _. 0) True (power_on 1 [] [] [] (\<lambda>_. 0)) = Inr (fs, s)" "fs_rep fs s Map.empty"
    using format_ok [OF power_on_ready(1), of "[]"] by fastforce
  then show ?thesis using create_too_large_overruns [of fs s Map.empty "[97]" 4000 "\<lambda>_ _. 0"] by (simp add: NumDirect_def disk_consts)
qed

end
