(* ===== verification/Spec2Isabelle.thy ===== *)
theory Spec2Isabelle
  imports Linked_List Mips_Arith Switch Synch Processes Sem_Table Console_Calls Syscalls Hash_Table Disk_FileSystem
begin

text \<open>
  A verification development for NachOS with a small network stack (\<open>Nachos_Project/code\<close>) and the
  Ethernet switch that connects its machines (\<open>Switch\<close>).  File names below are relative to
  \<open>Nachos_Project/code\<close>, except those of the switch.

  \<^bold>\<open>The program.\<close>  NachOS is an operating system kernel in C++ that runs on a simulated machine.  The
  machine has a clock with a list of pending interrupts (\<open>machine/interrupt\<close>), a timer, a console, a disk and a network
  interface that schedule such interrupts, a MIPS processor and address translation (\<open>machine/mipssim\<close>,
  \<open>machine/translate\<close>).  The kernel has threads, a scheduler and synchronization (\<open>threads\<close>), address spaces,
  processes and named semaphores for user programs (\<open>userprog\<close>, \<open>threads/ptable\<close>, \<open>threads/stable\<close>), system calls
  (\<open>userprog/exception\<close>), files (\<open>filesys\<close>), and Ethernet, IP and UDP with sockets on top (\<open>network/post\<close>, \<open>threads/kernel\<close>).
  A user program runs instruction by instruction; a trap or a system call enters the kernel through \<open>ExceptionHandler\<close>; each
  instruction advances the clock, which lets interrupts fire.  Frames leave through a socket of the host to the switch, which
  passes them on to other machines.

  \<^bold>\<open>Conventions.\<close>  A routine that may fail returns \<open>fault + 'a\<close> (\<^theory_text>\<open>Nachos_Prelude\<close>): a failed \<open>ASSERT\<close>, an array index
  out of range, a null or dangling pointer, an uncaught exception, a trap of the host's division, halting.  \<open>int\<close> values that are
  indices, sizes or counters are integers; registers, packet fields, hash values and bitmap words are words of their width.  The
  state is a chain of records, each extending the one before: \<open>Interrupt\<close>, \<open>Hardware\<close>, \<open>NetKernel\<close>, \<open>Machine\<close>, \<open>Kernel\<close>;
  an operation is stated for all extensions of the record it works on.  What the program reads from the host (keys, packets,
  random numbers, files) are lists and maps in the state, so theorems hold for every behaviour of the host.  A kernel routine
  that may block is a computation that returns, faults, ends its thread or waits for a condition (\<^theory_text>\<open>Kernel_State\<close>); other
  threads may change the state at each wait.

  \<^bold>\<open>Theories and what they show.\<close>

  \<^item> \<^theory_text>\<open>Nachos_Prelude\<close>: results, loops, array accesses, decimal notation of numbers.
  \<^item> \<^theory_text>\<open>Bitmap\<close> (\<open>lib/bitmap\<close>), \<^theory_text>\<open>Linked_List\<close> (\<open>lib/list\<close>), \<^theory_text>\<open>Hash_Table\<close> (\<open>lib/hash\<close>, \<open>lib/libtest\<close>): the containers at the
    level of words, cells and buckets; they refine sets of slots, sequences and finite maps, and their self tests pass.  The
    interfaces \<open>slot_allocator\<close>, \<open>fifo\<close>, \<open>comparator\<close> and \<open>dictionary\<close> are interpreted on them.
  \<^item> \<^theory_text>\<open>Interrupt\<close>, \<^theory_text>\<open>Devices\<close> (\<open>machine/interrupt\<close>, \<open>machine/stats\<close>, \<open>machine/timer\<close>, \<open>threads/alarm\<close>, \<open>machine/console\<close>,
    \<open>userprog/synchconsole\<close>, \<open>machine/disk\<close>, \<open>filesys/synchdisk\<close>, \<open>machine/network\<close>): \<open>CheckIfDue\<close> fires the due interrupts in order and
    returns; disk sectors and console characters get through with their interrupts.  The interface \<open>device_handlers\<close> is what the
    clock needs of the devices.
  \<^item> \<^theory_text>\<open>Packets\<close>, \<^theory_text>\<open>Post\<close>, \<^theory_text>\<open>Sockets\<close>, \<^theory_text>\<open>Switch\<close> (\<open>network/post\<close>, the socket part of \<open>threads/kernel\<close>, \<open>Switch/switch.cpp\<close>): memory images
    of the headers, fragmentation and reassembly, delivery of datagrams in any order of the frames and across the switch, the
    tables of sockets, the learning of addresses.
  \<^item> \<^theory_text>\<open>Machine\<close>, \<^theory_text>\<open>Mips\<close>, \<^theory_text>\<open>Mips_Arith\<close> (\<open>machine/machine\<close>, \<open>machine/translate\<close>, \<open>machine/mipssim\<close>): translation is safe, memory
    gives back what was written, one instruction of any program is confined to its frames, and the arithmetic is exact.
  \<^item> \<^theory_text>\<open>Threads\<close>, \<^theory_text>\<open>Synch\<close> (\<open>threads/thread\<close>, \<open>threads/scheduler\<close>, \<open>threads/synch\<close>, \<open>threads/synchlist\<close>): a step relation of
    all interleavings of threads, time slices and interrupts, refined to atomic calls; no assertion fails, locks exclude each
    other, no wake-up and no signal is lost, synchronized lists are queues.
  \<^item> \<^theory_text>\<open>Files\<close> (\<open>lib/sysdep\<close>, \<open>filesys\<close> with \<open>FILESYS_STUB\<close>): open files and file tables over the host's files; isolation
    of processes and reading back of writes.  The interface \<open>table_op\<close> is shared by the operations of a file table.
  \<^item> \<^theory_text>\<open>Disk_File\<close>, \<^theory_text>\<open>Disk_FileSystem\<close> (\<open>filesys\<close> without \<open>FILESYS_STUB\<close>: \<open>filehdr\<close>, \<open>openfile\<close>, \<open>pbitmap\<close>, \<open>directory\<close>, \<open>filesys\<close>): files on
    the simulated disk, byte by byte.  Every sequence of operations on a formatted disk behaves as on a map of names to contents.
    The interface \<open>sector_store\<close> is what files need of the disk.
  \<^item> \<^theory_text>\<open>Kernel_State\<close>, \<^theory_text>\<open>Address_Space\<close>, \<^theory_text>\<open>Processes\<close>, \<^theory_text>\<open>Sem_Table\<close> (\<open>threads/kernel.h\<close>, \<open>userprog/addrspace\<close>,
    \<open>threads/pcb\<close>, \<open>threads/ptable\<close>, \<open>threads/sem\<close>, \<open>threads/stable\<close>): loading of programs, frames of different processes
    disjoint, \<open>Join\<close> returning the exit code in every interleaving, named semaphores as a map.
  \<^item> \<^theory_text>\<open>Console_Calls\<close>, \<^theory_text>\<open>Syscalls\<close> (\<open>userprog/ksyscall.h\<close>, \<open>userprog/ksyscallhelper.h\<close>, \<open>userprog/exception\<close>): numbers and strings on
    the console, one handler per system call; no exception of a program, with any registers and any interference that leaves
    its frames alone, touches memory that is not the program's.

  Some theorems show that the code does not do what it means to do: the logical shifts of the processor, the loader with frames
  that are not contiguous, the slot of an exited process, malformed and unknown addresses, the buffer shared by printing processes,
  files that are larger than a header allows.

  \<^bold>\<open>Bounds and fuel.\<close>  Loops over pointers have a fuel of one more than the addresses ever handed out; a well-formed list never
  uses it up.  Waiting for a device has a fuel in ticks: 32000 are enough for every disk request (\<open>disk_wait\<close>, by the bound of
  \<open>ComputeLatency\<close>), 100 for a character.  The copying of a user string has as fuel one more than the bytes of the page table,
  and the proof is that it ends.  \<open>Run\<close>, which loops for ever, takes the number of its turns.  Everything else is total by
  structural recursion.  Tick counters and statistics are
  unbounded integers, the code's are 32-bit words that last for \<open>2 ^ 31\<close> ticks.

  \<^bold>\<open>Not modelled.\<close>  The host's part of \<open>lib/sysdep\<close> (sockets, signals, sleeping, memory protection) and \<open>lib/debug\<close>: pure calls of the
  host, present as the inputs of the devices.  The context switch in assembly, \<open>threads/switch.S\<close>, the allocation and the overflow
  check of stacks: a thread's stack is its continuation in the step relation.  The functions that print state for
  debugging such as \<open>Print\<close> and \<open>DumpState\<close>, other than those of the containers.  \<open>threads/main\<close> and the order in which the constructor and
  \<open>Initialize\<close> of \<open>Kernel\<close> create the objects; each component is modelled from its own constructor on.  The endless receiving
  threads of the network are one iteration each.  The concurrency model of \<^theory_text>\<open>Threads\<close> covers kernel threads, and user
  processes are interleaved at the points where their kernel routines wait.  The test programs, the makefiles and the converter of
  executables are inputs of the kernel.
\<close>

end
